(* ===== verification/Prelude.thy ===== *)
theory Prelude
  imports Main "HOL-Library.Word" "HOL-Library.Multiset"
begin

text \<open>
  Shared vocabulary of the development: machine types, Go's error values, the model of byte
  readers and writers (\<open>io.ReadFull\<close>, \<open>connutil.WriteFull\<close>), big-endian integer codecs
  (\<open>encoding/binary\<close>), the named collections the component proofs use, and the generic lemmas on
  lists and words the components share.
\<close>

unbundle bit_operations_syntax

named_theorems wire_simps \<open>evaluation of the wire-level codecs\<close>
named_theorems stream_simps \<open>what the reader and writer operations do\<close>

section \<open>Machine types\<close>

type_synonym byte = "8 word"
type_synonym bytes = "byte list"
type_synonym u16 = "16 word"
type_synonym u32 = "32 word"
type_synonym u64 = "64 word"

section \<open>Error values\<close>

text \<open>
  Go's error values that the modelled code produces or compares. \<open>ErrMsg\<close> stands for the errors
  the code makes with \<open>errors.New\<close> and \<open>fmt.Errorf\<close>: its string is the constant part of the
  message. \<open>RuntimePanic\<close> is not an error value but the outcome of an operation that panics (an index
  out of range). An operation that may fail returns a value of the sum type, \<open>Inl\<close> for the error.
\<close>

datatype go_error =
    EOF
  | ErrUnexpectedEOF
  | ErrClosedPipe
  | ErrShortWrite
  | ErrNetClosed
  | ErrInvalidSudokuMapMiss
  | RuntimePanic
  | ErrMsg string

type_synonym 'a result = "go_error + 'a"

text \<open>
  Indexing a slice: a Go program panics outside the bounds, so the model returns \<open>None\<close> there.
\<close>

definition go_index :: "'a list \<Rightarrow> nat \<Rightarrow> 'a option" where
  "go_index xs i = (if i < length xs then Some (xs ! i) else None)"

lemma go_index_in [simp]: "i < length xs \<Longrightarrow> go_index xs i = Some (xs ! i)"
  by (simp add: go_index_def)

lemma go_index_out [simp]: "length xs \<le> i \<Longrightarrow> go_index xs i = None"
  by (simp add: go_index_def)

lemma go_index_Some_iff: "go_index xs i = Some x \<longleftrightarrow> i < length xs \<and> xs ! i = x"
  by (auto simp: go_index_def)

lemma go_index_SomeD: "go_index xs i = Some x \<Longrightarrow> x \<in> set xs"
  by (auto simp: go_index_Some_iff)


section \<open>Big-endian integers\<close>

text \<open>
  \<open>binary.BigEndian.PutUint16/32/64\<close> and \<open>Uint16/32/64\<close>. The readers take the first bytes of
  the slice they are given; the callers slice exactly the width.
\<close>

definition PutUint16 :: "u16 \<Rightarrow> bytes" where
  "PutUint16 w = [ucast (drop_bit 8 w), ucast w]"

definition PutUint32 :: "u32 \<Rightarrow> bytes" where
  "PutUint32 w = [ucast (drop_bit 24 w), ucast (drop_bit 16 w), ucast (drop_bit 8 w), ucast w]"

definition PutUint64 :: "u64 \<Rightarrow> bytes" where
  "PutUint64 w = [ucast (drop_bit 56 w), ucast (drop_bit 48 w), ucast (drop_bit 40 w), ucast (drop_bit 32 w),
                  ucast (drop_bit 24 w), ucast (drop_bit 16 w), ucast (drop_bit 8 w), ucast w]"

definition Uint16 :: "bytes \<Rightarrow> u16" where
  "Uint16 b = push_bit 8 (ucast (b ! 0)) OR ucast (b ! 1)"

definition Uint32 :: "bytes \<Rightarrow> u32" where
  "Uint32 b = push_bit 24 (ucast (b ! 0)) OR push_bit 16 (ucast (b ! 1)) OR push_bit 8 (ucast (b ! 2)) OR ucast (b ! 3)"

definition Uint64 :: "bytes \<Rightarrow> u64" where
  "Uint64 b = push_bit 56 (ucast (b ! 0)) OR push_bit 48 (ucast (b ! 1)) OR push_bit 40 (ucast (b ! 2))
           OR push_bit 32 (ucast (b ! 3)) OR push_bit 24 (ucast (b ! 4)) OR push_bit 16 (ucast (b ! 5))
           OR push_bit 8 (ucast (b ! 6)) OR ucast (b ! 7)"

lemma length_PutUint [simp]:
  "length (PutUint16 a) = 2" "length (PutUint32 b) = 4" "length (PutUint64 c) = 8"
  by (simp_all add: PutUint16_def PutUint32_def PutUint64_def)

lemma bit_byte_at:
  "bit (push_bit k (ucast (ucast (drop_bit k w) :: byte)) :: 'a::len word) n
    \<longleftrightarrow> k \<le> n \<and> n < k + 8 \<and> bit w n" for w :: "'a::len word"
  using bit_imp_le_length [of w n] by (auto simp: bit_simps)

lemma bit_byte_low: "bit (ucast (ucast w :: byte) :: 'a::len word) n \<longleftrightarrow> n < 8 \<and> bit w n" for w :: "'a::len word"
  using bit_imp_le_length [of w n] by (auto simp: bit_simps)

lemmas bit_bytes = bit_or_iff bit_byte_at bit_byte_low

lemma Uint16_Put [simp]: "Uint16 (PutUint16 w) = w"
proof (rule bit_word_eqI)
  fix n assume "n < LENGTH(16)"
  then show "bit (Uint16 (PutUint16 w)) n \<longleftrightarrow> bit w n"
    by (cases "bit w n") (simp_all add: Uint16_def PutUint16_def bit_bytes, arith)
qed

lemma Uint32_Put [simp]: "Uint32 (PutUint32 w) = w"
proof (rule bit_word_eqI)
  fix n assume "n < LENGTH(32)"
  then show "bit (Uint32 (PutUint32 w)) n \<longleftrightarrow> bit w n"
    by (cases "bit w n") (simp_all add: Uint32_def PutUint32_def bit_bytes, arith)
qed

lemma Uint64_Put [simp]: "Uint64 (PutUint64 w) = w"
proof (rule bit_word_eqI)
  fix n assume "n < LENGTH(64)"
  then show "bit (Uint64 (PutUint64 w)) n \<longleftrightarrow> bit w n"
    by (cases "bit w n") (simp_all add: Uint64_def PutUint64_def bit_bytes, arith)
qed

text \<open>Reading looks at the leading bytes only.\<close>

lemma Uint_append [simp]:
  "2 \<le> length b \<Longrightarrow> Uint16 (b @ c) = Uint16 b"
  "4 \<le> length b \<Longrightarrow> Uint32 (b @ c) = Uint32 b"
  "8 \<le> length b \<Longrightarrow> Uint64 (b @ c) = Uint64 b"
  by (auto simp: Uint16_def Uint32_def Uint64_def nth_append)

lemma list2_conv: "length xs = 2 \<Longrightarrow> xs = [xs ! 0, xs ! 1]"
  by (simp add: list_eq_iff_nth_eq numeral_2_eq_2 less_Suc_eq nth_Cons')

lemma list4_conv: "length xs = 4 \<Longrightarrow> xs = [xs ! 0, xs ! 1, xs ! 2, xs ! 3]"
  by (rule nth_equalityI) (auto simp: eval_nat_numeral less_Suc_eq)

lemma list3_cases: "3 \<le> length xs \<Longrightarrow> \<exists>a b c ys. xs = a # b # c # ys"
  by (cases xs; cases "tl xs"; cases "tl (tl xs)") auto

lemma bit_byte_out: "8 \<le> n \<Longrightarrow> \<not> bit (b :: byte) n"
  by (auto dest: bit_imp_le_length)

lemma Put_Uint16: "length b = 2 \<Longrightarrow> PutUint16 (Uint16 b) = b"
proof -
  assume "length b = 2"
  then obtain x y where b: "b = [x, y]" by (metis list2_conv)
  have "ucast (drop_bit 8 (Uint16 b)) = x" "ucast (Uint16 b) = y"
    unfolding b Uint16_def by (rule bit_word_eqI, simp add: bit_simps bit_byte_out)+
  then show ?thesis by (simp add: PutUint16_def b)
qed

lemma Put_Uint32: "length b = 4 \<Longrightarrow> PutUint32 (Uint32 b) = b"
proof -
  assume "length b = 4"
  then obtain x y z u where b: "b = [x, y, z, u]" by (metis list4_conv)
  have "ucast (drop_bit 24 (Uint32 b)) = x" "ucast (drop_bit 16 (Uint32 b)) = y"
    "ucast (drop_bit 8 (Uint32 b)) = z" "ucast (Uint32 b) = u"
    unfolding b Uint32_def by (rule bit_word_eqI, simp add: bit_simps bit_byte_out)+
  then show ?thesis by (simp add: PutUint32_def b)
qed

text \<open>Lengths written as unsigned integers of a width read back modulo that width.\<close>

lemma unat_of_nat16 [simp]: "n < 65536 \<Longrightarrow> unat (of_nat n :: u16) = n"
  by (simp add: unat_of_nat)

lemma unat_of_nat32 [simp]: "n < 4294967296 \<Longrightarrow> unat (of_nat n :: u32) = n"
  by (simp add: unat_of_nat)


lemma unat_u32_less: "unat (u :: u32) < 4294967296"
  by (rule order_less_le_trans [OF unsigned_less]) simp

lemma unat_u16_less: "unat (u :: u16) < 65536"
  by (rule order_less_le_trans [OF unsigned_less]) simp

lemma unat_byte_less: "unat (b :: byte) < 256"
  by (rule order_less_le_trans [OF unsigned_less]) simp

lemma unat_ucast_u32_u64 [simp]: "unat (ucast (u :: u32) :: u64) = unat u"
  using unat_u32_less [of u] by (simp add: unsigned_ucast_eq take_bit_nat_eq_self)


lemma unat_drop_bit_div: "unat (drop_bit k x) = unat x div 2 ^ k" for x :: "'a::len word"
  by (simp only: unat_drop_bit_eq) (simp only: drop_bit_eq_div)

lemma unat_mult_u64: "unat a * unat b < 18446744073709551616 \<Longrightarrow> unat (a * b) = unat a * unat b" for a b :: u64
  by (simp add: unat_word_ariths)


lemma unat_add_u64: "unat a + unat b < 18446744073709551616 \<Longrightarrow> unat (a + b) = unat a + unat b" for a b :: u64
  by (simp add: unat_word_ariths)

end
