(* ===== verification/Layout.thy ===== *)
theory Layout
  imports GoStrings
begin

text \<open>
  Byte layouts (\<open>pkg/obfs/sudoku/layout.go\<close>): which wire bytes are hints, how a hint (value,
  position) or a 6-bit group is written as one, and which bytes are padding. A Go array indexed by a
  byte is a total function of the byte; the arrays \<open>encodeHint\<close> and \<open>encodeGroup\<close> are indexed by
  masked values only.
\<close>

record byteLayout =
  name :: string
  hintMask :: byte
  hintValue :: byte
  padMarker :: byte
  paddingPool :: bytes
  hintTable :: "byte \<Rightarrow> bool"
  encodeHint :: "byte \<Rightarrow> byte \<Rightarrow> byte"
  encodeGroup :: "byte \<Rightarrow> byte"
  decodeGroup :: "byte \<Rightarrow> byte"
  groupValid :: "byte \<Rightarrow> bool"

definition isHint :: "byteLayout option \<Rightarrow> byte \<Rightarrow> bool" where
  "isHint l b = (case l of None \<Rightarrow> False | Some l \<Rightarrow> hintTable l b)"

definition hintByte :: "byteLayout \<Rightarrow> byte \<Rightarrow> byte \<Rightarrow> byte" where
  "hintByte l val pos = encodeHint l (val AND 0x03) (pos AND 0x0F)"

definition groupByte :: "byteLayout \<Rightarrow> byte \<Rightarrow> byte" where
  "groupByte l grp = encodeGroup l (grp AND 0x3F)"

definition decodePackedGroup :: "byteLayout option \<Rightarrow> byte \<Rightarrow> byte \<times> bool" where
  "decodePackedGroup l b = (case l of None \<Rightarrow> (0, False) | Some l \<Rightarrow> (decodeGroup l b, groupValid l b))"

section \<open>The built-in layouts\<close>

definition asciiWire :: "byte \<Rightarrow> byte" where
  "asciiWire b = (if b = 0x7F then 10 else b)"

definition newASCIILayout :: byteLayout where
  "newASCIILayout =
    \<lparr>name = ''ascii'', hintMask = 0x40, hintValue = 0x40, padMarker = 0x3F,
     paddingPool = map (\<lambda>i. 0x20 + of_nat i) [0..<32],
     hintTable = (\<lambda>wire. wire AND 0x40 = 0x40)(10 := True),
     encodeHint = (\<lambda>val pos. asciiWire (0x40 OR push_bit 4 val OR pos)),
     encodeGroup = (\<lambda>grp. asciiWire (0x40 OR grp)),
     decodeGroup = (\<lambda>wire. if wire AND 0x40 = 0x40 then wire AND 0x3F else 0)(10 := 0x3F),
     groupValid = (\<lambda>wire. wire AND 0x40 = 0x40)(10 := True)\<rparr>"

definition newEntropyLayout :: byteLayout where
  "newEntropyLayout =
    \<lparr>name = ''entropy'', hintMask = 0x90, hintValue = 0x00, padMarker = 0x80,
     paddingPool = concat (map (\<lambda>i. [0x80 + of_nat i, 0x10 + of_nat i]) [0..<8]),
     hintTable = (\<lambda>wire. wire AND 0x90 = 0),
     encodeHint = (\<lambda>val pos. push_bit 5 val OR pos),
     encodeGroup = (\<lambda>v. push_bit 1 (v AND 0x30) OR (v AND 0x0F)),
     decodeGroup = (\<lambda>wire. if wire AND 0x90 \<noteq> 0 then 0 else (drop_bit 1 wire AND 0x30) OR (wire AND 0x0F)),
     groupValid = (\<lambda>wire. wire AND 0x90 = 0)\<rparr>"

section \<open>Custom layouts\<close>

definition OnesCount8 :: "byte \<Rightarrow> nat" where
  "OnesCount8 b = length (filter (bit b) [0..<8])"

text \<open>The loop over the cleaned pattern: position \<open>i\<close> stands for bit \<open>7 - i\<close>.\<close>

fun classifyBits :: "nat \<Rightarrow> string \<Rightarrow> nat list \<times> nat list \<times> nat list \<Rightarrow> (nat list \<times> nat list \<times> nat list) result" where
  "classifyBits i [] acc = Inr acc"
| "classifyBits i (c # cs) (xBits, pBits, vBits) =
    (let b = 7 - i in
     if c = CHR ''x'' then classifyBits (i + 1) cs (xBits @ [b], pBits, vBits)
     else if c = CHR ''p'' then classifyBits (i + 1) cs (xBits, pBits @ [b], vBits)
     else if c = CHR ''v'' then classifyBits (i + 1) cs (xBits, pBits, vBits @ [b])
     else Inl (ErrMsg ''invalid char in custom table''))"

definition bit1 :: "nat \<Rightarrow> byte" where
  "bit1 n = push_bit n 1"

definition xMaskOf :: "nat list \<Rightarrow> byte" where
  "xMaskOf xBits = foldl (\<lambda>m b. m OR bit1 b) 0 xBits"

definition encodeBits :: "nat list \<Rightarrow> nat list \<Rightarrow> nat list \<Rightarrow> byte \<Rightarrow> byte \<Rightarrow> nat option \<Rightarrow> byte" where
  "encodeBits xBits pBits vBits val pos dropX =
    (let o1 = 0 OR xMaskOf xBits;
         o2 = (case dropX of None \<Rightarrow> o1 | Some d \<Rightarrow> o1 AND NOT (bit1 (xBits ! d)));
         o3 = (if val AND 0x02 \<noteq> 0 then o2 OR bit1 (pBits ! 0) else o2);
         o4 = (if val AND 0x01 \<noteq> 0 then o3 OR bit1 (pBits ! 1) else o3)
     in foldl (\<lambda>out (i, b). if drop_bit (3 - i) pos AND 0x01 = 1 then out OR bit1 b else out)
          o4 (enumerate 0 vBits))"

definition decodeBits :: "nat list \<Rightarrow> nat list \<Rightarrow> byte \<Rightarrow> byte" where
  "decodeBits pBits vBits wire =
    (let v1 = (if wire AND bit1 (pBits ! 0) \<noteq> 0 then 0 OR 0x02 else 0);
         v2 = (if wire AND bit1 (pBits ! 1) \<noteq> 0 then v1 OR 0x01 else v1);
         pos = foldl (\<lambda>p (i, b). if wire AND bit1 b \<noteq> 0 then p OR bit1 (3 - i) else p) 0 (enumerate 0 vBits)
     in push_bit 4 v2 OR pos)"

definition appendNew :: "bytes \<Rightarrow> byte \<Rightarrow> bytes" where
  "appendNew acc b = (if 5 \<le> OnesCount8 b \<and> b \<notin> set acc then acc @ [b] else acc)"

definition customPadding :: "nat list \<Rightarrow> nat list \<Rightarrow> nat list \<Rightarrow> bytes" where
  "customPadding xBits pBits vBits =
    sort (foldl appendNew []
      (concat (map (\<lambda>drp. concat (map (\<lambda>val. map (\<lambda>pos.
          encodeBits xBits pBits vBits (of_nat val) (of_nat pos) (Some drp)) [0..<16]) [0..<4]))
        [0..<length xBits])))"

text \<open>The layout built once the pattern is accepted.\<close>

definition customLayout :: "string \<Rightarrow> nat list \<Rightarrow> nat list \<Rightarrow> nat list \<Rightarrow> byteLayout" where
  "customLayout cleaned xBits pBits vBits =
    (let xMask = xMaskOf xBits; padding = customPadding xBits pBits vBits in
     \<lparr>name = ''custom('' @ cleaned @ '')'', hintMask = xMask, hintValue = xMask,
      padMarker = padding ! 0, paddingPool = padding,
      hintTable = (\<lambda>wire. wire AND xMask = xMask),
      encodeHint = (\<lambda>val pos. encodeBits xBits pBits vBits val pos None),
      encodeGroup = (\<lambda>grp. encodeBits xBits pBits vBits (drop_bit 4 grp AND 0x03) (grp AND 0x0F) None),
      decodeGroup = (\<lambda>wire. if wire AND xMask \<noteq> xMask then 0 else decodeBits pBits vBits wire),
      groupValid = (\<lambda>wire. wire AND xMask = xMask)\<rparr>)"

definition newCustomLayout :: "string \<Rightarrow> byteLayout result" where
  "newCustomLayout pattern =
    (let cleaned = ToLower (removeChar CHR '' '' (TrimSpace pattern)) in
     if length cleaned \<noteq> 8 then Inl (ErrMsg ''custom table must have 8 symbols'')
     else case classifyBits 0 cleaned ([], [], []) of
       Inl e \<Rightarrow> Inl e
     | Inr (xBits, pBits, vBits) \<Rightarrow>
       if length xBits \<noteq> 2 \<or> length pBits \<noteq> 2 \<or> length vBits \<noteq> 4
       then Inl (ErrMsg ''custom table must contain exactly 2 x, 2 p, 4 v'')
       else if customPadding xBits pBits vBits = []
       then Inl (ErrMsg ''custom table produced empty padding pool'')
       else Inr (customLayout cleaned xBits pBits vBits))"

definition resolveLayout :: "string \<Rightarrow> string \<Rightarrow> byteLayout result" where
  "resolveLayout mode customPattern =
    (let m = ToLower mode in
     if m \<in> set [''ascii'', ''prefer_ascii''] then Inr newASCIILayout
     else if m \<in> set [''entropy'', ''prefer_entropy'', ''''] then
       (if TrimSpace customPattern \<noteq> '''' then newCustomLayout customPattern else Inr newEntropyLayout)
     else Inl (ErrMsg ''invalid ascii mode''))"

section \<open>Enumerating bytes\<close>

lemma byte_below:
  fixes b :: byte
  assumes "list_all P (map of_nat [0..<n])" "b < of_nat n" "n < 256"
  shows "P b"
proof -
  have "unat b < n" using assms(2,3) by (simp add: word_less_nat_alt unat_of_nat)
  then have "b \<in> set (map of_nat [0..<n])" by (auto intro!: image_eqI [of _ _ "unat b"])
  with assms(1) show ?thesis by (simp only: list_all_iff)
qed

lemmas byte_below_4 = byte_below [where n = 4, simplified]
lemmas byte_below_16 = byte_below [where n = 16, simplified]
lemmas byte_below_64 = byte_below [where n = 64, simplified]

lemma bits_below:
  fixes v :: byte
  assumes "unat v < 2 ^ k" "bit v n"
  shows "n < k"
proof -
  have "bit (unat v) n" using assms(2) by (simp add: bit_unsigned_iff)
  then have "unat v div 2 ^ n \<noteq> 0" by (metis bit_iff_odd even_zero)
  then have "2 ^ n \<le> unat v" by (metis div_less not_le_imp_less)
  with assms(1) have "(2::nat) ^ n < 2 ^ k" by (rule le_less_trans [rotated])
  then show ?thesis by simp
qed

lemma below_bits:
  fixes x :: byte
  assumes "\<And>n. k \<le> n \<Longrightarrow> n < 8 \<Longrightarrow> \<not> bit x n"
  shows "unat x < 2 ^ k"
proof -
  have "n < k" if "bit x n" "n < 8" for n
    using assms [of n] that by (cases "k \<le> n") simp_all
  then have "take_bit k x = x"
    by (intro bit_word_eqI) (auto simp: bit_take_bit_iff)
  then have "unat x = take_bit k (unat x)" by (metis unsigned_take_bit_eq)
  then show ?thesis by (metis take_bit_nat_less_exp)
qed

lemma nibbles:
  fixes v p :: byte
  assumes "v < 4" "p < 16"
  shows "drop_bit 4 (push_bit 4 v OR p) = v" "(push_bit 4 v OR p) AND 15 = p"
proof -
  have v: "bit v n \<Longrightarrow> n < 2" and p: "bit p n \<Longrightarrow> n < 4" for n
    using assms bits_below [of v 2] bits_below [of p 4] by (simp_all add: word_less_nat_alt)
  show "drop_bit 4 (push_bit 4 v OR p) = v"
    by (rule bit_word_eqI) (auto simp: bit_simps dest: v p)
  have m: "(15 :: byte) = mask 4" by (simp add: mask_eq_exp_minus_1)
  show "(push_bit 4 v OR p) AND 15 = p"
    unfolding m by (rule bit_word_eqI) (auto simp: bit_simps dest: v p)
qed

section \<open>What every layout promises\<close>

locale hint_layout =
  fixes l :: byteLayout
  assumes hint_hint: "v < 4 \<Longrightarrow> p < 16 \<Longrightarrow> hintTable l (encodeHint l v p)"
    and hint_decode: "v < 4 \<Longrightarrow> p < 16 \<Longrightarrow> decodeGroup l (encodeHint l v p) = push_bit 4 v OR p"
    and group_hint: "g < 64 \<Longrightarrow> encodeGroup l g = encodeHint l (drop_bit 4 g) (g AND 15)"
    and pool_padding: "b \<in> set (paddingPool l) \<Longrightarrow> \<not> hintTable l b"
    and marker_padding: "\<not> hintTable l (padMarker l)"
    and pool_without_marker: "filter (\<lambda>b. b \<noteq> padMarker l) (paddingPool l) \<noteq> []"
    and pool_distinct: "distinct (paddingPool l)"
    and valid_groups: "groupValid l = hintTable l"
    and groups_small: "hintTable l b \<Longrightarrow> decodeGroup l b < 64"

begin

lemma hint_inj:
  assumes "v < 4" "p < 16" "v' < 4" "p' < 16" "encodeHint l v p = encodeHint l v' p'"
  shows "v = v' \<and> p = p'"
proof -
  have "push_bit 4 v OR p = push_bit 4 v' OR p'"
    using hint_decode [OF assms(1,2)] hint_decode [OF assms(3,4)] assms(5) by simp
  then show ?thesis using nibbles [OF assms(1,2)] nibbles [OF assms(3,4)] by metis
qed

lemma group_small_parts: "g < 64 \<Longrightarrow> drop_bit 4 g < 4 \<and> g AND 15 < 16" for g :: byte
  by (rule byte_below_64 [where P = "\<lambda>g. drop_bit 4 g < 4 \<and> g AND 15 < 16"])
    (simp_all add: upt_conv_Cons)

lemma group_is_hint: "g < 64 \<Longrightarrow> hintTable l (encodeGroup l g)"
  using group_small_parts [of g] by (simp add: group_hint hint_hint)

lemma group_parts: "g < 64 \<Longrightarrow> push_bit 4 (drop_bit 4 g) OR (g AND 15) = g" for g :: byte
  by (rule byte_below_64 [where P = "\<lambda>g. push_bit 4 (drop_bit 4 g) OR (g AND 15) = g"])
    (simp_all add: upt_conv_Cons)

lemma group_roundtrip: "g < 64 \<Longrightarrow> decodeGroup l (encodeGroup l g) = g"
  using group_small_parts [of g] by (simp add: group_hint hint_decode group_parts)

lemma pool_nonempty: "paddingPool l \<noteq> []"
  using pool_without_marker by auto

end

section \<open>The built-in layouts keep the promise\<close>

lemmas built_in_layouts = newASCIILayout_def newEntropyLayout_def asciiWire_def upt_conv_Cons

lemma ascii_hints:
  "list_all (\<lambda>v. list_all (\<lambda>p. hintTable newASCIILayout (encodeHint newASCIILayout v p)
      \<and> decodeGroup newASCIILayout (encodeHint newASCIILayout v p) = push_bit 4 v OR p)
    (map of_nat [0..<16])) (map of_nat [0..<4])"
  by (simp add: built_in_layouts)

lemma entropy_hints:
  "list_all (\<lambda>v. list_all (\<lambda>p. hintTable newEntropyLayout (encodeHint newEntropyLayout v p)
      \<and> decodeGroup newEntropyLayout (encodeHint newEntropyLayout v p) = push_bit 4 v OR p)
    (map of_nat [0..<16])) (map of_nat [0..<4])"
  by (simp add: built_in_layouts)

lemma small_and: "a AND 63 < 64" "a AND 48 OR b AND 15 < 64" for a b :: byte
proof -
  have "\<not> bit (a AND 63) n \<and> \<not> bit (a AND 48 OR b AND 15) n" if "6 \<le> n" "n < 8" for n
    using that by (cases "n = 6") (auto simp: bit_simps dest!: le_neq_implies_less simp: le_less_Suc_eq eval_nat_numeral)
  then show "a AND 63 < 64" "a AND 48 OR b AND 15 < 64"
    using below_bits [of 6 "a AND 63"] below_bits [of 6 "a AND 48 OR b AND 15"] by (simp_all add: word_less_nat_alt)
qed

interpretation ascii: hint_layout newASCIILayout
proof
  show "hintTable newASCIILayout (encodeHint newASCIILayout v p)"
    and "decodeGroup newASCIILayout (encodeHint newASCIILayout v p) = push_bit 4 v OR p" if "v < 4" "p < 16" for v p
    using byte_below_16 [OF byte_below_4 [OF ascii_hints that(1)] that(2)] by simp_all
  show "encodeGroup newASCIILayout g = encodeHint newASCIILayout (drop_bit 4 g) (g AND 15)" if "g < 64" for g
    by (rule byte_below_64 [OF _ that]) (simp add: built_in_layouts)
  show "\<And>b. b \<in> set (paddingPool newASCIILayout) \<Longrightarrow> \<not> hintTable newASCIILayout b"
    by (auto simp: built_in_layouts)
  show "decodeGroup newASCIILayout b < 64" if "hintTable newASCIILayout b" for b
    using that by (auto simp: built_in_layouts small_and split: if_splits)
qed (simp_all add: built_in_layouts)

interpretation entropy: hint_layout newEntropyLayout
proof
  show "hintTable newEntropyLayout (encodeHint newEntropyLayout v p)"
    and "decodeGroup newEntropyLayout (encodeHint newEntropyLayout v p) = push_bit 4 v OR p" if "v < 4" "p < 16" for v p
    using byte_below_16 [OF byte_below_4 [OF entropy_hints that(1)] that(2)] by simp_all
  show "encodeGroup newEntropyLayout g = encodeHint newEntropyLayout (drop_bit 4 g) (g AND 15)" if "g < 64" for g
    by (rule byte_below_64 [OF _ that]) (simp add: built_in_layouts)
  show "\<And>b. b \<in> set (paddingPool newEntropyLayout) \<Longrightarrow> \<not> hintTable newEntropyLayout b"
    by (auto simp: built_in_layouts)
  show "decodeGroup newEntropyLayout b < 64" if "hintTable newEntropyLayout b" for b
    using that by (auto simp: built_in_layouts small_and split: if_splits)
qed (simp_all add: built_in_layouts)


section \<open>Custom layouts keep the promise\<close>

lemma classifyBits_lists:
  "classifyBits i cs (x, p, v) = Inr (x', p', v') \<Longrightarrow> i + length cs = 8 \<Longrightarrow>
    distinct (x @ p @ v) \<Longrightarrow> set (x @ p @ v) \<subseteq> {b. 8 - i \<le> b \<and> b < 8} \<Longrightarrow>
    distinct (x' @ p' @ v') \<and> set (x' @ p' @ v') \<subseteq> {..<8}"
proof (induction cs arbitrary: i x p v)
  case Nil
  then show ?case by auto
next
  case (Cons c cs)
  have i: "i < 8" using Cons.prems(2) by simp
  have fresh: "7 - i \<notin> set (x @ p @ v)" and sub: "set (x @ p @ v) \<subseteq> {b. 8 - Suc i \<le> b \<and> b < 8}"
    using Cons.prems(4) i by force+
  from Cons.prems(1) consider
      "classifyBits (i + 1) cs (x @ [7 - i], p, v) = Inr (x', p', v')"
    | "classifyBits (i + 1) cs (x, p @ [7 - i], v) = Inr (x', p', v')"
    | "classifyBits (i + 1) cs (x, p, v @ [7 - i]) = Inr (x', p', v')"
    by (auto simp: Let_def split: if_splits)
  then obtain x1 p1 v1 where rec: "classifyBits (Suc i) cs (x1, p1, v1) = Inr (x', p', v')"
    and d: "distinct (x1 @ p1 @ v1)" "set (x1 @ p1 @ v1) = insert (7 - i) (set (x @ p @ v))"
  proof cases
    case 1
    then show thesis using that [of "x @ [7 - i]" p v] fresh Cons.prems(3) by auto
  next
    case 2
    then show thesis using that [of x "p @ [7 - i]" v] fresh Cons.prems(3) by auto
  next
    case 3
    then show thesis using that [of x p "v @ [7 - i]"] fresh Cons.prems(3) by auto
  qed
  show ?case
    using Cons.prems(2) i sub d by (intro Cons.IH [OF rec]) auto
qed

lemma mask_bit: "a AND bit1 n \<noteq> 0 \<longleftrightarrow> bit a n" if "n < 8" for a :: byte
proof -
  have "a AND bit1 n = 0 \<longleftrightarrow> \<not> bit a n"
    unfolding bit1_def push_bit_of_1 by (rule and_exp_eq_0_iff_not_bit)
  then show ?thesis by simp
qed

lemma low_bit: "drop_bit n a AND 1 = 1 \<longleftrightarrow> bit a n" for a :: byte
  by (simp add: and_one_eq bit_iff_odd_drop_bit mod_2_eq_odd)

lemma val_bits: "a AND 2 \<noteq> 0 \<longleftrightarrow> bit a 1" "a AND 1 \<noteq> 0 \<longleftrightarrow> bit a 0" for a :: byte
  using mask_bit [of 1 a] mask_bit [of 0 a] by (simp_all add: bit1_def)

lemma bit_bit1: "n < 8 \<Longrightarrow> bit (bit1 n) k \<longleftrightarrow> k = n"
  by (auto simp: bit1_def bit_simps)

definition pattern_ok :: "nat list \<Rightarrow> nat list \<Rightarrow> nat list \<Rightarrow> bool" where
  "pattern_ok xb pb vb \<longleftrightarrow> length xb = 2 \<and> length pb = 2 \<and> length vb = 4
     \<and> distinct (xb @ pb @ vb) \<and> set (xb @ pb @ vb) \<subseteq> {..<8}"

lemma pattern_ok_lists:
  assumes "pattern_ok xb pb vb"
  shows "xb = [xb ! 0, xb ! 1]" "pb = [pb ! 0, pb ! 1]" "vb = [vb ! 0, vb ! 1, vb ! 2, vb ! 3]"
  using assms unfolding pattern_ok_def by (blast intro: list2_conv list4_conv)+

lemma pattern_ok_small:
  assumes "pattern_ok xb pb vb"
  shows "i < 2 \<Longrightarrow> xb ! i < 8" "i < 2 \<Longrightarrow> pb ! i < 8" "i < 4 \<Longrightarrow> vb ! i < 8"
proof -
  have in8: "\<forall>k \<in> set (xb @ pb @ vb). k < 8" and len: "length xb = 2" "length pb = 2" "length vb = 4"
    using assms unfolding pattern_ok_def by blast+
  show "i < 2 \<Longrightarrow> xb ! i < 8" "i < 2 \<Longrightarrow> pb ! i < 8" "i < 4 \<Longrightarrow> vb ! i < 8"
    using in8 by (simp_all add: len)
qed

lemma pattern_ok_set: "pattern_ok xb pb vb \<Longrightarrow> k \<in> set xb \<Longrightarrow> k < 8"
  by (auto simp: pattern_ok_def)

lemma pattern_ok_distinct:
  assumes "pattern_ok xb pb vb"
  shows "distinct [xb ! 0, xb ! 1, pb ! 0, pb ! 1, vb ! 0, vb ! 1, vb ! 2, vb ! 3]"
proof -
  have "distinct (xb @ pb @ vb)" using assms by (simp add: pattern_ok_def)
  then show ?thesis
    by (subst (asm) pattern_ok_lists(1) [OF assms], subst (asm) pattern_ok_lists(2) [OF assms],
        subst (asm) pattern_ok_lists(3) [OF assms]) simp
qed

lemma bit_cond_or: "b < 8 \<Longrightarrow> bit (if c then x OR bit1 b else x) k \<longleftrightarrow> bit x k \<or> c \<and> k = b"
  by (simp add: bit_or_iff bit_bit1)

lemma bit_xMask: "pattern_ok xb pb vb \<Longrightarrow> bit (xMaskOf xb) k \<longleftrightarrow> k \<in> set xb"
  using pattern_ok_small(1) [of xb pb vb 0] pattern_ok_small(1) [of xb pb vb 1]
  by (subst (1 2) pattern_ok_lists(1) [of xb pb vb]) (simp_all add: xMaskOf_def bit_or_iff bit_bit1)

lemma bit_encodeBits:
  assumes "pattern_ok xb pb vb" "\<And>i. d = Some i \<Longrightarrow> i < 2"
  shows "bit (encodeBits xb pb vb val pos d) k \<longleftrightarrow>
     (k \<in> set xb \<and> (\<forall>i. d = Some i \<longrightarrow> k \<noteq> xb ! i))
     \<or> k = pb ! 0 \<and> bit val 1 \<or> k = pb ! 1 \<and> bit val 0
     \<or> k = vb ! 0 \<and> bit pos 3 \<or> k = vb ! 1 \<and> bit pos 2 \<or> k = vb ! 2 \<and> bit pos 1 \<or> k = vb ! 3 \<and> bit pos 0"
proof -
  note s = pattern_ok_small [OF assms(1)]
  define o1 where "o1 = (case d of None \<Rightarrow> xMaskOf xb | Some d \<Rightarrow> xMaskOf xb AND NOT (bit1 (xb ! d)))"
  have o: "bit o1 k \<longleftrightarrow> k \<in> set xb \<and> (\<forall>i. d = Some i \<longrightarrow> k \<noteq> xb ! i)"
    using assms(2) s(1) by (cases d) (auto simp: o1_def bit_and_iff bit_not_iff bit_bit1 bit_xMask [OF assms(1)]
        dest: pattern_ok_set [OF assms(1)])
  have en: "enumerate 0 vb = [(0, vb ! 0), (1, vb ! 1), (2, vb ! 2), (3, vb ! 3)]"
    by (subst pattern_ok_lists(3) [OF assms(1)]) simp
  have "bit (encodeBits xb pb vb val pos d) k \<longleftrightarrow> bit o1 k
     \<or> k = pb ! 0 \<and> bit val 1 \<or> k = pb ! 1 \<and> bit val 0
     \<or> k = vb ! 0 \<and> bit pos 3 \<or> k = vb ! 1 \<and> bit pos 2 \<or> k = vb ! 2 \<and> bit pos 1 \<or> k = vb ! 3 \<and> bit pos 0"
    unfolding encodeBits_def Let_def val_bits en or.left_neutral o1_def [symmetric]
    by (simp add: low_bit bit_cond_or s del: bit_0) blast
  with o show ?thesis by simp
qed


lemmas bit_encodeBits_None = bit_encodeBits [where d = None, simplified]
lemmas bit_encodeBits_Some = bit_encodeBits [where d = "Some i" for i, simplified]

lemma bit_decodeBits:
  assumes "pattern_ok xb pb vb"
  shows "bit (decodeBits pb vb wire) j \<longleftrightarrow>
     j = 5 \<and> bit wire (pb ! 0) \<or> j = 4 \<and> bit wire (pb ! 1)
     \<or> j = 3 \<and> bit wire (vb ! 0) \<or> j = 2 \<and> bit wire (vb ! 1) \<or> j = 1 \<and> bit wire (vb ! 2) \<or> j = 0 \<and> bit wire (vb ! 3)"
proof -
  note s = pattern_ok_small [OF assms]
  have en: "enumerate 0 vb = [(0, vb ! 0), (1, vb ! 1), (2, vb ! 2), (3, vb ! 3)]"
    by (subst pattern_ok_lists(3) [OF assms]) simp
  have two: "(2 :: byte) = bit1 1" "(1 :: byte) = bit1 0" by (simp_all add: bit1_def)
  define v2 where "v2 = (let v1 = if wire AND bit1 (pb ! 0) \<noteq> 0 then 0 OR 0x02 else 0
      in if wire AND bit1 (pb ! 1) \<noteq> 0 then v1 OR 0x01 else v1 :: byte)"
  have v: "bit v2 k \<longleftrightarrow> k = 1 \<and> bit wire (pb ! 0) \<or> k = 0 \<and> bit wire (pb ! 1)" for k
    unfolding v2_def Let_def two
    by (simp add: bit_cond_or mask_bit s del: bit_0) auto
  have "bit (decodeBits pb vb wire) j \<longleftrightarrow> (4 \<le> j \<and> j < 8 \<and> bit v2 (j - 4))
     \<or> j = 3 \<and> bit wire (vb ! 0) \<or> j = 2 \<and> bit wire (vb ! 1) \<or> j = 1 \<and> bit wire (vb ! 2) \<or> j = 0 \<and> bit wire (vb ! 3)"
    unfolding decodeBits_def en v2_def [symmetric, unfolded Let_def] Let_def
    by (simp add: bit_or_iff bit_push_bit_iff bit_cond_or mask_bit s del: bit_0) blast
  moreover have "4 \<le> j \<and> j < 8 \<and> bit v2 (j - 4) \<longleftrightarrow> j = 5 \<and> bit wire (pb ! 0) \<or> j = 4 \<and> bit wire (pb ! 1)"
    unfolding v by (cases "bit wire (pb ! 0)"; cases "bit wire (pb ! 1)"; simp; arith)
  ultimately show ?thesis by (simp only: disj_assoc)
qed

lemma mask_covered:
  "pattern_ok xb pb vb \<Longrightarrow> wire AND xMaskOf xb = xMaskOf xb \<longleftrightarrow> (\<forall>k \<in> set xb. bit wire k)"
  by (auto simp: bit_eq_iff bit_and_iff bit_xMask dest: pattern_ok_set)

lemma decodeBits_encodeBits:
  assumes "pattern_ok xb pb vb" "v < 4" "p < 16"
  shows "decodeBits pb vb (encodeBits xb pb vb v p None) = push_bit 4 v OR p"
proof (rule bit_word_eqI)
  fix j assume "j < LENGTH(8)"
  then have "j = 0 \<or> j = 1 \<or> j = 2 \<or> j = 3 \<or> j = 4 \<or> j = 5 \<or> j = 6 \<or> j = 7" by auto
  moreover have "distinct [xb ! 0, xb ! 1, pb ! 0, pb ! 1, vb ! 0, vb ! 1, vb ! 2, vb ! 3]"
    "distinct (rev [xb ! 0, xb ! 1, pb ! 0, pb ! 1, vb ! 0, vb ! 1, vb ! 2, vb ! 3])"
    using pattern_ok_distinct [OF assms(1)] by (simp_all only: distinct_rev)
  moreover have "set xb = {xb ! 0, xb ! 1}"
    by (subst pattern_ok_lists(1) [OF assms(1)]) simp
  moreover have "\<not> bit v n" if "2 \<le> n" for n
    using bits_below [of v 2 n] assms(2) that by (auto simp: word_less_nat_alt)
  moreover have "\<not> bit p n" if "4 \<le> n" for n
    using bits_below [of p 4 n] assms(3) that by (auto simp: word_less_nat_alt)
  ultimately show "bit (decodeBits pb vb (encodeBits xb pb vb v p None)) j \<longleftrightarrow> bit (push_bit 4 v OR p) j"
    by (elim disjE) (simp_all add: bit_decodeBits [OF assms(1)] bit_encodeBits_None [OF assms(1)] bit_or_iff bit_push_bit_iff
      del: bit_0)
qed


lemma set_appendNew: "set (foldl appendNew acc bs) = set acc \<union> {b \<in> set bs. 5 \<le> OnesCount8 b}"
  by (induction bs arbitrary: acc) (auto simp: appendNew_def)

lemma distinct_appendNew: "distinct acc \<Longrightarrow> distinct (foldl appendNew acc bs)"
  by (induction bs arbitrary: acc) (auto simp: appendNew_def)

lemma customPaddingD:
  assumes "length xb = 2" "b \<in> set (customPadding xb pb vb)"
  shows "\<exists>v p d. d < 2 \<and> b = encodeBits xb pb vb v p (Some d)"
  using assms(2) unfolding customPadding_def assms(1) set_sort set_appendNew set_concat set_map set_upt by auto blast

lemma customPaddingI:
  assumes "length xb = 2" "d < 2" "5 \<le> OnesCount8 (encodeBits xb pb vb 3 15 (Some d))"
  shows "encodeBits xb pb vb 3 15 (Some d) \<in> set (customPadding xb pb vb)"
proof -
  let ?e = "\<lambda>d v p. encodeBits xb pb vb (of_nat v) (of_nat p) (Some d)"
  have "?e d 3 15 \<in> (\<Union>d \<in> {0..<2}. \<Union>v \<in> {0..<4}. ?e d v ` {0..<16})"
    using assms(2) by (intro UN_I [of d] UN_I [of 3] image_eqI [of _ _ 15]) simp_all
  then show ?thesis
    using assms(3) unfolding customPadding_def assms(1) set_sort set_appendNew set_concat set_map set_upt by auto
qed

lemma full_but_one:
  assumes "pattern_ok xb pb vb" "d < 2" "k < 8"
  shows "bit (encodeBits xb pb vb 3 15 (Some d)) k \<longleftrightarrow> k \<noteq> xb ! d"
proof -
  have "card (set (xb @ pb @ vb)) = 8"
    using assms(1) distinct_card [of "xb @ pb @ vb"] by (simp add: pattern_ok_def)
  then have "set (xb @ pb @ vb) = {..<8}"
    using assms(1) by (intro card_subset_eq) (auto simp: pattern_ok_def)
  then have "k \<in> set xb \<or> k \<in> set pb \<or> k \<in> set vb" using assms(3) by (auto simp: set_eq_iff)
  then have cases: "k \<in> set xb \<or> k = pb ! 0 \<or> k = pb ! 1 \<or> k = vb ! 0 \<or> k = vb ! 1 \<or> k = vb ! 2 \<or> k = vb ! 3"
    using pattern_ok_lists(2,3) [OF assms(1)] by (metis empty_iff insert_iff list.set)
  have d: "xb ! d \<in> set xb" and pb: "pb ! 0 \<in> set pb" "pb ! 1 \<in> set pb"
    and vb: "vb ! 0 \<in> set vb" "vb ! 1 \<in> set vb" "vb ! 2 \<in> set vb" "vb ! 3 \<in> set vb"
    and dis: "set xb \<inter> (set pb \<union> set vb) = {}"
    using assms(1,2) by (simp_all add: pattern_ok_def)
  have bits: "bit (3 :: byte) 0" "bit (3 :: byte) 1" "bit (15 :: byte) 0" "bit (15 :: byte) 1" "bit (15 :: byte) 2" "bit (15 :: byte) 3"
    by simp_all
  show ?thesis
  proof (cases "k \<in> set xb")
    case True
    then have "k \<notin> set pb" "k \<notin> set vb" using dis by auto
    then have "k \<noteq> pb ! 0" "k \<noteq> pb ! 1" "k \<noteq> vb ! 0" "k \<noteq> vb ! 1" "k \<noteq> vb ! 2" "k \<noteq> vb ! 3"
      using pb vb by auto
    with True show ?thesis unfolding bit_encodeBits_Some [OF assms(1,2)] by simp
  next
    case False
    with cases have "bit (encodeBits xb pb vb 3 15 (Some d)) k"
      unfolding bit_encodeBits_Some [OF assms(1,2)] using bits unfolding One_nat_def by argo
    with False d show ?thesis by metis
  qed
qed

lemma OnesCount8_full_but_one:
  assumes "pattern_ok xb pb vb" "d < 2"
  shows "OnesCount8 (encodeBits xb pb vb 3 15 (Some d)) = 7"
proof -
  have "filter (bit (encodeBits xb pb vb 3 15 (Some d))) [0..<8] = filter (\<lambda>k. k \<noteq> xb ! d) [0..<8]"
    using full_but_one [OF assms] by (intro filter_cong) simp_all
  also have "\<dots> = remove1 (xb ! d) [0..<8]"
    by (simp add: distinct_remove1_removeAll removeAll_filter_not_eq eq_commute)
  finally show ?thesis
    using pattern_ok_small(1) [OF assms] by (simp add: OnesCount8_def length_remove1 del: upt_rec_numeral)
qed


lemma newCustomLayout_pattern:
  assumes "newCustomLayout pattern = Inr l"
  shows "\<exists>c xb pb vb. pattern_ok xb pb vb \<and> l = customLayout c xb pb vb"
proof -
  let ?c = "ToLower (removeChar CHR '' '' (TrimSpace pattern))"
  obtain xb pb vb where c: "classifyBits 0 ?c ([], [], []) = Inr (xb, pb, vb)" "length ?c = 8"
    and len: "length xb = 2" "length pb = 2" "length vb = 4" and l: "l = customLayout ?c xb pb vb"
    using assms unfolding newCustomLayout_def Let_def by (auto split: if_splits sum.splits prod.splits)
  have "pattern_ok xb pb vb"
    using classifyBits_lists [OF c(1)] c(2) len by (simp add: pattern_ok_def)
  with l show ?thesis by blast
qed

lemma dropped_bit:
  assumes "pattern_ok xb pb vb" "d < 2"
  shows "\<not> bit (encodeBits xb pb vb v p (Some d)) (xb ! d)"
  using pattern_ok_distinct [OF assms(1)] assms(2)
  by (auto simp: bit_encodeBits_Some [OF assms] less_2_cases_iff)

lemma customPadding_not_hint:
  assumes "pattern_ok xb pb vb" "b \<in> set (customPadding xb pb vb)"
  shows "b AND xMaskOf xb \<noteq> xMaskOf xb"
proof -
  have len: "length xb = 2" using assms(1) by (simp add: pattern_ok_def)
  obtain v p d where d: "d < 2" "b = encodeBits xb pb vb v p (Some d)" using customPaddingD [OF len assms(2)] by blast
  then have "\<not> bit b (xb ! d)" "xb ! d \<in> set xb" using dropped_bit [OF assms(1)] len by simp_all
  then show ?thesis by (auto simp: mask_covered [OF assms(1)])
qed

lemma customPadding_two:
  assumes "pattern_ok xb pb vb"
  shows "\<exists>a b. a \<in> set (customPadding xb pb vb) \<and> b \<in> set (customPadding xb pb vb) \<and> a \<noteq> b"
proof -
  let ?e = "\<lambda>d. encodeBits xb pb vb 3 15 (Some d)"
  have len: "length xb = 2" using assms by (simp add: pattern_ok_def)
  have "?e 0 \<in> set (customPadding xb pb vb)" "?e 1 \<in> set (customPadding xb pb vb)"
    using OnesCount8_full_but_one [OF assms] by (simp_all add: customPaddingI [OF len])
  moreover have "bit (?e 1) (xb ! 0)" "\<not> bit (?e 0) (xb ! 0)"
    using full_but_one [OF assms] pattern_ok_small(1) [OF assms] pattern_ok_distinct [OF assms] by auto
  ultimately show ?thesis by metis
qed

lemma customLayout_hint_layout:
  assumes ok: "pattern_ok xb pb vb"
  shows "hint_layout (customLayout c xb pb vb)" (is "hint_layout ?l")
proof
  note l = customLayout_def Let_def
  obtain a b where two: "a \<in> set (customPadding xb pb vb)" "b \<in> set (customPadding xb pb vb)" "a \<noteq> b"
    using customPadding_two [OF ok] by blast
  show "hintTable ?l (encodeHint ?l v p)" for v p
    by (simp add: l mask_covered [OF ok] bit_encodeBits_None [OF ok])
  then show "decodeGroup ?l (encodeHint ?l v p) = push_bit 4 v OR p" if "v < 4" "p < 16" for v p
    using decodeBits_encodeBits [OF ok that] by (simp add: l)
  show "encodeGroup ?l g = encodeHint ?l (drop_bit 4 g) (g AND 15)" if "g < 64" for g
  proof -
    have "drop_bit 4 g AND 3 = drop_bit 4 g"
      by (rule byte_below_64 [OF _ that]) (simp add: upt_conv_Cons)
    then show ?thesis by (simp add: l)
  qed
  show "b \<in> set (paddingPool ?l) \<Longrightarrow> \<not> hintTable ?l b" for b
    using customPadding_not_hint [OF ok] by (simp add: l)
  have "customPadding xb pb vb ! 0 \<in> set (customPadding xb pb vb)" using two(1) by (auto intro: nth_mem)
  then show "\<not> hintTable ?l (padMarker ?l)"
    using customPadding_not_hint [OF ok] by (simp add: l)
  show "filter (\<lambda>b. b \<noteq> padMarker ?l) (paddingPool ?l) \<noteq> []"
    using two by (simp add: l filter_empty_conv) metis
  show "distinct (paddingPool ?l)" by (simp add: l customPadding_def distinct_appendNew)
  show "groupValid ?l = hintTable ?l" by (simp add: l)
  show "decodeGroup ?l b < 64" for b
  proof -
    have "unat (decodeBits pb vb b) < 2 ^ 6"
      by (rule below_bits) (auto simp: bit_decodeBits [OF ok])
    then show ?thesis by (simp add: l word_less_nat_alt)
  qed
qed

lemma newCustomLayout_hint_layout: "newCustomLayout pattern = Inr l \<Longrightarrow> hint_layout l"
  using newCustomLayout_pattern customLayout_hint_layout by blast

lemma resolveLayout_hint_layout: "resolveLayout mode pat = Inr l \<Longrightarrow> hint_layout l"
  by (auto simp: resolveLayout_def Let_def newCustomLayout_hint_layout ascii.hint_layout_axioms
      entropy.hint_layout_axioms split: if_splits)

text \<open>The error for an empty padding pool is never returned.\<close>

lemma newCustomLayout_pool_error: "newCustomLayout pattern \<noteq> Inl (ErrMsg ''custom table produced empty padding pool'')"
proof
  assume "newCustomLayout pattern = Inl (ErrMsg ''custom table produced empty padding pool'')"
  moreover have "classifyBits i cs acc \<noteq> Inl (ErrMsg ''custom table produced empty padding pool'')" for i cs acc
    by (induction i cs acc rule: classifyBits.induct) (auto simp: Let_def)
  ultimately obtain xb pb vb where
    c: "classifyBits 0 (ToLower (removeChar CHR '' '' (TrimSpace pattern))) ([], [], []) = Inr (xb, pb, vb)"
      "length (ToLower (removeChar CHR '' '' (TrimSpace pattern))) = 8"
    and len: "length xb = 2" "length pb = 2" "length vb = 4" and "customPadding xb pb vb = []"
    unfolding newCustomLayout_def Let_def by (auto split: if_splits sum.splits prod.splits)
  moreover have "pattern_ok xb pb vb"
    using classifyBits_lists [OF c(1)] c(2) len by (simp add: pattern_ok_def)
  ultimately show False using customPadding_two by fastforce
qed

section \<open>Properties\<close>

text \<open>
  In every layout the configuration can select, built in or custom, a six-bit group is written as
  a hint byte that decodes back to it, a hint byte decodes to the value and position it was made from,
  padding bytes and the padding marker are never hint bytes, and padding other than the marker exists.
\<close>

theorem resolved_layout_sound:
  assumes "resolveLayout mode pat = Inr l"
  shows "(\<forall>g < 64. groupValid l (groupByte l g) \<and> decodeGroup l (groupByte l g) = g)
    \<and> (\<forall>v < 4. \<forall>p < 16. hintTable l (hintByte l v p) \<and> decodeGroup l (hintByte l v p) = push_bit 4 v OR p)
    \<and> (\<forall>b \<in> set (padMarker l # paddingPool l). \<not> hintTable l b)
    \<and> (\<exists>b \<in> set (paddingPool l). b \<noteq> padMarker l)"
proof -
  have l: "hint_layout l" by (rule resolveLayout_hint_layout [OF assms])
  have g: "g AND 63 = g" if "g < 64" for g :: byte
    by (rule byte_below_64 [where P = "\<lambda>g. g AND 63 = g", OF _ that]) (simp add: upt_conv_Cons)
  have v: "v AND 3 = v" if "v < 4" for v :: byte
    by (rule byte_below_4 [where P = "\<lambda>g. g AND 3 = g", OF _ that]) (simp add: upt_conv_Cons)
  have p: "p AND 15 = p" if "p < 16" for p :: byte
    by (rule byte_below_16 [where P = "\<lambda>g. g AND 15 = g", OF _ that]) (simp add: upt_conv_Cons)
  have "\<exists>b \<in> set (paddingPool l). b \<noteq> padMarker l"
    using hint_layout.pool_without_marker [OF l] by (auto simp: filter_empty_conv)
  then show ?thesis
    using hint_layout.group_is_hint [OF l] hint_layout.group_roundtrip [OF l] hint_layout.valid_groups [OF l]
      hint_layout.hint_hint [OF l] hint_layout.hint_decode [OF l] hint_layout.pool_padding [OF l]
      hint_layout.marker_padding [OF l]
    by (simp add: groupByte_def hintByte_def g v p)
qed

theorem resolved_layout_sound_witness:
  "\<exists>l. resolveLayout ''prefer_ascii'' '''' = Inr l \<and> decodeGroup l (groupByte l 63) = 63 \<and> \<not> hintTable l (padMarker l)"
proof -
  have r: "resolveLayout ''prefer_ascii'' '''' = Inr newASCIILayout" by code_simp
  show ?thesis using resolved_layout_sound [OF r] r by simp
qed

text \<open>
  The error for an empty padding pool is unreachable: a custom pattern is rejected only for its
  length, a character, or the numbers of \<open>x\<close>, \<open>p\<close> and \<open>v\<close>.
\<close>

theorem custom_layout_errors:
  "newCustomLayout pat \<noteq> Inl (ErrMsg ''custom table produced empty padding pool'')"
  by (rule newCustomLayout_pool_error)

end
