(* ===== verification/Rand.thy ===== *)
theory Rand
  imports Prelude
begin

text \<open>
  The codec's pseudo-random generator and the choice of the padding threshold
  (\<open>pkg/obfs/sudoku/rand.go\<close>, \<open>padding_prob.go\<close>).
\<close>

section \<open>sudokuRand\<close>

record sudokuRand =
  state :: u64
  cached :: u32
  haveCached :: bool

definition newSudokuRand :: "u64 \<Rightarrow> sudokuRand" where
  "newSudokuRand seed =
    (let st = (if seed = 0 then 0x9e3779b97f4a7c15 else seed)
     in \<lparr>state = st, cached = 0, haveCached = False\<rparr>)"

text \<open>The seed is eight bytes of \<open>crypto/rand\<close>, the clock when they cannot be read (\<open>None\<close>).\<close>

definition newSeededRand :: "u64 \<Rightarrow> bytes option \<Rightarrow> sudokuRand" where
  "newSeededRand now entropy =
    newSudokuRand (case entropy of None \<Rightarrow> now | Some seedBytes \<Rightarrow> Uint64 seedBytes)"

definition xorshift :: "u64 \<Rightarrow> u64" where
  "xorshift x0 =
    (let x1 = x0 XOR drop_bit 12 x0;
         x2 = x1 XOR push_bit 25 x1;
         x3 = x2 XOR drop_bit 27 x2
     in x3)"

definition rand_Uint64 :: "sudokuRand \<Rightarrow> u64 \<times> sudokuRand" where
  "rand_Uint64 r =
    (let x = xorshift (state r)
     in (x * 0x2545f4914f6cdd1d, r\<lparr>haveCached := False, state := x\<rparr>))"

definition rand_Uint32 :: "sudokuRand \<Rightarrow> u32 \<times> sudokuRand" where
  "rand_Uint32 r =
    (if haveCached r then (cached r, r\<lparr>haveCached := False\<rparr>)
     else let (v, r') = rand_Uint64 r
          in (ucast (drop_bit 32 v), r'\<lparr>cached := ucast v, haveCached := True\<rparr>))"

definition fastIntnFromUint32 :: "u32 \<Rightarrow> nat \<Rightarrow> nat" where
  "fastIntnFromUint32 u n = unat (drop_bit 32 (ucast u * (of_nat n :: u64)))"

definition rand_Intn :: "nat \<Rightarrow> sudokuRand \<Rightarrow> nat \<times> sudokuRand" where
  "rand_Intn n r =
    (if n \<le> 1 then (0, r)
     else let (u, r') = rand_Uint32 r in (fastIntnFromUint32 u n, r'))"

lemma fastIntn_less:
  assumes "0 < n" "n < 2 ^ 32"
  shows "fastIntnFromUint32 u n < n"
proof -
  have u: "unat (ucast u :: u64) = unat u" "unat u < 2 ^ 32"
    using unat_u32_less [of u] by simp_all
  have n: "unat (of_nat n :: u64) = n" using assms by (simp add: unat_of_nat)
  have "unat u * n < 2 ^ 32 * n" using u(2) assms(1) by simp
  moreover have "2 ^ 32 * n < 18446744073709551616" using assms(2) by simp
  ultimately have "unat u * n < 18446744073709551616" by (rule less_trans)
  then have "unat (ucast u * (of_nat n :: u64)) = unat u * n"
    using unat_mult_u64 [of "ucast u" "of_nat n"] n by simp
  then have "fastIntnFromUint32 u n = unat u * n div 2 ^ 32"
    by (simp only: fastIntnFromUint32_def unat_drop_bit_div)
  also have "\<dots> < n" using \<open>unat u * n < 2 ^ 32 * n\<close> by (simp add: less_mult_imp_div_less mult.commute)
  finally show ?thesis .
qed

lemma rand_Intn_less: "0 < n \<Longrightarrow> n < 2 ^ 32 \<Longrightarrow> fst (rand_Intn n r) < n"
  by (simp add: rand_Intn_def fastIntn_less split: prod.splits)

lemma shift_right_fix: "0 < k \<Longrightarrow> x = drop_bit k x \<Longrightarrow> x = 0" for x :: u64
proof -
  assume k: "0 < k" and eq: "x = drop_bit k x"
  have "unat x = unat x div 2 ^ k" by (metis eq unat_drop_bit_eq drop_bit_eq_div)
  then have "unat x = 0" using k by (metis div_less_dividend gr0I one_less_numeral_iff one_less_power semiring_norm(76) less_irrefl)
  then show ?thesis by (simp add: unat_eq_0)
qed

lemma shift_left_fix: "0 < k \<Longrightarrow> x = push_bit k x \<Longrightarrow> x = 0" for x :: u64
proof -
  assume k: "0 < k" and eq: "x = push_bit k x"
  have "\<not> bit x n" for n
  proof (induction n rule: less_induct)
    case (less n)
    have "bit x n \<longleftrightarrow> k \<le> n \<and> n < 64 \<and> bit x (n - k)"
      by (subst eq) (simp add: bit_push_bit_iff)
    with less [of "n - k"] k show ?case by auto
  qed
  then show ?thesis by (simp add: bit_eq_iff)
qed

lemma word_xor_eq_0_iff: "a XOR b = 0 \<longleftrightarrow> a = b" for a b :: u64
  by (auto simp: bit_eq_iff bit_xor_iff)

text \<open>The generator never reaches the all-zero state, in which it would be stuck.\<close>

lemma xorshift_nonzero: "x \<noteq> 0 \<Longrightarrow> xorshift x \<noteq> 0"
proof -
  assume "x \<noteq> 0"
  define x1 where "x1 = x XOR drop_bit 12 x"
  define x2 where "x2 = x1 XOR push_bit 25 x1"
  have "x1 \<noteq> 0" unfolding x1_def word_xor_eq_0_iff using \<open>x \<noteq> 0\<close> shift_right_fix [of 12 x] by auto
  then have "x2 \<noteq> 0" unfolding x2_def word_xor_eq_0_iff using shift_left_fix [of 25 x1] by auto
  then have "x2 XOR drop_bit 27 x2 \<noteq> 0" unfolding word_xor_eq_0_iff using shift_right_fix [of 27 x2] by auto
  then show ?thesis by (simp add: xorshift_def x1_def x2_def Let_def)
qed

section \<open>The padding threshold\<close>

definition probOne :: u64 where
  "probOne = 2 ^ 32"

definition clampPercent :: "int \<Rightarrow> int \<Rightarrow> int \<times> int" where
  "clampPercent pMin0 pMax0 =
    (let pMin1 = (if pMin0 < 0 then 0 else pMin0);
         pMax1 = (if pMax0 < pMin1 then pMin1 else pMax0);
         pMax2 = (if 100 < pMax1 then 100 else pMax1);
         pMin2 = (if 100 < pMin1 then 100 else pMin1)
     in (pMin2, pMax2))"

definition pickPaddingThreshold :: "sudokuRand \<Rightarrow> int \<Rightarrow> int \<Rightarrow> u64 \<times> sudokuRand" where
  "pickPaddingThreshold r pMin0 pMax0 =
    (let (pMin, pMax) = clampPercent pMin0 pMax0;
         min = of_int pMin * probOne div 100;
         max = of_int pMax * probOne div 100
     in if max \<le> min then (min, r)
        else let (u, r') = rand_Uint32 r
             in (min + drop_bit 32 (ucast u * (max - min)), r'))"


lemma clampPercent_bounds:
  "clampPercent a b = (lo, hi) \<Longrightarrow> 0 \<le> lo \<and> lo \<le> hi \<and> hi \<le> 100"
  by (auto simp: clampPercent_def Let_def split: if_splits)

lemma percent_of_one:
  assumes "0 \<le> p" "p \<le> 100"
  shows "unat ((of_int p * probOne :: u64) div 100) = nat p * 2 ^ 32 div 100"
proof -
  have p: "unat (of_int p :: u64) = nat p"
    using assms by (simp add: unsigned_of_int take_bit_int_eq_self)
  have "nat p * 2 ^ 32 < 2 ^ (64::nat)" using assms by simp
  then have "unat (of_int p * probOne :: u64) = nat p * 2 ^ 32"
    by (simp add: unat_word_ariths p probOne_def)
  then show ?thesis by (simp add: unat_div)
qed

lemma scaled_gap_less:
  assumes "unat (d :: u64) \<le> 2 ^ 32"
  shows "unat (drop_bit 32 (ucast (u :: u32) * d)) \<le> unat d"
proof -
  have u: "unat (ucast u :: u64) = unat u" "unat u < 2 ^ 32"
    using unat_u32_less [of u] by simp_all
  have "unat u * unat d \<le> (2 ^ 32 - 1) * 2 ^ 32" using u(2) assms by (intro mult_le_mono) simp_all
  then have "unat (ucast u * d) = unat u * unat d"
    by (simp add: unat_word_ariths u)
  then have "unat (drop_bit 32 (ucast u * d)) = unat u * unat d div 2 ^ 32"
    by (simp only: unat_drop_bit_div)
  also have "\<dots> \<le> 2 ^ 32 * unat d div 2 ^ 32"
    using u(2) by (intro div_le_mono mult_le_mono) simp_all
  finally show ?thesis by simp
qed

lemma pickPaddingThreshold_bounds:
  assumes "clampPercent a b = (lo, hi)"
  shows "nat lo * 2 ^ 32 div 100 \<le> unat (fst (pickPaddingThreshold r a b))
       \<and> unat (fst (pickPaddingThreshold r a b)) \<le> nat hi * 2 ^ 32 div 100"
proof -
  note bs = clampPercent_bounds [OF assms]
  let ?mn = "(of_int lo * probOne :: u64) div 100" and ?mx = "(of_int hi * probOne :: u64) div 100"
  have mn: "unat ?mn = nat lo * 2 ^ 32 div 100" using bs by (intro percent_of_one) auto
  have mx: "unat ?mx = nat hi * 2 ^ 32 div 100" using bs by (intro percent_of_one) auto
  have le: "unat ?mn \<le> unat ?mx" unfolding mn mx using bs by (intro div_le_mono mult_le_mono1) auto
  have "nat hi \<le> 100" using bs by auto
  then have mx2: "unat ?mx \<le> 2 ^ 32" unfolding mx by simp
  show ?thesis
  proof (cases "?mx \<le> ?mn")
    case True
    then have "fst (pickPaddingThreshold r a b) = ?mn"
      by (simp add: pickPaddingThreshold_def assms)
    with mn mx le show ?thesis by simp
  next
    case False
    obtain u r' where ur: "rand_Uint32 r = (u, r')" by fastforce
    let ?t = "drop_bit 32 (ucast u * (?mx - ?mn))"
    have th: "fst (pickPaddingThreshold r a b) = ?mn + ?t"
      using False by (simp add: pickPaddingThreshold_def assms ur Let_def)
    have d: "unat (?mx - ?mn) = unat ?mx - unat ?mn"
      using False by (simp add: unat_sub not_le less_imp_le)
    then have t: "unat ?t \<le> unat ?mx - unat ?mn"
      using scaled_gap_less [of "?mx - ?mn" u] mx2 by simp
    then have "unat (?mn + ?t) = unat ?mn + unat ?t"
      using mx2 le by (intro unat_add_u64) simp
    moreover have "unat ?mn + unat ?t \<le> unat ?mx" using t le by simp
    ultimately show ?thesis unfolding th mn [symmetric] mx [symmetric] by simp
  qed
qed

section \<open>Properties\<close>

text \<open>
  The padding threshold lies between the clamped percentages of \<open>probOne\<close>, whatever integers the
  configuration gives, and never exceeds \<open>probOne\<close>.
\<close>

theorem padding_threshold_in_range:
  "nat (fst (clampPercent pMin pMax)) * 2 ^ 32 div 100 \<le> unat (fst (pickPaddingThreshold r pMin pMax))
    \<and> unat (fst (pickPaddingThreshold r pMin pMax)) \<le> nat (snd (clampPercent pMin pMax)) * 2 ^ 32 div 100
    \<and> fst (pickPaddingThreshold r pMin pMax) \<le> probOne"
proof -
  obtain lo hi where c: "clampPercent pMin pMax = (lo, hi)" by (metis surj_pair)
  have "nat hi \<le> 100" using clampPercent_bounds [OF c] by auto
  then have "nat hi * 2 ^ 32 div 100 \<le> 2 ^ 32" by simp
  then show ?thesis
    using pickPaddingThreshold_bounds [OF c, of r] by (simp add: c probOne_def word_le_nat_alt)
qed

text \<open>
  A random index is always inside a non-empty slice of fewer than 2^32 elements, and drawing it
  never brings the generator into its stuck all-zero state.
\<close>

theorem random_index_in_range:
  assumes "0 < n" "n < 2 ^ 32" "state r \<noteq> 0"
  shows "fst (rand_Intn n r) < n \<and> state (snd (rand_Intn n r)) \<noteq> 0"
proof -
  have "state (snd (rand_Uint32 r)) \<noteq> 0"
    using assms(3) xorshift_nonzero by (simp add: rand_Uint32_def rand_Uint64_def Let_def)
  then have "state (snd (rand_Intn n r)) \<noteq> 0"
    using assms(3) by (auto simp: rand_Intn_def split: prod.splits)
  then show ?thesis using rand_Intn_less [OF assms(1,2), of r] by simp
qed

theorem random_index_in_range_witness:
  "fst (rand_Intn 24 (newSudokuRand 0)) < 24 \<and> state (snd (rand_Intn 24 (newSudokuRand 0))) \<noteq> 0"
  using random_index_in_range [of 24 "newSudokuRand 0"] by (simp add: newSudokuRand_def)

end
