(* ===== verification/Pending.thy ===== *)
theory Pending
  imports Prelude
begin

text \<open>
  The buffer of decoded bytes that did not fit the caller's slice (\<open>pkg/obfs/sudoku/pending.go\<close>), a
  first-in first-out byte queue: the unread bytes are \<open>data[off:]\<close>. The interface is the locale
  \<open>byte_fifo\<close>, which the decoders' proofs use.
\<close>

record pendingBuffer =
  data :: bytes
  off :: nat
  capData :: nat

definition newPendingBuffer :: "nat \<Rightarrow> pendingBuffer" where
  "newPendingBuffer capacity = \<lparr>data = [], off = 0, capData = capacity\<rparr>"

definition available :: "pendingBuffer \<Rightarrow> nat" where
  "available p = length (data p) - off p"

definition reset :: "pendingBuffer \<Rightarrow> pendingBuffer" where
  "reset p = p\<lparr>data := take 0 (data p), off := 0\<rparr>"

definition ensureAppendCapacity :: "nat \<Rightarrow> pendingBuffer \<Rightarrow> pendingBuffer" where
  "ensureAppendCapacity extra p =
    (if extra \<le> 0 then p
     else if off p = 0 then p
     else if extra \<le> capData p - length (data p) then p
     else p\<lparr>data := drop (off p) (data p), off := 0\<rparr>)"

text \<open>
  \<open>append\<close> grows the capacity when it is used up; how far is the runtime's choice, and the capacity
  only decides when the unread bytes move to the front. Here it grows to the length needed.
\<close>

definition appendByte :: "byte \<Rightarrow> pendingBuffer \<Rightarrow> pendingBuffer" where
  "appendByte b p0 =
    (let p = ensureAppendCapacity 1 p0
     in p\<lparr>data := data p @ [b], capData := max (capData p) (length (data p) + 1)\<rparr>)"

text \<open>
  The caller's slice is its length \<open>n\<close> and the bytes \<open>out\<close> stored so far.
\<close>

definition appendDecodedByte :: "nat \<Rightarrow> bytes \<Rightarrow> pendingBuffer \<Rightarrow> byte \<Rightarrow> bytes \<times> pendingBuffer" where
  "appendDecodedByte n out pending b =
    (if length out < n then (out @ [b], pending) else (out, appendByte b pending))"

definition drainPending :: "nat \<Rightarrow> pendingBuffer \<Rightarrow> bytes option \<times> pendingBuffer" where
  "drainPending n p =
    (if available p = 0 then (None, p)
     else let chunk = take n (drop (off p) (data p));
              p1 = p\<lparr>off := off p + length chunk\<rparr>
          in (Some chunk, if off p1 = length (data p1) then reset p1 else p1))"

section \<open>The interface\<close>

locale byte_fifo =
  fixes ok :: "'q \<Rightarrow> bool" and contents :: "'q \<Rightarrow> bytes"
    and put :: "byte \<Rightarrow> 'q \<Rightarrow> 'q" and get :: "nat \<Rightarrow> 'q \<Rightarrow> bytes option \<times> 'q"
  assumes put_ok: "ok q \<Longrightarrow> ok (put b q)"
    and put_contents: "ok q \<Longrightarrow> contents (put b q) = contents q @ [b]"
    and get_ok: "ok q \<Longrightarrow> ok (snd (get n q))"
    and get_contents: "ok q \<Longrightarrow> contents (snd (get n q)) = drop n (contents q)"
    and get_out: "ok q \<Longrightarrow> fst (get n q) = (if contents q = [] then None else Some (take n (contents q)))"
begin

lemma get_result:
  assumes "ok q" "get n q = (r, q')"
  shows "ok q' \<and> contents q' = drop n (contents q) \<and> r = (if contents q = [] then None else Some (take n (contents q)))"
  using get_ok [OF assms(1), of n] get_contents [OF assms(1), of n] get_out [OF assms(1), of n] assms(2) by simp

lemma get_conserves:
  assumes "ok q" "get n q = (r, q')"
  shows "ok q' \<and> contents q = (case r of None \<Rightarrow> [] | Some bs \<Rightarrow> bs) @ contents q' \<and> (r = None \<longleftrightarrow> contents q = [])
    \<and> (\<forall>bs. r = Some bs \<longrightarrow> length bs \<le> n \<and> (0 < n \<longrightarrow> bs \<noteq> []))"
  using get_result [OF assms] by auto

end

definition pending_ok :: "pendingBuffer \<Rightarrow> bool" where
  "pending_ok p \<longleftrightarrow> off p \<le> length (data p) \<and> (off p = length (data p) \<longrightarrow> off p = 0)"

definition unread :: "pendingBuffer \<Rightarrow> bytes" where
  "unread p = drop (off p) (data p)"

interpretation pending: byte_fifo pending_ok unread appendByte drainPending
proof
  fix q b n assume q: "pending_ok q"
  then show "pending_ok (appendByte b q)" "unread (appendByte b q) = unread q @ [b]"
    by (auto simp: pending_ok_def unread_def appendByte_def ensureAppendCapacity_def Let_def)
  show "pending_ok (snd (drainPending n q))" "unread (snd (drainPending n q)) = drop n (unread q)"
    "fst (drainPending n q) = (if unread q = [] then None else Some (take n (unread q)))"
    using q by (auto simp: pending_ok_def unread_def drainPending_def available_def reset_def Let_def min_def add.commute)
qed

lemma unread_new [simp]: "unread (newPendingBuffer n) = []" "pending_ok (newPendingBuffer n)"
  by (simp_all add: unread_def newPendingBuffer_def pending_ok_def)

lemma appendDecodedByte_order:
  assumes "pending_ok pd" "appendDecodedByte n out pd b = (out', pd')" "unread pd = [] \<or> length out = n" "length out \<le> n"
  shows "pending_ok pd' \<and> out' @ unread pd' = out @ unread pd @ [b] \<and> length out' \<le> n
    \<and> (unread pd' = [] \<or> length out' = n) \<and> length out \<le> length out'"
  using assms pending.put_ok pending.put_contents by (auto simp: appendDecodedByte_def split: if_splits)

end
