(* ===== verification/PackedBits.thy ===== *)
theory PackedBits
  imports Layout Rand Pending
begin

text \<open>
  Bit streams for the packed codec: the bits of a word, most significant first, bytes read off a bit
  list, and the lemmas that relate the shift register of \<open>packed.go\<close> to them.
\<close>

definition bits_of :: "nat \<Rightarrow> 'a::len word \<Rightarrow> bool list" where
  "bits_of n w = map (bit w) (rev [0..<n])"

definition byte_of :: "bool list \<Rightarrow> byte" where
  "byte_of bs = horner_sum of_bool 2 (rev bs)"

function bytes_from :: "bool list \<Rightarrow> bytes \<times> bool list" where
  "bytes_from bs =
    (if length bs < 8 then ([], bs)
     else let (out, rest) = bytes_from (drop 8 bs) in (byte_of (take 8 bs) # out, rest))"
  by auto
termination by (relation "measure length") auto

declare bytes_from.simps [simp del]

definition bytes_bits :: "bytes \<Rightarrow> bool list" where
  "bytes_bits p = concat (map (bits_of 8) p)"

lemma length_bits_of [simp]: "length (bits_of n w) = n"
  by (simp add: bits_of_def)

lemma bits_of_0 [simp]: "bits_of 0 w = []"
  by (simp add: bits_of_def)

lemma nth_bits_of: "i < n \<Longrightarrow> bits_of n w ! i = bit w (n - Suc i)"
  by (simp add: bits_of_def rev_nth)

lemma bits_of_eqI: "(\<And>i. i < n \<Longrightarrow> bit v i = bit w i) \<Longrightarrow> bits_of n v = bits_of n w"
  by (simp add: bits_of_def)

lemma bits_of_add: "bits_of (n + k) w = bits_of n (drop_bit k w) @ bits_of k w"
proof (rule nth_equalityI)
  fix i assume "i < length (bits_of (n + k) w)"
  then show "bits_of (n + k) w ! i = (bits_of n (drop_bit k w) @ bits_of k w) ! i"
    by (auto simp: nth_append nth_bits_of bit_drop_bit_eq add.commute)
qed simp

lemma bits_of_8: "bits_of 8 w = [bit w 7, bit w 6, bit w 5, bit w 4, bit w 3, bit w 2, bit w 1, bit w 0]"
  by (simp add: bits_of_def upt_conv_Cons eval_nat_numeral)

lemma bits_of_6: "bits_of 6 w = [bit w 5, bit w 4, bit w 3, bit w 2, bit w 1, bit w 0]"
  by (simp add: bits_of_def upt_conv_Cons eval_nat_numeral)

lemma byte_of_bits_of [simp]: "byte_of (bits_of 8 b) = b" for b :: byte
proof -
  have "rev (bits_of 8 b) = map (bit b) [0..<8]" by (simp add: bits_of_def rev_map del: upt_rec_numeral)
  then show ?thesis
    by (simp add: byte_of_def horner_sum_bit_eq_take_bit take_bit_word_eq_self del: upt_rec_numeral)
qed

lemma bytes_from_short: "length bs < 8 \<Longrightarrow> bytes_from bs = ([], bs)"
  by (simp add: bytes_from.simps)

lemma bytes_from_byte: "bytes_from (bits_of 8 b @ bs) = (b # fst (bytes_from bs), snd (bytes_from bs))" for b :: byte
  by (simp add: bytes_from.simps [of "bits_of 8 b @ bs"] split: prod.split)

lemma bytes_from_bytes:
  "length rest < 8 \<Longrightarrow> bytes_from (bytes_bits p @ rest) = (p, rest)"
  by (induction p) (simp_all add: bytes_bits_def bytes_from_short bytes_from_byte)

lemma bytes_bits_append [simp]: "bytes_bits (p @ q) = bytes_bits p @ bytes_bits q" "bytes_bits [] = []"
  "bytes_bits (b # p) = bits_of 8 b @ bytes_bits p"
  by (simp_all add: bytes_bits_def)

section \<open>The shift register\<close>

lemma bits_push:
  fixes w :: u64 and v :: "'a::len word"
  assumes "n + k \<le> 64" "\<And>i. k \<le> i \<Longrightarrow> \<not> bit v i"
  shows "bits_of (n + k) (push_bit k w OR ucast v) = bits_of n w @ bits_of k v"
proof -
  have "bits_of n (drop_bit k (push_bit k w OR ucast v)) = bits_of n w"
    using assms by (intro bits_of_eqI) (auto simp: bit_simps)
  moreover have "bits_of k (push_bit k w OR ucast v) = bits_of k v"
    using assms(1) by (intro bits_of_eqI) (auto simp: bit_simps)
  ultimately show ?thesis by (simp add: bits_of_add)
qed

lemma bits_push_byte: "n + 8 \<le> 64 \<Longrightarrow> bits_of (n + 8) (push_bit 8 w OR ucast (b :: byte)) = bits_of n w @ bits_of 8 b" for w :: u64
  by (rule bits_push) (simp_all add: bit_byte_out)

lemma bits_push_group:
  fixes w :: u64 and g :: byte
  assumes "n + 6 \<le> 64" "g < 64"
  shows "bits_of (n + 6) (push_bit 6 w OR ucast g) = bits_of n w @ bits_of 6 g"
proof (rule bits_push [OF assms(1)])
  show "\<not> bit g i" if "6 \<le> i" for i
    using bits_below [of g 6 i] assms(2) that by (auto simp: word_less_nat_alt)
qed

lemma bits_masked: "bits_of k (w AND (push_bit k 1 - 1)) = bits_of k w" for w :: u64
  by (rule bits_of_eqI) (auto simp: bit_simps dest: bit_imp_le_length simp flip: mask_eq_exp_minus_1)

lemma bits_take_group: "bits_of 6 (ucast (drop_bit k w) AND 63 :: byte) = bits_of 6 (drop_bit k w)" for w :: u64
proof (rule bits_of_eqI)
  fix i :: nat assume "i < 6"
  moreover have m: "(63 :: byte) = mask 6" by (simp add: mask_eq_exp_minus_1)
  ultimately show "bit (ucast (drop_bit k w) AND 63 :: byte) i = bit (drop_bit k w) i"
    unfolding m by (simp add: bit_simps)
qed

lemma bits_take_byte: "bits_of 8 (ucast (drop_bit k w) :: byte) = bits_of 8 (drop_bit k w)" for w :: u64
  by (rule bits_of_eqI) (auto simp: bit_simps)

lemma bits_split_byte:
  "bits_of (8 + k) w = bits_of 8 (ucast (drop_bit k w) :: byte) @ bits_of k (if k = 0 then 0 else w AND (push_bit k 1 - 1))"
  for w :: u64
  unfolding bits_of_add bits_take_byte using bits_masked [of k w] by (cases "k = 0") (simp_all only: bits_of_0 if_True if_False)

end
