(* ===== verification/PackedCodec.thy ===== *)
theory PackedCodec
  imports PackedBits
begin

text \<open>
  The packed codec (\<open>pkg/obfs/sudoku/packed.go\<close>): payload bits go out in groups of six, each one hint
  byte, with padding between them; the padding marker ends a write whose last group is partly filled.
  The encoding functions return the bytes they append and thread the generator and the shift
  register \<open>(bitBuf, bitCount)\<close>. The reference decoder reads groups bit by bit; what a write emits
  decodes to its payload, and the read loop with its four-group fast path is equal to the reference.
\<close>

section \<open>Encoding\<close>

definition packedProtectedPrefixBytes :: nat where
  "packedProtectedPrefixBytes = 14"

type_synonym shift_reg = "u64 \<times> nat"

definition maybeAppendPackedPadding :: "u64 \<Rightarrow> bytes \<Rightarrow> sudokuRand \<Rightarrow> bytes \<times> sudokuRand" where
  "maybeAppendPackedPadding threshold padPool r =
    (if threshold \<noteq> 0 then
       let (u, r1) = rand_Uint32 r in
       if ucast u < threshold
       then let (v, r2) = rand_Uint32 r1 in ([padPool ! fastIntnFromUint32 v (length padPool)], r2)
       else ([], r1)
     else ([], r))"

definition appendPackedGroup :: "byteLayout \<Rightarrow> u64 \<Rightarrow> bytes \<Rightarrow> byte \<Rightarrow> sudokuRand \<Rightarrow> bytes \<times> sudokuRand" where
  "appendPackedGroup l threshold padPool grp r =
    (let (out, r1) =
       (if threshold \<noteq> 0 then
          let (u, r1) = rand_Uint32 r in
          if ucast u < threshold
          then let (v, r2) = rand_Uint32 r1 in ([padPool ! fastIntnFromUint32 v (length padPool)], r2)
          else ([], r1)
        else ([], r))
     in (out @ [encodeGroup l (grp AND 0x3F)], r1))"

definition getPaddingByte :: "bytes \<Rightarrow> sudokuRand \<Rightarrow> byte \<times> sudokuRand" where
  "getPaddingByte padPool r = (let (k, r1) = rand_Intn (length padPool) r in (padPool ! k, r1))"

definition nextProtectedPrefixGap :: "sudokuRand \<Rightarrow> nat \<times> sudokuRand" where
  "nextProtectedPrefixGap r = (let (k, r1) = rand_Intn 2 r in (1 + k, r1))"

text \<open>\<open>for pc.bitCount >= 6\<close>: the groups that are complete leave the shift register.\<close>

function emitGroups :: "byteLayout \<Rightarrow> u64 \<Rightarrow> bytes \<Rightarrow> shift_reg \<Rightarrow> sudokuRand \<Rightarrow> bytes \<times> shift_reg \<times> sudokuRand" where
  "emitGroups l threshold padPool (bitBuf, bitCount) r =
    (if 6 \<le> bitCount then
       let cnt = bitCount - 6;
           grp = ucast (drop_bit cnt bitBuf) :: byte;
           buf = (if cnt = 0 then 0 else bitBuf AND (push_bit cnt 1 - 1));
           (o1, r1) = appendPackedGroup l threshold padPool grp r;
           (o2, reg, r2) = emitGroups l threshold padPool (buf, cnt) r1
       in (o1 @ o2, reg, r2)
     else ([], (bitBuf, bitCount), r))"
  by pat_completeness auto
termination
  by (relation "measure (\<lambda>(l, th, pool, (buf, cnt), r). cnt)") auto

declare emitGroups.simps [simp del]

definition pushByte :: "byteLayout \<Rightarrow> u64 \<Rightarrow> bytes \<Rightarrow> byte \<Rightarrow> shift_reg \<Rightarrow> sudokuRand \<Rightarrow> bytes \<times> shift_reg \<times> sudokuRand" where
  "pushByte l threshold padPool b reg r =
    (case reg of (bitBuf, bitCount) \<Rightarrow>
       emitGroups l threshold padPool (push_bit 8 bitBuf OR ucast b, bitCount + 8) r)"

text \<open>
  The padding in front of a write; the bound of the loop is drawn anew in each round, so that there
  are one or two bytes.
\<close>

function forcedPads :: "bytes \<Rightarrow> nat \<Rightarrow> sudokuRand \<Rightarrow> bytes \<times> sudokuRand" where
  "forcedPads padPool padCount r =
    (let (k, r1) = rand_Intn 2 r in
     if padCount < 1 + k then
       let (pd, r2) = getPaddingByte padPool r1; (rest, r3) = forcedPads padPool (padCount + 1) r2
       in (pd # rest, r3)
     else ([], r1))"
  by pat_completeness auto
termination
proof (relation "measure (\<lambda>(pool, k, r). 2 - k)", goal_cases)
  case (2 pool k r x xa y xb xc yb)
  have "fst (rand_Intn 2 r) < 2" using rand_Intn_less [of 2 r] by simp
  then have "xa < 2" using 2(1,2) by (metis fst_conv)
  then show ?case using 2(3) by simp
qed simp

declare forcedPads.simps [simp del]

fun prefixBytes :: "byteLayout \<Rightarrow> u64 \<Rightarrow> bytes \<Rightarrow> bytes \<Rightarrow> nat \<Rightarrow> nat \<Rightarrow> shift_reg \<Rightarrow> sudokuRand \<Rightarrow> bytes \<times> shift_reg \<times> sudokuRand" where
  "prefixBytes l threshold padPool [] effective gap reg r = ([], reg, r)"
| "prefixBytes l threshold padPool (b # p) effective gap reg r =
    (let (o1, reg1, r1) = pushByte l threshold padPool b reg r;
         effective1 = effective + 1
     in if gap \<le> effective1 then
          let (pd, r2) = getPaddingByte padPool r1;
              (gap1, r3) = nextProtectedPrefixGap r2;
              (o2, reg2, r4) = prefixBytes l threshold padPool p 0 gap1 reg1 r3
          in (o1 @ pd # o2, reg2, r4)
        else
          let (o2, reg2, r2) = prefixBytes l threshold padPool p effective1 gap reg1 r1
          in (o1 @ o2, reg2, r2))"

definition writeProtectedPrefix ::
  "byteLayout \<Rightarrow> u64 \<Rightarrow> bytes \<Rightarrow> bytes \<Rightarrow> shift_reg \<Rightarrow> sudokuRand \<Rightarrow> bytes \<times> nat \<times> shift_reg \<times> sudokuRand" where
  "writeProtectedPrefix l threshold padPool p reg r =
    (if p = [] then ([], 0, reg, r)
     else let limit = min (length p) packedProtectedPrefixBytes;
              (o1, r1) = forcedPads padPool 0 r;
              (gap, r2) = nextProtectedPrefixGap r1;
              (o2, reg1, r3) = prefixBytes l threshold padPool (take limit p) 0 gap reg r2
          in (o1 @ o2, limit, reg1, r3))"

text \<open>Step 2 of \<open>Write\<close>: bytes are pushed one by one until the shift register is empty.\<close>

fun alignBytes :: "byteLayout \<Rightarrow> u64 \<Rightarrow> bytes \<Rightarrow> bytes \<Rightarrow> shift_reg \<Rightarrow> sudokuRand \<Rightarrow> bytes \<times> bytes \<times> shift_reg \<times> sudokuRand" where
  "alignBytes l threshold padPool [] reg r = ([], [], reg, r)"
| "alignBytes l threshold padPool (b # p) reg r =
    (if 0 < snd reg then
       let (o1, r1) = maybeAppendPackedPadding threshold padPool r;
           (o2, reg1, r2) = pushByte l threshold padPool b reg r1;
           (o3, rest, reg2, r3) = alignBytes l threshold padPool p reg1 r2
       in (o1 @ o2 @ o3, rest, reg2, r3)
     else ([], b # p, reg, r))"

text \<open>Steps 3 and 4: three bytes are four groups.\<close>

definition packBlock :: "byteLayout \<Rightarrow> u64 \<Rightarrow> bytes \<Rightarrow> byte \<Rightarrow> byte \<Rightarrow> byte \<Rightarrow> sudokuRand \<Rightarrow> bytes \<times> sudokuRand" where
  "packBlock l threshold padPool b1 b2 b3 r =
    (let g1 = drop_bit 2 b1 AND 0x3F;
         g2 = push_bit 4 (b1 AND 0x03) OR (drop_bit 4 b2 AND 0x0F);
         g3 = push_bit 2 (b2 AND 0x0F) OR (drop_bit 6 b3 AND 0x03);
         g4 = b3 AND 0x3F;
         (o1, r1) = appendPackedGroup l threshold padPool g1 r;
         (o2, r2) = appendPackedGroup l threshold padPool g2 r1;
         (o3, r3) = appendPackedGroup l threshold padPool g3 r2;
         (o4, r4) = appendPackedGroup l threshold padPool g4 r3
     in (o1 @ o2 @ o3 @ o4, r4))"

fun packBlocks :: "byteLayout \<Rightarrow> u64 \<Rightarrow> bytes \<Rightarrow> nat \<Rightarrow> bytes \<Rightarrow> sudokuRand \<Rightarrow> bytes \<times> bytes \<times> sudokuRand" where
  "packBlocks l threshold padPool (Suc k) (b1 # b2 # b3 # p) r =
    (let (o1, r1) = packBlock l threshold padPool b1 b2 b3 r;
         (o2, rest, r2) = packBlocks l threshold padPool k p r1
     in (o1 @ o2, rest, r2))"
| "packBlocks l threshold padPool _ p r = ([], p, r)"

function packTwelves :: "byteLayout \<Rightarrow> u64 \<Rightarrow> bytes \<Rightarrow> bytes \<Rightarrow> sudokuRand \<Rightarrow> bytes \<times> bytes \<times> sudokuRand" where
  "packTwelves l threshold padPool p r =
    (if 11 < length p then
       let (o1, _, r1) = packBlocks l threshold padPool 4 (take 12 p) r;
           (o2, rest, r2) = packTwelves l threshold padPool (drop 12 p) r1
       in (o1 @ o2, rest, r2)
     else ([], p, r))"
  by pat_completeness auto
termination
  by (relation "measure (\<lambda>(l, th, pool, p, r). length p)") auto

declare packTwelves.simps [simp del]

fun packTriples :: "byteLayout \<Rightarrow> u64 \<Rightarrow> bytes \<Rightarrow> bytes \<Rightarrow> sudokuRand \<Rightarrow> bytes \<times> bytes \<times> sudokuRand" where
  "packTriples l threshold padPool (b1 # b2 # b3 # p) r =
    (let (o1, r1) = packBlock l threshold padPool b1 b2 b3 r;
         (o2, rest, r2) = packTriples l threshold padPool p r1
     in (o1 @ o2, rest, r2))"
| "packTriples l threshold padPool p r = ([], p, r)"

fun tailBytes :: "byteLayout \<Rightarrow> u64 \<Rightarrow> bytes \<Rightarrow> bytes \<Rightarrow> shift_reg \<Rightarrow> sudokuRand \<Rightarrow> bytes \<times> shift_reg \<times> sudokuRand" where
  "tailBytes l threshold padPool [] reg r = ([], reg, r)"
| "tailBytes l threshold padPool (b # p) reg r =
    (let (o1, reg1, r1) = pushByte l threshold padPool b reg r;
         (o2, reg2, r2) = tailBytes l threshold padPool p reg1 r1
     in (o1 @ o2, reg2, r2))"

definition residualGroup :: "shift_reg \<Rightarrow> byte" where
  "residualGroup reg = (case reg of (bitBuf, bitCount) \<Rightarrow> ucast (push_bit (6 - bitCount) bitBuf))"

definition flushResidual ::
  "byteLayout \<Rightarrow> u64 \<Rightarrow> bytes \<Rightarrow> byte \<Rightarrow> shift_reg \<Rightarrow> sudokuRand \<Rightarrow> bytes \<times> shift_reg \<times> sudokuRand" where
  "flushResidual l threshold padPool padMrk reg r =
    (if 0 < snd reg then
       let (o1, r1) = appendPackedGroup l threshold padPool (residualGroup reg) r
       in (o1 @ [padMrk], (0, 0), r1)
     else ([], reg, r))"

definition packedEncode ::
  "byteLayout \<Rightarrow> u64 \<Rightarrow> bytes \<Rightarrow> byte \<Rightarrow> bytes \<Rightarrow> shift_reg \<Rightarrow> sudokuRand \<Rightarrow> bytes \<times> shift_reg \<times> sudokuRand" where
  "packedEncode l threshold padPool padMrk p reg r =
    (let (o1, prefixN, reg1, r1) = writeProtectedPrefix l threshold padPool p reg r;
         (o2, p2, reg2, r2) = alignBytes l threshold padPool (drop prefixN p) reg1 r1;
         (o3, p3, r3) = packTwelves l threshold padPool p2 r2;
         (o4, p4, r4) = packTriples l threshold padPool p3 r3;
         (o5, reg5, r5) = tailBytes l threshold padPool p4 reg2 r4;
         (o6, reg6, r6) = flushResidual l threshold padPool padMrk reg5 r5;
         (o7, r7) = maybeAppendPackedPadding threshold padPool r6
     in (o1 @ o2 @ o3 @ o4 @ o5 @ o6 @ o7, reg6, r7))"

section \<open>The reference decoder\<close>

text \<open>
  \<open>decodeBitsFrom l m bs wire\<close>: the plaintext of the wire bytes when the bits \<open>bs\<close> are pending, and the
  bits pending after them. The marker \<open>m\<close> drops pending bits.
\<close>

fun decodeBitsFrom :: "byteLayout \<Rightarrow> byte \<Rightarrow> bool list \<Rightarrow> bytes \<Rightarrow> bytes \<times> bool list" where
  "decodeBitsFrom l m bs [] = ([], bs)"
| "decodeBitsFrom l m bs (b # w) =
    (if \<not> hintTable l b then decodeBitsFrom l m (if b = m then [] else bs) w
     else let bs' = bs @ bits_of 6 (decodeGroup l b) in
       if 8 \<le> length bs' then
         let (out, rest) = decodeBitsFrom l m (drop 8 bs') w in (byte_of (take 8 bs') # out, rest)
       else decodeBitsFrom l m bs' w)"

lemma decodeBitsFrom_append:
  "decodeBitsFrom l m bs (u @ w) =
    (let (o1, bs1) = decodeBitsFrom l m bs u; (o2, bs2) = decodeBitsFrom l m bs1 w in (o1 @ o2, bs2))"
  by (induction l m bs u rule: decodeBitsFrom.induct) (auto simp: Let_def split: prod.splits)

lemma decodeBitsFrom_then:
  "decodeBitsFrom l m bs u = (a, bs1) \<Longrightarrow> decodeBitsFrom l m bs1 w = (b, bs2) \<Longrightarrow> decodeBitsFrom l m bs (u @ w) = (a @ b, bs2)"
  by (simp add: decodeBitsFrom_append)

lemma decodeBitsFrom_short: "length bs < 8 \<Longrightarrow> length (snd (decodeBitsFrom l m bs w)) < 8"
  by (induction l m bs w rule: decodeBitsFrom.induct) (auto simp: Let_def split: prod.splits)

text \<open>\<open>carries l m w gs\<close>: the hint bytes of \<open>w\<close> are the groups \<open>gs\<close>, and the marker is not in \<open>w\<close>.\<close>

definition carries :: "byteLayout \<Rightarrow> byte \<Rightarrow> bytes \<Rightarrow> bytes \<Rightarrow> bool" where
  "carries l m w gs \<longleftrightarrow> filter (\<lambda>b. hintTable l b \<or> b = m) w = map (encodeGroup l) gs \<and> (\<forall>g \<in> set gs. g < 64)"

definition group_bits :: "bytes \<Rightarrow> bool list" where
  "group_bits gs = concat (map (bits_of 6) gs)"

lemma carries_Nil [simp]: "carries l m [] []"
  by (simp add: carries_def)

lemma carries_append: "carries l m u gs \<Longrightarrow> carries l m w hs \<Longrightarrow> carries l m (u @ w) (gs @ hs)"
  by (auto simp: carries_def)

lemma group_bits_append [simp]: "group_bits (gs @ hs) = group_bits gs @ group_bits hs" "group_bits [] = []"
  "group_bits (g # gs) = bits_of 6 g @ group_bits gs"
  by (simp_all add: group_bits_def)

text \<open>
  A layout together with the padding a packed connection draws from: bytes of the pool that are not
  the marker.
\<close>

locale packed_layout = hint_layout +
  fixes pool :: bytes
  assumes pool_only: "b \<in> set pool \<Longrightarrow> \<not> hintTable l b \<and> b \<noteq> padMarker l"
    and pool_some: "pool \<noteq> []"
    and pool_few: "length pool \<le> 256"
begin

lemma decode_carries:
  assumes "carries l (padMarker l) w gs" "length bs < 8"
  shows "decodeBitsFrom l (padMarker l) bs w = bytes_from (bs @ group_bits gs)"
  using assms
proof (induction w arbitrary: bs gs)
  case Nil
  then show ?case by (simp add: carries_def bytes_from_short)
next
  case (Cons b w)
  show ?case
  proof (cases "hintTable l b")
    case False
    then have "b \<noteq> padMarker l" "carries l (padMarker l) w gs"
      using Cons.prems(1) group_is_hint by (auto simp: carries_def Cons_eq_map_conv split: if_splits)
    then show ?thesis using Cons False by simp
  next
    case True
    then obtain g gs' where g: "gs = g # gs'" "b = encodeGroup l g" "g < 64" "carries l (padMarker l) w gs'"
      using Cons.prems(1) by (auto simp: carries_def Cons_eq_map_conv)
    let ?bs = "bs @ bits_of 6 g"
    have d: "decodeGroup l b = g" using g group_roundtrip by simp
    show ?thesis
    proof (cases "8 \<le> length ?bs")
      case True
      then have "bytes_from (bs @ group_bits gs) =
          (let (out, rest) = bytes_from (drop 8 ?bs @ group_bits gs') in (byte_of (take 8 ?bs) # out, rest))"
        using g by (subst bytes_from.simps) simp
      moreover have "length (drop 8 ?bs) < 8" using Cons.prems(2) by simp
      ultimately show ?thesis
        using Cons.IH [OF g(4), of "drop 8 ?bs"] True \<open>hintTable l b\<close> d by simp
    next
      case False
      then show ?thesis using Cons.IH [OF g(4), of ?bs] \<open>hintTable l b\<close> d g by simp
    qed
  qed
qed

lemma pool_pick: "pool ! fastIntnFromUint32 v (length pool) \<in> set pool"
  using fastIntn_less [of "length pool" v] pool_some pool_few by (intro nth_mem) simp

lemma carries_pad: "b \<in> set pool \<Longrightarrow> carries l (padMarker l) [b] []"
  using pool_only by (simp add: carries_def)

lemma carries_group: "g < 64 \<Longrightarrow> carries l (padMarker l) [encodeGroup l g] [g]"
  using group_is_hint by (simp add: carries_def)

lemma maybeAppendPackedPadding_carries:
  "maybeAppendPackedPadding th pool r = (w, r') \<Longrightarrow> carries l (padMarker l) w []"
  by (auto simp: maybeAppendPackedPadding_def Let_def carries_pad pool_pick split: if_splits prod.splits)

lemma and_63_less: "g AND 63 < 64" for g :: byte
  by (rule small_and)

lemma appendPackedGroup_carries:
  assumes "appendPackedGroup l th pool g r = (w, r')"
  shows "carries l (padMarker l) w [g AND 63]"
proof -
  obtain u where "w = u @ [encodeGroup l (g AND 63)]" "carries l (padMarker l) u []"
    using assms by (auto simp: appendPackedGroup_def Let_def carries_pad pool_pick split: if_splits prod.splits)
  then show ?thesis using carries_append [OF _ carries_group [OF and_63_less]] by fastforce
qed

lemma getPaddingByte_in: "getPaddingByte pool r = (b, r') \<Longrightarrow> b \<in> set pool"
  using rand_Intn_less [of "length pool" r] pool_some pool_few by (auto simp: getPaddingByte_def split: prod.splits)

lemma forcedPads_carries: "forcedPads pool k r = (w, r') \<Longrightarrow> carries l (padMarker l) w []"
proof (induction "2 - k" arbitrary: k r w r' rule: less_induct)
  case less
  obtain x r1 where x: "rand_Intn 2 r = (x, r1)" by (metis surj_pair)
  then have x2: "x < 2" using rand_Intn_less [of 2 r] by simp
  show ?case
  proof (cases "k < 1 + x")
    case True
    obtain pd r2 where pd: "getPaddingByte pool r1 = (pd, r2)" by (metis surj_pair)
    obtain rest r3 where rest: "forcedPads pool (Suc k) r2 = (rest, r3)" by (metis surj_pair)
    have "w = [pd] @ rest" using less.prems True by (simp add: forcedPads.simps [of pool k] x pd rest)
    moreover have "carries l (padMarker l) rest []" using less.hyps [OF _ rest] True x2 by simp
    ultimately show ?thesis using carries_append [OF carries_pad [OF getPaddingByte_in [OF pd]]] by fastforce
  next
    case False
    then show ?thesis using less.prems by (simp add: forcedPads.simps [of pool k] x)
  qed
qed

text \<open>
  \<open>sends w reg p reg'\<close>: the emitted bytes \<open>w\<close> carry the pending bits of \<open>reg\<close> and the bits of the
  payload bytes \<open>p\<close>, except those left pending in \<open>reg'\<close>.
\<close>

end

definition reg_bits :: "shift_reg \<Rightarrow> bool list" where
  "reg_bits reg = bits_of (snd reg) (fst reg)"

definition sends :: "byteLayout \<Rightarrow> bytes \<Rightarrow> shift_reg \<Rightarrow> bytes \<Rightarrow> shift_reg \<Rightarrow> bool" where
  "sends l w reg p reg' \<longleftrightarrow> snd reg' < 6
    \<and> (\<exists>gs. carries l (padMarker l) w gs \<and> reg_bits reg @ bytes_bits p = group_bits gs @ reg_bits reg')"

lemma sends_append:
  assumes "sends l u reg p reg1" "sends l w reg1 q reg2"
  shows "sends l (u @ w) reg (p @ q) reg2"
proof -
  obtain gs where gs: "carries l (padMarker l) u gs" "reg_bits reg @ bytes_bits p = group_bits gs @ reg_bits reg1"
    using assms(1) by (auto simp: sends_def)
  obtain hs where hs: "carries l (padMarker l) w hs" "reg_bits reg1 @ bytes_bits q = group_bits hs @ reg_bits reg2" "snd reg2 < 6"
    using assms(2) by (auto simp: sends_def)
  have "reg_bits reg @ bytes_bits (p @ q) = group_bits (gs @ hs) @ reg_bits reg2"
    using gs(2) hs(2) by (metis append_assoc bytes_bits_append(1) group_bits_append(1))
  then show ?thesis using carries_append [OF gs(1) hs(1)] hs(3) by (auto simp: sends_def)
qed

lemma sends_pads: "carries l (padMarker l) w [] \<Longrightarrow> snd reg < 6 \<Longrightarrow> sends l w reg [] reg"
  unfolding sends_def by (intro conjI exI [of _ "[]"]) simp_all

context packed_layout
begin

lemma emitGroups_carries:
  "emitGroups l th pool reg r = (w, reg', r') \<Longrightarrow>
    snd reg' < 6 \<and> (\<exists>gs. carries l (padMarker l) w gs \<and> reg_bits reg = group_bits gs @ reg_bits reg')"
proof (induction "snd reg" arbitrary: reg r w rule: less_induct)
  case less
  obtain buf cnt where reg: "reg = (buf, cnt)" by (metis surj_pair)
  show ?case
  proof (cases "6 \<le> cnt")
    case True
    define c where "c = cnt - 6"
    define buf' where "buf' = (if c = 0 then 0 else buf AND (push_bit c 1 - 1))"
    let ?g = "ucast (drop_bit c buf) :: byte"
    obtain o1 r1 where o1: "appendPackedGroup l th pool ?g r = (o1, r1)" by (metis surj_pair)
    obtain o2 reg2 r2 where o2: "emitGroups l th pool (buf', c) r1 = (o2, reg2, r2)" by (metis surj_pair)
    have w: "w = o1 @ o2" "reg' = reg2" "r' = r2"
      using less.prems True o1 o2
      unfolding reg emitGroups.simps [of l th pool buf cnt] Let_def c_def [symmetric] buf'_def [symmetric] by simp_all
    obtain gs where gs: "carries l (padMarker l) o2 gs" "reg_bits (buf', c) = group_bits gs @ reg_bits reg'" "snd reg' < 6"
      using less.hyps [OF _ o2 [folded w(2) w(3)]] True by (auto simp: reg c_def)
    have "bits_of c buf' = bits_of c buf" unfolding buf'_def using bits_masked [of c buf] by (cases "c = 0") simp_all
    moreover have "bits_of cnt buf = bits_of 6 (?g AND 63) @ bits_of c buf"
      using bits_of_add [of 6 c buf] True by (simp add: bits_take_group c_def)
    ultimately have "reg_bits reg = group_bits ((?g AND 63) # gs) @ reg_bits reg'"
      using gs(2) by (simp add: reg_bits_def reg)
    moreover have "carries l (padMarker l) w ((?g AND 63) # gs)"
      using carries_append [OF appendPackedGroup_carries [OF o1] gs(1)] w by simp
    ultimately show ?thesis using gs(3) by blast
  next
    case False
    then have "w = []" "reg' = reg" using less.prems by (simp_all add: emitGroups.simps [of l th pool buf cnt] reg)
    then show ?thesis using False by (auto simp: reg intro!: exI [of _ "[]"])
  qed
qed

lemma pushByte_sends:
  assumes "pushByte l th pool b reg r = (w, reg', r')" "snd reg < 6"
  shows "sends l w reg [b] reg'"
proof -
  have "reg_bits (push_bit 8 (fst reg) OR ucast b, snd reg + 8) = reg_bits reg @ bits_of 8 b"
    using assms(2) by (simp add: reg_bits_def bits_push_byte)
  then show ?thesis
    using emitGroups_carries [of th "(push_bit 8 (fst reg) OR ucast b, snd reg + 8)" r w reg' r'] assms(1)
    by (auto simp: pushByte_def sends_def split: prod.splits)
qed

lemma sends_reg: "sends l w reg p reg' \<Longrightarrow> snd reg' < 6"
  by (simp add: sends_def)

lemma prefixBytes_sends:
  "prefixBytes l th pool p e g reg r = (w, reg', r') \<Longrightarrow> snd reg < 6 \<Longrightarrow> sends l w reg p reg'"
proof (induction p arbitrary: e g reg r w)
  case Nil
  then show ?case by (simp add: sends_pads)
next
  case (Cons b p)
  obtain o1 reg1 r1 where o1: "pushByte l th pool b reg r = (o1, reg1, r1)" by (metis surj_pair)
  have s1: "sends l o1 reg [b] reg1" by (rule pushByte_sends [OF o1 Cons.prems(2)])
  show ?case
  proof (cases "g \<le> e + 1")
    case True
    obtain pd r2 where pd: "getPaddingByte pool r1 = (pd, r2)" by (metis surj_pair)
    obtain g1 r3 where g1: "nextProtectedPrefixGap r2 = (g1, r3)" by (metis surj_pair)
    obtain o2 reg2 r4 where o2: "prefixBytes l th pool p 0 g1 reg1 r3 = (o2, reg2, r4)" by (metis surj_pair)
    have w: "w = o1 @ [pd] @ o2" "reg' = reg2" "r' = r4" using Cons.prems(1) True by (simp_all add: o1 pd g1 o2)
    have "sends l o2 reg1 p reg'" using Cons.IH [OF o2 [folded w(2) w(3)] sends_reg [OF s1]] .
    then have "sends l ([pd] @ o2) reg1 ([] @ p) reg'"
      by (rule sends_append [OF sends_pads [OF carries_pad [OF getPaddingByte_in [OF pd]] sends_reg [OF s1]]])
    then show ?thesis using sends_append [OF s1] w by simp
  next
    case False
    obtain o2 reg2 r2 where o2: "prefixBytes l th pool p (Suc e) g reg1 r1 = (o2, reg2, r2)" by (metis surj_pair)
    have w: "w = o1 @ o2" "reg' = reg2" "r' = r2" using Cons.prems(1) False by (simp_all add: o1 o2)
    show ?thesis
      using sends_append [OF s1 Cons.IH [OF o2 [folded w(2) w(3)] sends_reg [OF s1]]] w by simp
  qed
qed

lemma tailBytes_sends:
  "tailBytes l th pool p reg r = (w, reg', r') \<Longrightarrow> snd reg < 6 \<Longrightarrow> sends l w reg p reg'"
proof (induction p arbitrary: reg r w)
  case (Cons b p)
  obtain o1 reg1 r1 where o1: "pushByte l th pool b reg r = (o1, reg1, r1)" by (metis surj_pair)
  obtain o2 reg2 r2 where o2: "tailBytes l th pool p reg1 r1 = (o2, reg2, r2)" by (metis surj_pair)
  have w: "w = o1 @ o2" "reg' = reg2" "r' = r2" using Cons.prems(1) by (simp_all add: o1 o2)
  have s1: "sends l o1 reg [b] reg1" by (rule pushByte_sends [OF o1 Cons.prems(2)])
  show ?case using sends_append [OF s1 Cons.IH [OF o2 [folded w(2) w(3)] sends_reg [OF s1]]] w by simp
qed (simp add: sends_pads)

lemma alignBytes_sends:
  "alignBytes l th pool p reg r = (w, rest, reg', r') \<Longrightarrow> snd reg < 6 \<Longrightarrow>
    \<exists>q. p = q @ rest \<and> sends l w reg q reg' \<and> (rest \<noteq> [] \<longrightarrow> snd reg' = 0)"
proof (induction p arbitrary: reg r w)
  case (Cons b p)
  show ?case
  proof (cases "0 < snd reg")
    case True
    obtain o1 r1 where o1: "maybeAppendPackedPadding th pool r = (o1, r1)" by (metis surj_pair)
    obtain o2 reg1 r2 where o2: "pushByte l th pool b reg r1 = (o2, reg1, r2)" by (metis surj_pair)
    obtain o3 rest3 reg3 r3 where o3: "alignBytes l th pool p reg1 r2 = (o3, rest3, reg3, r3)" by (metis surj_pair)
    have w: "w = o1 @ o2 @ o3" "rest = rest3" "reg' = reg3" "r' = r3"
      using Cons.prems(1) True by (simp_all add: o1 o2 o3)
    have s2: "sends l o2 reg [b] reg1" by (rule pushByte_sends [OF o2 Cons.prems(2)])
    have "sends l (o1 @ o2) reg ([] @ [b]) reg1"
      by (rule sends_append [OF sends_pads [OF maybeAppendPackedPadding_carries [OF o1] Cons.prems(2)] s2])
    moreover obtain q where "p = q @ rest" "sends l o3 reg1 q reg'" "rest \<noteq> [] \<longrightarrow> snd reg' = 0"
      using Cons.IH [OF o3 [folded w(2-4)] sends_reg [OF s2]] by blast
    ultimately show ?thesis using sends_append w(1) by (intro exI [of _ "b # q"]) fastforce
  next
    case False
    then show ?thesis using Cons.prems by (intro exI [of _ "[]"]) (auto simp: sends_pads)
  qed
qed (simp add: sends_pads)

lemma block_bits:
  "bits_of 6 (drop_bit 2 b1 AND 63) @ bits_of 6 (push_bit 4 (b1 AND 3) OR (drop_bit 4 b2 AND 15))
    @ bits_of 6 (push_bit 2 (b2 AND 15) OR (drop_bit 6 b3 AND 3)) @ bits_of 6 (b3 AND 63)
    = bits_of 8 b1 @ bits_of 8 b2 @ bits_of 8 b3" for b1 b2 b3 :: byte
proof -
  have m: "(63 :: byte) = mask 6" "(15 :: byte) = mask 4" "(3 :: byte) = mask 2" by (simp_all add: mask_eq_exp_minus_1)
  show ?thesis unfolding m bits_of_6 bits_of_8 by (simp add: bit_simps del: bit_0)
qed

lemma bits_and_63: "bits_of 6 (g AND 63) = bits_of 6 g" for g :: byte
proof -
  have m: "(63 :: byte) = mask 6" by (simp add: mask_eq_exp_minus_1)
  show ?thesis unfolding m bits_of_6 by (simp add: bit_simps del: bit_0)
qed

lemma packBlock_sends:
  assumes "packBlock l th pool b1 b2 b3 r = (w, r')" "snd reg = 0"
  shows "sends l w reg [b1, b2, b3] reg"
proof -
  define g1 g2 g3 g4 where g: "g1 = drop_bit 2 b1 AND 63" "g2 = push_bit 4 (b1 AND 3) OR (drop_bit 4 b2 AND 15)"
    "g3 = push_bit 2 (b2 AND 15) OR (drop_bit 6 b3 AND 3)" "g4 = b3 AND 63"
  obtain o1 r1 o2 r2 o3 r3 o4 r4 where o: "appendPackedGroup l th pool g1 r = (o1, r1)"
    "appendPackedGroup l th pool g2 r1 = (o2, r2)" "appendPackedGroup l th pool g3 r2 = (o3, r3)"
    "appendPackedGroup l th pool g4 r3 = (o4, r4)" by (metis surj_pair)
  then have w: "w = o1 @ o2 @ o3 @ o4"
    using assms(1) unfolding packBlock_def Let_def g [symmetric] by simp
  have "carries l (padMarker l) w ([g1 AND 63] @ [g2 AND 63] @ [g3 AND 63] @ [g4 AND 63])"
    unfolding w by (intro carries_append appendPackedGroup_carries [OF o(1)] appendPackedGroup_carries [OF o(2)]
        appendPackedGroup_carries [OF o(3)] appendPackedGroup_carries [OF o(4)])
  moreover have "group_bits ([g1 AND 63] @ [g2 AND 63] @ [g3 AND 63] @ [g4 AND 63]) = bytes_bits [b1, b2, b3]"
    using block_bits [of b1 b2 b3] unfolding g [symmetric] by (simp add: bits_and_63)
  ultimately show ?thesis unfolding sends_def using assms(2) by (auto simp: reg_bits_def)
qed

lemma packBlocks_sends:
  assumes "snd reg = 0"
  shows "packBlocks l th pool k p r = (w, rest, r') \<Longrightarrow> 3 * k \<le> length p \<Longrightarrow>
    sends l w reg (take (3 * k) p) reg \<and> rest = drop (3 * k) p"
proof (induction k arbitrary: p r w)
  case 0
  then show ?case using assms by (simp add: sends_pads)
next
  case (Suc k)
  then obtain b1 b2 b3 q where p: "p = b1 # b2 # b3 # q" using list3_cases [of p] by auto
  obtain o1 r1 where o1: "packBlock l th pool b1 b2 b3 r = (o1, r1)" by (metis surj_pair)
  obtain o2 rest2 r2 where o2: "packBlocks l th pool k q r1 = (o2, rest2, r2)" by (metis surj_pair)
  have w: "w = o1 @ o2" "rest = rest2" "r' = r2" using Suc.prems(1) by (simp_all add: p o1 o2)
  have "sends l o2 reg (take (3 * k) q) reg \<and> rest = drop (3 * k) q"
    using Suc.IH [OF o2 [folded w(2,3)]] Suc.prems(2) by (simp add: p)
  moreover have "3 * Suc k = Suc (Suc (Suc (3 * k)))" by simp
  ultimately show ?case
    using sends_append [OF packBlock_sends [OF o1 assms]] w(1) unfolding p by (simp del: mult_Suc_right)
qed

lemma packTwelves_sends:
  assumes "snd reg = 0"
  shows "packTwelves l th pool p r = (w, rest, r') \<Longrightarrow> \<exists>q. p = q @ rest \<and> sends l w reg q reg"
proof (induction "length p" arbitrary: p r w rule: less_induct)
  case less
  show ?case
  proof (cases "11 < length p")
    case True
    obtain o1 x r1 where o1: "packBlocks l th pool 4 (take 12 p) r = (o1, x, r1)" by (metis surj_pair)
    obtain o2 rest2 r2 where o2: "packTwelves l th pool (drop 12 p) r1 = (o2, rest2, r2)" by (metis surj_pair)
    have w: "w = o1 @ o2" "rest = rest2" "r' = r2"
      using less.prems True by (simp_all add: packTwelves.simps [of l th pool p] o1 o2)
    have s1: "sends l o1 reg (take 12 p) reg" using packBlocks_sends [OF assms o1] True by simp
    obtain q where "drop 12 p = q @ rest" "sends l o2 reg q reg"
      using less.hyps [OF _ o2 [folded w(2,3)]] True by fastforce
    then show ?thesis using sends_append [OF s1] w(1) by (metis append_assoc append_take_drop_id)
  next
    case False
    then show ?thesis using less.prems assms by (simp add: packTwelves.simps [of l th pool p] sends_pads)
  qed
qed

lemma packTriples_short: "length p < 3 \<Longrightarrow> packTriples l th pool p r = ([], p, r)"
  by (cases "(l, th, pool, p, r)" rule: packTriples.cases) auto

lemma packTriples_sends:
  assumes "snd reg = 0"
  shows "packTriples l th pool p r = (w, rest, r') \<Longrightarrow> \<exists>q. p = q @ rest \<and> sends l w reg q reg"
proof (induction "length p" arbitrary: p r w rule: less_induct)
  case less
  show ?case
  proof (cases "3 \<le> length p")
    case True
    then obtain b1 b2 b3 p' where p: "p = b1 # b2 # b3 # p'" using list3_cases by blast
    obtain o1 r1 where o1: "packBlock l th pool b1 b2 b3 r = (o1, r1)" by (metis surj_pair)
    obtain o2 rest2 r2 where o2: "packTriples l th pool p' r1 = (o2, rest2, r2)" by (metis surj_pair)
    have w: "w = o1 @ o2" "rest = rest2" "r' = r2" using less.prems by (simp_all add: p o1 o2)
    obtain q where "p' = q @ rest" "sends l o2 reg q reg"
      using less.hyps [OF _ o2 [folded w(2,3)]] by (auto simp: p)
    then show ?thesis
      using sends_append [OF packBlock_sends [OF o1 assms]] w(1) by (intro exI [of _ "b1 # b2 # b3 # q"]) (fastforce simp: p)
  next
    case False
    then show ?thesis using less.prems assms by (simp add: packTriples_short sends_pads)
  qed
qed

lemma writeProtectedPrefix_sends:
  assumes "writeProtectedPrefix l th pool p reg r = (w, k, reg', r')" "snd reg < 6"
  shows "sends l w reg (take k p) reg'"
proof (cases "p = []")
  case True
  then show ?thesis using assms by (simp add: writeProtectedPrefix_def sends_pads)
next
  case False
  obtain o1 r1 where o1: "forcedPads pool 0 r = (o1, r1)" by (metis surj_pair)
  obtain g r2 where g: "nextProtectedPrefixGap r1 = (g, r2)" by (metis surj_pair)
  obtain o2 reg2 r3 where o2: "prefixBytes l th pool (take (min (length p) packedProtectedPrefixBytes) p) 0 g reg r2 = (o2, reg2, r3)"
    by (metis surj_pair)
  have "w = o1 @ o2" "k = min (length p) packedProtectedPrefixBytes" "reg' = reg2"
    using assms(1) False o1 g o2 by (simp_all add: writeProtectedPrefix_def Let_def)
  then show ?thesis
    using sends_append [OF sends_pads [OF forcedPads_carries [OF o1] assms(2)] prefixBytes_sends [OF o2 assms(2)]] by simp
qed

lemma residual_bits:
  assumes "snd reg < 6"
  shows "bits_of 6 (residualGroup reg) = reg_bits reg @ replicate (6 - snd reg) False"
proof (rule nth_equalityI)
  fix i assume "i < length (bits_of 6 (residualGroup reg))"
  then have i: "i < 6" by simp
  show "bits_of 6 (residualGroup reg) ! i = (reg_bits reg @ replicate (6 - snd reg) False) ! i"
    using i assms by (auto simp: nth_append nth_bits_of reg_bits_def residualGroup_def bit_simps split: prod.splits)
qed (use assms in \<open>simp add: reg_bits_def\<close>)

lemma decode_marker: "length bs < 8 \<Longrightarrow> decodeBitsFrom l (padMarker l) bs [padMarker l] = ([], [])"
  using marker_padding by simp

text \<open>One write, from an empty shift register: it decodes to its payload and leaves nothing pending.\<close>

lemma decode_packedEncode:
  assumes "packedEncode l th pool (padMarker l) p (buf, 0) r = (w, reg', r')"
  shows "decodeBitsFrom l (padMarker l) [] w = (p, []) \<and> snd reg' = 0"
proof -
  obtain o1 k reg1 r1 where o1: "writeProtectedPrefix l th pool p (buf, 0) r = (o1, k, reg1, r1)" by (metis surj_pair)
  obtain o2 p2 reg2 r2 where o2: "alignBytes l th pool (drop k p) reg1 r1 = (o2, p2, reg2, r2)" by (metis surj_pair)
  obtain o3 p3 r3 where o3: "packTwelves l th pool p2 r2 = (o3, p3, r3)" by (metis surj_pair)
  obtain o4 p4 r4 where o4: "packTriples l th pool p3 r3 = (o4, p4, r4)" by (metis surj_pair)
  obtain o5 reg5 r5 where o5: "tailBytes l th pool p4 reg2 r4 = (o5, reg5, r5)" by (metis surj_pair)
  obtain o6 reg6 r6 where o6: "flushResidual l th pool (padMarker l) reg5 r5 = (o6, reg6, r6)" by (metis surj_pair)
  obtain o7 r7 where o7: "maybeAppendPackedPadding th pool r6 = (o7, r7)" by (metis surj_pair)
  have w: "w = (o1 @ o2 @ o3 @ o4 @ o5) @ o6 @ o7" "reg' = reg6"
    using assms by (simp_all add: packedEncode_def o1 o2 o3 o4 o5 o6 o7)
  have s1: "sends l o1 (buf, 0) (take k p) reg1" by (rule writeProtectedPrefix_sends [OF o1]) simp
  obtain q2 where q2: "drop k p = q2 @ p2" "sends l o2 reg1 q2 reg2" "p2 \<noteq> [] \<longrightarrow> snd reg2 = 0"
    using alignBytes_sends [OF o2 sends_reg [OF s1]] by blast
  note r2 = sends_reg [OF q2(2)]
  have blocks: "\<exists>q3 q4. p2 = q3 @ q4 @ p4 \<and> sends l o3 reg2 q3 reg2 \<and> sends l o4 reg2 q4 reg2"
  proof (cases "p2 = []")
    case True
    then have "o3 = []" "o4 = []" "p4 = []"
      using o3 o4 by (simp_all add: packTwelves.simps)
    then show ?thesis using True r2 by (auto simp: sends_pads)
  next
    case False
    then have "snd reg2 = 0" using q2(3) by blast
    from packTwelves_sends [OF this o3] packTriples_sends [OF this o4] show ?thesis by blast
  qed
  then obtain q3 q4 where q: "p2 = q3 @ q4 @ p4" "sends l o3 reg2 q3 reg2" "sends l o4 reg2 q4 reg2" by blast
  have s5: "sends l o5 reg2 p4 reg5" by (rule tailBytes_sends [OF o5 r2])
  have "sends l (o1 @ o2 @ o3 @ o4 @ o5) (buf, 0) (take k p @ q2 @ q3 @ q4 @ p4) reg5"
    by (intro sends_append [OF s1] sends_append [OF q2(2)] sends_append [OF q(2)] sends_append [OF q(3)] s5)
  moreover have "take k p @ q2 @ q3 @ q4 @ p4 = p" using q2(1) q(1) by (metis append_take_drop_id)
  ultimately obtain gs where gs: "carries l (padMarker l) (o1 @ o2 @ o3 @ o4 @ o5) gs"
    "bytes_bits p = group_bits gs @ reg_bits reg5" "snd reg5 < 6"
    by (auto simp: sends_def reg_bits_def)
  have pads: "decodeBitsFrom l (padMarker l) [] o7 = ([], [])"
    using decode_carries [OF maybeAppendPackedPadding_carries [OF o7], of "[]"] by (simp add: bytes_from_short)
  show ?thesis
  proof (cases "0 < snd reg5")
    case False
    then have "o6 = []" "reg6 = reg5" "reg_bits reg5 = []" using o6 by (simp_all add: flushResidual_def reg_bits_def)
    then have "decodeBitsFrom l (padMarker l) [] (o1 @ o2 @ o3 @ o4 @ o5) = (p, [])"
      using decode_carries [OF gs(1), of "[]"] gs(2) bytes_from_bytes [of "[]" p] by simp
    from decodeBitsFrom_then [OF this pads] show ?thesis using w False \<open>o6 = []\<close> \<open>reg6 = reg5\<close> by simp
  next
    case True
    obtain o8 r8 where o8: "appendPackedGroup l th pool (residualGroup reg5) r5 = (o8, r8)" by (metis surj_pair)
    then have f: "o6 = o8 @ [padMarker l]" "reg6 = (0, 0)" using o6 True by (simp_all add: flushResidual_def)
    have c: "carries l (padMarker l) ((o1 @ o2 @ o3 @ o4 @ o5) @ o8) (gs @ [residualGroup reg5 AND 63])"
      by (rule carries_append [OF gs(1) appendPackedGroup_carries [OF o8]])
    have z: "group_bits (gs @ [residualGroup reg5 AND 63]) = bytes_bits p @ replicate (6 - snd reg5) False"
      using gs(2,3) by (simp add: bits_and_63 residual_bits)
    have "decodeBitsFrom l (padMarker l) [] ((o1 @ o2 @ o3 @ o4 @ o5) @ o8) = (p, replicate (6 - snd reg5) False)"
      using decode_carries [OF c, of "[]"] z bytes_from_bytes [of "replicate (6 - snd reg5) False" p] by simp
    moreover have "w = ((o1 @ o2 @ o3 @ o4 @ o5) @ o8) @ [padMarker l] @ o7" using w(1) f(1) by simp
    ultimately show ?thesis
      using pads marker_padding w(2) f(2) by (simp only: decodeBitsFrom_append) simp
  qed
qed

end

section \<open>The padding pool of a packed connection\<close>

definition packedPool :: "byteLayout \<Rightarrow> bytes" where
  "packedPool l = filter (\<lambda>b. b \<noteq> padMarker l) (paddingPool l)"

lemma packed_layout_pool:
  assumes "hint_layout l"
  shows "packed_layout l (packedPool l)"
proof (rule packed_layout.intro [OF assms], rule packed_layout_axioms.intro)
  show "\<And>b. b \<in> set (packedPool l) \<Longrightarrow> \<not> hintTable l b \<and> b \<noteq> padMarker l"
    using hint_layout.pool_padding [OF assms] by (auto simp: packedPool_def)
  show "packedPool l \<noteq> []"
    using hint_layout.pool_without_marker [OF assms] by (simp add: packedPool_def)
  have "distinct (packedPool l)" using hint_layout.pool_distinct [OF assms] by (simp add: packedPool_def)
  then have "length (packedPool l) \<le> card (UNIV :: byte set)"
    using card_mono [of "UNIV :: byte set" "set (packedPool l)"] by (simp add: distinct_card)
  then show "length (packedPool l) \<le> 256" by (simp add: card_word)
qed

interpretation ascii_packed: packed_layout newASCIILayout "packedPool newASCIILayout"
  by (rule packed_layout_pool [OF ascii.hint_layout_axioms])

interpretation entropy_packed: packed_layout newEntropyLayout "packedPool newEntropyLayout"
  by (rule packed_layout_pool [OF entropy.hint_layout_axioms])

end
