(* ===== verification/Grid.thy ===== *)
theory Grid
  imports Prelude
begin

text \<open>
  The 4x4 Sudoku grids (\<open>pkg/obfs/sudoku/grid.go\<close>).
\<close>

type_synonym grid = "byte list"

section \<open>The generator\<close>

definition rowColFree :: "grid \<Rightarrow> nat \<Rightarrow> nat \<Rightarrow> byte \<Rightarrow> bool" where
  "rowColFree g row col num = list_all (\<lambda>i. \<not> (g ! (row * 4 + i) = num \<or> g ! (i * 4 + col) = num)) [0, 1, 2, 3]"

definition boxFree :: "grid \<Rightarrow> nat \<Rightarrow> nat \<Rightarrow> byte \<Rightarrow> bool" where
  "boxFree g br bc num = list_all (\<lambda>r. list_all (\<lambda>c. g ! ((br + r) * 4 + (bc + c)) \<noteq> num) [0, 1]) [0, 1]"

definition cellValid :: "grid \<Rightarrow> nat \<Rightarrow> byte \<Rightarrow> bool" where
  "cellValid g idx num =
    (let row = idx div 4; col = idx mod 4;
         br = row div 2 * 2; bc = col div 2 * 2
     in rowColFree g row col num \<and> boxFree g br bc num)"

function backtrack :: "nat \<Rightarrow> grid \<Rightarrow> grid list" where
  "backtrack idx g =
    (if 16 \<le> idx then [g]
     else concat (map (\<lambda>num. if cellValid g idx num then backtrack (idx + 1) (g[idx := num]) else []) [1, 2, 3, 4]))"
  by pat_completeness auto
termination
  by (relation "measure (\<lambda>(idx, g). 16 - idx)") auto

declare backtrack.simps [simp del]

definition GenerateAllGrids :: "grid list" where
  "GenerateAllGrids = backtrack 0 (replicate 16 0)"

section \<open>Valid grids\<close>

definition peers :: "nat \<Rightarrow> nat \<Rightarrow> bool" where
  "peers j k \<longleftrightarrow> j div 4 = k div 4 \<or> j mod 4 = k mod 4
     \<or> (j div 4 div 2 = k div 4 div 2 \<and> j mod 4 div 2 = k mod 4 div 2)"

definition fits_from :: "nat \<Rightarrow> 'a list \<Rightarrow> bool" where
  "fits_from i h \<longleftrightarrow> (\<forall>k. i \<le> k \<and> k < 16 \<longrightarrow> (\<forall>j<k. peers j k \<longrightarrow> h ! j \<noteq> h ! k))"

definition digits4 :: "byte set" where
  "digits4 = {1, 2, 3, 4}"

definition valid_grid :: "grid \<Rightarrow> bool" where
  "valid_grid h \<longleftrightarrow> length h = 16 \<and> set h \<subseteq> digits4 \<and> fits_from 0 h"

definition neighbours :: "nat \<Rightarrow> nat list" where
  "neighbours idx =
    (let row = idx div 4; col = idx mod 4; br = row div 2 * 2; bc = col div 2 * 2
     in map (\<lambda>i. row * 4 + i) [0, 1, 2, 3] @ map (\<lambda>i. i * 4 + col) [0, 1, 2, 3]
        @ concat (map (\<lambda>r. map (\<lambda>c. (br + r) * 4 + (bc + c)) [0, 1]) [0, 1]))"

lemma cellValid_neighbours: "cellValid g idx num \<longleftrightarrow> (\<forall>q \<in> set (neighbours idx). g ! q \<noteq> num)"
  by (auto simp: cellValid_def rowColFree_def boxFree_def neighbours_def Let_def)

lemma neighbours_peers:
  assumes "idx < 16"
  shows "set (neighbours idx) = {q. q < 16 \<and> peers q idx}"
proof -
  have "list_all (\<lambda>idx. list_all (\<lambda>q. List.member (neighbours idx) q = peers q idx) [0..<16]
      \<and> list_all (\<lambda>q. q < 16) (neighbours idx)) [0..<16]"
    by (simp add: upt_conv_Cons peers_def neighbours_def)
  moreover have "idx \<in> set [0..<16]" using assms unfolding set_upt by simp
  ultimately have *: "\<forall>q \<in> set [0..<16]. q \<in> set (neighbours idx) \<longleftrightarrow> peers q idx" "\<forall>q \<in> set (neighbours idx). q < 16"
    unfolding list_all_iff List.member_iff by blast+
  have "q \<in> set [0..<16] \<longleftrightarrow> q < 16" for q :: nat
    unfolding set_upt by simp
  with * show ?thesis by blast
qed

lemma cellValid_iff_peers:
  "idx < 16 \<Longrightarrow> cellValid g idx num \<longleftrightarrow> (\<forall>q<16. peers q idx \<longrightarrow> g ! q \<noteq> num)"
  by (auto simp: cellValid_neighbours neighbours_peers)

lemma cellValid_prefix:
  assumes "idx < 16" "\<And>k. idx \<le> k \<Longrightarrow> k < 16 \<Longrightarrow> g ! k = 0" "num \<noteq> 0"
  shows "cellValid g idx num \<longleftrightarrow> (\<forall>q<idx. peers q idx \<longrightarrow> g ! q \<noteq> num)"
  unfolding cellValid_iff_peers [OF assms(1)]
  by (metis assms less_trans not_le_imp_less)

lemma fits_from_step:
  assumes "i < 16"
  shows "fits_from i h \<longleftrightarrow> (\<forall>j<i. peers j i \<longrightarrow> h ! j \<noteq> h ! i) \<and> fits_from (Suc i) h"
proof
  show "fits_from i h \<Longrightarrow> (\<forall>j<i. peers j i \<longrightarrow> h ! j \<noteq> h ! i) \<and> fits_from (Suc i) h"
    using assms by (simp add: fits_from_def)
next
  assume *: "(\<forall>j<i. peers j i \<longrightarrow> h ! j \<noteq> h ! i) \<and> fits_from (Suc i) h"
  have "\<forall>j<k. peers j k \<longrightarrow> h ! j \<noteq> h ! k" if "i \<le> k" "k < 16" for k
    using * that by (cases "k = i") (simp_all add: fits_from_def)
  then show "fits_from i h" by (simp add: fits_from_def)
qed

lemma fits_from_end [simp]: "fits_from 16 h"
  unfolding fits_from_def by auto

definition completions :: "nat \<Rightarrow> grid \<Rightarrow> grid set" where
  "completions idx g = {h. length h = 16 \<and> take idx h = take idx g \<and> set (drop idx h) \<subseteq> digits4 \<and> fits_from idx h}"

lemma completions_step:
  assumes "idx < 16" "length g = 16"
  shows "completions idx g =
    (\<Union>num \<in> {num \<in> digits4. \<forall>q<idx. peers q idx \<longrightarrow> g ! q \<noteq> num}. completions (Suc idx) (g[idx := num]))"
    (is "_ = (\<Union>num \<in> ?N. _)")
proof (rule set_eqI)
  fix h
  have tk: "take (Suc idx) h = take (Suc idx) (g[idx := num]) \<longleftrightarrow> take idx h = take idx g \<and> h ! idx = num"
    if "length h = 16" for num
    using that assms by (auto simp: take_Suc_conv_app_nth)
  have pre: "\<forall>q<idx. h ! q = g ! q" if "take idx h = take idx g"
    using that by (metis nth_take)
  show "h \<in> completions idx g \<longleftrightarrow> h \<in> (\<Union>num \<in> ?N. completions (Suc idx) (g[idx := num]))"
  proof (cases "length h = 16")
    case True
    then have dr: "drop idx h = h ! idx # drop (Suc idx) h"
      using assms by (simp add: Cons_nth_drop_Suc)
    show ?thesis
      unfolding completions_def using True assms pre
      by (auto simp: tk dr fits_from_step)
  qed (simp add: completions_def)
qed

lemma completions_disjoint:
  "idx < 16 \<Longrightarrow> length g = 16 \<Longrightarrow> a \<noteq> b \<Longrightarrow>
    completions (Suc idx) (g[idx := a]) \<inter> completions (Suc idx) (g[idx := b]) = {}"
  unfolding completions_def
  by (auto simp: take_Suc_conv_app_nth)

lemma backtrack_correct:
  assumes "idx \<le> 16" "length g = 16" "\<And>k. idx \<le> k \<Longrightarrow> k < 16 \<Longrightarrow> g ! k = 0"
  shows "set (backtrack idx g) = completions idx g \<and> distinct (backtrack idx g)"
  using assms
proof (induction idx g rule: backtrack.induct)
  case (1 idx g)
  show ?case
  proof (cases "idx = 16")
    case True
    with 1 show ?thesis
      by (auto simp: backtrack.simps [of 16] completions_def)
  next
    case False
    with "1.prems" have lt: "idx < 16" by simp
    let ?b = "\<lambda>num. if cellValid g idx num then backtrack (idx + 1) (g[idx := num]) else []"
    let ?N = "{num \<in> digits4. \<forall>q<idx. peers q idx \<longrightarrow> g ! q \<noteq> num}"
    have cv: "cellValid g idx num \<longleftrightarrow> num \<in> ?N" if "num \<in> digits4" for num
      using cellValid_prefix [OF lt "1.prems"(3), of num] that by (auto simp: digits4_def)
    have rec: "set (?b num) = (if num \<in> ?N then completions (Suc idx) (g[idx := num]) else {}) \<and> distinct (?b num)"
      if "num \<in> digits4" for num
      using "1.IH" [of num] that cv [OF that] lt "1.prems" by (auto simp: digits4_def)
    have "set (backtrack idx g) = (\<Union>num \<in> digits4. set (?b num))"
      using lt by (simp add: backtrack.simps [of idx] digits4_def)
    also have "\<dots> = (\<Union>num \<in> ?N. completions (Suc idx) (g[idx := num]))"
      using rec by auto
    finally have "set (backtrack idx g) = completions idx g"
      using completions_step [OF lt "1.prems"(2)] by simp
    moreover have "distinct (backtrack idx g)"
    proof -
      have dis: "set (?b a) \<inter> set (?b b) = {}" if "a \<in> digits4" "b \<in> digits4" "a \<noteq> b" for a b
        using rec [OF that(1)] rec [OF that(2)] completions_disjoint [OF lt "1.prems"(2) that(3)] by auto
      have "distinct (?b 1 @ ?b 2 @ ?b 3 @ ?b 4)"
        using rec dis unfolding distinct_append by (simp add: digits4_def Int_Un_distrib)
      then show ?thesis using lt by (simp add: backtrack.simps [of idx])
    qed
    ultimately show ?thesis ..
  qed
qed

lemma GenerateAllGrids_set: "set GenerateAllGrids = {g. valid_grid g}"
  and GenerateAllGrids_distinct: "distinct GenerateAllGrids"
  using backtrack_correct [of 0 "replicate 16 0"]
  by (auto simp: GenerateAllGrids_def completions_def valid_grid_def)

end
