(* ===== verification/GridCount.thy ===== *)
theory GridCount
  imports Grid
begin

text \<open>
  Two facts on the 4x4 grids that the codec rests on are finite computations: there are 288 valid
  grids, so the 256 byte values can all be given one, and every valid grid has a set of four clues
  that no other valid grid matches, so no encode table is empty. Both are checked in the kernel by a
  depth-first search on a light encoding of grids, related to \<open>valid_grid\<close> by \<open>search_valid\<close>.
\<close>

section \<open>The search\<close>

datatype d4 = D1 | D2 | D3 | D4

primrec dval :: "d4 \<Rightarrow> byte" where
  "dval D1 = 1" | "dval D2 = 2" | "dval D3 = 3" | "dval D4 = 4"

primrec differs :: "d4 \<Rightarrow> d4 \<Rightarrow> bool" where
  "differs D1 v = (case v of D1 \<Rightarrow> False | _ \<Rightarrow> True)"
| "differs D2 v = (case v of D2 \<Rightarrow> False | _ \<Rightarrow> True)"
| "differs D3 v = (case v of D3 \<Rightarrow> False | _ \<Rightarrow> True)"
| "differs D4 v = (case v of D4 \<Rightarrow> False | _ \<Rightarrow> True)"

fun avoids :: "bool list \<Rightarrow> d4 list \<Rightarrow> d4 \<Rightarrow> bool" where
  "avoids [] xs v = True"
| "avoids (b # bs) [] v = True"
| "avoids (b # bs) (x # xs) v =
    (if b then (if differs x v then avoids bs xs v else False) else avoids bs xs v)"

primrec admits :: "d4 option \<Rightarrow> d4 \<Rightarrow> bool" where
  "admits None v = True"
| "admits (Some u) v = (if differs u v then False else True)"

text \<open>
  A level of the search is the mask of earlier cells its cell must differ from (nearest first) and
  an optional clue; the prefix is kept in reverse. \<open>leaves\<close> is the set of complete fillings,
  \<open>leaf_count\<close> their number and \<open>leaf_all\<close> a check of all of them.
\<close>

type_synonym level = "bool list \<times> d4 option"

fun leaves :: "level list \<Rightarrow> d4 list \<Rightarrow> d4 list set" where
  "leaves [] pre = {pre}"
| "leaves (l # ls) pre = (\<Union>v \<in> {v. avoids (fst l) pre v \<and> admits (snd l) v}. leaves ls (v # pre))"

fun leaf_count :: "level list \<Rightarrow> d4 list \<Rightarrow> int" where
  "leaf_count [] pre = 1"
| "leaf_count ((m, c) # ls) pre =
    (if admits c D1 then if avoids m pre D1 then leaf_count ls (D1 # pre) else 0 else 0)
  + (if admits c D2 then if avoids m pre D2 then leaf_count ls (D2 # pre) else 0 else 0)
  + (if admits c D3 then if avoids m pre D3 then leaf_count ls (D3 # pre) else 0 else 0)
  + (if admits c D4 then if avoids m pre D4 then leaf_count ls (D4 # pre) else 0 else 0)"

fun leaf_all :: "(d4 list \<Rightarrow> bool) \<Rightarrow> level list \<Rightarrow> d4 list \<Rightarrow> bool" where
  "leaf_all P [] pre = P pre"
| "leaf_all P ((m, c) # ls) pre =
    ((if admits c D1 then if avoids m pre D1 then leaf_all P ls (D1 # pre) else True else True)
   \<and> (if admits c D2 then if avoids m pre D2 then leaf_all P ls (D2 # pre) else True else True)
   \<and> (if admits c D3 then if avoids m pre D3 then leaf_all P ls (D3 # pre) else True else True)
   \<and> (if admits c D4 then if avoids m pre D4 then leaf_all P ls (D4 # pre) else True else True))"

lemma differs_iff [simp]: "differs u v \<longleftrightarrow> u \<noteq> v"
  by (cases u; cases v) simp_all

lemma d4_UNIV: "(UNIV :: d4 set) = {D1, D2, D3, D4}"
  by (auto intro: d4.exhaust)

lemma leaf_all_iff: "leaf_all P ls pre \<longleftrightarrow> (\<forall>x \<in> leaves ls pre. P x)"
proof (induction P ls pre rule: leaf_all.induct)
  case (2 P m c ls pre)
  have "(\<forall>x \<in> leaves ((m, c) # ls) pre. P x)
      \<longleftrightarrow> (\<forall>v \<in> {D1, D2, D3, D4}. avoids m pre v \<and> admits c v \<longrightarrow> (\<forall>x \<in> leaves ls (v # pre). P x))"
    unfolding d4_UNIV [symmetric] by auto
  with 2 show ?case by simp
qed simp

lemma leaves_suffix: "x \<in> leaves ls pre \<Longrightarrow> \<exists>ys. x = ys @ pre \<and> length ys = length ls"
  by (induction ls pre arbitrary: x rule: leaves.induct) force+

lemma leaves_disjoint: "u \<noteq> v \<Longrightarrow> leaves ls (u # pre) \<inter> leaves ls (v # pre) = {}"
  by (auto dest!: leaves_suffix)

lemma finite_leaves: "finite (leaves ls pre)"
  by (induction ls pre rule: leaves.induct) (auto simp: finite_subset [OF subset_UNIV] d4_UNIV)

lemma leaf_count_card: "leaf_count ls pre = int (card (leaves ls pre))"
proof (induction ls pre rule: leaf_count.induct)
  case (2 m c ls pre)
  let ?L = "\<lambda>v. if admits c v \<and> avoids m pre v then leaves ls (v # pre) else {}"
  have "leaves ((m, c) # ls) pre = (\<Union>v \<in> UNIV. ?L v)" by auto
  also have "card \<dots> = (\<Sum>v \<in> UNIV. card (?L v))"
    by (rule card_UN_disjoint) (auto simp: d4_UNIV finite_leaves leaves_disjoint)
  finally have "card (leaves ((m, c) # ls) pre) = card (?L D1) + card (?L D2) + card (?L D3) + card (?L D4)"
    by (simp add: d4_UNIV)
  with 2 show ?case by simp
qed simp

section \<open>The search enumerates the valid grids\<close>

definition masks :: "bool list list" where
  "masks = map (\<lambda>k. map (\<lambda>j. peers j k) (rev [0..<k])) [0..<16]"

definition levels :: "d4 option list \<Rightarrow> level list" where
  "levels clues = zip masks clues"

lemma avoids_mask:
  "length pre = k \<Longrightarrow> avoids (map f (rev [0..<k])) pre v \<longleftrightarrow> (\<forall>j<k. f j \<longrightarrow> rev pre ! j \<noteq> v)"
proof (induction pre arbitrary: k)
  case (Cons x xs)
  then obtain n where n: "k = Suc n" "length xs = n" by auto
  have "rev (x # xs) ! j = (if j < n then rev xs ! j else x)" if "j < k" for j
    using that n by (auto simp: nth_append less_Suc_eq)
  then show ?case
    using Cons.IH [OF n(2)] n by (auto simp: less_Suc_eq)
qed simp

lemma leaves_levels:
  assumes "length clues = 16" "length pre = k" "k \<le> 16"
  shows "leaves (drop k (levels clues)) pre =
    {x. length x = 16 \<and> take k (rev x) = rev pre \<and> fits_from k (rev x)
       \<and> (\<forall>i. k \<le> i \<and> i < 16 \<longrightarrow> admits (clues ! i) (rev x ! i))}"
  using assms(2,3)
proof (induction "16 - k" arbitrary: k pre)
  case 0
  then have "k = 16" by simp
  with 0 assms(1) show ?case
    by (auto simp: levels_def masks_def)
next
  case (Suc n)
  then have k: "k < 16" by simp
  have lv: "drop k (levels clues) = (masks ! k, clues ! k) # drop (Suc k) (levels clues)"
    using k assms(1) by (simp add: levels_def masks_def Cons_nth_drop_Suc [symmetric])
  have mk: "masks ! k = map (\<lambda>j. peers j k) (rev [0..<k])"
    using k by (simp add: masks_def)
  have IH: "leaves (drop (Suc k) (levels clues)) (v # pre) =
     {x. length x = 16 \<and> take (Suc k) (rev x) = rev (v # pre) \<and> fits_from (Suc k) (rev x)
       \<and> (\<forall>i. Suc k \<le> i \<and> i < 16 \<longrightarrow> admits (clues ! i) (rev x ! i))}" for v
    using Suc by (intro Suc.hyps(1)) auto
  have all: "(\<forall>i. k \<le> i \<and> i < 16 \<longrightarrow> Q i) \<longleftrightarrow> Q k \<and> (\<forall>i. Suc k \<le> i \<and> i < 16 \<longrightarrow> Q i)" for Q
    using k by (metis Suc_leD le_antisym not_less_eq_eq)
  show ?case (is "?L = ?R")
  proof (rule set_eqI)
    fix x
    have "x \<in> ?L \<longleftrightarrow> (\<exists>v. (\<forall>j<k. peers j k \<longrightarrow> rev pre ! j \<noteq> v) \<and> admits (clues ! k) v \<and> length x = 16
        \<and> take (Suc k) (rev x) = rev pre @ [v] \<and> fits_from (Suc k) (rev x)
        \<and> (\<forall>i. Suc k \<le> i \<and> i < 16 \<longrightarrow> admits (clues ! i) (rev x ! i)))"
      using Suc.prems(1) by (auto simp: lv mk IH avoids_mask)
    also have "\<dots> \<longleftrightarrow> x \<in> ?R"
    proof (cases "length x = 16")
      case True
      then have tk: "take (Suc k) (rev x) = rev pre @ [v] \<longleftrightarrow> take k (rev x) = rev pre \<and> rev x ! k = v" for v
        using k Suc.prems(1) by (simp add: take_Suc_conv_app_nth)
      have "rev pre ! j = rev x ! j" if "take k (rev x) = rev pre" "j < k" for j
        using that by (metis nth_take)
      then show ?thesis
        using True by (auto simp: tk all [of "\<lambda>i. admits (clues ! i) (rev x ! i)"] fits_from_step [OF k])
    qed simp
    finally show "x \<in> ?L \<longleftrightarrow> x \<in> ?R" .
  qed
qed


definition to_grid :: "d4 list \<Rightarrow> grid" where
  "to_grid x = map dval (rev x)"

definition clues_at :: "bool list \<Rightarrow> d4 list \<Rightarrow> d4 option list" where
  "clues_at msk x = map (\<lambda>(b, v). if b then Some v else None) (zip msk (rev x))"

lemma inj_dval: "inj dval"
  by (rule injI, rename_tac u v, case_tac u; case_tac v; simp)

lemma range_dval: "range dval = digits4"
  by (simp add: d4_UNIV digits4_def)

lemma inj_to_grid: "inj to_grid"
  unfolding to_grid_def by (rule injI) (simp add: inj_map_eq_map [OF inj_dval])

lemma fits_from_map_dval: "length x = 16 \<Longrightarrow> fits_from k (map dval x) \<longleftrightarrow> fits_from k x"
  by (auto simp: fits_from_def inj_eq [OF inj_dval])

lemma admits_iff: "admits c v \<longleftrightarrow> c = None \<or> c = Some v"
  by (cases c) auto

lemma leaves_clues:
  "length msk = 16 \<Longrightarrow> length y = 16 \<Longrightarrow> leaves (levels (clues_at msk y)) [] =
    {x. length x = 16 \<and> fits_from 0 (rev x) \<and> (\<forall>i<16. msk ! i \<longrightarrow> rev x ! i = rev y ! i)}"
  using leaves_levels [of "clues_at msk y" "[]" 0]
  by (auto simp: clues_at_def admits_iff)

lemma to_grid_image:
  assumes "\<And>x. length x = 16 \<Longrightarrow> P x \<longleftrightarrow> Q (to_grid x)"
  shows "to_grid ` {x. length x = 16 \<and> fits_from 0 (rev x) \<and> P x} = {g. valid_grid g \<and> Q g}"
proof (intro set_eqI iffI)
  fix g assume g: "g \<in> {g. valid_grid g \<and> Q g}"
  then have "g \<in> lists (range dval)"
    by (auto simp: valid_grid_def range_dval)
  then obtain x where "g = map dval x"
    unfolding lists_image by auto
  then have "g = to_grid (rev x)" by (simp add: to_grid_def)
  with g assms show "g \<in> to_grid ` {x. length x = 16 \<and> fits_from 0 (rev x) \<and> P x}"
    by (intro image_eqI [of _ _ "rev x"]) (auto simp: valid_grid_def to_grid_def fits_from_map_dval)
next
  fix g assume "g \<in> to_grid ` {x. length x = 16 \<and> fits_from 0 (rev x) \<and> P x}"
  with assms show "g \<in> {g. valid_grid g \<and> Q g}"
    by (auto simp: valid_grid_def to_grid_def fits_from_map_dval range_dval [symmetric])
qed

lemma card_matching:
  assumes "length msk = 16" "length y = 16"
  shows "int (card {g. valid_grid g \<and> (\<forall>i<16. msk ! i \<longrightarrow> g ! i = to_grid y ! i)})
       = leaf_count (levels (clues_at msk y)) []"
proof -
  have "{g. valid_grid g \<and> (\<forall>i<16. msk ! i \<longrightarrow> g ! i = to_grid y ! i)} =
      to_grid ` leaves (levels (clues_at msk y)) []"
    unfolding leaves_clues [OF assms] using assms
    by (subst to_grid_image [where Q = "\<lambda>g. \<forall>i<16. msk ! i \<longrightarrow> g ! i = to_grid y ! i"])
      (auto simp: to_grid_def inj_eq [OF inj_dval])
  then show ?thesis
    by (simp add: leaf_count_card card_image inj_on_subset [OF inj_to_grid])
qed

section \<open>The two computations\<close>

lemma masks_code [code]: "masks = [[], [True], [True, True], [True, True, True], [False, False, True, True],
  [True, False, False, True, True], [True, True, True, True, False, False],
  [True, True, True, True, True, False, False],
  [False, False, False, True, False, False, False, True],
  [True, False, False, True, False, False, False, True, False],
  [True, True, False, True, False, False, False, True, False, False],
  [True, True, True, True, False, False, False, True, False, False, False],
  [False, False, True, True, False, False, False, True, False, False, False, True],
  [True, False, False, True, True, False, False, True, False, False, False, True, False],
  [True, True, True, True, False, False, False, True, False, False, False, True, False, False],
  [True, True, True, True, True, False, False, True, False, False, False, True, False, False, False]]"
  by (simp add: masks_def upt_conv_Cons peers_def)

text \<open>
  Four sets of clue positions are enough for all grids; the one to use is chosen by comparing two
  pairs of cells, so that the search runs once per grid.
\<close>

definition clue_positions :: "nat list list" where
  "clue_positions = [[1, 3, 8, 10], [1, 2, 8, 11], [2, 4, 8, 14], [2, 5, 8, 15]]"

definition clue_masks :: "bool list list" where
  "clue_masks = map (\<lambda>ps. map (\<lambda>i. i \<in> set ps) [0..<16]) clue_positions"

definition pairs_differ :: "d4 \<Rightarrow> d4 \<Rightarrow> d4 \<Rightarrow> d4 \<Rightarrow> bool" where
  "pairs_differ a b c d = (if differs a c then if differs a d then True else differs b c else differs b d)"

fun pick_clues :: "d4 list \<Rightarrow> bool list" where
  "pick_clues [x15, x14, x13, x12, x11, x10, x9, x8, x7, x6, x5, x4, x3, x2, x1, x0] =
    (if pairs_differ x1 x3 x8 x10 then
      [False, True, False, True, False, False, False, False, True, False, True, False, False, False, False, False]
     else if pairs_differ x1 x2 x8 x11 then
      [False, True, True, False, False, False, False, False, True, False, False, True, False, False, False, False]
     else if pairs_differ x2 x14 x4 x8 then
      [False, False, True, False, True, False, False, False, True, False, False, False, False, False, True, False]
     else
      [False, False, True, False, False, True, False, False, True, False, False, False, False, False, False, True])"
| "pick_clues _ = []"

definition open_levels :: "level list" where
  "open_levels = levels (replicate 16 None)"

definition unique_clues :: "d4 list \<Rightarrow> bool" where
  "unique_clues x = (leaf_count (levels (clues_at (pick_clues x) x)) [] = 1)"

lemma pick_clues_in: "length x = 16 \<Longrightarrow> pick_clues x \<in> set clue_masks"
  by (cases x rule: pick_clues.cases) (simp_all add: clue_masks_def clue_positions_def upt_conv_Cons)

lemma open_levels_code [code]: "open_levels = zip masks [None, None, None, None, None, None, None, None,
   None, None, None, None, None, None, None, None]"
  by (simp add: open_levels_def levels_def eval_nat_numeral)

lemma count_288: "leaf_count open_levels [] = 288"
  by code_simp

lemma all_have_unique_clues: "leaf_all unique_clues open_levels []"
  by code_simp

lemma open_levels_leaves: "leaves open_levels [] = {x. length x = 16 \<and> fits_from 0 (rev x)}"
  using leaves_levels [of "replicate 16 None" "[]" 0] by (simp add: open_levels_def)

lemma card_valid_grid: "card {g. valid_grid g} = 288"
proof -
  have "{g. valid_grid g} = to_grid ` leaves open_levels []"
    using to_grid_image [of "\<lambda>_. True" "\<lambda>_. True"] by (simp add: open_levels_leaves)
  then have "int (card {g. valid_grid g}) = leaf_count open_levels []"
    by (simp add: leaf_count_card card_image inj_on_subset [OF inj_to_grid])
  then show ?thesis using count_288 by simp
qed

lemma clue_masks_positions:
  "msk \<in> set clue_masks \<Longrightarrow>
    length msk = 16 \<and> (\<exists>ps \<in> set clue_positions. \<forall>i<16. msk ! i \<longleftrightarrow> i \<in> set ps)"
proof -
  assume "msk \<in> set clue_masks"
  then obtain ps where "ps \<in> set clue_positions" "msk = map (\<lambda>i. i \<in> set ps) [0..<16]"
    unfolding clue_masks_def set_map by blast
  then show ?thesis by (auto simp del: upt_rec_numeral intro!: bexI [of _ ps])
qed

lemma valid_grid_unique_clues:
  assumes "valid_grid g"
  shows "\<exists>ps \<in> set clue_positions. card {h. valid_grid h \<and> (\<forall>p \<in> set ps. h ! p = g ! p)} = 1"
proof -
  have "g \<in> to_grid ` leaves open_levels []"
    using assms to_grid_image [of "\<lambda>_. True" "\<lambda>_. True"] by (simp add: open_levels_leaves)
  then obtain x where x: "g = to_grid x" "length x = 16" "unique_clues x"
    using all_have_unique_clues by (auto simp: leaf_all_iff open_levels_leaves)
  obtain ps where ps: "ps \<in> set clue_positions" "\<forall>i<16. pick_clues x ! i \<longleftrightarrow> i \<in> set ps"
    and len: "length (pick_clues x) = 16"
    using clue_masks_positions [OF pick_clues_in [OF x(2)]] by blast
  have "set ps \<subseteq> {..<16}" using ps(1) by (auto simp: clue_positions_def)
  then have "{h. valid_grid h \<and> (\<forall>p \<in> set ps. h ! p = g ! p)}
      = {h. valid_grid h \<and> (\<forall>i<16. pick_clues x ! i \<longrightarrow> h ! i = to_grid x ! i)}"
    using ps(2) x(1) by blast
  moreover have "int (card {h. valid_grid h \<and> (\<forall>i<16. pick_clues x ! i \<longrightarrow> h ! i = to_grid x ! i)}) = 1"
    using card_matching [OF len x(2)] x(3) by (simp add: unique_clues_def)
  ultimately have "card {h. valid_grid h \<and> (\<forall>p \<in> set ps. h ! p = g ! p)} = 1" by simp
  then show ?thesis using ps(1) by (rule bexI)
qed

lemma GenerateAllGrids_length: "length GenerateAllGrids = 288"
  using card_valid_grid distinct_card [OF GenerateAllGrids_distinct] by (simp add: GenerateAllGrids_set)

section \<open>Property\<close>

text \<open>
  Property C10: \<open>GenerateAllGrids\<close> enumerates the 4x4 Sudoku grids: every grid it returns is valid, every
  valid grid is returned, none twice, and there are 288 of them (so the 256 byte values each get a grid).
\<close>

theorem GenerateAllGrids_enumerates:
  "set GenerateAllGrids = {g. valid_grid g} \<and> distinct GenerateAllGrids \<and> length GenerateAllGrids = 288"
  by (simp add: GenerateAllGrids_set GenerateAllGrids_distinct GenerateAllGrids_length)

end
