(* ===== verification/Hints.thy ===== *)
theory Hints
  imports GridCount
begin

text \<open>
  Four-cell hints (\<open>pkg/obfs/sudoku/table_helpers.go\<close>) and the key of four hint bytes
  (\<open>packHintBytes\<close> of \<open>table.go\<close>). The search for a unique match is equivalent to "exactly one
  valid grid agrees", and the key identifies the four bytes up to their order.
\<close>

section \<open>Positions and unique matches\<close>

record hintPart =
  val :: byte
  pos :: byte

definition buildHintPositions :: "bytes list" where
  "buildHintPositions =
    concat (map (\<lambda>a. concat (map (\<lambda>b. concat (map (\<lambda>c. map (\<lambda>d.
        [of_nat a, of_nat b, of_nat c, of_nat d])
      [c + 1..<16]) [b + 1..<15])) [a + 1..<14])) [0..<13])"

definition hintPositions :: "bytes list" where
  "hintPositions = buildHintPositions"

fun partsMatch :: "grid \<Rightarrow> hintPart list \<Rightarrow> bool" where
  "partsMatch g [] = True"
| "partsMatch g (p # ps) = (if g ! unat (pos p) \<noteq> val p then False else partsMatch g ps)"

fun countMatches :: "nat \<Rightarrow> grid list \<Rightarrow> hintPart list \<Rightarrow> bool" where
  "countMatches matchCount [] parts = (matchCount = 1)"
| "countMatches matchCount (g # gs) parts =
    (if partsMatch g parts
     then if 1 < matchCount + 1 then False else countMatches (matchCount + 1) gs parts
     else countMatches matchCount gs parts)"

definition hasUniqueMatch :: "grid list \<Rightarrow> hintPart list \<Rightarrow> bool" where
  "hasUniqueMatch grids parts = countMatches 0 grids parts"

lemma partsMatch_iff: "partsMatch g ps \<longleftrightarrow> (\<forall>p \<in> set ps. g ! unat (pos p) = val p)"
  by (induction g ps rule: partsMatch.induct) auto

lemma countMatches_iff:
  "n \<le> 1 \<Longrightarrow> countMatches n gs parts \<longleftrightarrow> n + length (filter (\<lambda>g. partsMatch g parts) gs) = 1"
  by (induction n gs parts rule: countMatches.induct) auto

lemma hasUniqueMatch_iff:
  "distinct grids \<Longrightarrow> hasUniqueMatch grids parts \<longleftrightarrow> card {g \<in> set grids. partsMatch g parts} = 1"
  by (simp add: hasUniqueMatch_def countMatches_iff flip: distinct_card [OF distinct_filter])

lemma hasUniqueMatch_eq:
  assumes "distinct grids" "hasUniqueMatch grids parts"
    and "g \<in> set grids" "partsMatch g parts" "h \<in> set grids" "partsMatch h parts"
  shows "g = h"
proof -
  have "is_singleton {g \<in> set grids. partsMatch g parts}"
    using hasUniqueMatch_iff [OF assms(1), of parts] assms(2) by (simp only: is_singleton_altdef)
  then obtain x where x: "{g \<in> set grids. partsMatch g parts} = {x}" by (rule is_singletonE)
  have "g \<in> {g \<in> set grids. partsMatch g parts}" "h \<in> {g \<in> set grids. partsMatch g parts}"
    using assms(3-6) by simp_all
  then show ?thesis by (simp only: x singleton_iff)
qed

lemma in_concat_map: "x \<in> set (concat (map f xs)) \<longleftrightarrow> (\<exists>a \<in> set xs. x \<in> set (f a))"
  by auto

lemma in_hintPositions:
  assumes "a < b" "b < c" "c < d" "d < 16"
  shows "[of_nat a, of_nat b, of_nat c, of_nat d] \<in> set hintPositions"
proof -
  have "a \<in> {0..<13}" "b \<in> {a+1..<14}" "c \<in> {b+1..<15}" "d \<in> {c+1..<16}" using assms by auto
  then show ?thesis
    unfolding hintPositions_def buildHintPositions_def in_concat_map set_map set_upt
    by (intro bexI [of _ a] bexI [of _ b] bexI [of _ c]) (erule imageI)
qed

lemma hintPositions_elem:
  assumes "ps \<in> set hintPositions"
  shows "\<exists>a b c d. ps = [of_nat a, of_nat b, of_nat c, of_nat d] \<and> a < b \<and> b < c \<and> c < d \<and> d < 16"
proof -
  obtain a b c d where "b \<in> {a+1..<14}" "c \<in> {b+1..<15}" "d \<in> {c+1..<16}"
    "ps = [of_nat a, of_nat b, of_nat c, of_nat d]"
    using assms unfolding hintPositions_def buildHintPositions_def in_concat_map set_map set_upt by blast
  then show ?thesis by (intro exI [of _ a] exI [of _ b] exI [of _ c] exI [of _ d]) simp
qed

lemma unat_small_byte: "n < 16 \<Longrightarrow> unat (of_nat n :: byte) = n"
  by (simp add: unat_of_nat)

lemma hintPositions_bounds:
  assumes "ps \<in> set hintPositions"
  shows "length ps = 4 \<and> (\<forall>p \<in> set ps. p < 16)"
proof -
  obtain a b c d where "ps = [of_nat a, of_nat b, of_nat c, of_nat d]" "a < b" "b < c" "c < d" "d < 16"
    using hintPositions_elem [OF assms] by blast
  then show ?thesis by (auto simp: word_less_nat_alt unat_small_byte)
qed

lemma length_hintPositions: "length hintPositions = 1820"
  unfolding hintPositions_def buildHintPositions_def length_concat map_map comp_def length_map length_upt
  by (simp add: upt_conv_Cons)

section \<open>Keys\<close>

definition packHintBytes :: "byte \<Rightarrow> byte \<Rightarrow> byte \<Rightarrow> byte \<Rightarrow> u32" where
  "packHintBytes a0 a1 a2 a3 =
    (let (h0, h1) = (if a0 > a1 then (a1, a0) else (a0, a1));
         (h2, h3) = (if a2 > a3 then (a3, a2) else (a2, a3));
         (h0, h2) = (if h0 > h2 then (h2, h0) else (h0, h2));
         (h1, h3) = (if h1 > h3 then (h3, h1) else (h1, h3));
         (h1, h2) = (if h1 > h2 then (h2, h1) else (h1, h2))
     in push_bit 24 (ucast h0) OR push_bit 16 (ucast h1) OR push_bit 8 (ucast h2) OR ucast h3)"

definition packHintsToKey :: "bytes \<Rightarrow> u32" where
  "packHintsToKey hints = packHintBytes (hints ! 0) (hints ! 1) (hints ! 2) (hints ! 3)"

text \<open>The network sorts: the key is the big-endian reading of the sorted bytes.\<close>

lemma sort4_network:
  fixes a0 a1 a2 a3 :: "'a::linorder"
  shows "(let (h0, h1) = (if a0 > a1 then (a1, a0) else (a0, a1));
         (h2, h3) = (if a2 > a3 then (a3, a2) else (a2, a3));
         (h0, h2) = (if h0 > h2 then (h2, h0) else (h0, h2));
         (h1, h3) = (if h1 > h3 then (h3, h1) else (h1, h3));
         (h1, h2) = (if h1 > h2 then (h2, h1) else (h1, h2))
     in [h0, h1, h2, h3]) = sort [a0, a1, a2, a3]"
proof (rule sym, rule properties_for_sort, goal_cases)
  case 1
  show ?case by (cases "a1 < a0"; cases "a3 < a2") (simp_all add: Let_def add_ac)
next
  case 2
  show ?case by (cases "a1 < a0"; cases "a3 < a2") (simp_all add: Let_def, (intro conjI impI | order)+)
qed

lemma packHintBytes_sort: "packHintBytes a0 a1 a2 a3 = Uint32 (sort [a0, a1, a2, a3])"
  unfolding sort4_network [symmetric] packHintBytes_def Uint32_def
  by (simp add: Let_def split: prod.splits)

lemma packHintsToKey_sort: "length hs = 4 \<Longrightarrow> packHintsToKey hs = Uint32 (sort hs)"
  by (metis packHintsToKey_def packHintBytes_sort list4_conv)

lemma packHintsToKey_mset: "length hs = 4 \<Longrightarrow> mset hs = mset hs' \<Longrightarrow> packHintsToKey hs = packHintsToKey hs'"
  using sorted_list_of_multiset_mset [of hs] sorted_list_of_multiset_mset [of hs'] mset_eq_length [of hs hs']
  by (simp add: packHintsToKey_sort)

lemma packHintsToKey_inj:
  assumes "length hs = 4" "length hs' = 4" "packHintsToKey hs = packHintsToKey hs'"
  shows "mset hs = mset hs'"
proof -
  have "Uint32 (sort hs) = Uint32 (sort hs')" using assms by (simp add: packHintsToKey_sort)
  then have "sort hs = sort hs'" by (metis Put_Uint32 assms(1,2) length_sort)
  then show ?thesis by (metis mset_sort)
qed

section \<open>Property\<close>

text \<open>
  The sorting network makes the key of four hint bytes depend on the bytes and not on their order:
  two quadruples have the same key exactly when they are permutations of each other.
\<close>

theorem key_identifies_multiset:
  assumes "length hs = 4" "length hs' = 4"
  shows "packHintsToKey hs = packHintsToKey hs' \<longleftrightarrow> mset hs = mset hs'"
  using packHintsToKey_inj [OF assms] packHintsToKey_mset [OF assms(1)] by blast

theorem key_identifies_multiset_witness:
  "packHintsToKey [3, 1, 2, 1] = packHintsToKey [1, 1, 2, 3] \<longleftrightarrow> mset [3, 1, 2, 1 :: byte] = mset [1, 1, 2, 3]"
  using key_identifies_multiset [of "[3, 1, 2, 1]" "[1, 1, 2, 3]"] by simp

end
