(* ===== verification/Modes.thy ===== *)
theory Modes
  imports GoStrings
begin

text \<open>
  Wire preferences of the two traffic directions (\<open>pkg/obfs/sudoku/ascii_mode.go\<close>). The mode of a
  configuration is parsed to a token per direction; the canonical string parses back to the same
  tokens, so normalising a configuration is idempotent.
\<close>

record ASCIIMode =
  Uplink :: string
  Downlink :: string

definition asciiModeTokenASCII :: string where
  "asciiModeTokenASCII = ''ascii''"

definition asciiModeTokenEntropy :: string where
  "asciiModeTokenEntropy = ''entropy''"

definition normalizeASCIIModeToken :: "string \<Rightarrow> string option" where
  "normalizeASCIIModeToken token =
    (let t = ToLower (TrimSpace token) in
     if t = ''ascii'' \<or> t = ''prefer_ascii'' then Some asciiModeTokenASCII
     else if t = ''entropy'' \<or> t = ''prefer_entropy'' \<or> t = '''' then Some asciiModeTokenEntropy
     else None)"

definition ParseASCIIMode :: "string \<Rightarrow> ASCIIMode result" where
  "ParseASCIIMode mode =
    (let raw = ToLower (TrimSpace mode);
         invalid = Inl (ErrMsg ''invalid ascii mode'') in
     if raw = '''' \<or> raw = ''entropy'' \<or> raw = ''prefer_entropy''
     then Inr \<lparr>Uplink = asciiModeTokenEntropy, Downlink = asciiModeTokenEntropy\<rparr>
     else if raw = ''ascii'' \<or> raw = ''prefer_ascii''
     then Inr \<lparr>Uplink = asciiModeTokenASCII, Downlink = asciiModeTokenASCII\<rparr>
     else if \<not> HasPrefix raw ''up_'' then invalid
     else case SplitN2 (TrimPrefix raw ''up_'') ''_down_'' of
       [p0, p1] \<Rightarrow>
         (case normalizeASCIIModeToken p0 of
            None \<Rightarrow> invalid
          | Some up \<Rightarrow>
            (case normalizeASCIIModeToken p1 of
               None \<Rightarrow> invalid
             | Some down \<Rightarrow> Inr \<lparr>Uplink = up, Downlink = down\<rparr>))
     | _ \<Rightarrow> invalid)"

definition Canonical :: "ASCIIMode \<Rightarrow> string" where
  "Canonical m =
    (if Uplink m = asciiModeTokenASCII \<and> Downlink m = asciiModeTokenASCII then ''prefer_ascii''
     else if Uplink m = asciiModeTokenEntropy \<and> Downlink m = asciiModeTokenEntropy then ''prefer_entropy''
     else ''up_'' @ Uplink m @ ''_down_'' @ Downlink m)"

definition NormalizeASCIIMode :: "string \<Rightarrow> string result" where
  "NormalizeASCIIMode mode =
    (case ParseASCIIMode mode of Inl e \<Rightarrow> Inl e | Inr parsed \<Rightarrow> Inr (Canonical parsed))"

definition singleDirectionPreference :: "string \<Rightarrow> string" where
  "singleDirectionPreference token = (if token = asciiModeTokenASCII then ''prefer_ascii'' else ''prefer_entropy'')"

definition uplinkPreference :: "ASCIIMode \<Rightarrow> string" where
  "uplinkPreference m = singleDirectionPreference (Uplink m)"

definition downlinkPreference :: "ASCIIMode \<Rightarrow> string" where
  "downlinkPreference m = singleDirectionPreference (Downlink m)"

text \<open>A parsed mode holds one of the two tokens in each direction.\<close>

definition mode_ok :: "ASCIIMode \<Rightarrow> bool" where
  "mode_ok m \<longleftrightarrow> {Uplink m, Downlink m} \<subseteq> {asciiModeTokenASCII, asciiModeTokenEntropy}"

lemma normalizeASCIIModeToken_ok:
  "normalizeASCIIModeToken t = Some u \<Longrightarrow> u \<in> {asciiModeTokenASCII, asciiModeTokenEntropy}"
  by (auto simp: normalizeASCIIModeToken_def Let_def split: if_splits)

lemma ParseASCIIMode_ok: "ParseASCIIMode mode = Inr m \<Longrightarrow> mode_ok m"
  unfolding ParseASCIIMode_def Let_def mode_ok_def
  by (auto split: if_splits list.splits option.splits dest!: normalizeASCIIModeToken_ok)

lemma mode_ok_cases:
  assumes "mode_ok m"
  obtains "m = \<lparr>Uplink = ''ascii'', Downlink = ''ascii''\<rparr>"
    | "m = \<lparr>Uplink = ''ascii'', Downlink = ''entropy''\<rparr>"
    | "m = \<lparr>Uplink = ''entropy'', Downlink = ''ascii''\<rparr>"
    | "m = \<lparr>Uplink = ''entropy'', Downlink = ''entropy''\<rparr>"
  using assms by (cases m) (auto simp: mode_ok_def asciiModeTokenASCII_def asciiModeTokenEntropy_def)

lemma Parse_Canonical: "mode_ok m \<Longrightarrow> ParseASCIIMode (Canonical m) = Inr m"
  by (erule mode_ok_cases; simp; code_simp)

lemma NormalizeASCIIMode_fixpoint: "NormalizeASCIIMode s = Inr c \<Longrightarrow> NormalizeASCIIMode c = Inr c"
  by (auto simp: NormalizeASCIIMode_def Parse_Canonical ParseASCIIMode_ok split: sum.splits)

section \<open>Property\<close>

text \<open>
  Normalising an accepted mode gives a canonical string that parses to the same tokens and that
  normalising leaves unchanged.
\<close>

theorem normalize_mode_stable:
  assumes "NormalizeASCIIMode mode = Inr c"
  shows "ParseASCIIMode c = ParseASCIIMode mode \<and> NormalizeASCIIMode c = Inr c"
proof -
  obtain m where m: "ParseASCIIMode mode = Inr m" "c = Canonical m"
    using assms by (auto simp: NormalizeASCIIMode_def split: sum.splits)
  then have "ParseASCIIMode c = Inr m" using Parse_Canonical [OF ParseASCIIMode_ok [OF m(1)]] by simp
  then show ?thesis using m by (simp add: NormalizeASCIIMode_def)
qed

theorem normalize_mode_stable_witness:
  "NormalizeASCIIMode '' UP_ascii_Down_Prefer_Entropy'' = Inr ''up_ascii_down_entropy''
    \<and> NormalizeASCIIMode ''up_ascii_down_entropy'' = Inr ''up_ascii_down_entropy''"
proof -
  have "NormalizeASCIIMode '' UP_ascii_Down_Prefer_Entropy'' = Inr ''up_ascii_down_entropy''" by code_simp
  then show ?thesis using normalize_mode_stable [of "'' UP_ascii_Down_Prefer_Entropy''" "''up_ascii_down_entropy''"] by simp
qed

end
