(* ===== verification/Table.thy ===== *)
theory Table
  imports Hints Layout Modes Rand
begin

text \<open>
  Encoding tables (\<open>pkg/obfs/sudoku/table.go\<close>, \<open>table_set.go\<close>). A table is built from a key:
  SHA-256 seeds \<open>math/rand\<close>, whose Fisher-Yates shuffle orders the 288 grids, and byte value \<open>b\<close> is
  written as four hint bytes that single out the \<open>b\<close>-th grid. Both library functions are parameters:
  \<open>sha256\<close>, and \<open>shuffleU seed i\<close>, the 32-bit value the generator's \<open>int31n (i + 1)\<close> accepts when the
  shuffle is at index \<open>i\<close>.
\<close>

record Table =
  EncodeTable :: "byte \<Rightarrow> bytes list"
  DecodeMap :: "u32 \<rightharpoonup> byte"
  PaddingPool :: bytes
  IsASCII :: bool
  layout :: byteLayout
  opposite :: "nat option"
  hint :: u32

section \<open>The shuffle\<close>

definition swap :: "nat \<Rightarrow> nat \<Rightarrow> 'a list \<Rightarrow> 'a list" where
  "swap i j xs = xs[i := xs ! j, j := xs ! i]"

fun shuffleFrom :: "(nat \<Rightarrow> u32) \<Rightarrow> nat \<Rightarrow> 'a list \<Rightarrow> 'a list" where
  "shuffleFrom u 0 xs = xs"
| "shuffleFrom u (Suc i) xs = shuffleFrom u i (swap (Suc i) (fastIntnFromUint32 (u (Suc i)) (Suc i + 1)) xs)"

definition Shuffle :: "(nat \<Rightarrow> u32) \<Rightarrow> 'a list \<Rightarrow> 'a list" where
  "Shuffle u xs = shuffleFrom u (length xs - 1) xs"

lemma mset_swap_elems: "i < length xs \<Longrightarrow> j < length xs \<Longrightarrow> mset (swap i j xs) = mset xs"
  by (simp add: swap_def mset_swap)

lemma length_swap [simp]: "length (swap i j xs) = length xs"
  by (simp add: swap_def)

lemma mset_shuffleFrom: "n < length xs \<Longrightarrow> length xs < 2 ^ 32 \<Longrightarrow> mset (shuffleFrom u n xs) = mset xs"
proof (induction u n xs rule: shuffleFrom.induct)
  case (2 u i xs)
  have "fastIntnFromUint32 (u (Suc i)) (Suc i + 1) < Suc i + 1"
    using 2 by (intro fastIntn_less) auto
  then show ?case using 2 by (simp add: mset_swap_elems)
qed simp

lemma mset_Shuffle: "length xs < 2 ^ 32 \<Longrightarrow> mset (Shuffle u xs) = mset xs"
  by (cases xs) (simp_all add: Shuffle_def mset_shuffleFrom)

section \<open>Building a table\<close>

definition hintParts :: "grid \<Rightarrow> bytes \<Rightarrow> hintPart list" where
  "hintParts targetGrid positions = map (\<lambda>p. \<lparr>val = targetGrid ! unat p, pos = p\<rparr>) positions"

definition partHints :: "byteLayout \<Rightarrow> hintPart list \<Rightarrow> bytes" where
  "partHints l parts = map (\<lambda>p. hintByte l (val p - 1) (pos p)) parts"

text \<open>The body of the loop over the hint positions.\<close>

definition addPuzzle :: "grid list \<Rightarrow> byte \<Rightarrow> grid \<Rightarrow> Table \<Rightarrow> bytes \<Rightarrow> Table" where
  "addPuzzle grids byteVal targetGrid t positions =
    (let rawParts = hintParts targetGrid positions in
     if \<not> hasUniqueMatch grids rawParts then t
     else let currentHints = partHints (layout t) rawParts;
              key = packHintsToKey currentHints
          in t\<lparr>EncodeTable := (EncodeTable t)(byteVal := EncodeTable t byteVal @ [currentHints]),
               DecodeMap := (DecodeMap t)(key \<mapsto> byteVal)\<rparr>)"

definition emptyTable :: "byteLayout \<Rightarrow> Table" where
  "emptyTable l =
    \<lparr>EncodeTable = (\<lambda>_. []), DecodeMap = Map.empty, PaddingPool = [] @ paddingPool l,
     IsASCII = (name l = ''ascii''), layout = l, opposite = None, hint = 0\<rparr>"

definition fillTable :: "grid list \<Rightarrow> grid list \<Rightarrow> bytes list \<Rightarrow> Table \<Rightarrow> Table" where
  "fillTable grids shuffledGrids positions t0 =
    foldl (\<lambda>t byteVal. foldl (addPuzzle grids (of_nat byteVal) (shuffledGrids ! byteVal)) t positions)
      t0 [0..<256]"

definition buildTable :: "(nat \<Rightarrow> u32) \<Rightarrow> byteLayout \<Rightarrow> Table" where
  "buildTable u l = fillTable GenerateAllGrids (Shuffle u GenerateAllGrids) hintPositions (emptyTable l)"

definition newSingleDirectionTable ::
  "(bytes \<Rightarrow> bytes) \<Rightarrow> (u64 \<Rightarrow> nat \<Rightarrow> u32) \<Rightarrow> string \<Rightarrow> string \<Rightarrow> string \<Rightarrow> Table result" where
  "newSingleDirectionTable sha256 shuffleU key mode customPattern =
    (case resolveLayout mode customPattern of
       Inl e \<Rightarrow> Inl e
     | Inr l \<Rightarrow>
         let seed = Uint64 (take 8 (sha256 (bytes_of key)))
         in Inr (buildTable (shuffleU seed) l))"

section \<open>The interface of a table\<close>

text \<open>
  What the codecs rely on: every byte has at least one puzzle, a puzzle is four hint bytes whose key
  decodes to the byte, and the padding is not empty and holds no hint byte.
\<close>

locale puzzle_table =
  fixes t :: Table
  assumes table_layout: "hint_layout (layout t)"
    and puzzles_nonempty: "EncodeTable t b \<noteq> []"
    and puzzles_few: "length (EncodeTable t b) \<le> 1820"
    and puzzle_length: "p \<in> set (EncodeTable t b) \<Longrightarrow> length p = 4"
    and puzzle_hints: "p \<in> set (EncodeTable t b) \<Longrightarrow> h \<in> set p \<Longrightarrow> hintTable (layout t) h"
    and puzzle_decodes: "p \<in> set (EncodeTable t b) \<Longrightarrow> DecodeMap t (packHintsToKey p) = Some b"
    and decodes_puzzle: "DecodeMap t k = Some b \<Longrightarrow> \<exists>p \<in> set (EncodeTable t b). packHintsToKey p = k"
    and table_padding: "PaddingPool t = paddingPool (layout t)"
begin

lemma shuffled_puzzle_decodes:
  "p \<in> set (EncodeTable t b) \<Longrightarrow> mset q = mset p \<Longrightarrow> DecodeMap t (packHintsToKey q) = Some b"
  by (metis puzzle_decodes packHintsToKey_mset puzzle_length)

lemma puzzles_disjoint:
  "p \<in> set (EncodeTable t b) \<Longrightarrow> q \<in> set (EncodeTable t c) \<Longrightarrow> mset p = mset q \<Longrightarrow> b = c"
  using shuffled_puzzle_decodes puzzle_decodes by (metis option.inject)

lemma padding_not_hint: "b \<in> set (PaddingPool t) \<Longrightarrow> \<not> hintTable (layout t) b"
  using hint_layout.pool_padding [OF table_layout] by (simp add: table_padding)

lemma padding_nonempty: "PaddingPool t \<noteq> []"
  using hint_layout.pool_nonempty [OF table_layout] by (simp add: table_padding)

lemma padding_few: "length (PaddingPool t) \<le> 256"
proof -
  have "length (PaddingPool t) = card (set (PaddingPool t))"
    using hint_layout.pool_distinct [OF table_layout] by (simp add: table_padding distinct_card)
  also have "\<dots> \<le> card (UNIV :: byte set)" by (intro card_mono) auto
  finally show ?thesis by (simp add: card_word)
qed

end

section \<open>A built table keeps the interface\<close>

text \<open>
  The invariant of the two loops over byte values and hint positions, for the grids in the order \<open>gs\<close>.
\<close>

definition built :: "byteLayout \<Rightarrow> grid list \<Rightarrow> Table \<Rightarrow> bool" where
  "built l gs t \<longleftrightarrow> layout t = l \<and> PaddingPool t = paddingPool l
    \<and> (\<forall>b. \<forall>p \<in> set (EncodeTable t b). DecodeMap t (packHintsToKey p) = Some b
          \<and> (\<exists>ps \<in> set hintPositions. p = partHints l (hintParts (gs ! unat b) ps)
               \<and> hasUniqueMatch GenerateAllGrids (hintParts (gs ! unat b) ps)))
    \<and> (\<forall>k b. DecodeMap t k = Some b \<longrightarrow> (\<exists>p \<in> set (EncodeTable t b). packHintsToKey p = k))"

definition puzzlesOf :: "byteLayout \<Rightarrow> grid \<Rightarrow> bytes list \<Rightarrow> bytes list" where
  "puzzlesOf l g ps =
    map (\<lambda>p. partHints l (hintParts g p)) (filter (\<lambda>p. hasUniqueMatch GenerateAllGrids (hintParts g p)) ps)"

locale grid_order =
  fixes l :: byteLayout and gs :: "grid list"
  assumes lay: "hint_layout l"
    and gs_valid: "set gs \<subseteq> {g. valid_grid g}"
    and gs_distinct: "distinct gs"
    and gs_enough: "256 \<le> length gs"
begin

lemma grid_at: "valid_grid (gs ! unat (b :: byte))"
proof -
  have "gs ! unat b \<in> set gs" using gs_enough unat_byte_less [of b] by (intro nth_mem) simp
  then show ?thesis using gs_valid by blast
qed

lemma grid_at_inj: "gs ! unat (b :: byte) = gs ! unat (c :: byte) \<Longrightarrow> b = c"
  using nth_eq_iff_index_eq [OF gs_distinct, of "unat b" "unat c"] gs_enough
    unat_byte_less [of b] unat_byte_less [of c] by (simp add: word_unat_eq_iff)

lemma digit_minus_1: "d \<in> digits4 \<Longrightarrow> d - 1 < 4"
  by (auto simp: digits4_def)

lemma cell_digit: "valid_grid g \<Longrightarrow> p < 16 \<Longrightarrow> g ! unat (p :: byte) \<in> digits4"
  by (auto simp: valid_grid_def word_less_nat_alt dest!: subsetD)

lemma small_masks: "(v :: byte) < 4 \<Longrightarrow> v AND 3 = v" "(p :: byte) < 16 \<Longrightarrow> p AND 15 = p"
  by (rule byte_below_4 [where P = "\<lambda>v. v AND 3 = v"], simp_all add: upt_conv_Cons)
    (rule byte_below_16 [where P = "\<lambda>v. v AND 15 = v"], simp_all add: upt_conv_Cons)

lemma partHints_parts:
  assumes "valid_grid g" "ps \<in> set hintPositions"
  shows "partHints l (hintParts g ps) = map (\<lambda>p. encodeHint l (g ! unat p - 1) p) ps"
  using hintPositions_bounds [OF assms(2)] digit_minus_1 [OF cell_digit [OF assms(1)]]
  by (simp add: partHints_def hintParts_def hintByte_def small_masks)

lemma length_partHints [simp]: "ps \<in> set hintPositions \<Longrightarrow> length (partHints l (hintParts g ps)) = 4"
  using hintPositions_bounds by (simp add: partHints_def hintParts_def)

lemma partsMatch_hintParts: "partsMatch h (hintParts g ps) \<longleftrightarrow> (\<forall>p \<in> set ps. h ! unat p = g ! unat p)"
  by (auto simp: partsMatch_iff hintParts_def)

text \<open>Four hint bytes with the same key name the same cells with the same values.\<close>

lemma key_identifies:
  assumes g: "valid_grid g" "ps \<in> set hintPositions" and h: "valid_grid h" "qs \<in> set hintPositions"
    and key: "packHintsToKey (partHints l (hintParts g ps)) = packHintsToKey (partHints l (hintParts h qs))"
  shows "partsMatch h (hintParts g ps)"
proof -
  have "mset (partHints l (hintParts g ps)) = mset (partHints l (hintParts h qs))"
    by (rule packHintsToKey_inj [OF _ _ key]) (simp_all add: g h)
  then have eq: "set (partHints l (hintParts g ps)) = set (partHints l (hintParts h qs))"
    by (rule mset_eq_setD)
  show ?thesis unfolding partsMatch_hintParts
  proof
    fix p assume p: "p \<in> set ps"
    then have "encodeHint l (g ! unat p - 1) p \<in> set (partHints l (hintParts h qs))"
      using eq by (auto simp: partHints_parts g)
    then obtain q where q: "q \<in> set qs" "encodeHint l (g ! unat p - 1) p = encodeHint l (h ! unat q - 1) q"
      by (auto simp: partHints_parts h)
    have "p < 16" "q < 16" using p q(1) hintPositions_bounds g(2) h(2) by blast+
    then have "g ! unat p - 1 = h ! unat q - 1 \<and> p = q"
      using q(2) digit_minus_1 cell_digit g(1) h(1) by (intro hint_layout.hint_inj [OF lay]) blast+
    then show "h ! unat p = g ! unat p" by (metis diff_add_cancel)
  qed
qed

lemma key_unique_byte:
  fixes b c :: byte
  assumes "ps \<in> set hintPositions" "hasUniqueMatch GenerateAllGrids (hintParts (gs ! unat b) ps)"
    and "qs \<in> set hintPositions"
    and "packHintsToKey (partHints l (hintParts (gs ! unat b) ps)) = packHintsToKey (partHints l (hintParts (gs ! unat c) qs))"
  shows "c = b"
proof (rule grid_at_inj)
  have "partsMatch (gs ! unat c) (hintParts (gs ! unat b) ps)"
    using key_identifies [OF grid_at assms(1) grid_at assms(3,4)] .
  moreover have "partsMatch (gs ! unat b) (hintParts (gs ! unat b) ps)" by (simp add: partsMatch_hintParts)
  ultimately show "gs ! unat c = gs ! unat b"
    by (intro hasUniqueMatch_eq [OF GenerateAllGrids_distinct assms(2)]) (simp_all add: GenerateAllGrids_set grid_at)
qed

lemma built_empty: "built l gs (emptyTable l)"
  by (simp add: built_def emptyTable_def)

lemma built_addPuzzle:
  assumes t: "built l gs t" and ps: "ps \<in> set hintPositions"
  shows "built l gs (addPuzzle GenerateAllGrids b (gs ! unat b) t ps)"
proof (cases "hasUniqueMatch GenerateAllGrids (hintParts (gs ! unat b) ps)")
  case True
  let ?p = "partHints l (hintParts (gs ! unat b) ps)" and ?t = "addPuzzle GenerateAllGrids b (gs ! unat b) t ps"
  have lt: "layout t = l" using t by (simp add: built_def)
  have E: "EncodeTable ?t = (EncodeTable t)(b := EncodeTable t b @ [?p])"
    and D: "DecodeMap ?t = (DecodeMap t)(packHintsToKey ?p \<mapsto> b)"
    and LP: "layout ?t = l" "PaddingPool ?t = paddingPool l"
    using True t by (simp_all add: addPuzzle_def Let_def built_def)
  have old: "c = b" if "q \<in> set (EncodeTable t c)" "packHintsToKey ?p = packHintsToKey q" for c q
    using t that key_unique_byte [OF ps True] unfolding built_def by metis
  have new: "q \<in> set (EncodeTable ?t c) \<longleftrightarrow> q \<in> set (EncodeTable t c) \<or> (c = b \<and> q = ?p)" for c q
    by (auto simp: E)
  show ?thesis unfolding built_def new
  proof (intro conjI allI ballI impI)
    fix c q assume "q \<in> set (EncodeTable ?t c)"
    then have q: "q \<in> set (EncodeTable t c) \<or> c = b \<and> q = ?p" using new by blast
    then show "DecodeMap ?t (packHintsToKey q) = Some c"
      using old [of q c] t by (auto simp: D built_def)
    show "\<exists>ps\<in>set hintPositions. q = partHints l (hintParts (gs ! unat c) ps) \<and>
        hasUniqueMatch GenerateAllGrids (hintParts (gs ! unat c) ps)"
      using q t True ps unfolding built_def by blast
  next
    fix k c assume "DecodeMap ?t k = Some c"
    then show "\<exists>q\<in>set (EncodeTable ?t c). packHintsToKey q = k"
      using t by (auto simp: D E built_def split: if_splits)
  qed (simp_all add: LP)
qed (use t in \<open>simp add: addPuzzle_def\<close>)

lemma built_positions:
  "built l gs t \<Longrightarrow> set ps \<subseteq> set hintPositions \<Longrightarrow> built l gs (foldl (addPuzzle GenerateAllGrids b (gs ! unat b)) t ps)"
  by (induction ps arbitrary: t) (simp_all add: built_addPuzzle)

lemma built_bytes:
  assumes "built l gs t" "set bs \<subseteq> {0..<256}"
  shows "built l gs (foldl (\<lambda>t b. foldl (addPuzzle GenerateAllGrids (of_nat b) (gs ! b)) t hintPositions) t bs)"
  using assms
proof (induction bs arbitrary: t)
  case (Cons b bs)
  then have "unat (of_nat b :: byte) = b" by (simp add: unat_of_nat)
  then show ?case using Cons built_positions [OF Cons.prems(1) subset_refl, of "of_nat b"] by simp
qed simp

lemma EncodeTable_positions:
  "layout t = l \<Longrightarrow> layout (foldl (addPuzzle GenerateAllGrids b g) t ps) = l
    \<and> EncodeTable (foldl (addPuzzle GenerateAllGrids b g) t ps) = (EncodeTable t)(b := EncodeTable t b @ puzzlesOf l g ps)"
  by (induction ps arbitrary: t) (auto simp: addPuzzle_def Let_def puzzlesOf_def fun_eq_iff)

lemma EncodeTable_bytes:
  assumes "layout t = l" "n \<le> 256" "\<And>b. EncodeTable t b = []"
  shows "layout (foldl (\<lambda>t b. foldl (addPuzzle GenerateAllGrids (of_nat b) (gs ! b)) t hintPositions) t [0..<n]) = l
     \<and> EncodeTable (foldl (\<lambda>t b. foldl (addPuzzle GenerateAllGrids (of_nat b) (gs ! b)) t hintPositions) t [0..<n])
      = (\<lambda>b. if unat b < n then puzzlesOf l (gs ! unat b) hintPositions else [])"
  using assms(2)
proof (induction n)
  case 0
  then show ?case using assms by auto
next
  case (Suc n)
  have n: "unat (of_nat n :: byte) = n" using Suc.prems by (simp add: unat_of_nat)
  have "unat b = n \<longleftrightarrow> b = of_nat n" for b :: byte using n by (metis word_unat_eq_iff)
  moreover let ?t = "foldl (\<lambda>t b. foldl (addPuzzle GenerateAllGrids (of_nat b) (gs ! b)) t hintPositions) t [0..<n]"
  have "layout ?t = l" "EncodeTable ?t = (\<lambda>b. if unat b < n then puzzlesOf l (gs ! unat b) hintPositions else [])"
    using Suc by simp_all
  ultimately show ?case
    using EncodeTable_positions [of ?t "of_nat n" "gs ! n" hintPositions] n
    by (simp add: fun_eq_iff less_Suc_eq) (metis n less_irrefl)
qed

lemma puzzlesOf_nonempty:
  assumes "valid_grid g"
  shows "puzzlesOf l g hintPositions \<noteq> []"
proof -
  obtain ps where ps: "ps \<in> set clue_positions" "card {h. valid_grid h \<and> (\<forall>p\<in>set ps. h ! p = g ! p)} = 1"
    using valid_grid_unique_clues [OF assms] by blast
  let ?ps = "map of_nat ps"
  have small: "\<And>p. p \<in> set ps \<Longrightarrow> p < 16"
    using ps(1) unfolding clue_positions_def by auto
  have pos: "?ps \<in> set hintPositions"
    using ps(1) in_hintPositions [of 1 3 8 10] in_hintPositions [of 1 2 8 11] in_hintPositions [of 2 4 8 14]
      in_hintPositions [of 2 5 8 15] by (auto simp: clue_positions_def)
  have "partsMatch h (hintParts g ?ps) \<longleftrightarrow> (\<forall>p\<in>set ps. h ! p = g ! p)" for h
    using small by (simp add: partsMatch_hintParts unat_small_byte)
  then have "hasUniqueMatch GenerateAllGrids (hintParts g ?ps)"
    using ps(2) by (simp add: hasUniqueMatch_iff [OF GenerateAllGrids_distinct] GenerateAllGrids_set)
  with pos show ?thesis by (auto simp: puzzlesOf_def filter_empty_conv)
qed

lemma puzzle_table_fill: "puzzle_table (fillTable GenerateAllGrids gs hintPositions (emptyTable l))"
  (is "puzzle_table ?t")
proof -
  have b: "built l gs ?t" unfolding fillTable_def by (rule built_bytes [OF built_empty]) simp
  have E: "EncodeTable ?t b = puzzlesOf l (gs ! unat b) hintPositions" for b
    using EncodeTable_bytes [of "emptyTable l" 256] unat_byte_less [of b]
    unfolding fillTable_def by (simp add: emptyTable_def)
  show ?thesis
  proof (rule puzzle_table.intro)
    show "hint_layout (layout ?t)" "PaddingPool ?t = paddingPool (layout ?t)"
      using b lay by (simp_all add: built_def)
    show "EncodeTable ?t b \<noteq> []" for b by (simp add: E puzzlesOf_nonempty grid_at)
    show "length (EncodeTable ?t b) \<le> 1820" for b
      using length_filter_le [of _ hintPositions] by (simp add: E puzzlesOf_def length_hintPositions)
    show "length p = 4" "DecodeMap ?t (packHintsToKey p) = Some b" if "p \<in> set (EncodeTable ?t b)" for p b
      using b that by (fastforce simp: built_def)+
    show "hintTable (layout ?t) h" if p: "p \<in> set (EncodeTable ?t b)" and "h \<in> set p" for p b h
    proof -
      obtain ps where "ps \<in> set hintPositions" "p = partHints l (hintParts (gs ! unat b) ps)"
        using b p unfolding built_def by blast
      then obtain q where "q \<in> set ps" "h = encodeHint l (gs ! unat b ! unat q - 1) q" "q < 16"
        using \<open>h \<in> set p\<close> partHints_parts [OF grid_at] hintPositions_bounds by auto
      then show ?thesis
        using b digit_minus_1 [OF cell_digit [OF grid_at]] hint_layout.hint_hint [OF lay] by (simp add: built_def)
    qed
    show "\<exists>p\<in>set (EncodeTable ?t b). packHintsToKey p = k" if "DecodeMap ?t k = Some b" for k b
      using b that unfolding built_def by blast
  qed
qed

end

lemma set_Shuffle_grids:
  "mset (Shuffle u GenerateAllGrids) = mset GenerateAllGrids"
  by (rule mset_Shuffle) (simp add: GenerateAllGrids_length)

lemma grid_order_Shuffle:
  assumes "hint_layout l"
  shows "grid_order l (Shuffle u GenerateAllGrids)"
proof (rule grid_order.intro [OF assms])
  show "set (Shuffle u GenerateAllGrids) \<subseteq> {g. valid_grid g}"
    using mset_eq_setD [OF set_Shuffle_grids] by (simp add: GenerateAllGrids_set)
  show "distinct (Shuffle u GenerateAllGrids)"
    using mset_eq_imp_distinct_iff [OF set_Shuffle_grids] GenerateAllGrids_distinct by blast
  show "256 \<le> length (Shuffle u GenerateAllGrids)"
    using mset_eq_length [OF set_Shuffle_grids] by (simp add: GenerateAllGrids_length)
qed

interpretation ascii_order: grid_order newASCIILayout "Shuffle u GenerateAllGrids" for u
  by (rule grid_order_Shuffle [OF ascii.hint_layout_axioms])

interpretation entropy_order: grid_order newEntropyLayout "Shuffle u GenerateAllGrids" for u
  by (rule grid_order_Shuffle [OF entropy.hint_layout_axioms])

interpretation ascii_table: puzzle_table "buildTable u newASCIILayout" for u
  unfolding buildTable_def by (rule ascii_order.puzzle_table_fill)

interpretation entropy_table: puzzle_table "buildTable u newEntropyLayout" for u
  unfolding buildTable_def by (rule entropy_order.puzzle_table_fill)

lemma buildTable_puzzle_table: "hint_layout l \<Longrightarrow> puzzle_table (buildTable u l)"
  unfolding buildTable_def by (rule grid_order.puzzle_table_fill [OF grid_order_Shuffle])

lemma newSingleDirectionTable_puzzle_table:
  "newSingleDirectionTable sha256 shuffleU key mode pat = Inr t \<Longrightarrow> puzzle_table t"
  by (auto simp: newSingleDirectionTable_def Let_def resolveLayout_hint_layout buildTable_puzzle_table
      split: sum.splits)

section \<open>Directional tables and table sets\<close>

definition customPatternForToken :: "string \<Rightarrow> string \<Rightarrow> string" where
  "customPatternForToken token customPattern = (if token = asciiModeTokenEntropy then customPattern else '''')"

definition tableHintFingerprint :: "(bytes \<Rightarrow> bytes) \<Rightarrow> string \<Rightarrow> string \<Rightarrow> string \<Rightarrow> string \<Rightarrow> u32" where
  "tableHintFingerprint sha256 key mode uplinkPattern downlinkPattern =
    (let sep = [CHR 0x00];
         sum = sha256 (bytes_of (''sudoku-table-hint'' @ sep @ key @ sep @ mode @ sep
           @ ToLower (TrimSpace uplinkPattern) @ sep @ ToLower (TrimSpace downlinkPattern)))
     in Uint32 (take 4 sum))"

text \<open>
  The tables of one mode are allocated together: the result lists them, the uplink table first, and
  \<open>opposite\<close> is an index of that list. A pointer to a table is an index, \<open>None\<close> is nil.
\<close>

definition NewTableWithCustom ::
  "(bytes \<Rightarrow> bytes) \<Rightarrow> (u64 \<Rightarrow> nat \<Rightarrow> u32) \<Rightarrow> string \<Rightarrow> string \<Rightarrow> string \<Rightarrow> Table list result" where
  "NewTableWithCustom sha256 shuffleU key mode customPattern =
    (case ParseASCIIMode mode of
       Inl e \<Rightarrow> Inl e
     | Inr asciiMode \<Rightarrow>
       let uplinkPattern = customPatternForToken (Uplink asciiMode) customPattern;
           downlinkPattern = customPatternForToken (Downlink asciiMode) customPattern;
           hnt = tableHintFingerprint sha256 key (Canonical asciiMode) uplinkPattern downlinkPattern
       in (case newSingleDirectionTable sha256 shuffleU key (uplinkPreference asciiMode) uplinkPattern of
             Inl e \<Rightarrow> Inl e
           | Inr uplink \<Rightarrow>
             if Uplink asciiMode = Downlink asciiMode then Inr [uplink\<lparr>hint := hnt, opposite := Some 0\<rparr>]
             else case newSingleDirectionTable sha256 shuffleU key (downlinkPreference asciiMode) downlinkPattern of
               Inl e \<Rightarrow> Inl e
             | Inr downlink \<Rightarrow>
               Inr [uplink\<lparr>hint := hnt, opposite := Some 1\<rparr>, downlink\<lparr>hint := hnt, opposite := Some 0\<rparr>]))"

definition NewTable ::
  "(bytes \<Rightarrow> bytes) \<Rightarrow> (u64 \<Rightarrow> nat \<Rightarrow> u32) \<Rightarrow> string \<Rightarrow> string \<Rightarrow> Table list option" where
  "NewTable sha256 shuffleU key mode =
    (case NewTableWithCustom sha256 shuffleU key mode '''' of Inl e \<Rightarrow> None | Inr t \<Rightarrow> Some t)"

definition OppositeDirection :: "Table list \<Rightarrow> nat option \<Rightarrow> nat option" where
  "OppositeDirection ts t =
    (case t of None \<Rightarrow> None
     | Some i \<Rightarrow> (case opposite (ts ! i) of None \<Rightarrow> t | Some j \<Rightarrow> Some j))"

definition Hint :: "Table list \<Rightarrow> nat option \<Rightarrow> u32" where
  "Hint ts t = (case t of None \<Rightarrow> 0 | Some i \<Rightarrow> hint (ts ! i))"

fun buildTables :: "(string \<Rightarrow> Table list result) \<Rightarrow> string list \<Rightarrow> Table list list \<Rightarrow> Table list list result" where
  "buildTables mk [] tables = Inr tables"
| "buildTables mk (pat # pats) tables =
    (case mk pat of
       Inl e \<Rightarrow> Inl (ErrMsg ''build table'')
     | Inr t \<Rightarrow> buildTables mk pats (tables @ [t]))"

definition NewTableSet ::
  "(bytes \<Rightarrow> bytes) \<Rightarrow> (u64 \<Rightarrow> nat \<Rightarrow> u32) \<Rightarrow> string \<Rightarrow> string \<Rightarrow> string list \<Rightarrow> Table list list result" where
  "NewTableSet sha256 shuffleU key mode patterns =
    (if patterns = [] then
       (case NewTableWithCustom sha256 shuffleU key mode '''' of Inl e \<Rightarrow> Inl e | Inr t \<Rightarrow> Inr [t])
     else buildTables (NewTableWithCustom sha256 shuffleU key mode) patterns [])"

definition Candidates :: "Table list list option \<Rightarrow> Table list list" where
  "Candidates ts = (case ts of None \<Rightarrow> [] | Some tables \<Rightarrow> tables)"

lemma puzzle_table_update [simp]:
  "puzzle_table (t\<lparr>hint := x\<rparr>) = puzzle_table t" "puzzle_table (t\<lparr>opposite := y\<rparr>) = puzzle_table t"
  by (simp_all add: puzzle_table_def)

lemma NewTableWithCustom_ok:
  assumes "NewTableWithCustom sha256 shuffleU key mode pat = Inr ts"
  shows "\<forall>t \<in> set ts. puzzle_table t" "ts \<noteq> []"
  using assms unfolding NewTableWithCustom_def Let_def
  by (auto split: sum.splits if_splits elim!: newSingleDirectionTable_puzzle_table)

lemma NewTableWithCustom_opposite:
  assumes "NewTableWithCustom sha256 shuffleU key mode pat = Inr ts" "i < length ts"
  shows "\<exists>j < length ts. OppositeDirection ts (Some i) = Some j \<and> OppositeDirection ts (Some j) = Some i
     \<and> Hint ts (Some j) = Hint ts (Some i)"
  using assms unfolding NewTableWithCustom_def Let_def
  by (auto simp: OppositeDirection_def Hint_def less_Suc_eq split: sum.splits if_splits)

lemma buildTables_ok:
  "buildTables mk pats acc = Inr tss \<Longrightarrow>
    \<exists>us. tss = acc @ us \<and> length us = length pats \<and> (\<forall>i < length us. mk (pats ! i) = Inr (us ! i))"
proof (induction mk pats acc rule: buildTables.induct)
  case (2 mk pat pats tables)
  then obtain t us where "mk pat = Inr t" "tss = (tables @ [t]) @ us" "length us = length pats"
    "\<forall>i < length us. mk (pats ! i) = Inr (us ! i)"
    by (auto split: sum.splits)
  then show ?case by (intro exI [of _ "t # us"]) (auto simp: nth_Cons split: nat.split)
qed simp

lemma NewTableSet_ok:
  assumes "NewTableSet sha256 shuffleU key mode pats = Inr tss"
  shows "length tss = max 1 (length pats) \<and> (\<forall>ts \<in> set tss. ts \<noteq> [] \<and> (\<forall>t \<in> set ts. puzzle_table t))"
proof (cases "pats = []")
  case True
  then show ?thesis
    using assms NewTableWithCustom_ok by (fastforce simp: NewTableSet_def split: sum.splits)
next
  case False
  then obtain us where "tss = us" "length us = length pats"
    "\<forall>i < length us. NewTableWithCustom sha256 shuffleU key mode (pats ! i) = Inr (us ! i)"
    using assms buildTables_ok [of _ pats "[]" tss] by (auto simp: NewTableSet_def)
  then show ?thesis
    using False NewTableWithCustom_ok by (fastforce simp: in_set_conv_nth max_def Suc_le_eq)
qed

section \<open>Properties\<close>

text \<open>
  Property C8: in every table the constructor returns, each byte value has a puzzle, and a puzzle of a byte,
  its four hint bytes in any order, decodes to that byte; no key decodes to a byte it is not a puzzle of.
\<close>

theorem table_decodes_puzzles:
  assumes "newSingleDirectionTable sha256 shuffleU key mode pat = Inr t"
  shows "EncodeTable t b \<noteq> []
    \<and> (\<forall>p \<in> set (EncodeTable t b). length p = 4 \<and> (\<forall>q. mset q = mset p \<longrightarrow> DecodeMap t (packHintsToKey q) = Some b))
    \<and> (\<forall>k. DecodeMap t k = Some b \<longrightarrow> k \<in> packHintsToKey ` set (EncodeTable t b))"
proof -
  have t: "puzzle_table t" by (rule newSingleDirectionTable_puzzle_table [OF assms])
  show ?thesis
    using puzzle_table.puzzles_nonempty [OF t] puzzle_table.puzzle_length [OF t]
      puzzle_table.shuffled_puzzle_decodes [OF t] puzzle_table.decodes_puzzle [OF t] by blast
qed

theorem table_decodes_puzzles_witness:
  "\<exists>t. newSingleDirectionTable (\<lambda>_. replicate 32 7) (\<lambda>_ _. 5) ''key'' ''prefer_ascii'' '''' = Inr t \<and> EncodeTable t 65 \<noteq> []"
proof -
  have r: "resolveLayout ''prefer_ascii'' '''' = Inr newASCIILayout" by code_simp
  show ?thesis
    using table_decodes_puzzles [of "\<lambda>_. replicate 32 7" "\<lambda>_ _. 5" "''key''" "''prefer_ascii''" "''''" _ 65]
    by (simp add: newSingleDirectionTable_def r)
qed

text \<open>
  Property C3: every table of a directional mode has an opposite table in the same allocation, the opposite of
  the opposite is the table itself, and both carry the same hint.
\<close>

theorem opposite_involution:
  assumes "NewTableWithCustom sha256 shuffleU key mode pat = Inr ts" "i < length ts"
  shows "\<exists>j < length ts. OppositeDirection ts (Some i) = Some j \<and> OppositeDirection ts (Some j) = Some i
     \<and> Hint ts (Some j) = Hint ts (Some i)"
  using NewTableWithCustom_opposite [OF assms] .

theorem opposite_involution_witness:
  "\<exists>ts. NewTableWithCustom (\<lambda>_. replicate 32 7) (\<lambda>_ _. 5) ''key'' ''up_ascii_down_entropy'' '''' = Inr ts
     \<and> (\<exists>j < length ts. OppositeDirection ts (Some 0) = Some j \<and> OppositeDirection ts (Some j) = Some 0)"
proof -
  have m: "ParseASCIIMode ''up_ascii_down_entropy'' = Inr \<lparr>Uplink = ''ascii'', Downlink = ''entropy''\<rparr>" by code_simp
  have a: "resolveLayout ''prefer_ascii'' '''' = Inr newASCIILayout"
    and e: "resolveLayout ''prefer_entropy'' '''' = Inr newEntropyLayout"
    by (simp_all add: resolveLayout_def ToLower_def TrimSpace_def lower_char_def)
  obtain ts where ts: "NewTableWithCustom (\<lambda>_. replicate 32 7) (\<lambda>_ _. 5) ''key'' ''up_ascii_down_entropy'' '''' = Inr ts"
    "0 < length ts"
    by (simp add: NewTableWithCustom_def m Let_def uplinkPreference_def downlinkPreference_def
        singleDirectionPreference_def asciiModeTokenASCII_def customPatternForToken_def
        newSingleDirectionTable_def a e)
  then show ?thesis using opposite_involution [OF ts] by blast
qed

end
