(* ===== verification/Codec.thy ===== *)
theory Codec
  imports Table Pending
begin

text \<open>
  The classic codec: \<open>encodeSudokuPayload\<close> of \<open>downlink.go\<close> writes each payload byte as the four hints
  of one of its puzzles, in a random order and with random padding between them; the decoding loop of
  \<open>Conn.Read\<close> in \<open>conn.go\<close> drops padding and looks four hints up. The reference decoder
  \<open>decodeHints\<close> reads byte by byte; the program's loop, which has a fast path for four hints in a
  row and keeps an incomplete group between chunks, is proved equal to it.
\<close>

section \<open>Encoding\<close>

definition perm4 :: "nat list list" where
  "perm4 =
   [[0, 1, 2, 3], [0, 1, 3, 2], [0, 2, 1, 3], [0, 2, 3, 1], [0, 3, 1, 2], [0, 3, 2, 1],
    [1, 0, 2, 3], [1, 0, 3, 2], [1, 2, 0, 3], [1, 2, 3, 0], [1, 3, 0, 2], [1, 3, 2, 0],
    [2, 0, 1, 3], [2, 0, 3, 1], [2, 1, 0, 3], [2, 1, 3, 0], [2, 3, 0, 1], [2, 3, 1, 0],
    [3, 0, 1, 2], [3, 0, 2, 1], [3, 1, 0, 2], [3, 1, 2, 0], [3, 2, 0, 1], [3, 2, 1, 0]]"

text \<open>
  \<open>xs[rng.Intn(len(xs))]\<close>. The lists it is used on are not empty, so that the index is in range
  (\<open>pick_in\<close>).
\<close>

definition pick :: "'a list \<Rightarrow> sudokuRand \<Rightarrow> 'a \<times> sudokuRand" where
  "pick xs r = (let (k, r') = rand_Intn (length xs) r in (xs ! k, r'))"

text \<open>\<open>if uint64(rng.Uint32()) < paddingThreshold { out = append(out, pads[...]) }\<close>\<close>

definition maybePad :: "bytes \<Rightarrow> u64 \<Rightarrow> sudokuRand \<Rightarrow> bytes \<times> sudokuRand" where
  "maybePad pads threshold r =
    (let (u, r1) = rand_Uint32 r in
     if ucast u < threshold then let (pd, r2) = pick pads r1 in ([pd], r2) else ([], r1))"

fun emitHintsFull :: "bytes \<Rightarrow> bytes \<Rightarrow> nat list \<Rightarrow> sudokuRand \<Rightarrow> bytes \<times> sudokuRand" where
  "emitHintsFull pads puzzle [] r = ([], r)"
| "emitHintsFull pads puzzle (idx # perm) r =
    (let (pd, r1) = pick pads r; (rest, r2) = emitHintsFull pads puzzle perm r1
     in (pd # puzzle ! idx # rest, r2))"

fun emitHints :: "bytes \<Rightarrow> u64 \<Rightarrow> bytes \<Rightarrow> nat list \<Rightarrow> sudokuRand \<Rightarrow> bytes \<times> sudokuRand" where
  "emitHints pads threshold puzzle [] r = ([], r)"
| "emitHints pads threshold puzzle (idx # perm) r =
    (let (pd, r1) = maybePad pads threshold r; (rest, r2) = emitHints pads threshold puzzle perm r1
     in (pd @ puzzle ! idx # rest, r2))"

fun encodeFull :: "Table \<Rightarrow> sudokuRand \<Rightarrow> bytes \<Rightarrow> bytes \<times> sudokuRand" where
  "encodeFull t r [] = (let (pd, r1) = pick (PaddingPool t) r in ([pd], r1))"
| "encodeFull t r (b # p) =
    (let (pd, r1) = pick (PaddingPool t) r;
         (puzzle, r2) = pick (EncodeTable t b) r1;
         (perm, r3) = pick perm4 r2;
         (hs, r4) = emitHintsFull (PaddingPool t) puzzle perm r3;
         (rest, r5) = encodeFull t r4 p
     in (pd # hs @ rest, r5))"

fun encodeSome :: "Table \<Rightarrow> u64 \<Rightarrow> sudokuRand \<Rightarrow> bytes \<Rightarrow> bytes \<times> sudokuRand" where
  "encodeSome t threshold r [] = maybePad (PaddingPool t) threshold r"
| "encodeSome t threshold r (b # p) =
    (let (pd, r1) = maybePad (PaddingPool t) threshold r;
         (puzzle, r2) = pick (EncodeTable t b) r1;
         (perm, r3) = pick perm4 r2;
         (hs, r4) = emitHints (PaddingPool t) threshold puzzle perm r3;
         (rest, r5) = encodeSome t threshold r4 p
     in (pd @ hs @ rest, r5))"

fun encodeSudokuPayloadNoPadding :: "Table \<Rightarrow> sudokuRand \<Rightarrow> bytes \<Rightarrow> bytes \<times> sudokuRand" where
  "encodeSudokuPayloadNoPadding t r [] = ([], r)"
| "encodeSudokuPayloadNoPadding t r (b # p) =
    (let (puzzle, r1) = pick (EncodeTable t b) r;
         (perm, r2) = pick perm4 r1;
         (rest, r3) = encodeSudokuPayloadNoPadding t r2 p
     in ([puzzle ! (perm ! 0), puzzle ! (perm ! 1), puzzle ! (perm ! 2), puzzle ! (perm ! 3)] @ rest, r3))"

definition encodeSudokuPayload :: "Table \<Rightarrow> sudokuRand \<Rightarrow> u64 \<Rightarrow> bytes \<Rightarrow> bytes \<times> sudokuRand" where
  "encodeSudokuPayload t r threshold p =
    (if p = [] then ([], r)
     else if threshold = 0 then encodeSudokuPayloadNoPadding t r p
     else if probOne \<le> threshold then encodeFull t r p
     else encodeSome t threshold r p)"

section \<open>The reference decoder\<close>

text \<open>
  \<open>decodeHints t hb wire\<close>: the plaintext of the wire bytes after the hints \<open>hb\<close> of an incomplete
  group, and the incomplete group left at the end; an error when a group is not a puzzle.
\<close>

fun decodeHints :: "Table \<Rightarrow> bytes \<Rightarrow> bytes \<Rightarrow> (bytes \<times> bytes) result" where
  "decodeHints t hb [] = Inr ([], hb)"
| "decodeHints t hb (b # bs) =
    (if \<not> hintTable (layout t) b then decodeHints t hb bs
     else if length hb + 1 \<noteq> 4 then decodeHints t (hb @ [b]) bs
     else case DecodeMap t (packHintsToKey (hb @ [b])) of
       None \<Rightarrow> Inl ErrInvalidSudokuMapMiss
     | Some v \<Rightarrow> (case decodeHints t [] bs of Inl e \<Rightarrow> Inl e | Inr (vs, hb') \<Rightarrow> Inr (v # vs, hb')))"

lemma decodeHints_append:
  "decodeHints t hb (xs @ ys) =
    (case decodeHints t hb xs of Inl e \<Rightarrow> Inl e
     | Inr (vs, hb') \<Rightarrow> (case decodeHints t hb' ys of Inl e \<Rightarrow> Inl e | Inr (ws, hb'') \<Rightarrow> Inr (vs @ ws, hb'')))"
  by (induction t hb xs rule: decodeHints.induct) (auto split: option.splits sum.splits prod.splits)

lemma decodeHints_hints_only: "decodeHints t hb (filter (hintTable (layout t)) xs) = decodeHints t hb xs"
  by (induction t hb xs rule: decodeHints.induct) (auto split: option.splits)

lemma decodeHints_short: "decodeHints t hb xs = Inr (vs, hb') \<Longrightarrow> length hb < 4 \<Longrightarrow> length hb' < 4"
  by (induction t hb xs arbitrary: vs rule: decodeHints.induct)
    (auto split: if_splits option.splits sum.splits prod.splits)

lemma decodeHints_group:
  assumes "length q = 4" "\<And>h. h \<in> set q \<Longrightarrow> hintTable (layout t) h"
  shows "decodeHints t [] (q @ bs) =
    (case DecodeMap t (packHintsToKey q) of
       None \<Rightarrow> Inl ErrInvalidSudokuMapMiss
     | Some v \<Rightarrow> (case decodeHints t [] bs of Inl e \<Rightarrow> Inl e | Inr (vs, hb') \<Rightarrow> Inr (v # vs, hb')))"
proof -
  have q: "q = [q ! 0, q ! 1, q ! 2, q ! 3]" by (rule list4_conv [OF assms(1)])
  have "hintTable (layout t) (q ! i)" if "i < 4" for i using assms that by simp
  then have "decodeHints t [] ([q ! 0, q ! 1, q ! 2, q ! 3] @ bs) =
    (case DecodeMap t (packHintsToKey [q ! 0, q ! 1, q ! 2, q ! 3]) of
       None \<Rightarrow> Inl ErrInvalidSudokuMapMiss
     | Some v \<Rightarrow> (case decodeHints t [] bs of Inl e \<Rightarrow> Inl e | Inr (vs, hb') \<Rightarrow> Inr (v # vs, hb')))"
    by simp
  then show ?thesis unfolding q [symmetric] .
qed

section \<open>What the encoder emits decodes to the payload\<close>

lemma pick_in: "xs \<noteq> [] \<Longrightarrow> length xs < 2 ^ 32 \<Longrightarrow> pick xs r = (x, r') \<Longrightarrow> x \<in> set xs"
  using rand_Intn_less [of "length xs" r] by (auto simp: pick_def split: prod.splits)

lemma perm4_permutes: "perm \<in> set perm4 \<Longrightarrow> mset perm = mset [0, 1, 2, 3]"
  by (auto simp: perm4_def)

lemma perm4_length: "perm \<in> set perm4 \<Longrightarrow> length perm = 4"
  using mset_eq_length [OF perm4_permutes] by simp

lemma permuted_puzzle: "perm \<in> set perm4 \<Longrightarrow> length q = 4 \<Longrightarrow> mset (map ((!) q) perm) = mset q"
proof -
  assume perm: "perm \<in> set perm4" and q: "length q = 4"
  have "mset (map ((!) q) perm) = mset (map ((!) q) [0, 1, 2, 3])"
    unfolding mset_map perm4_permutes [OF perm] ..
  also have "map ((!) q) [0, 1, 2, 3] = q" using list4_conv [OF q] by simp
  finally show ?thesis .
qed

context puzzle_table
begin

lemma pick_pad: "pick (PaddingPool t) r = (pd, r') \<Longrightarrow> \<not> hintTable (layout t) pd"
  by (rule padding_not_hint [OF pick_in [OF padding_nonempty order_le_less_trans [OF padding_few]]]) simp_all

lemma pick_puzzle: "pick (EncodeTable t b) r = (q, r') \<Longrightarrow> q \<in> set (EncodeTable t b)"
  by (rule pick_in [OF puzzles_nonempty order_le_less_trans [OF puzzles_few]]) simp_all

lemma pick_perm: "pick perm4 r = (perm, r') \<Longrightarrow> perm \<in> set perm4"
  by (rule pick_in) (simp_all add: perm4_def)

lemma maybePad_no_hint: "maybePad (PaddingPool t) th r = (pd, r') \<Longrightarrow> filter (hintTable (layout t)) pd = []"
  by (auto simp: maybePad_def pick_pad split: prod.splits if_splits)

lemma puzzle_entry: "q \<in> set (EncodeTable t b) \<Longrightarrow> i < 4 \<Longrightarrow> hintTable (layout t) (q ! i)"
  using puzzle_hints puzzle_length by (metis nth_mem)

lemma perm_entries: "perm \<in> set perm4 \<Longrightarrow> i \<in> set perm \<Longrightarrow> i < 4"
  using mset_eq_setD [OF perm4_permutes] by auto

lemma emitHintsFull_hints:
  assumes "q \<in> set (EncodeTable t b)" "\<And>i. i \<in> set perm \<Longrightarrow> i < 4"
    and "emitHintsFull (PaddingPool t) q perm r = (w, r')"
  shows "filter (hintTable (layout t)) w = map ((!) q) perm"
  using assms(2,3)
proof (induction perm arbitrary: r w)
  case (Cons i perm)
  then show ?case using puzzle_entry [OF assms(1), of i] by (auto dest!: pick_pad split: prod.splits)
qed simp

lemma emitHints_hints:
  assumes "q \<in> set (EncodeTable t b)" "\<And>i. i \<in> set perm \<Longrightarrow> i < 4"
    and "emitHints (PaddingPool t) th q perm r = (w, r')"
  shows "filter (hintTable (layout t)) w = map ((!) q) perm"
  using assms(2,3)
proof (induction perm arbitrary: r w)
  case (Cons i perm)
  then show ?case using puzzle_entry [OF assms(1), of i] by (auto dest!: maybePad_no_hint split: prod.splits)
qed simp

text \<open>A group on the wire: anything whose hint bytes are a reordered puzzle of \<open>b\<close>.\<close>

lemma decode_group:
  assumes "q \<in> set (EncodeTable t b)" "perm \<in> set perm4"
    and "filter (hintTable (layout t)) w = map ((!) q) perm"
  shows "decodeHints t [] (w @ bs) =
    (case decodeHints t [] bs of Inl e \<Rightarrow> Inl e | Inr (vs, hb') \<Rightarrow> Inr (b # vs, hb'))"
proof -
  let ?q = "map ((!) q) perm"
  have m: "mset ?q = mset q" by (rule permuted_puzzle [OF assms(2) puzzle_length [OF assms(1)]])
  have "decodeHints t [] (w @ bs) = decodeHints t [] (?q @ filter (hintTable (layout t)) bs)"
    by (metis decodeHints_hints_only filter_append assms(3))
  also have "\<dots> = (case decodeHints t [] bs of Inl e \<Rightarrow> Inl e | Inr (vs, hb') \<Rightarrow> Inr (b # vs, hb'))"
  proof -
    have "hintTable (layout t) h" if "h \<in> set ?q" for h
      using that puzzle_hints [OF assms(1)] mset_eq_setD [OF m] by blast
    then show ?thesis
      using decodeHints_group [of ?q t "filter (hintTable (layout t)) bs"] perm4_length [OF assms(2)]
        shuffled_puzzle_decodes [OF assms(1) m] by (simp add: decodeHints_hints_only)
  qed
  finally show ?thesis .
qed

text \<open>The three variants of the encoder; the empty payload leaves at most padding.\<close>

lemma decode_padding: "filter (hintTable (layout t)) w = [] \<Longrightarrow> decodeHints t [] w = Inr ([], [])"
  by (metis decodeHints_hints_only decodeHints.simps(1))

lemma decode_group_then:
  assumes "q \<in> set (EncodeTable t b)" "perm \<in> set perm4"
    and "filter (hintTable (layout t)) w = map ((!) q) perm" "decodeHints t [] bs = Inr (vs, [])"
  shows "decodeHints t [] (w @ bs) = Inr (b # vs, [])"
  using decode_group [OF assms(1-3), of bs] assms(4) by simp

lemma decode_encodeFull: "encodeFull t r p = (w, r') \<Longrightarrow> decodeHints t [] w = Inr (p, [])"
proof (induction p arbitrary: r w r')
  case Nil
  then show ?case by (auto dest!: pick_pad split: prod.splits)
next
  case (Cons b p)
  obtain pd r1 q r2 perm r3 hs r4 rest r5 where e:
    "pick (PaddingPool t) r = (pd, r1)" "pick (EncodeTable t b) r1 = (q, r2)" "pick perm4 r2 = (perm, r3)"
    "emitHintsFull (PaddingPool t) q perm r3 = (hs, r4)" "encodeFull t r4 p = (rest, r5)"
    by (metis surj_pair)
  then have w: "w = (pd # hs) @ rest" using Cons.prems by simp
  show ?case unfolding w
  proof (rule decode_group_then [OF pick_puzzle [OF e(2)] pick_perm [OF e(3)] _ Cons.IH [OF e(5)]])
    show "filter (hintTable (layout t)) (pd # hs) = map ((!) q) perm"
      using pick_pad [OF e(1)]
        emitHintsFull_hints [OF pick_puzzle [OF e(2)] perm_entries [OF pick_perm [OF e(3)]] e(4)] by simp
  qed
qed

lemma decode_encodeSome: "encodeSome t th r p = (w, r') \<Longrightarrow> decodeHints t [] w = Inr (p, [])"
proof (induction p arbitrary: r w r')
  case Nil
  then show ?case by (simp add: decode_padding maybePad_no_hint)
next
  case (Cons b p)
  obtain pd r1 q r2 perm r3 hs r4 rest r5 where e:
    "maybePad (PaddingPool t) th r = (pd, r1)" "pick (EncodeTable t b) r1 = (q, r2)" "pick perm4 r2 = (perm, r3)"
    "emitHints (PaddingPool t) th q perm r3 = (hs, r4)" "encodeSome t th r4 p = (rest, r5)"
    by (metis surj_pair)
  then have w: "w = (pd @ hs) @ rest" using Cons.prems by simp
  show ?case unfolding w
  proof (rule decode_group_then [OF pick_puzzle [OF e(2)] pick_perm [OF e(3)] _ Cons.IH [OF e(5)]])
    show "filter (hintTable (layout t)) (pd @ hs) = map ((!) q) perm"
      using maybePad_no_hint [OF e(1)]
        emitHints_hints [OF pick_puzzle [OF e(2)] perm_entries [OF pick_perm [OF e(3)]] e(4)] by simp
  qed
qed

lemma decode_encodeNoPadding: "encodeSudokuPayloadNoPadding t r p = (w, r') \<Longrightarrow> decodeHints t [] w = Inr (p, [])"
proof (induction p arbitrary: r w r')
  case (Cons b p)
  obtain q r2 perm r3 rest r5 where e:
    "pick (EncodeTable t b) r = (q, r2)" "pick perm4 r2 = (perm, r3)"
    "encodeSudokuPayloadNoPadding t r3 p = (rest, r5)"
    by (metis surj_pair)
  have p4: "perm = [perm ! 0, perm ! 1, perm ! 2, perm ! 3]" by (rule list4_conv [OF perm4_length [OF pick_perm [OF e(2)]]])
  have m: "map ((!) q) perm = [q ! (perm ! 0), q ! (perm ! 1), q ! (perm ! 2), q ! (perm ! 3)]"
    by (subst p4) simp
  then have w: "w = map ((!) q) perm @ rest" using Cons.prems e by simp
  show ?case unfolding w
  proof (rule decode_group_then [OF pick_puzzle [OF e(1)] pick_perm [OF e(2)] _ Cons.IH [OF e(3)]])
    show "filter (hintTable (layout t)) (map ((!) q) perm) = map ((!) q) perm"
      using puzzle_entry [OF pick_puzzle [OF e(1)]] perm_entries [OF pick_perm [OF e(2)]] by simp
  qed
qed simp

lemma decode_encode: "encodeSudokuPayload t r th p = (w, r') \<Longrightarrow> decodeHints t [] w = Inr (p, [])"
  by (auto simp: encodeSudokuPayload_def decode_encodeFull decode_encodeSome decode_encodeNoPadding split: if_splits)

end

end
