(* ===== verification/Bufio.thy ===== *)
theory Bufio
  imports Prelude
begin

text \<open>
  The read side the two codecs share. \<open>feed\<close> is what the network connection will deliver: each event is
  the bytes that arrive together and the error that comes with them. \<open>bufio_Read\<close> is
  \<open>bufio.Reader.Read\<close> for a non-empty destination: at most one read of the connection, an error kept
  until the buffered bytes are used up. \<open>readLoop\<close> is the loop of \<open>Conn.Read\<close> and
  \<open>PackedConn.Read\<close>: read a chunk, record it, decode it, return once a byte is decoded. The locale
  \<open>chunk_codec\<close> is what a decoder promises; inside it the loop is proved to return and to neither
  lose nor reorder a byte, however the bytes are cut into chunks.
\<close>

section \<open>Buffered reading\<close>

type_synonym feed = "(bytes \<times> go_error option) list"

definition conn_read :: "nat \<Rightarrow> feed \<Rightarrow> bytes \<times> go_error option \<times> feed" where
  "conn_read m fd =
    (case fd of
       [] \<Rightarrow> ([], Some EOF, [])
     | (bs, e) # rest \<Rightarrow>
         if length bs \<le> m then (bs, e, rest) else (take m bs, None, (drop m bs, e) # rest))"

record bufio =
  buffered :: bytes
  berr :: "go_error option"
  bsize :: nat
  feed :: feed

definition NewReaderSize :: "nat \<Rightarrow> feed \<Rightarrow> bufio" where
  "NewReaderSize n fd = \<lparr>buffered = [], berr = None, bsize = n, feed = fd\<rparr>"

definition bufio_Read :: "nat \<Rightarrow> bufio \<Rightarrow> bytes \<times> go_error option \<times> bufio" where
  "bufio_Read n b =
    (if buffered b \<noteq> [] then (take n (buffered b), None, b\<lparr>buffered := drop n (buffered b)\<rparr>)
     else case berr b of
       Some e \<Rightarrow> ([], Some e, b\<lparr>berr := None\<rparr>)
     | None \<Rightarrow>
       if bsize b \<le> n then
         (case conn_read n (feed b) of (bs, e, fd) \<Rightarrow> (bs, e, b\<lparr>feed := fd\<rparr>))
       else
         (case conn_read (bsize b) (feed b) of (bs, e, fd) \<Rightarrow>
            if bs = [] then ([], e, b\<lparr>feed := fd\<rparr>)
            else (take n bs, None, b\<lparr>buffered := drop n bs, berr := e, feed := fd\<rparr>)))"

definition wire :: "bufio \<Rightarrow> bytes" where
  "wire b = buffered b @ concat (map fst (feed b))"

definition pull_measure :: "bufio \<Rightarrow> nat" where
  "pull_measure b = length (wire b) + length (feed b)"

text \<open>The connection ends with \<open>io.EOF\<close>: no event follows one that carries it.\<close>

fun eof_last :: "feed \<Rightarrow> bool" where
  "eof_last [] = True"
| "eof_last ((bs, e) # rest) = ((e = Some EOF \<longrightarrow> rest = []) \<and> eof_last rest)"

definition bufio_ok :: "bufio \<Rightarrow> bool" where
  "bufio_ok b \<longleftrightarrow> 0 < bsize b \<and> eof_last (feed b) \<and> (berr b = Some EOF \<longrightarrow> feed b = [])"

text \<open>The errors a reader may still report; an exhausted connection answers \<open>io.EOF\<close>.\<close>

definition feed_errs :: "feed \<Rightarrow> go_error set" where
  "feed_errs fd = insert EOF {e. Some e \<in> snd ` set fd}"

definition bufio_errs :: "bufio \<Rightarrow> go_error set" where
  "bufio_errs b = {e. berr b = Some e} \<union> feed_errs (feed b)"

lemma conn_read_errs:
  "conn_read m fd = (bs, e, fd') \<Longrightarrow> feed_errs fd' \<subseteq> feed_errs fd \<and> (\<forall>x. e = Some x \<longrightarrow> x \<in> feed_errs fd)"
  by (auto simp: conn_read_def feed_errs_def image_iff split: list.splits if_splits prod.splits; force)

lemma conn_read_wire:
  "conn_read m fd = (bs, e, fd') \<Longrightarrow> concat (map fst fd) = bs @ concat (map fst fd')"
  by (auto simp: conn_read_def split: list.splits if_splits prod.splits)

lemma conn_read_ok:
  "conn_read m fd = (bs, e, fd') \<Longrightarrow> eof_last fd \<Longrightarrow> eof_last fd' \<and> (e = Some EOF \<longrightarrow> fd' = [])"
  by (auto simp: conn_read_def split: list.splits if_splits prod.splits)

lemma conn_read_shrinks:
  "conn_read m fd = (bs, None, fd') \<Longrightarrow> 0 < m \<Longrightarrow> length fd' < length bs + length fd"
  "conn_read m fd = (bs, e, fd') \<Longrightarrow> bs \<noteq> [] \<Longrightarrow> 0 < k \<Longrightarrow> length fd' < min (length bs) k + length fd"
  by (auto simp: conn_read_def split: list.splits if_splits prod.splits)

lemma bufio_Read_wire: "bufio_Read n b = (chunk, e, b') \<Longrightarrow> wire b = chunk @ wire b'"
  by (auto simp: bufio_Read_def wire_def split: if_splits option.splits prod.splits dest!: conn_read_wire)

lemma bufio_Read_ok:
  "bufio_Read n b = (chunk, e, b') \<Longrightarrow> bufio_ok b \<Longrightarrow> bufio_ok b' \<and> (e = Some EOF \<longrightarrow> wire b' = [])"
  by (auto simp: bufio_Read_def bufio_ok_def wire_def split: if_splits option.splits prod.splits dest!: conn_read_ok)

lemma bufio_Read_errs:
  "bufio_Read n b = (chunk, e, b') \<Longrightarrow> bufio_errs b' \<subseteq> bufio_errs b \<and> (\<forall>x. e = Some x \<longrightarrow> x \<in> bufio_errs b)"
  by (auto simp: bufio_Read_def bufio_errs_def split: if_splits option.splits prod.splits dest!: conn_read_errs)

lemma bufio_Read_shrinks:
  assumes "bufio_Read n b = (chunk, None, b')" "0 < n" "bufio_ok b"
  shows "pull_measure b' < pull_measure b"
proof -
  have w: "length (wire b) = length chunk + length (wire b')"
    using bufio_Read_wire [OF assms(1)] by simp
  show ?thesis
  proof (cases "buffered b = []")
    case False
    then show ?thesis using assms w by (auto simp: bufio_Read_def pull_measure_def)
  next
    case True
    then have "berr b = None" using assms(1) by (auto simp: bufio_Read_def split: option.splits)
    then show ?thesis
      using assms w True
      by (auto simp: bufio_Read_def pull_measure_def bufio_ok_def split: if_splits prod.splits
          dest: conn_read_shrinks(1) conn_read_shrinks(2))
  qed
qed

section \<open>The read loop\<close>

text \<open>
  \<open>n\<close> is \<open>len(p)\<close>, \<open>out\<close> the bytes stored in \<open>p\<close> so far; the recorder is nil (\<open>None\<close>) or
  the bytes it holds, and \<open>'s\<close> is the decoder's state, pending bytes included. The value is \<open>None\<close>
  when the loop does not end.
\<close>

definition record_chunk :: "bool \<Rightarrow> bytes \<Rightarrow> bytes option \<Rightarrow> bytes option" where
  "record_chunk recording chunk rc =
    (if chunk \<noteq> [] \<and> recording then map_option (\<lambda>r. r @ chunk) rc else rc)"

partial_function (option) readLoop ::
  "(nat \<Rightarrow> nat) \<Rightarrow> (nat \<Rightarrow> bytes \<Rightarrow> bytes \<Rightarrow> 's \<Rightarrow> go_error option \<times> bytes \<times> 's) \<Rightarrow> (go_error \<Rightarrow> 's \<Rightarrow> 's)
    \<Rightarrow> (nat \<Rightarrow> 's \<Rightarrow> bytes option \<times> 's) \<Rightarrow> bool \<Rightarrow> nat \<Rightarrow> bytes \<Rightarrow> bufio \<Rightarrow> bytes option \<Rightarrow> 's
    \<Rightarrow> (bytes result \<times> bufio \<times> bytes option \<times> 's) option" where
  "readLoop readSize decodeChunk onError drain recording n out b rc s =
    (case bufio_Read (readSize (n - length out)) b of (chunk, rErr, b1) \<Rightarrow>
     let rc1 = record_chunk recording chunk rc in
     case (if chunk \<noteq> [] then decodeChunk n chunk out s else (None, out, s)) of (err, out1, s1) \<Rightarrow>
     (case err of
        Some e \<Rightarrow> Some (Inl e, b1, rc1, s1)
      | None \<Rightarrow>
        (case rErr of
           Some e \<Rightarrow>
             let s2 = onError e s1 in
             if out1 \<noteq> [] then Some (Inr out1, b1, rc1, s2)
             else (case drain n s2 of
                     (Some bs, s3) \<Rightarrow> Some (Inr bs, b1, rc1, s3)
                   | (None, s3) \<Rightarrow> Some (Inl e, b1, rc1, s3))
         | None \<Rightarrow>
             if out1 \<noteq> [] then Some (Inr out1, b1, rc1, s1)
             else readLoop readSize decodeChunk onError drain recording n out1 b1 rc1 s1)))"

text \<open>
  The contract of a decoder: \<open>inv\<close> is its invariant, \<open>pend\<close> the decoded bytes it holds, and
  \<open>plain s w\<close> the plaintext of the wire bytes \<open>w\<close> from state \<open>s\<close>, \<open>None\<close> when they do not decode.
\<close>

locale chunk_codec =
  fixes readSize :: "nat \<Rightarrow> nat"
    and decodeChunk :: "nat \<Rightarrow> bytes \<Rightarrow> bytes \<Rightarrow> 's \<Rightarrow> go_error option \<times> bytes \<times> 's"
    and onError :: "go_error \<Rightarrow> 's \<Rightarrow> 's"
    and drain :: "nat \<Rightarrow> 's \<Rightarrow> bytes option \<times> 's"
    and inv :: "'s \<Rightarrow> bool" and pend :: "'s \<Rightarrow> bytes" and plain :: "'s \<Rightarrow> bytes \<Rightarrow> bytes option"
  assumes asks: "0 < readSize k"
    and decode_chunk: "\<lbrakk>inv s; plain s (chunk @ w) = Some ps; pend s = []; 0 < n;
        decodeChunk n chunk [] s = (err, out, s')\<rbrakk> \<Longrightarrow>
        err = None \<and> inv s' \<and> length out \<le> n \<and> (pend s' = [] \<or> length out = n)
        \<and> (\<exists>ps'. plain s' w = Some ps' \<and> ps = out @ pend s' @ ps')"
    and error_keeps: "inv s \<Longrightarrow> (e = EOF \<longrightarrow> w = []) \<Longrightarrow>
        inv (onError e s) \<and> pend (onError e s) = pend s \<and> plain (onError e s) w = plain s w"
    and drain_inv: "inv s \<Longrightarrow> drain n s = (r, s') \<Longrightarrow> inv s' \<and> plain s' = plain s"
    and drain_out: "inv s \<Longrightarrow> drain n s = (r, s') \<Longrightarrow>
        r = (if pend s = [] then None else Some (take n (pend s))) \<and> pend s' = drop n (pend s)"
begin

lemma readLoop_stream:
  assumes "inv s" "pend s = []" "plain s (wire b) = Some ps" "bufio_ok b" "0 < n"
  shows "\<exists>r b' rc' s'. readLoop readSize decodeChunk onError drain recording n [] b rc s = Some (r, b', rc', s')
    \<and> inv s' \<and> bufio_ok b' \<and> bufio_errs b' \<subseteq> bufio_errs b
    \<and> (\<exists>ps'. plain s' (wire b') = Some ps'
        \<and> (case r of Inr out \<Rightarrow> out \<noteq> [] \<and> length out \<le> n \<and> ps = out @ pend s' @ ps'
           | Inl e \<Rightarrow> pend s' = [] \<and> ps = ps' \<and> e \<in> bufio_errs b \<and> (e = EOF \<longrightarrow> wire b' = [])))"
  using assms
proof (induction "pull_measure b" arbitrary: b rc s ps rule: less_induct)
  case less
  obtain chunk rErr b1 where rd: "bufio_Read (readSize n) b = (chunk, rErr, b1)"
    by (metis surj_pair)
  obtain err out1 s1 where dc: "(if chunk \<noteq> [] then decodeChunk n chunk [] s else (None, [], s)) = (err, out1, s1)"
    by (metis surj_pair)
  have w: "wire b = chunk @ wire b1" by (rule bufio_Read_wire [OF rd])
  have ok: "bufio_ok b1" "rErr = Some EOF \<Longrightarrow> wire b1 = []"
    using bufio_Read_ok [OF rd] less.prems(4) by auto
  have es: "bufio_errs b1 \<subseteq> bufio_errs b" "\<And>x. rErr = Some x \<Longrightarrow> x \<in> bufio_errs b"
    using bufio_Read_errs [OF rd] by auto
  have d: "err = None \<and> inv s1 \<and> length out1 \<le> n \<and> (pend s1 = [] \<or> length out1 = n)
      \<and> (\<exists>ps'. plain s1 (wire b1) = Some ps' \<and> ps = out1 @ pend s1 @ ps')"
  proof (cases "chunk = []")
    case True
    then show ?thesis using dc less.prems w by auto
  next
    case False
    then show ?thesis using dc less.prems w by (intro decode_chunk [of s chunk "wire b1"]) auto
  qed
  then obtain ps' where ps': "plain s1 (wire b1) = Some ps'" "ps = out1 @ pend s1 @ ps'" by blast
  have p1: "out1 = [] \<Longrightarrow> pend s1 = []" using d less.prems(5) by auto
  note unfold = readLoop.simps [of _ _ _ _ _ n "[]" b rc s]
  show ?case
  proof (cases rErr)
    case None
    show ?thesis
    proof (cases "out1 = []")
      case True
      have "pull_measure b1 < pull_measure b"
        using bufio_Read_shrinks [OF _ asks] rd None less.prems(4) by blast
      then show ?thesis
        using less.hyps [of b1 s1 ps "record_chunk recording chunk rc"] d ps' ok(1) p1 [OF True] True less.prems(5) es(1)
        by (simp add: unfold rd dc None split: sum.splits) (metis subset_iff)
    next
      case False
      then show ?thesis using d ps' ok es by (simp add: unfold rd dc None)
    qed
  next
    case (Some e)
    obtain r3 s3 where dr: "drain n (onError e s1) = (r3, s3)" by (metis surj_pair)
    have ek: "inv (onError e s1) \<and> pend (onError e s1) = pend s1 \<and> plain (onError e s1) (wire b1) = plain s1 (wire b1)"
      using error_keeps [of s1 e "wire b1"] d ok(2) Some by auto
    show ?thesis
    proof (cases "out1 = []")
      case True
      then have "r3 = None" "pend s3 = []" "inv s3" "plain s3 (wire b1) = Some ps'"
        using drain_inv [OF _ dr] drain_out [OF _ dr] ek p1 ps' by auto
      then show ?thesis using True ok ps' p1 d Some es by (simp add: unfold rd dc dr Let_def)
    next
      case False
      then show ?thesis using d ps' ok ek Some es by (simp add: unfold rd dc Let_def)
    qed
  qed
qed

end

text \<open>Recording loses nothing: what is recorded and what is still to be read make up the wire.\<close>

lemma readLoop_records:
  assumes "readLoop readSize decodeChunk onError drain recording n out b rc s = Some (r, b', rc', s')"
    and "recording" "rc = Some r0"
  shows "\<exists>c. rc' = Some (r0 @ c) \<and> wire b = c @ wire b'"
proof -
  have "recording \<longrightarrow> (\<forall>r0. rc = Some r0 \<longrightarrow>
      (\<exists>c. fst (snd (snd (r, b', rc', s'))) = Some (r0 @ c) \<and> wire b = c @ wire (fst (snd (r, b', rc', s')))))"
  proof (rule readLoop.raw_induct [where P = "\<lambda>readSize decodeChunk onError drain recording n out b rc s y.
      recording \<longrightarrow> (\<forall>r0. rc = Some r0 \<longrightarrow>
        (\<exists>c. fst (snd (snd y)) = Some (r0 @ c) \<and> wire b = c @ wire (fst (snd y))))",
        OF _ assms(1)], goal_cases)
    case (1 loop readSize decodeChunk onError drain recording n out b rc s y)
    note IH = 1(1) and step = 1(2)
    obtain chunk rErr b1 where rd: "bufio_Read (readSize (n - length out)) b = (chunk, rErr, b1)"
      by (metis surj_pair)
    show ?case
    proof (intro impI allI)
      fix r0 assume "recording" and rc: "rc = Some r0"
      then have rc1: "record_chunk recording chunk rc = Some (r0 @ chunk)" by (simp add: record_chunk_def)
      show "\<exists>c. fst (snd (snd y)) = Some (r0 @ c) \<and> wire b = c @ wire (fst (snd y))"
      proof (cases "fst (snd (snd y)) = Some (r0 @ chunk) \<and> fst (snd y) = b1")
        case True
        then show ?thesis using bufio_Read_wire [OF rd] by blast
      next
        case False
        then obtain out1 s1 where "loop readSize decodeChunk onError drain recording n out1 b1 (Some (r0 @ chunk)) s1 = Some y"
          using step rc1 rd
          by (auto simp: Let_def split: prod.splits option.splits if_splits)
        from IH [OF this] obtain c where "fst (snd (snd y)) = Some ((r0 @ chunk) @ c)"
          "wire b1 = c @ wire (fst (snd y))" using \<open>recording\<close> by blast
        then show ?thesis using bufio_Read_wire [OF rd] by auto
      qed
    qed
  qed
  then show ?thesis using assms(2,3) by simp
qed

end
