(* ===== verification/ConnUtil.thy ===== *)
theory ConnUtil
  imports Prelude
begin

text \<open>
  Byte streams as the program uses them: a reader is the data it will deliver and the error that
  ends it, a writer is the data it accepted and a script of its answers. On them \<open>io.ReadFull\<close>, and
  of \<open>pkg/connutil\<close> the loop \<open>WriteFull\<close>, \<open>RunClosers\<close> and \<open>AbsInt64\<close>.
\<close>

section \<open>Readers\<close>

record reader =
  rdata :: bytes
  rterm :: go_error

text \<open>
  \<open>io.ReadFull(r, b)\<close> with \<open>len(b) = n\<close>: the first \<open>n\<close> bytes, or the stream's error when it
  delivers none, and \<open>io.ErrUnexpectedEOF\<close> when \<open>io.EOF\<close> comes after some of them.
\<close>

definition ReadFull :: "nat \<Rightarrow> reader \<Rightarrow> bytes result \<times> reader" where
  "ReadFull n r =
    (if n \<le> length (rdata r) then (Inr (take n (rdata r)), r\<lparr>rdata := drop n (rdata r)\<rparr>)
     else if rdata r = [] then (Inl (rterm r), r)
     else (Inl (if rterm r = EOF then ErrUnexpectedEOF else rterm r), r\<lparr>rdata := []\<rparr>))"

definition reader_of :: "bytes \<Rightarrow> reader" where
  "reader_of bs = \<lparr>rdata = bs, rterm = EOF\<rparr>"

lemma ReadFull_append [stream_simps]:
  "length b = n \<Longrightarrow> ReadFull n (r\<lparr>rdata := b @ c\<rparr>) = (Inr b, r\<lparr>rdata := c\<rparr>)"
  by (simp add: ReadFull_def)

lemma ReadFull_Inr_iff:
  "ReadFull n r = (Inr b, r') \<longleftrightarrow> length b = n \<and> rdata r = b @ rdata r' \<and> r' = r\<lparr>rdata := rdata r'\<rparr>"
  by (cases r; cases r') (auto simp: ReadFull_def min_def split: if_splits)

section \<open>Writers\<close>

text \<open>
  One \<open>Write\<close> call takes the next answer \<open>(n, err)\<close> of the script: the first \<open>n\<close> bytes are
  accepted, all of them once the script is used up.
\<close>

record writer =
  sent :: bytes
  script :: "(nat \<times> go_error option) list"

definition conn_write :: "writer \<Rightarrow> bytes \<Rightarrow> nat \<times> go_error option \<times> writer" where
  "conn_write w b =
    (case script w of
       [] \<Rightarrow> (length b, None, w\<lparr>sent := sent w @ b\<rparr>)
     | (k, e) # rest \<Rightarrow> (min k (length b), e, w\<lparr>sent := sent w @ take k b, script := rest\<rparr>))"

function WriteFull :: "writer \<Rightarrow> bytes \<Rightarrow> go_error option \<times> writer" where
  "WriteFull w b =
    (if b = [] then (None, w)
     else case conn_write w b of (n, err, w') \<Rightarrow>
       let b' = (if 0 < n then drop n b else b) in
       case err of
         Some e \<Rightarrow> (Some e, w')
       | None \<Rightarrow> if n = 0 then (Some ErrShortWrite, w') else WriteFull w' b')"
  by pat_completeness auto
termination
  by (relation "measure (\<lambda>(w, b). length (script w) + length b)")
    (auto simp: conn_write_def split: list.splits)

declare WriteFull.simps [simp del]

lemma WriteFull_Nil [simp]: "WriteFull w [] = (None, w)"
  by (simp add: WriteFull.simps)

lemma WriteFull_open [stream_simps]: "script w = [] \<Longrightarrow> WriteFull w b = (None, w\<lparr>sent := sent w @ b\<rparr>)"
  by (cases "b = []") (simp_all add: WriteFull.simps [of w b] conn_write_def)

lemma WriteFull_prefix:
  "WriteFull w b = (err, w') \<Longrightarrow>
    \<exists>k. sent w' = sent w @ take k b \<and> (err = None \<longrightarrow> length b \<le> k)"
proof (induction w b arbitrary: err w' rule: WriteFull.induct)
  case (1 w b)
  show ?case
  proof (cases "b = [] \<or> script w = []")
    case True
    with "1.prems" show ?thesis by (auto simp: WriteFull_open intro!: exI [of _ "length b"])
  next
    case False
    then obtain k e rest where s: "script w = (k, e) # rest" by (cases "script w") auto
    let ?w = "w\<lparr>sent := sent w @ take k b, script := rest\<rparr>"
    have cw: "conn_write w b = (min k (length b), e, ?w)" by (simp add: conn_write_def s)
    show ?thesis
    proof (cases "e = None \<and> min k (length b) \<noteq> 0")
      case True
      then have "WriteFull w b = WriteFull ?w (drop (min k (length b)) b)"
        using False cw by (simp add: WriteFull.simps [of w b]) (simp add: min_def split: if_splits)
      then have "WriteFull ?w (drop (min k (length b)) b) = (err, w')" using "1.prems" by simp
      then obtain m where "sent w' = sent ?w @ take m (drop (min k (length b)) b)"
        and "err = None \<longrightarrow> length (drop (min k (length b)) b) \<le> m"
        using "1.IH" [OF _ cw [symmetric] refl refl, of err w'] True False by auto
      then show ?thesis
        by (intro exI [of _ "min k (length b) + m"]) (auto simp: take_add min_def)
    next
      case F: False
      with False cw "1.prems" show ?thesis
        by (auto simp: WriteFull.simps [of w b] split: option.splits intro!: exI [of _ k])
    qed
  qed
qed

section \<open>Closers\<close>

text \<open>
  \<open>RunClosers\<close> runs every non-nil closer in order and returns the first error. A closer acts on the
  state of the connection and answers an error or nil.
\<close>

fun RunClosers_loop :: "('s \<Rightarrow> go_error option \<times> 's) option list \<Rightarrow> go_error option \<Rightarrow> 's \<Rightarrow> go_error option \<times> 's" where
  "RunClosers_loop [] firstErr s = (firstErr, s)"
| "RunClosers_loop (None # fns) firstErr s = RunClosers_loop fns firstErr s"
| "RunClosers_loop (Some fn # fns) firstErr s =
    (let (err, s') = fn s
     in RunClosers_loop fns (if err \<noteq> None \<and> firstErr = None then err else firstErr) s')"

definition RunClosers :: "('s \<Rightarrow> go_error option \<times> 's) option list \<Rightarrow> 's \<Rightarrow> go_error option \<times> 's" where
  "RunClosers closers s = RunClosers_loop closers None s"

lemma RunClosers_loop_runs_all:
  "snd (RunClosers_loop closers e s) = fold (\<lambda>fn s. snd (fn s)) (List.map_filter id closers) s"
  by (induction closers e s rule: RunClosers_loop.induct) (auto simp: map_filter_simps split: prod.splits)

lemma RunClosers_loop_first:
  "RunClosers_loop closers (Some e) s = (Some e, snd (RunClosers_loop closers None s))"
  by (simp add: prod_eq_iff RunClosers_loop_runs_all)
    (induction closers "Some e" s rule: RunClosers_loop.induct, auto split: prod.splits)

definition AbsInt64 :: "u64 \<Rightarrow> u64" where
  "AbsInt64 x = (if sint x < 0 then - x else x)"

lemma sint_minus_64:
  "sint (- x :: u64) = (if sint x = - (2 ^ 63) then - (2 ^ 63) else - sint x)"
proof -
  have r: "- (2 ^ 63) \<le> sint x" "sint x < 2 ^ 63" using sint_ge [of x] sint_lt [of x] by simp_all
  show ?thesis
  proof (cases "sint x = - (2 ^ 63)")
    case True then show ?thesis by (simp add: sint_word_ariths(4) signed_take_bit_int_eq_self_iff)
  next
    case False
    then have "signed_take_bit 63 (- sint x) = - sint x" using r by (intro signed_take_bit_int_eq_self) auto
    then show ?thesis using False by (simp add: sint_word_ariths(4))
  qed
qed

lemma sint_min_64: "sint (x :: u64) = - (2 ^ 63) \<longleftrightarrow> x = 2 ^ 63"
proof -
  have "sint (2 ^ 63 :: u64) = - (2 ^ 63)" by simp
  then show ?thesis by (metis signed_word_eqI)
qed

text \<open>\<open>AbsInt64\<close> exceeds a bound exactly when the absolute value does, except at the least integer, which it leaves negative.\<close>

lemma AbsInt64_bound: "0 \<le> b \<Longrightarrow> b < sint (AbsInt64 x) \<longleftrightarrow> \<not> (\<bar>sint x\<bar> \<le> b \<or> x = 2 ^ 63)"
  unfolding sint_min_64 [symmetric] by (auto simp: AbsInt64_def sint_minus_64)

text \<open>Times are nanoseconds since the Unix epoch; \<open>t.Unix()\<close> is a signed 64-bit number of seconds.\<close>

definition second :: int where "second = 1000000000"

definition unixTime :: "int \<Rightarrow> u64" where
  "unixTime now = of_int (now div second)"

end
