(* ===== verification/SudokuConn.thy ===== *)
theory SudokuConn
  imports Codec Bufio ConnUtil
begin

text \<open>
  The classic connection (\<open>pkg/obfs/sudoku/conn.go\<close>). The decoding loop keeps an incomplete group of
  hints between chunks and takes a fast path for four hints in a row; it refines the reference
  decoder of \<open>Codec\<close>. With the \<open>chunk_codec\<close> interface this gives: reading returns the bytes that
  were written, in order and none lost, for every padding, every chunking and every read size.
\<close>

definition IOBufferSize :: nat where
  "IOBufferSize = 32 * 1024"

definition minDecodeReadSize :: nat where
  "minDecodeReadSize = 64"

record Conn =
  conn :: writer
  ctable :: "Table option"
  creader :: bufio
  crecorder :: "bytes option"
  crecording :: bool
  pendingData :: pendingBuffer
  hintBuf :: bytes
  hintCount :: nat
  crng :: sudokuRand
  cpaddingThreshold :: u64

definition NewConn ::
  "writer \<Rightarrow> feed \<Rightarrow> Table option \<Rightarrow> int \<Rightarrow> int \<Rightarrow> bool \<Rightarrow> sudokuRand \<Rightarrow> Conn" where
  "NewConn c fd table pMin pMax rec seeded =
    (let (threshold, localRng) = pickPaddingThreshold seeded pMin pMax
     in \<lparr>conn = c, ctable = table, creader = NewReaderSize IOBufferSize fd,
         crecorder = (if rec then Some [] else None), crecording = rec,
         pendingData = newPendingBuffer 4096, hintBuf = [0, 0, 0, 0], hintCount = 0,
         crng = localRng, cpaddingThreshold = threshold\<rparr>)"

definition StopRecording :: "Conn \<Rightarrow> Conn" where
  "StopRecording sc = sc\<lparr>crecording := False, crecorder := None\<rparr>"

definition GetBufferedAndRecorded :: "Conn \<Rightarrow> bytes" where
  "GetBufferedAndRecorded sc =
    (let recorded = (case crecorder sc of None \<Rightarrow> [] | Some r \<Rightarrow> r) in
     if 0 < length (buffered (creader sc)) then recorded @ buffered (creader sc) else recorded)"

definition Conn_Write :: "bytes \<Rightarrow> Conn \<Rightarrow> nat \<times> go_error option \<times> Conn" where
  "Conn_Write p sc =
    (if p = [] then (0, None, sc)
     else case ctable sc of
       None \<Rightarrow> (0, Some ErrClosedPipe, sc)
     | Some t \<Rightarrow>
       let (writeBuf, r) = encodeSudokuPayload t (crng sc) (cpaddingThreshold sc) p;
           (err, w) = WriteFull (conn sc) writeBuf
       in (length p, err, sc\<lparr>crng := r, conn := w\<rparr>))"

text \<open>
  The decoding loop over a chunk. An index outside \<open>hintBuf\<close> panics.
\<close>

type_synonym hint_state = "bytes \<times> nat \<times> pendingBuffer"

function decodeChunk :: "Table \<Rightarrow> nat \<Rightarrow> bytes \<Rightarrow> bytes \<Rightarrow> hint_state \<Rightarrow> go_error option \<times> bytes \<times> hint_state" where
  "decodeChunk t n [] out (hb, hc, pd) = (None, out, hb, hc, pd)"
| "decodeChunk t n (b # rest) out (hb, hc, pd) =
    (let chunk = b # rest in
     if hc = 0 \<and> length out < n \<and> 3 < length chunk
        \<and> hintTable (layout t) (chunk ! 0) \<and> hintTable (layout t) (chunk ! 1)
        \<and> hintTable (layout t) (chunk ! 2) \<and> hintTable (layout t) (chunk ! 3)
     then
       (case DecodeMap t (packHintBytes (chunk ! 0) (chunk ! 1) (chunk ! 2) (chunk ! 3)) of
          None \<Rightarrow> (Some ErrInvalidSudokuMapMiss, out, hb, hc, pd)
        | Some v \<Rightarrow> decodeChunk t n (drop 4 chunk) (out @ [v]) (hb, hc, pd))
     else if \<not> hintTable (layout t) b then decodeChunk t n rest out (hb, hc, pd)
     else if 4 \<le> hc then (Some RuntimePanic, out, hb, hc, pd)
     else
       let hb' = hb[hc := b]; hc' = hc + 1 in
       if hc' \<noteq> 4 then decodeChunk t n rest out (hb', hc', pd)
       else
         (case DecodeMap t (packHintBytes (hb' ! 0) (hb' ! 1) (hb' ! 2) (hb' ! 3)) of
            None \<Rightarrow> (Some ErrInvalidSudokuMapMiss, out, hb', hc', pd)
          | Some v \<Rightarrow>
              let (out', pd') = appendDecodedByte n out pd v in decodeChunk t n rest out' (hb', 0, pd')))"
  by pat_completeness auto
termination
  by (relation "measure (\<lambda>(t, n, chunk, out, s). length chunk)") auto

definition sudokuReadSize :: "nat \<Rightarrow> nat \<Rightarrow> nat" where
  "sudokuReadSize decodedRemaining maxRaw =
    (if maxRaw \<le> minDecodeReadSize \<or> decodedRemaining \<le> 0 then maxRaw
     else if (maxRaw - minDecodeReadSize) div 5 < decodedRemaining then maxRaw
     else decodedRemaining * 5 + minDecodeReadSize)"

definition drainHints :: "nat \<Rightarrow> hint_state \<Rightarrow> bytes option \<times> hint_state" where
  "drainHints n s = (case s of (hb, hc, pd) \<Rightarrow> let (r, pd') = drainPending n pd in (r, hb, hc, pd'))"

definition Conn_Read :: "nat \<Rightarrow> Conn \<Rightarrow> (bytes result \<times> Conn) option" where
  "Conn_Read n sc =
    (if n = 0 then Some (Inr [], sc)
     else case ctable sc of
       None \<Rightarrow> Some (Inl ErrClosedPipe, sc)
     | Some t \<Rightarrow>
       (case drainPending n (pendingData sc) of
          (Some bs, pd) \<Rightarrow> Some (Inr bs, sc\<lparr>pendingData := pd\<rparr>)
        | (None, pd) \<Rightarrow>
            map_option (\<lambda>(r, b, rc, hb, hc, pd').
                (r, sc\<lparr>creader := b, crecorder := rc, hintBuf := hb, hintCount := hc, pendingData := pd'\<rparr>))
              (readLoop (\<lambda>k. sudokuReadSize k IOBufferSize) (decodeChunk t) (\<lambda>_ s. s) drainHints
                 (crecording sc) n [] (creader sc) (crecorder sc) (hintBuf sc, hintCount sc, pd))))"

section \<open>The loop refines the reference decoder\<close>

definition hint_inv :: "hint_state \<Rightarrow> bool" where
  "hint_inv s \<longleftrightarrow> (case s of (hb, hc, pd) \<Rightarrow> length hb = 4 \<and> hc < 4 \<and> pending_ok pd)"

definition hint_pend :: "hint_state \<Rightarrow> bytes" where
  "hint_pend s = (case s of (hb, hc, pd) \<Rightarrow> unread pd)"

definition hint_plain :: "Table \<Rightarrow> hint_state \<Rightarrow> bytes \<Rightarrow> bytes option" where
  "hint_plain t s w =
    (case s of (hb, hc, pd) \<Rightarrow>
     (case decodeHints t (take hc hb) w of Inl e \<Rightarrow> None | Inr (ps, _) \<Rightarrow> Some ps))"

lemma packHintBytes_four: "length h = 4 \<Longrightarrow> packHintBytes (h ! 0) (h ! 1) (h ! 2) (h ! 3) = packHintsToKey h"
  by (simp add: packHintsToKey_def)

lemma take_store: "k < length xs \<Longrightarrow> take (Suc k) (xs[k := b]) = take k xs @ [b]"
  by (simp add: take_Suc_conv_app_nth)

definition refines_chunk ::
  "Table \<Rightarrow> nat \<Rightarrow> bytes \<Rightarrow> bytes \<Rightarrow> hint_state \<Rightarrow> go_error option \<times> bytes \<times> hint_state \<Rightarrow> bool" where
  "refines_chunk t n chunk out s r \<longleftrightarrow>
    (case (s, r) of ((hb, hc, pd), err, out', hb', hc', pd') \<Rightarrow>
      (case decodeHints t (take hc hb) chunk of
         Inl e \<Rightarrow> err = Some e
       | Inr (vs, g) \<Rightarrow> err = None \<and> take hc' hb' = g \<and> length hb' = 4 \<and> hc' < 4 \<and> pending_ok pd'
           \<and> length out' \<le> n \<and> (unread pd' = [] \<or> length out' = n)
           \<and> out' @ unread pd' = out @ unread pd @ vs))"

lemma refines_chunk_grow:
  assumes "refines_chunk t n chunk1 out1 (hb1, hc1, pd1) r"
    and "decodeHints t (take hc hb) chunk =
      (case decodeHints t (take hc1 hb1) chunk1 of Inl e \<Rightarrow> Inl e | Inr (vs, g) \<Rightarrow> Inr (v # vs, g))"
    and "out1 @ unread pd1 = out @ unread pd @ [v]"
  shows "refines_chunk t n chunk out (hb, hc, pd) r"
proof -
  obtain err out' hb' hc' pd' where r: "r = (err, out', hb', hc', pd')" by (metis surj_pair)
  show ?thesis
    using assms append_assoc [of out1 "unread pd1"]
    unfolding refines_chunk_def r prod.case by (auto split: sum.splits prod.splits)
qed

lemma decodeChunk_refines:
  assumes "hint_inv s" "hint_pend s = [] \<or> length out = n" "length out \<le> n"
  shows "refines_chunk t n chunk out s (decodeChunk t n chunk out s)"
  using assms
proof (induction t n chunk out s rule: decodeChunk.induct)
  case (1 t n out hb hc pd)
  then show ?case by (auto simp: refines_chunk_def hint_inv_def hint_pend_def)
next
  case (2 t n b rest out hb hc pd)
  let ?H = "hintTable (layout t)"
  let ?chunk = "b # rest"
  have inv: "length hb = 4" "hc < 4" "pending_ok pd" using 2 by (auto simp: hint_inv_def)
  then have in_range: "\<not> 4 \<le> hc" by simp
  consider (fast) "hc = 0 \<and> length out < n \<and> 3 < length ?chunk \<and> ?H (?chunk ! 0) \<and> ?H (?chunk ! 1) \<and> ?H (?chunk ! 2) \<and> ?H (?chunk ! 3)"
    | (pad) "\<not> (hc = 0 \<and> length out < n \<and> 3 < length ?chunk \<and> ?H (?chunk ! 0) \<and> ?H (?chunk ! 1) \<and> ?H (?chunk ! 2) \<and> ?H (?chunk ! 3))" "\<not> ?H b"
    | (store) "\<not> (hc = 0 \<and> length out < n \<and> 3 < length ?chunk \<and> ?H (?chunk ! 0) \<and> ?H (?chunk ! 1) \<and> ?H (?chunk ! 2) \<and> ?H (?chunk ! 3))" "?H b" "hc + 1 \<noteq> 4"
    | (full) "\<not> (hc = 0 \<and> length out < n \<and> 3 < length ?chunk \<and> ?H (?chunk ! 0) \<and> ?H (?chunk ! 1) \<and> ?H (?chunk ! 2) \<and> ?H (?chunk ! 3))" "?H b" "hc + 1 = 4"
    by blast
  then show ?case
  proof cases
    case fast
    let ?q = "take 4 ?chunk"
    have q4: "?q = [?chunk ! 0, ?chunk ! 1, ?chunk ! 2, ?chunk ! 3]" using list4_conv [of ?q] fast by simp
    then have q: "length ?q = 4" "\<And>h. h \<in> set ?q \<Longrightarrow> ?H h"
      and key: "packHintBytes (?chunk ! 0) (?chunk ! 1) (?chunk ! 2) (?chunk ! 3) = packHintsToKey ?q"
      using fast by (auto simp: packHintsToKey_def)
    have step: "decodeChunk t n ?chunk out (hb, hc, pd) =
        (case DecodeMap t (packHintsToKey ?q) of None \<Rightarrow> (Some ErrInvalidSudokuMapMiss, out, hb, hc, pd)
         | Some v \<Rightarrow> decodeChunk t n (drop 4 ?chunk) (out @ [v]) (hb, hc, pd))"
      unfolding decodeChunk.simps Let_def key using fast by (simp only: if_True simp_thms)
    have ref: "decodeHints t (take hc hb) ?chunk = (case DecodeMap t (packHintsToKey ?q) of
       None \<Rightarrow> Inl ErrInvalidSudokuMapMiss
     | Some v \<Rightarrow> (case decodeHints t [] (drop 4 ?chunk) of Inl e \<Rightarrow> Inl e | Inr (vs, hb') \<Rightarrow> Inr (v # vs, hb')))"
      using decodeHints_group [OF q, of "drop 4 ?chunk"] fast by (simp only: append_take_drop_id take_0)
    have pd: "unread pd = []" using fast "2.prems"(2) by (auto simp: hint_pend_def)
    show ?thesis
    proof (cases "DecodeMap t (packHintsToKey ?q)")
      case None
      show ?thesis by (simp only: refines_chunk_def step None option.case prod.case ref sum.case)
    next
      case (Some v)
      have "refines_chunk t n (drop 4 ?chunk) (out @ [v]) (hb, hc, pd) (decodeChunk t n (drop 4 ?chunk) (out @ [v]) (hb, hc, pd))"
        using "2.IH"(1) [OF refl fast Some [folded key]] "2.prems" fast pd by (simp add: hint_pend_def)
      then show ?thesis
        unfolding step Some option.case by (rule refines_chunk_grow) (use ref fast Some pd in simp_all)
    qed
  next
    case pad
    have "decodeChunk t n ?chunk out (hb, hc, pd) = decodeChunk t n rest out (hb, hc, pd)"
      unfolding decodeChunk.simps Let_def using pad by (simp only: if_False if_True simp_thms)
    then show ?thesis
      using "2.IH"(2) [OF refl pad] "2.prems" pad(2) by (simp add: refines_chunk_def)
  next
    case store
    have "decodeChunk t n ?chunk out (hb, hc, pd) = decodeChunk t n rest out (hb[hc := b], hc + 1, pd)"
      unfolding decodeChunk.simps Let_def using store in_range by (simp only: if_False if_True simp_thms)
    moreover have "refines_chunk t n rest out (hb[hc := b], hc + 1, pd) (decodeChunk t n rest out (hb[hc := b], hc + 1, pd))"
      using "2.IH"(3) [OF refl store(1) _ _ refl refl store(3)] "2.prems" store inv by (simp add: hint_inv_def hint_pend_def)
    ultimately show ?thesis
      using store inv by (simp add: refines_chunk_def take_store)
  next
    case full
    let ?hb = "hb[hc := b]"
    have hbeq: "take hc hb @ [b] = ?hb" using take_store [of hc hb b] full(3) inv by simp
    have key: "packHintBytes (?hb ! 0) (?hb ! 1) (?hb ! 2) (?hb ! 3) = packHintsToKey (take hc hb @ [b])"
      unfolding hbeq by (rule packHintBytes_four) (simp add: inv)
    have step: "decodeChunk t n ?chunk out (hb, hc, pd) =
       (case DecodeMap t (packHintsToKey (take hc hb @ [b])) of
            None \<Rightarrow> (Some ErrInvalidSudokuMapMiss, out, ?hb, hc + 1, pd)
          | Some v \<Rightarrow> (case appendDecodedByte n out pd v of (out', pd') \<Rightarrow> decodeChunk t n rest out' (?hb, 0, pd')))"
      unfolding decodeChunk.simps Let_def key using full in_range by (simp only: if_False if_True simp_thms)
    have ref: "decodeHints t (take hc hb) ?chunk = (case DecodeMap t (packHintsToKey (take hc hb @ [b])) of
       None \<Rightarrow> Inl ErrInvalidSudokuMapMiss
     | Some v \<Rightarrow> (case decodeHints t [] rest of Inl e \<Rightarrow> Inl e | Inr (vs, hb') \<Rightarrow> Inr (v # vs, hb')))"
      using full inv by simp
    show ?thesis
    proof (cases "DecodeMap t (packHintsToKey (take hc hb @ [b]))")
      case None
      show ?thesis by (simp only: refines_chunk_def step None option.case prod.case ref sum.case)
    next
      case (Some v)
      obtain out' pd' where ap: "appendDecodedByte n out pd v = (out', pd')" by (metis surj_pair)
      have o: "pending_ok pd' \<and> out' @ unread pd' = out @ unread pd @ [v] \<and> length out' \<le> n
          \<and> (unread pd' = [] \<or> length out' = n)"
        using appendDecodedByte_order [OF inv(3) ap] "2.prems" by (auto simp: hint_pend_def)
      have "refines_chunk t n rest out' (?hb, 0, pd') (decodeChunk t n rest out' (?hb, 0, pd'))"
        using "2.IH"(4) [OF refl full(1) _ _ refl refl _ Some [folded key] ap [symmetric]] "2.prems" full inv o
        by (simp add: hint_inv_def hint_pend_def)
      then show ?thesis
        unfolding step Some option.case ap prod.case by (rule refines_chunk_grow) (use ref Some o in simp_all)
    qed
  qed
qed

lemma hint_plain_append:
  "hint_plain t (hb, hc, pd) (chunk @ w) = Some ps \<longleftrightarrow>
    (\<exists>vs g ws g'. decodeHints t (take hc hb) chunk = Inr (vs, g) \<and> decodeHints t g w = Inr (ws, g') \<and> ps = vs @ ws)"
  by (auto simp: hint_plain_def decodeHints_append split: sum.splits prod.splits)

interpretation sudoku: chunk_codec "\<lambda>k. sudokuReadSize k IOBufferSize" "decodeChunk t" "\<lambda>_ s. s" drainHints
  hint_inv hint_pend "hint_plain t" for t
proof
  show "0 < sudokuReadSize k IOBufferSize" for k
    by (simp add: sudokuReadSize_def IOBufferSize_def minDecodeReadSize_def)
next
  fix s s' chunk w ps n err out
  assume inv: "hint_inv s" and pl: "hint_plain t s (chunk @ w) = Some ps" and pe: "hint_pend s = []"
    and dc: "decodeChunk t n chunk [] s = (err, out, s')"
  obtain hb hc pd where s: "s = (hb, hc, pd)" by (metis surj_pair)
  obtain hb' hc' pd' where s': "s' = (hb', hc', pd')" by (metis surj_pair)
  obtain vs g ws g' where d: "decodeHints t (take hc hb) chunk = Inr (vs, g)" "decodeHints t g w = Inr (ws, g')" "ps = vs @ ws"
    using pl unfolding s hint_plain_append by blast
  have "refines_chunk t n chunk [] s (err, out, s')"
    using decodeChunk_refines [OF inv, of "[]" n t chunk] pe dc by simp
  then show "err = None \<and> hint_inv s' \<and> length out \<le> n \<and> (hint_pend s' = [] \<or> length out = n)
      \<and> (\<exists>ps'. hint_plain t s' w = Some ps' \<and> ps = out @ hint_pend s' @ ps')"
    using d pe by (auto simp: refines_chunk_def s s' hint_inv_def hint_pend_def hint_plain_def)
next
  fix s s' n r assume inv: "hint_inv s" and dr: "drainHints n s = (r, s')"
  obtain hb hc pd where s: "s = (hb, hc, pd)" by (metis surj_pair)
  obtain pd' where d: "drainPending n pd = (r, pd')" "s' = (hb, hc, pd')"
    using dr by (auto simp: s drainHints_def split: prod.splits)
  show "hint_inv s' \<and> hint_plain t s' = hint_plain t s"
    and "r = (if hint_pend s = [] then None else Some (take n (hint_pend s))) \<and> hint_pend s' = drop n (hint_pend s)"
    using pending.get_result [OF _ d(1)] inv
    by (simp_all add: s d(2) hint_inv_def hint_pend_def hint_plain_def fun_eq_iff)
qed simp_all

section \<open>Reading and writing\<close>

definition Conn_ok :: "Conn \<Rightarrow> bool" where
  "Conn_ok sc \<longleftrightarrow> hint_inv (hintBuf sc, hintCount sc, pendingData sc) \<and> bufio_ok (creader sc)"

text \<open>The bytes a connection with table \<open>t\<close> will still deliver.\<close>

definition Conn_remaining :: "Table \<Rightarrow> Conn \<Rightarrow> bytes option" where
  "Conn_remaining t sc =
    map_option (\<lambda>ps. unread (pendingData sc) @ ps)
      (hint_plain t (hintBuf sc, hintCount sc, pendingData sc) (wire (creader sc)))"

lemma Conn_Read_stream:
  assumes "Conn_ok sc" "ctable sc = Some t" "0 < n" "Conn_remaining t sc = Some ps"
  shows "\<exists>r sc'. Conn_Read n sc = Some (r, sc') \<and> Conn_ok sc' \<and> ctable sc' = Some t
    \<and> bufio_errs (creader sc') \<subseteq> bufio_errs (creader sc)
    \<and> (case r of
         Inr out \<Rightarrow> out \<noteq> [] \<and> length out \<le> n \<and> (\<exists>ps'. ps = out @ ps' \<and> Conn_remaining t sc' = Some ps')
       | Inl e \<Rightarrow> e \<in> bufio_errs (creader sc) \<and> Conn_remaining t sc' = Some ps \<and> (e = EOF \<longrightarrow> ps = []))"
proof -
  obtain r0 pd where dr: "drainPending n (pendingData sc) = (r0, pd)" by (metis surj_pair)
  have inv: "hint_inv (hintBuf sc, hintCount sc, pendingData sc)" and ok: "bufio_ok (creader sc)"
    using assms(1) by (auto simp: Conn_ok_def)
  then have pok: "pending_ok (pendingData sc)" by (simp add: hint_inv_def)
  note g = pending.get_conserves [OF pok dr]
  obtain qs where qs: "hint_plain t (hintBuf sc, hintCount sc, pendingData sc) (wire (creader sc)) = Some qs"
    "ps = unread (pendingData sc) @ qs"
    using assms(4) by (auto simp: Conn_remaining_def)
  show ?thesis
  proof (cases r0)
    case (Some bs)
    let ?sc = "sc\<lparr>pendingData := pd\<rparr>"
    have "Conn_Read n sc = Some (Inr bs, ?sc)"
      using assms(2,3) Some dr by (simp add: Conn_Read_def)
    moreover have "bs \<noteq> [] \<and> length bs \<le> n" using g Some assms(3) by simp
    moreover have "Conn_ok ?sc" using inv ok g by (simp add: Conn_ok_def hint_inv_def)
    moreover have "ps = bs @ unread pd @ qs" using g Some qs(2) by simp
    moreover have "Conn_remaining t ?sc = Some (unread pd @ qs)"
      using qs(1) by (simp add: Conn_remaining_def hint_plain_def)
    ultimately show ?thesis using assms(2) by auto
  next
    case None
    then have pd: "unread (pendingData sc) = []" "unread pd = []" "pending_ok pd" using g by auto
    let ?s = "(hintBuf sc, hintCount sc, pd)"
    have s: "hint_inv ?s" "hint_pend ?s = []" "hint_plain t ?s (wire (creader sc)) = Some ps"
      using inv pd qs by (simp_all add: hint_inv_def hint_pend_def hint_plain_def)
    from sudoku.readLoop_stream [OF s ok assms(3), of "crecording sc" "crecorder sc"]
    obtain r b' rc' s' ps' where
      rl: "readLoop (\<lambda>k. sudokuReadSize k IOBufferSize) (decodeChunk t) (\<lambda>_ s. s) drainHints
          (crecording sc) n [] (creader sc) (crecorder sc) ?s = Some (r, b', rc', s')"
      and ok': "hint_inv s'" "bufio_ok b'" "bufio_errs b' \<subseteq> bufio_errs (creader sc)"
      and pl: "hint_plain t s' (wire b') = Some ps'"
      and rs: "case r of Inr out \<Rightarrow> out \<noteq> [] \<and> length out \<le> n \<and> ps = out @ hint_pend s' @ ps'
           | Inl e \<Rightarrow> hint_pend s' = [] \<and> ps = ps' \<and> e \<in> bufio_errs (creader sc) \<and> (e = EOF \<longrightarrow> wire b' = [])"
      by blast
    obtain hb hc pd' where s': "s' = (hb, hc, pd')" by (metis surj_pair)
    let ?sc = "sc\<lparr>creader := b', crecorder := rc', hintBuf := hb, hintCount := hc, pendingData := pd'\<rparr>"
    have "Conn_Read n sc = Some (r, ?sc)" using assms(2,3) None dr rl s' by (simp add: Conn_Read_def)
    moreover have "Conn_ok ?sc" using ok' s' by (simp add: Conn_ok_def)
    moreover have "Conn_remaining t ?sc = Some (unread pd' @ ps')" using pl s' by (simp add: Conn_remaining_def)
    moreover have "wire b' = [] \<longrightarrow> ps' = []" using pl s' by (auto simp: hint_plain_def)
    ultimately show ?thesis using rs assms(2) ok'(3) s' by (auto simp: hint_pend_def split: sum.splits)
  qed
qed

text \<open>
  Reading to the first error, as \<open>io.ReadAll\<close> does; \<open>k\<close> bounds the number of reads.
\<close>

fun Conn_readAll :: "nat \<Rightarrow> nat \<Rightarrow> Conn \<Rightarrow> (bytes \<times> go_error) option" where
  "Conn_readAll 0 n sc = None"
| "Conn_readAll (Suc k) n sc =
    (case Conn_Read n sc of
       None \<Rightarrow> None
     | Some (Inl e, sc') \<Rightarrow> Some ([], e)
     | Some (Inr out, sc') \<Rightarrow> map_option (\<lambda>(bs, e). (out @ bs, e)) (Conn_readAll k n sc'))"

lemma Conn_readAll_complete:
  assumes "Conn_ok sc" "ctable sc = Some t" "0 < n" "Conn_remaining t sc = Some ps"
    and "bufio_errs (creader sc) = {EOF}" "length ps < k"
  shows "Conn_readAll k n sc = Some (ps, EOF)"
  using assms
proof (induction k arbitrary: sc ps)
  case (Suc k)
  obtain r sc' where rd: "Conn_Read n sc = Some (r, sc')" and ok: "Conn_ok sc'" "ctable sc' = Some t"
    and es: "bufio_errs (creader sc') \<subseteq> {EOF}"
    and rs: "case r of
         Inr out \<Rightarrow> out \<noteq> [] \<and> length out \<le> n \<and> (\<exists>ps'. ps = out @ ps' \<and> Conn_remaining t sc' = Some ps')
       | Inl e \<Rightarrow> e \<in> {EOF} \<and> Conn_remaining t sc' = Some ps \<and> (e = EOF \<longrightarrow> ps = [])"
    using Conn_Read_stream [OF Suc.prems(1-4)] unfolding Suc.prems(5) by blast
  show ?case
  proof (cases r)
    case (Inl e)
    then show ?thesis using rd rs by simp
  next
    case (Inr out)
    then obtain ps' where ps': "out \<noteq> []" "ps = out @ ps'" "Conn_remaining t sc' = Some ps'" using rs by auto
    have "EOF \<in> bufio_errs (creader sc')" by (simp add: bufio_errs_def feed_errs_def)
    then have "bufio_errs (creader sc') = {EOF}" using es by blast
    moreover have "length ps' < k" using ps' Suc.prems(6) by (cases out) simp_all
    ultimately have "Conn_readAll k n sc' = Some (ps', EOF)" using Suc.IH ok ps' Suc.prems(3) by blast
    then show ?thesis using rd Inr ps' by simp
  qed
qed simp

text \<open>A sequence of writes on an open connection.\<close>

definition Conn_writes :: "bytes list \<Rightarrow> Conn \<Rightarrow> Conn" where
  "Conn_writes payloads sc = fold (\<lambda>p sc. snd (snd (Conn_Write p sc))) payloads sc"

lemma Conn_Write_sends:
  assumes "puzzle_table t" "ctable sc = Some t" "script (conn sc) = []"
  shows "\<exists>w sc'. Conn_Write p sc = (length p, None, sc') \<and> sent (conn sc') = sent (conn sc) @ w
    \<and> ctable sc' = Some t \<and> script (conn sc') = [] \<and> decodeHints t [] w = Inr (p, [])"
proof (cases "p = []")
  case True
  then show ?thesis using assms by (auto simp: Conn_Write_def intro!: exI [of _ "[]"])
next
  case False
  obtain w r where e: "encodeSudokuPayload t (crng sc) (cpaddingThreshold sc) p = (w, r)" by (metis surj_pair)
  then show ?thesis
    using assms False puzzle_table.decode_encode [OF assms(1) e]
    by (simp add: Conn_Write_def WriteFull_open)
qed

lemma Conn_writes_decode:
  assumes "puzzle_table t" "ctable sc = Some t" "script (conn sc) = []"
  shows "\<exists>w. sent (conn (Conn_writes ps sc)) = sent (conn sc) @ w \<and> decodeHints t [] w = Inr (concat ps, [])"
  using assms(2,3)
proof (induction ps arbitrary: sc)
  case Nil
  then show ?case by (intro exI [of _ "[]"]) (simp add: Conn_writes_def)
next
  case (Cons p ps)
  obtain w sc' where w: "Conn_Write p sc = (length p, None, sc')" "sent (conn sc') = sent (conn sc) @ w"
    "ctable sc' = Some t" "script (conn sc') = []" "decodeHints t [] w = Inr (p, [])"
    using Conn_Write_sends [OF assms(1) Cons.prems] by blast
  then obtain w' where "sent (conn (Conn_writes ps sc')) = sent (conn sc') @ w'" "decodeHints t [] w' = Inr (concat ps, [])"
    using Cons.IH by blast
  then show ?case
    using w by (intro exI [of _ "w @ w'"]) (simp add: Conn_writes_def decodeHints_append)
qed

text \<open>A receiver whose connection delivers some bytes, cut into chunks, and then ends.\<close>

definition receives :: "feed \<Rightarrow> bytes \<Rightarrow> bool" where
  "receives fd bs \<longleftrightarrow> concat (map fst fd) = bs \<and> (\<forall>e \<in> snd ` set fd. e = None)"

lemma eof_last_clean: "\<forall>e \<in> snd ` set fd. e = None \<Longrightarrow> eof_last fd"
  by (induction fd rule: eof_last.induct) auto

lemma receives_ok:
  assumes "receives fd bs" "0 < k"
  shows "bufio_ok (NewReaderSize k fd)" "bufio_errs (NewReaderSize k fd) = {EOF}" "wire (NewReaderSize k fd) = bs"
  using assms eof_last_clean [of fd]
  by (auto simp: receives_def bufio_ok_def NewReaderSize_def bufio_errs_def feed_errs_def wire_def image_iff)

lemma NewConn_fields:
  "creader (NewConn c fd tb pMin pMax rec s) = NewReaderSize IOBufferSize fd"
  "ctable (NewConn c fd tb pMin pMax rec s) = tb" "conn (NewConn c fd tb pMin pMax rec s) = c"
  "hintBuf (NewConn c fd tb pMin pMax rec s) = [0, 0, 0, 0]" "hintCount (NewConn c fd tb pMin pMax rec s) = 0"
  "pendingData (NewConn c fd tb pMin pMax rec s) = newPendingBuffer 4096"
  "crecorder (NewConn c fd tb pMin pMax rec s) = (if rec then Some [] else None)"
  "crecording (NewConn c fd tb pMin pMax rec s) = rec"
  by (simp_all add: NewConn_def split: prod.splits)

lemma Conn_roundtrip:
  assumes t: "puzzle_table t" and "ctable snd_conn = Some t" "script (conn snd_conn) = []" "sent (conn snd_conn) = []"
    and fd: "receives fd (sent (conn (Conn_writes payloads snd_conn)))" and n: "0 < n" "length (concat payloads) < k"
  shows "Conn_readAll k n (NewConn c fd (Some t) pMin pMax rec s) = Some (concat payloads, EOF)"
proof (rule Conn_readAll_complete [where t = t])
  let ?sc = "NewConn c fd (Some t) pMin pMax rec s"
  have "0 < IOBufferSize" by (simp add: IOBufferSize_def)
  note r = receives_ok [OF fd this]
  show "Conn_ok ?sc" using r by (simp add: Conn_ok_def NewConn_fields hint_inv_def)
  show "bufio_errs (creader ?sc) = {EOF}" using r by (simp add: NewConn_fields)
  obtain w where "sent (conn (Conn_writes payloads snd_conn)) = w" "decodeHints t [] w = Inr (concat payloads, [])"
    using Conn_writes_decode [OF assms(1-3)] assms(4) by auto
  then show "Conn_remaining t ?sc = Some (concat payloads)"
    using r by (simp add: Conn_remaining_def NewConn_fields hint_plain_def)
qed (simp_all add: NewConn_fields n)

section \<open>The recorder\<close>

lemma Conn_Read_records:
  assumes "Conn_Read n sc = Some (r, sc')" "crecording sc" "crecorder sc = Some rec"
  shows "\<exists>c. crecorder sc' = Some (rec @ c) \<and> crecording sc' \<and> wire (creader sc) = c @ wire (creader sc')"
proof -
  have "\<exists>c. rc' = Some (rec @ c) \<and> wire (creader sc) = c @ wire b'"
    if "readLoop rs dc oe dr (crecording sc) n [] (creader sc) (crecorder sc) s0 = Some (r', b', rc', s')"
    for rs dc oe dr s0 r' b' rc' and s' :: hint_state
    using readLoop_records [OF that assms(2,3)] .
  then show ?thesis using assms
    by (auto simp: Conn_Read_def split: if_splits option.splits prod.splits)
qed

section \<open>After a failed lookup\<close>

text \<open>
  When the slow path completes a group that is no puzzle, \<open>hintCount\<close> stays at 4, and the next hint
  byte the connection decodes indexes \<open>hintBuf[4]\<close>.
\<close>

lemma decodeChunk_after_miss:
  assumes "hintTable (layout t) b"
  shows "decodeChunk t n (b # rest) out (hb, 4, pd) = (Some RuntimePanic, out, hb, 4, pd)"
  using assms by simp

lemma decodeChunk_miss_state:
  assumes "hintTable (layout t) b" "DecodeMap t (packHintsToKey [h0, h1, h2, b]) = None"
  shows "decodeChunk t n (b # rest) out ([h0, h1, h2, x], 3, pd)
    = (Some ErrInvalidSudokuMapMiss, out, [h0, h1, h2, b], 4, pd)"
  using assms by (simp add: packHintsToKey_def Let_def)

section \<open>Properties\<close>

text \<open>
  Property C1: whatever is written through a classic connection, in any number of writes and with any padding,
  is read back exactly and followed by the end of the stream, for every way the network cuts the bytes
  into chunks, every read size and every table the constructor returns.
\<close>

theorem sudoku_conn_roundtrip:
  assumes "newSingleDirectionTable sha256 shuffleU key mode pat = Inr t"
    and "sender = NewConn \<lparr>sent = [], script = []\<rparr> [] (Some t) pMin pMax False seed"
    and "receives fd (sent (conn (Conn_writes payloads sender)))"
    and "0 < n" "length (concat payloads) < k"
  shows "Conn_readAll k n (NewConn w fd (Some t) pMin' pMax' rec seed') = Some (concat payloads, EOF)"
  using assms Conn_roundtrip [OF newSingleDirectionTable_puzzle_table [OF assms(1)], of sender fd payloads n k]
  by (simp add: NewConn_fields)

theorem sudoku_conn_roundtrip_witness:
  "\<exists>t fd. newSingleDirectionTable (\<lambda>_. replicate 32 7) (\<lambda>_ _. 5) ''key'' ''prefer_ascii'' '''' = Inr t
    \<and> Conn_readAll 10 2 (NewConn \<lparr>sent = [], script = []\<rparr> fd (Some t) 0 0 False (newSudokuRand 9))
        = Some ([1, 2, 3], EOF)"
proof -
  have "resolveLayout ''prefer_ascii'' '''' = Inr newASCIILayout" by code_simp
  then obtain t where t: "newSingleDirectionTable (\<lambda>_. replicate 32 7) (\<lambda>_ _. 5) ''key'' ''prefer_ascii'' '''' = Inr t"
    by (simp add: newSingleDirectionTable_def)
  let ?w = "sent (conn (Conn_writes [[1, 2], [3]] (NewConn \<lparr>sent = [], script = []\<rparr> [] (Some t) 10 30 False (newSudokuRand 4))))"
  have "receives [(take 5 ?w, None), (drop 5 ?w, None)] ?w" by (simp add: receives_def)
  from sudoku_conn_roundtrip [OF t refl this, of 2 10 "\<lparr>sent = [], script = []\<rparr>" 0 0 False "newSudokuRand 9"]
  show ?thesis using t by (intro exI conjI) simp_all
qed



text \<open>
  The decoding loop, with its four-hint fast path and the group it keeps between chunks, agrees
  with the byte-by-byte reference decoder on every chunk, errors included, and never panics from a state
  in which fewer than four hints are buffered.
\<close>

theorem sudoku_decode_equiv:
  assumes "length hb = 4" "hc < 4" "pending_ok pd" "unread pd = []"
    and "decodeChunk t n chunk [] (hb, hc, pd) = (err, out, hb', hc', pd')"
  shows "case decodeHints t (take hc hb) chunk of
      Inl e \<Rightarrow> err = Some e \<and> e = ErrInvalidSudokuMapMiss
    | Inr (vs, g) \<Rightarrow> err = None \<and> take hc' hb' = g \<and> hc' < 4 \<and> out @ unread pd' = vs \<and> length out = min n (length vs)"
proof -
  have m: "decodeHints t h c = Inl e \<Longrightarrow> e = ErrInvalidSudokuMapMiss" for h c e
    by (induction t h c arbitrary: e rule: decodeHints.induct)
      (auto split: if_splits option.splits sum.splits prod.splits)
  have "refines_chunk t n chunk [] (hb, hc, pd) (err, out, hb', hc', pd')"
    using decodeChunk_refines [of "(hb, hc, pd)" "[]" n t chunk] assms by (simp add: hint_inv_def hint_pend_def)
  then show ?thesis
    using assms(4) m by (fastforce simp: refines_chunk_def split: sum.splits prod.splits)
qed

theorem sudoku_decode_equiv_witness:
  "fst (decodeChunk (emptyTable newASCIILayout) 5 [0x20, 0x41, 0x42, 0x43, 0x44] [] ([0, 0, 0, 0], 0, newPendingBuffer 8))
    = Some ErrInvalidSudokuMapMiss"
proof -
  let ?t = "emptyTable newASCIILayout"
  obtain err out hb hc pd where d: "decodeChunk ?t 5 [0x20, 0x41, 0x42, 0x43, 0x44] [] ([0, 0, 0, 0], 0, newPendingBuffer 8)
      = (err, out, hb, hc, pd)" by (metis surj_pair)
  have "decodeHints ?t (take 0 [0, 0, 0, 0]) [0x20, 0x41, 0x42, 0x43, 0x44] = Inl ErrInvalidSudokuMapMiss"
    by (simp add: emptyTable_def newASCIILayout_def)
  then show ?thesis using sudoku_decode_equiv [OF _ _ _ _ d] d by simp
qed

text \<open>
  While a connection records, the bytes recorded and those not yet pulled from the reader make up
  the whole wire, whether or not they decode: nothing is missing from what a fallback replays.
\<close>

theorem sudoku_recorder_complete:
  assumes "Conn_Read n sc = Some (r, sc')" "crecording sc" "crecorder sc = Some rec"
  shows "\<exists>c. crecorder sc' = Some (rec @ c) \<and> crecording sc'
    \<and> rec @ wire (creader sc) = GetBufferedAndRecorded sc' @ concat (map fst (feed (creader sc')))"
proof -
  obtain c where "crecorder sc' = Some (rec @ c)" "crecording sc'" "wire (creader sc) = c @ wire (creader sc')"
    using Conn_Read_records [OF assms] by blast
  then show ?thesis by (simp add: GetBufferedAndRecorded_def wire_def Let_def)
qed

theorem sudoku_recorder_complete_witness:
  "\<exists>r sc'. Conn_Read 3 (NewConn \<lparr>sent = [], script = []\<rparr> [([0x20, 0x21], None)] (Some (emptyTable newASCIILayout)) 0 0 True (newSudokuRand 1))
      = Some (r, sc') \<and> (\<exists>c. crecorder sc' = Some c)"
proof -
  let ?sc = "NewConn \<lparr>sent = [], script = []\<rparr> [([0x20, 0x21], None)] (Some (emptyTable newASCIILayout)) 0 0 True (newSudokuRand 1)"
  have "Conn_ok ?sc" "Conn_remaining (emptyTable newASCIILayout) ?sc = Some []"
    by (simp_all add: Conn_ok_def Conn_remaining_def NewConn_fields hint_inv_def hint_plain_def bufio_ok_def
        NewReaderSize_def IOBufferSize_def wire_def emptyTable_def newASCIILayout_def)
  then obtain r sc' where rd: "Conn_Read 3 ?sc = Some (r, sc')"
    using Conn_Read_stream [of ?sc "emptyTable newASCIILayout" 3 "[]"] by (auto simp: NewConn_fields)
  from sudoku_recorder_complete [OF rd, of "[]"] rd show ?thesis by (auto simp: NewConn_fields)
qed

text \<open>
  Property C21: after four buffered hints fail to decode, the hint counter is left at four, and the next hint
  byte indexes one past the end of the hint buffer: the connection panics instead of returning an error.
\<close>

theorem sudoku_miss_then_panic:
  assumes "hintTable (layout t) b" "DecodeMap t (packHintsToKey [h0, h1, h2, b]) = None" "hintTable (layout t) b'"
  shows "\<exists>s. decodeChunk t n (b # rest) out ([h0, h1, h2, x], 3, pd) = (Some ErrInvalidSudokuMapMiss, out, s)
    \<and> decodeChunk t m (b' # rest') out' s = (Some RuntimePanic, out', s)"
  using decodeChunk_miss_state [OF assms(1,2)] decodeChunk_after_miss [OF assms(3)] by simp

theorem sudoku_miss_then_panic_witness:
  "\<exists>s. decodeChunk (emptyTable newASCIILayout) 1 [0x44] [] ([0x41, 0x42, 0x43, 0], 3, newPendingBuffer 8)
      = (Some ErrInvalidSudokuMapMiss, [], s)
    \<and> decodeChunk (emptyTable newASCIILayout) 1 [0x45] [] s = (Some RuntimePanic, [], s)"
  by (rule sudoku_miss_then_panic) (simp_all add: emptyTable_def newASCIILayout_def)

end
