(* ===== verification/PackedConn.thy ===== *)
theory PackedConn
  imports PackedCodec SudokuConn
begin

text \<open>
  The packed connection (\<open>pkg/obfs/sudoku/packed.go\<close>): construction, \<open>Write\<close>, \<open>Flush\<close> and
  \<open>Read\<close>. The read loop keeps its pending bits in a shift register and has a fast path for four groups
  in a row; it refines the reference decoder of \<open>PackedCodec\<close>, and through \<open>chunk_codec\<close> what is
  written is what is read.
\<close>

definition PackedIOBufferSize :: nat where
  "PackedIOBufferSize = 32 * 1024"

definition PackedDecodeBufferSize :: nat where
  "PackedDecodeBufferSize = 32 * 1024"

record PackedConn =
  pconn :: writer
  ptable :: "Table option"
  preader :: bufio
  precorder :: "bytes option"
  precording :: bool
  ppending :: pendingBuffer
  bitBuf :: u64
  bitCount :: nat
  readBitBuf :: u64
  readBits :: nat
  prng :: sudokuRand
  ppaddingThreshold :: u64
  ppadMarker :: byte
  padPool :: bytes

definition NewPackedConnWithRecord ::
  "writer \<Rightarrow> feed \<Rightarrow> Table option \<Rightarrow> int \<Rightarrow> int \<Rightarrow> bool \<Rightarrow> sudokuRand \<Rightarrow> PackedConn" where
  "NewPackedConnWithRecord c fd table pMin pMax rec seeded =
    (let (threshold, localRng) = pickPaddingThreshold seeded pMin pMax;
         (mrk, pool) = (case table of None \<Rightarrow> (0, [])
           | Some t \<Rightarrow> (padMarker (layout t), filter (\<lambda>b. b \<noteq> padMarker (layout t)) (PaddingPool t)))
     in \<lparr>pconn = c, ptable = table, preader = NewReaderSize PackedIOBufferSize fd,
         precorder = (if rec then Some [] else None), precording = rec, ppending = newPendingBuffer 4096,
         bitBuf = 0, bitCount = 0, readBitBuf = 0, readBits = 0, prng = localRng, ppaddingThreshold = threshold,
         ppadMarker = mrk, padPool = (if pool = [] then [mrk] else pool)\<rparr>)"

definition NewPackedConn :: "writer \<Rightarrow> feed \<Rightarrow> Table option \<Rightarrow> int \<Rightarrow> int \<Rightarrow> sudokuRand \<Rightarrow> PackedConn" where
  "NewPackedConn c fd table pMin pMax seeded = NewPackedConnWithRecord c fd table pMin pMax False seeded"

definition Packed_StopRecording :: "PackedConn \<Rightarrow> PackedConn" where
  "Packed_StopRecording pc = pc\<lparr>precording := False, precorder := None\<rparr>"

definition Packed_GetBufferedAndRecorded :: "PackedConn \<Rightarrow> bytes" where
  "Packed_GetBufferedAndRecorded pc =
    (let recorded = (case precorder pc of None \<Rightarrow> [] | Some r \<Rightarrow> r) in
     if 0 < length (buffered (preader pc)) then recorded @ buffered (preader pc) else recorded)"

definition Packed_Write :: "bytes \<Rightarrow> PackedConn \<Rightarrow> nat \<times> go_error option \<times> PackedConn" where
  "Packed_Write p pc =
    (if p = [] then (0, None, pc)
     else case ptable pc of
       None \<Rightarrow> (0, Some ErrClosedPipe, pc)
     | Some t \<Rightarrow>
       if padPool pc = [] then (0, Some ErrClosedPipe, pc)
       else
         let (out, (buf, cnt), r) = packedEncode (layout t) (ppaddingThreshold pc) (padPool pc) (ppadMarker pc) p
               (bitBuf pc, bitCount pc) (prng pc);
             pc1 = pc\<lparr>bitBuf := buf, bitCount := cnt, prng := r\<rparr>
         in if out \<noteq> [] then
              let (err, w) = WriteFull (pconn pc1) out in (length p, err, pc1\<lparr>pconn := w\<rparr>)
            else (length p, None, pc1))"

definition Packed_Flush :: "PackedConn \<Rightarrow> go_error option \<times> PackedConn" where
  "Packed_Flush pc =
    (case ptable pc of
       None \<Rightarrow> (Some ErrClosedPipe, pc)
     | Some t \<Rightarrow>
       if padPool pc = [] then (Some ErrClosedPipe, pc)
       else
         let (o1, pc1) =
               (if 0 < bitCount pc then
                  ([groupByte (layout t) (residualGroup (bitBuf pc, bitCount pc) AND 0x3F), ppadMarker pc],
                   pc\<lparr>bitBuf := 0, bitCount := 0\<rparr>)
                else ([], pc));
             (o2, r) = maybeAppendPackedPadding (ppaddingThreshold pc1) (padPool pc1) (prng pc1);
             pc2 = pc1\<lparr>prng := r\<rparr>
         in if o1 @ o2 \<noteq> [] then
              let (err, w) = WriteFull (pconn pc2) (o1 @ o2) in (err, pc2\<lparr>pconn := w\<rparr>)
            else (None, pc2))"

section \<open>Reading\<close>

type_synonym pack_state = "u64 \<times> nat \<times> pendingBuffer"

function packedLoop :: "byteLayout \<Rightarrow> byte \<Rightarrow> nat \<Rightarrow> bytes \<Rightarrow> bytes \<Rightarrow> pack_state \<Rightarrow> go_error option \<times> bytes \<times> pack_state" where
  "packedLoop l m n [] out (rBuf, rBits, pd) = (None, out, rBuf, rBits, pd)"
| "packedLoop l m n (b # rest) out (rBuf, rBits, pd) =
    (let chunk = b # rest in
     if rBits = 0 \<and> length out + 3 \<le> n \<and> 3 < length chunk
        \<and> hintTable l (chunk ! 0) \<and> hintTable l (chunk ! 1) \<and> hintTable l (chunk ! 2) \<and> hintTable l (chunk ! 3)
     then
       let g1 = decodeGroup l (chunk ! 0); g2 = decodeGroup l (chunk ! 1);
           g3 = decodeGroup l (chunk ! 2); g4 = decodeGroup l (chunk ! 3)
       in packedLoop l m n (drop 4 chunk)
            (out @ [push_bit 2 g1 OR drop_bit 4 g2, push_bit 4 g2 OR drop_bit 2 g3, push_bit 6 g3 OR g4])
            (rBuf, rBits, pd)
     else if \<not> hintTable l b then
       (if b = m then packedLoop l m n rest out (0, 0, pd) else packedLoop l m n rest out (rBuf, rBits, pd))
     else
       let (grp, ok) = decodePackedGroup (Some l) b in
       if \<not> ok then (Some ErrInvalidSudokuMapMiss, out, rBuf, rBits, pd)
       else
         let rBuf1 = push_bit 6 rBuf OR ucast grp; rBits1 = rBits + 6 in
         if 8 \<le> rBits1 then
           let rBits2 = rBits1 - 8;
               val = ucast (drop_bit rBits2 rBuf1) :: byte;
               (out', pd') = appendDecodedByte n out pd val;
               rBuf2 = (if rBits2 = 0 then 0 else rBuf1 AND (push_bit rBits2 1 - 1))
           in packedLoop l m n rest out' (rBuf2, rBits2, pd')
         else packedLoop l m n rest out (rBuf1, rBits1, pd))"
  by pat_completeness auto
termination
  by (relation "measure (\<lambda>(l, m, n, chunk, out, s). length chunk)") auto

declare packedLoop.simps(2) [simp del]

text \<open>The register is stored back only when the whole chunk decodes.\<close>

definition packedChunk :: "byteLayout \<Rightarrow> byte \<Rightarrow> nat \<Rightarrow> bytes \<Rightarrow> bytes \<Rightarrow> pack_state \<Rightarrow> go_error option \<times> bytes \<times> pack_state" where
  "packedChunk l m n chunk out s =
    (case packedLoop l m n chunk out s of
       (None, out', s') \<Rightarrow> (None, out', s')
     | (Some e, out', rBuf, rBits, pd) \<Rightarrow> (Some e, out', fst s, fst (snd s), pd))"

definition packedReadSize :: "nat \<Rightarrow> nat \<Rightarrow> nat" where
  "packedReadSize decodedRemaining maxRaw =
    (if maxRaw \<le> minDecodeReadSize \<or> decodedRemaining \<le> 0 then maxRaw
     else if (maxRaw - minDecodeReadSize) div 2 < decodedRemaining then maxRaw
     else decodedRemaining * 2 + minDecodeReadSize)"

definition packedOnError :: "go_error \<Rightarrow> pack_state \<Rightarrow> pack_state" where
  "packedOnError e s = (if e = EOF then (0, 0, snd (snd s)) else s)"

definition drainPacked :: "nat \<Rightarrow> pack_state \<Rightarrow> bytes option \<times> pack_state" where
  "drainPacked n s = (case s of (rBuf, rBits, pd) \<Rightarrow> let (r, pd') = drainPending n pd in (r, rBuf, rBits, pd'))"

definition Packed_Read :: "nat \<Rightarrow> PackedConn \<Rightarrow> (bytes result \<times> PackedConn) option" where
  "Packed_Read n pc =
    (if n = 0 then Some (Inr [], pc)
     else case ptable pc of
       None \<Rightarrow> Some (Inl ErrClosedPipe, pc)
     | Some t \<Rightarrow>
       (case drainPending n (ppending pc) of
          (Some bs, pd) \<Rightarrow> Some (Inr bs, pc\<lparr>ppending := pd\<rparr>)
        | (None, pd) \<Rightarrow>
            map_option (\<lambda>(r, b, rc, rBuf, rBits, pd').
                (r, pc\<lparr>preader := b, precorder := rc, readBitBuf := rBuf, readBits := rBits, ppending := pd'\<rparr>))
              (readLoop (\<lambda>k. packedReadSize k PackedDecodeBufferSize) (packedChunk (layout t) (ppadMarker pc))
                 packedOnError drainPacked (precording pc) n [] (preader pc) (precorder pc)
                 (readBitBuf pc, readBits pc, pd))))"

section \<open>The loop refines the reference decoder\<close>

definition pack_inv :: "pack_state \<Rightarrow> bool" where
  "pack_inv s \<longleftrightarrow> (case s of (rBuf, rBits, pd) \<Rightarrow> rBits < 8 \<and> pending_ok pd)"

definition pack_pend :: "pack_state \<Rightarrow> bytes" where
  "pack_pend s = (case s of (rBuf, rBits, pd) \<Rightarrow> unread pd)"

definition pack_plain :: "byteLayout \<Rightarrow> byte \<Rightarrow> pack_state \<Rightarrow> bytes \<Rightarrow> bytes option" where
  "pack_plain l m s w = (case s of (rBuf, rBits, pd) \<Rightarrow> Some (fst (decodeBitsFrom l m (bits_of rBits rBuf) w)))"

definition refines_bits ::
  "byteLayout \<Rightarrow> byte \<Rightarrow> nat \<Rightarrow> bytes \<Rightarrow> bytes \<Rightarrow> pack_state \<Rightarrow> go_error option \<times> bytes \<times> pack_state \<Rightarrow> bool" where
  "refines_bits l m n chunk out s r \<longleftrightarrow>
    (case (s, r) of ((rBuf, rBits, pd), err, out', rBuf', rBits', pd') \<Rightarrow>
      (case decodeBitsFrom l m (bits_of rBits rBuf) chunk of (vs, bs) \<Rightarrow>
         err = None \<and> bits_of rBits' rBuf' = bs \<and> rBits' < 8 \<and> pending_ok pd'
         \<and> length out' \<le> n \<and> (unread pd' = [] \<or> length out' = n)
         \<and> out' @ unread pd' = out @ unread pd @ vs))"

lemma refines_bits_grow:
  assumes "refines_bits l m n chunk1 out1 (rBuf1, rBits1, pd1) r"
    and "decodeBitsFrom l m (bits_of rBits rBuf) chunk =
      (let (vs, bs) = decodeBitsFrom l m (bits_of rBits1 rBuf1) chunk1 in (us @ vs, bs))"
    and "out1 @ unread pd1 = out @ unread pd @ us"
  shows "refines_bits l m n chunk out (rBuf, rBits, pd) r"
proof -
  obtain err out' rBuf' rBits' pd' where r: "r = (err, out', rBuf', rBits', pd')" by (metis surj_pair)
  show ?thesis
    using assms append_assoc [of out1 "unread pd1"]
    unfolding refines_bits_def r prod.case by (auto split: prod.splits)
qed

lemma three_bytes:
  fixes g1 g2 g3 g4 :: byte
  assumes "g2 < 64" "g3 < 64" "g4 < 64"
  shows "bytes_from (bits_of 6 g1 @ bits_of 6 g2 @ bits_of 6 g3 @ bits_of 6 g4)
    = ([push_bit 2 g1 OR drop_bit 4 g2, push_bit 4 g2 OR drop_bit 2 g3, push_bit 6 g3 OR g4], [])"
proof -
  have hi: "\<not> bit g 6" "\<not> bit g 7" if "g < 64" for g :: byte
    using bits_below [of g 6 6] bits_below [of g 6 7] that by (auto simp: word_less_nat_alt)
  have e: "bits_of 6 g1 @ bits_of 6 g2 @ bits_of 6 g3 @ bits_of 6 g4
      = bytes_bits [push_bit 2 g1 OR drop_bit 4 g2, push_bit 4 g2 OR drop_bit 2 g3, push_bit 6 g3 OR g4]"
    using hi [OF assms(1)] hi [OF assms(2)] hi [OF assms(3)]
    by (simp add: bits_of_6 bits_of_8 bit_simps bit_byte_out del: bit_0)
  show ?thesis unfolding e by (rule bytes_from_bytes [of "[]", simplified])
qed

lemma decode_all_hints:
  assumes "\<And>b. b \<in> set q \<Longrightarrow> hintTable l b" "length bs < 8"
  shows "decodeBitsFrom l m bs q = bytes_from (bs @ concat (map (\<lambda>b. bits_of 6 (decodeGroup l b)) q))"
  using assms
proof (induction q arbitrary: bs)
  case Nil
  then show ?case by (simp add: bytes_from_short)
next
  case (Cons b q)
  let ?bs = "bs @ bits_of 6 (decodeGroup l b)"
  show ?case
  proof (cases "8 \<le> length ?bs")
    case True
    then have "bytes_from (?bs @ concat (map (\<lambda>b. bits_of 6 (decodeGroup l b)) q)) =
        (let (out, rest) = bytes_from (drop 8 ?bs @ concat (map (\<lambda>b. bits_of 6 (decodeGroup l b)) q))
         in (byte_of (take 8 ?bs) # out, rest))"
      by (subst bytes_from.simps) simp
    then show ?thesis using Cons.IH [of "drop 8 ?bs"] Cons.prems True by simp
  next
    case False
    then show ?thesis using Cons.IH [of ?bs] Cons.prems by simp
  qed
qed

context hint_layout
begin

lemma packedLoop_refines:
  assumes "pack_inv s" "pack_pend s = [] \<or> length out = n" "length out \<le> n"
  shows "refines_bits l m n chunk out s (packedLoop l m n chunk out s)"
  using assms
proof (induction "length chunk" arbitrary: chunk out s rule: less_induct)
  case less
  obtain rBuf rBits pd where s: "s = (rBuf, rBits, pd)" by (metis surj_pair)
  have inv: "rBits < 8" "pending_ok pd" using less.prems(1) by (auto simp: s pack_inv_def)
  show ?case
  proof (cases chunk)
    case Nil
    then show ?thesis using less.prems by (auto simp: s refines_bits_def pack_inv_def pack_pend_def)
  next
    case (Cons b rest)
    let ?H = "hintTable l"
    let ?fast = "rBits = 0 \<and> length out + 3 \<le> n \<and> 3 < length (b # rest) \<and> ?H ((b # rest) ! 0) \<and> ?H ((b # rest) ! 1)
        \<and> ?H ((b # rest) ! 2) \<and> ?H ((b # rest) ! 3)"
    note step = packedLoop.simps(2) [of l m n b rest out rBuf rBits pd]
    show ?thesis
    proof (cases ?fast)
      case fast: True
      let ?c = "\<lambda>i. (b # rest) ! i" and ?g = "\<lambda>i. decodeGroup l ((b # rest) ! i)"
      let ?us = "[push_bit 2 (?g 0) OR drop_bit 4 (?g 1), push_bit 4 (?g 1) OR drop_bit 2 (?g 2), push_bit 6 (?g 2) OR ?g 3]"
      have q: "take 4 (b # rest) = [?c 0, ?c 1, ?c 2, ?c 3]" using list4_conv [of "take 4 (b # rest)"] fast by simp
      have small: "?g 1 < 64" "?g 2 < 64" "?g 3 < 64" using fast groups_small by blast+
      have "decodeBitsFrom l m [] [?c 0, ?c 1, ?c 2, ?c 3] = (?us, [])"
      proof -
        have "decodeBitsFrom l m [] [?c 0, ?c 1, ?c 2, ?c 3]
            = bytes_from ([] @ concat (map (\<lambda>b. bits_of 6 (decodeGroup l b)) [?c 0, ?c 1, ?c 2, ?c 3]))"
          using fast by (intro decode_all_hints) auto
        then show ?thesis using three_bytes [OF small, of "?g 0"] by simp
      qed
      then have ref: "decodeBitsFrom l m (bits_of rBits rBuf) chunk =
          (let (vs, bs) = decodeBitsFrom l m (bits_of rBits rBuf) (drop 4 (b # rest)) in (?us @ vs, bs))"
        using decodeBitsFrom_append [of l m "[]" "take 4 (b # rest)" "drop 4 (b # rest)"] fast
        unfolding q Cons append_take_drop_id by (simp only: bits_of_0 Let_def prod.case) (metis q append_take_drop_id)
      have eq: "packedLoop l m n chunk out s = packedLoop l m n (drop 4 (b # rest)) (out @ ?us) (rBuf, rBits, pd)"
        unfolding s Cons step Let_def using fast by (simp only: if_True simp_thms)
      have pd: "unread pd = []" using fast less.prems(2) by (auto simp: s pack_pend_def)
      have "refines_bits l m n (drop 4 (b # rest)) (out @ ?us) s (packedLoop l m n (drop 4 (b # rest)) (out @ ?us) s)"
        using less.hyps [of "drop 4 (b # rest)" s "out @ ?us"] less.prems(1) fast pd by (simp add: Cons s pack_pend_def)
      then show ?thesis
        unfolding eq unfolding s by (rule refines_bits_grow) (use ref pd in simp_all)
    next
      case slow: False
      show ?thesis
      proof (cases "?H b")
        case False
        let ?s = "if b = m then (0, 0, pd) else (rBuf, rBits, pd)"
        have eq: "packedLoop l m n chunk out s = packedLoop l m n rest out ?s"
          unfolding s Cons step Let_def using slow False by (simp only: if_False if_True simp_thms split: if_split) simp
        have "refines_bits l m n rest out ?s (packedLoop l m n rest out ?s)"
          using less.hyps [of rest ?s out] less.prems inv by (simp add: Cons s pack_inv_def pack_pend_def)
        then show ?thesis
          unfolding eq unfolding s Cons using False by (auto simp: refines_bits_def split: if_splits)
      next
        case True
        let ?g = "decodeGroup l b" and ?buf = "push_bit 6 rBuf OR ucast (decodeGroup l b)"
        have g: "decodePackedGroup (Some l) b = (?g, True)" using True valid_groups by (simp add: decodePackedGroup_def)
        have bits: "bits_of (rBits + 6) ?buf = bits_of rBits rBuf @ bits_of 6 ?g"
          using inv groups_small [OF True] by (intro bits_push_group) simp_all
        show ?thesis
        proof (cases "8 \<le> rBits + 6")
          case full: True
          let ?k = "rBits + 6 - 8"
          let ?val = "ucast (drop_bit ?k ?buf) :: byte" and ?buf2 = "if ?k = 0 then 0 else ?buf AND (push_bit ?k 1 - 1)"
          obtain out' pd' where ap: "appendDecodedByte n out pd ?val = (out', pd')" by (metis surj_pair)
          have eq: "packedLoop l m n chunk out s = packedLoop l m n rest out' (?buf2, ?k, pd')"
            unfolding s Cons step Let_def g prod.case ap using slow True full
            by (simp only: if_False if_True simp_thms not_True_eq_False)
          have o: "pending_ok pd' \<and> out' @ unread pd' = out @ unread pd @ [?val] \<and> length out' \<le> n
              \<and> (unread pd' = [] \<or> length out' = n)"
            using appendDecodedByte_order [OF inv(2) ap] less.prems by (auto simp: s pack_pend_def)
          have k: "8 + ?k = rBits + 6" using full by simp
          have b8: "bits_of rBits rBuf @ bits_of 6 ?g = bits_of 8 ?val @ bits_of ?k ?buf2"
            using bits_split_byte [of ?k ?buf] unfolding k bits .
          have "take 8 (bits_of rBits rBuf @ bits_of 6 ?g) = bits_of 8 ?val"
            "drop 8 (bits_of rBits rBuf @ bits_of 6 ?g) = bits_of ?k ?buf2" unfolding b8 by simp_all
          then have ref: "decodeBitsFrom l m (bits_of rBits rBuf) chunk =
              (let (vs, bs) = decodeBitsFrom l m (bits_of ?k ?buf2) rest in ([?val] @ vs, bs))"
            using True full unfolding Cons by (simp add: Let_def split: prod.splits)
          have "refines_bits l m n rest out' (?buf2, ?k, pd') (packedLoop l m n rest out' (?buf2, ?k, pd'))"
            using less.hyps [of rest "(?buf2, ?k, pd')" out'] o inv by (simp add: Cons pack_inv_def pack_pend_def)
          then show ?thesis
            unfolding eq unfolding s by (rule refines_bits_grow) (use ref o in simp_all)
        next
          case short: False
          have eq: "packedLoop l m n chunk out s = packedLoop l m n rest out (?buf, rBits + 6, pd)"
            unfolding s Cons step Let_def g prod.case using slow True short
            by (simp only: if_False if_True simp_thms not_True_eq_False)
          have ref: "decodeBitsFrom l m (bits_of rBits rBuf) chunk =
              (let (vs, bs) = decodeBitsFrom l m (bits_of (rBits + 6) ?buf) rest in ([] @ vs, bs))"
            using True short unfolding Cons bits by simp
          have "refines_bits l m n rest out (?buf, rBits + 6, pd) (packedLoop l m n rest out (?buf, rBits + 6, pd))"
            using less.hyps [of rest "(?buf, rBits + 6, pd)" out] less.prems inv short
            by (simp add: Cons s pack_inv_def pack_pend_def)
          then show ?thesis
            unfolding eq unfolding s by (rule refines_bits_grow) (use ref in simp_all)
        qed
      qed
    qed
  qed
qed

end

lemma pack_plain_append:
  "pack_plain l m (rBuf, rBits, pd) (chunk @ w) =
    (case decodeBitsFrom l m (bits_of rBits rBuf) chunk of (vs, bs) \<Rightarrow> Some (vs @ fst (decodeBitsFrom l m bs w)))"
  by (simp add: pack_plain_def decodeBitsFrom_append split: prod.splits)

lemma packed_codec:
  assumes "hint_layout l"
  shows "chunk_codec (\<lambda>k. packedReadSize k PackedDecodeBufferSize) (packedChunk l m) packedOnError drainPacked
    pack_inv pack_pend (pack_plain l m)"
proof
  show "0 < packedReadSize k PackedDecodeBufferSize" for k
    by (simp add: packedReadSize_def PackedDecodeBufferSize_def minDecodeReadSize_def)
next
  fix s s' chunk w ps n err out
  assume inv: "pack_inv s" and pl: "pack_plain l m s (chunk @ w) = Some ps" and pe: "pack_pend s = []"
    and dc: "packedChunk l m n chunk [] s = (err, out, s')"
  obtain rBuf rBits pd where s: "s = (rBuf, rBits, pd)" by (metis surj_pair)
  obtain err1 out1 rBuf1 rBits1 pd1 where lp: "packedLoop l m n chunk [] s = (err1, out1, rBuf1, rBits1, pd1)" by (metis surj_pair)
  have ref: "refines_bits l m n chunk [] s (err1, out1, rBuf1, rBits1, pd1)"
    using hint_layout.packedLoop_refines [OF assms inv, of "[]" n m chunk] pe lp by simp
  then have "err1 = None" by (auto simp: refines_bits_def s split: prod.splits)
  then have "err = None" "out = out1" "s' = (rBuf1, rBits1, pd1)" using dc lp by (auto simp: packedChunk_def)
  then show "err = None \<and> pack_inv s' \<and> length out \<le> n \<and> (pack_pend s' = [] \<or> length out = n)
      \<and> (\<exists>ps'. pack_plain l m s' w = Some ps' \<and> ps = out @ pack_pend s' @ ps')"
    using ref pl pe unfolding s pack_plain_append
    by (auto simp: refines_bits_def pack_inv_def pack_pend_def pack_plain_def split: prod.splits)
next
  fix s e and w :: bytes assume "pack_inv s" "e = EOF \<longrightarrow> w = []"
  then show "pack_inv (packedOnError e s) \<and> pack_pend (packedOnError e s) = pack_pend s
      \<and> pack_plain l m (packedOnError e s) w = pack_plain l m s w"
    by (cases s) (auto simp: packedOnError_def pack_inv_def pack_pend_def pack_plain_def)
next
  fix s s' n r assume inv: "pack_inv s" and dr: "drainPacked n s = (r, s')"
  obtain rBuf rBits pd where s: "s = (rBuf, rBits, pd)" by (metis surj_pair)
  obtain pd' where d: "drainPending n pd = (r, pd')" "s' = (rBuf, rBits, pd')"
    using dr by (auto simp: s drainPacked_def split: prod.splits)
  show "pack_inv s' \<and> pack_plain l m s' = pack_plain l m s"
    and "r = (if pack_pend s = [] then None else Some (take n (pack_pend s))) \<and> pack_pend s' = drop n (pack_pend s)"
    using pending.get_result [OF _ d(1)] inv
    by (simp_all add: s d(2) pack_inv_def pack_pend_def pack_plain_def fun_eq_iff)
qed

interpretation packed_ascii_codec: chunk_codec "\<lambda>k. packedReadSize k PackedDecodeBufferSize"
  "packedChunk newASCIILayout m" packedOnError drainPacked pack_inv pack_pend "pack_plain newASCIILayout m" for m
  by (rule packed_codec [OF ascii.hint_layout_axioms])

section \<open>Reading and writing\<close>

definition Packed_ok :: "PackedConn \<Rightarrow> bool" where
  "Packed_ok pc \<longleftrightarrow> pack_inv (readBitBuf pc, readBits pc, ppending pc) \<and> bufio_ok (preader pc)"

definition Packed_remaining :: "Table \<Rightarrow> PackedConn \<Rightarrow> bytes" where
  "Packed_remaining t pc = unread (ppending pc)
     @ fst (decodeBitsFrom (layout t) (ppadMarker pc) (bits_of (readBits pc) (readBitBuf pc)) (wire (preader pc)))"

lemma Packed_Read_stream:
  assumes "hint_layout (layout t)" "Packed_ok pc" "ptable pc = Some t" "0 < n"
  shows "\<exists>r pc'. Packed_Read n pc = Some (r, pc') \<and> Packed_ok pc' \<and> ptable pc' = Some t \<and> ppadMarker pc' = ppadMarker pc
    \<and> bufio_errs (preader pc') \<subseteq> bufio_errs (preader pc)
    \<and> (case r of
         Inr out \<Rightarrow> out \<noteq> [] \<and> length out \<le> n \<and> Packed_remaining t pc = out @ Packed_remaining t pc'
       | Inl e \<Rightarrow> e \<in> bufio_errs (preader pc) \<and> Packed_remaining t pc' = Packed_remaining t pc
           \<and> (e = EOF \<longrightarrow> Packed_remaining t pc = []))"
proof -
  let ?m = "ppadMarker pc"
  obtain r0 pd where dr: "drainPending n (ppending pc) = (r0, pd)" by (metis surj_pair)
  have inv: "pack_inv (readBitBuf pc, readBits pc, ppending pc)" and ok: "bufio_ok (preader pc)"
    using assms(2) by (auto simp: Packed_ok_def)
  then have pok: "pending_ok (ppending pc)" by (simp add: pack_inv_def)
  note g = pending.get_conserves [OF pok dr]
  show ?thesis
  proof (cases r0)
    case (Some bs)
    let ?pc = "pc\<lparr>ppending := pd\<rparr>"
    have "Packed_Read n pc = Some (Inr bs, ?pc)" using assms(3,4) Some dr by (simp add: Packed_Read_def)
    moreover have "bs \<noteq> [] \<and> length bs \<le> n" using g Some assms(4) by simp
    moreover have "Packed_ok ?pc" using inv ok g by (simp add: Packed_ok_def pack_inv_def)
    moreover have "Packed_remaining t pc = bs @ Packed_remaining t ?pc" using g Some by (simp add: Packed_remaining_def)
    ultimately show ?thesis using assms(3) by auto
  next
    case None
    then have pd: "unread (ppending pc) = []" "unread pd = []" "pending_ok pd" using g by auto
    let ?s = "(readBitBuf pc, readBits pc, pd)"
    have s: "pack_inv ?s" "pack_pend ?s = []" "pack_plain (layout t) ?m ?s (wire (preader pc)) = Some (Packed_remaining t pc)"
      using inv pd by (simp_all add: pack_inv_def pack_pend_def pack_plain_def Packed_remaining_def)
    from chunk_codec.readLoop_stream [OF packed_codec [OF assms(1)] s ok assms(4), of "precording pc" "precorder pc"]
    obtain r b' rc' s' ps' where
      rl: "readLoop (\<lambda>k. packedReadSize k PackedDecodeBufferSize) (packedChunk (layout t) ?m) packedOnError drainPacked
          (precording pc) n [] (preader pc) (precorder pc) ?s = Some (r, b', rc', s')"
      and ok': "pack_inv s'" "bufio_ok b'" "bufio_errs b' \<subseteq> bufio_errs (preader pc)"
      and pl: "pack_plain (layout t) ?m s' (wire b') = Some ps'"
      and rs: "case r of Inr out \<Rightarrow> out \<noteq> [] \<and> length out \<le> n \<and> Packed_remaining t pc = out @ pack_pend s' @ ps'
           | Inl e \<Rightarrow> pack_pend s' = [] \<and> Packed_remaining t pc = ps' \<and> e \<in> bufio_errs (preader pc) \<and> (e = EOF \<longrightarrow> wire b' = [])"
      by blast
    obtain rBuf rBits pd' where s': "s' = (rBuf, rBits, pd')" by (metis surj_pair)
    let ?pc = "pc\<lparr>preader := b', precorder := rc', readBitBuf := rBuf, readBits := rBits, ppending := pd'\<rparr>"
    have "Packed_Read n pc = Some (r, ?pc)" using assms(3,4) None dr rl s' by (simp add: Packed_Read_def)
    moreover have "Packed_ok ?pc" using ok' s' by (simp add: Packed_ok_def)
    moreover have "Packed_remaining t ?pc = unread pd' @ ps'" using pl s' by (simp add: Packed_remaining_def pack_plain_def)
    moreover have "wire b' = [] \<longrightarrow> ps' = []" using pl s' by (auto simp: pack_plain_def)
    ultimately show ?thesis using rs assms(3) ok'(3) s' by (auto simp: pack_pend_def split: sum.splits)
  qed
qed

fun Packed_readAll :: "nat \<Rightarrow> nat \<Rightarrow> PackedConn \<Rightarrow> (bytes \<times> go_error) option" where
  "Packed_readAll 0 n pc = None"
| "Packed_readAll (Suc k) n pc =
    (case Packed_Read n pc of
       None \<Rightarrow> None
     | Some (Inl e, pc') \<Rightarrow> Some ([], e)
     | Some (Inr out, pc') \<Rightarrow> map_option (\<lambda>(bs, e). (out @ bs, e)) (Packed_readAll k n pc'))"

lemma Packed_readAll_complete:
  assumes "hint_layout (layout t)" "Packed_ok pc" "ptable pc = Some t" "0 < n"
    and "bufio_errs (preader pc) = {EOF}" "length (Packed_remaining t pc) < k"
  shows "Packed_readAll k n pc = Some (Packed_remaining t pc, EOF)"
  using assms(2-)
proof (induction k arbitrary: pc)
  case (Suc k)
  obtain r pc' where rd: "Packed_Read n pc = Some (r, pc')" and ok: "Packed_ok pc'" "ptable pc' = Some t"
    and es: "bufio_errs (preader pc') \<subseteq> {EOF}"
    and rs: "case r of
         Inr out \<Rightarrow> out \<noteq> [] \<and> length out \<le> n \<and> Packed_remaining t pc = out @ Packed_remaining t pc'
       | Inl e \<Rightarrow> e \<in> {EOF} \<and> Packed_remaining t pc' = Packed_remaining t pc \<and> (e = EOF \<longrightarrow> Packed_remaining t pc = [])"
    using Packed_Read_stream [OF assms(1) Suc.prems(1-3)] unfolding Suc.prems(4) by blast
  show ?case
  proof (cases r)
    case (Inl e)
    then show ?thesis using rd rs by simp
  next
    case (Inr out)
    then have ps': "out \<noteq> []" "Packed_remaining t pc = out @ Packed_remaining t pc'" using rs by auto
    have "EOF \<in> bufio_errs (preader pc')" by (simp add: bufio_errs_def feed_errs_def)
    then have "bufio_errs (preader pc') = {EOF}" using es by blast
    moreover have "length (Packed_remaining t pc') < k" using ps' Suc.prems(5) by (cases out) simp_all
    ultimately have "Packed_readAll k n pc' = Some (Packed_remaining t pc', EOF)" using Suc.IH ok Suc.prems(3) by blast
    then show ?thesis using rd Inr ps' by simp
  qed
qed simp

definition Packed_writes :: "bytes list \<Rightarrow> PackedConn \<Rightarrow> PackedConn" where
  "Packed_writes payloads pc = fold (\<lambda>p pc. snd (snd (Packed_Write p pc))) payloads pc"

text \<open>The invariant of the sending side: the pool is that of the layout and no bits are pending.\<close>

definition Packed_sender :: "Table \<Rightarrow> PackedConn \<Rightarrow> bool" where
  "Packed_sender t pc \<longleftrightarrow> ptable pc = Some t \<and> bitCount pc = 0 \<and> ppadMarker pc = padMarker (layout t)
     \<and> padPool pc = packedPool (layout t) \<and> script (pconn pc) = []"

lemma Packed_Write_sends:
  assumes l: "hint_layout (layout t)" and pc: "Packed_sender t pc"
  shows "\<exists>w pc'. Packed_Write p pc = (length p, None, pc') \<and> sent (pconn pc') = sent (pconn pc) @ w
    \<and> Packed_sender t pc' \<and> decodeBitsFrom (layout t) (padMarker (layout t)) [] w = (p, [])"
proof (cases "p = []")
  case True
  then show ?thesis using pc by (auto simp: Packed_Write_def intro!: exI [of _ "[]"])
next
  case False
  obtain w buf cnt r where e: "packedEncode (layout t) (ppaddingThreshold pc) (packedPool (layout t)) (padMarker (layout t)) p
      (bitBuf pc, 0) (prng pc) = (w, (buf, cnt), r)" by (metis surj_pair)
  have d: "decodeBitsFrom (layout t) (padMarker (layout t)) [] w = (p, [])" "cnt = 0"
    using packed_layout.decode_packedEncode [OF packed_layout_pool [OF l] e] by simp_all
  have "packedPool (layout t) \<noteq> []" by (rule packed_layout.pool_some [OF packed_layout_pool [OF l]])
  moreover have "w \<noteq> []" using d(1) False by auto
  ultimately show ?thesis
    using False pc e d by (simp add: Packed_Write_def Packed_sender_def WriteFull_open)
qed

lemma Packed_writes_decode:
  assumes l: "hint_layout (layout t)" and pc: "Packed_sender t pc"
  shows "\<exists>w. sent (pconn (Packed_writes ps pc)) = sent (pconn pc) @ w
    \<and> decodeBitsFrom (layout t) (padMarker (layout t)) [] w = (concat ps, [])"
  using pc
proof (induction ps arbitrary: pc)
  case Nil
  then show ?case by (intro exI [of _ "[]"]) (simp add: Packed_writes_def)
next
  case (Cons p ps)
  obtain w pc' where w: "Packed_Write p pc = (length p, None, pc')" "sent (pconn pc') = sent (pconn pc) @ w"
    "Packed_sender t pc'" "decodeBitsFrom (layout t) (padMarker (layout t)) [] w = (p, [])"
    using Packed_Write_sends [OF l Cons.prems] by blast
  obtain w' where w': "sent (pconn (Packed_writes ps pc')) = sent (pconn pc') @ w'"
    "decodeBitsFrom (layout t) (padMarker (layout t)) [] w' = (concat ps, [])"
    using Cons.IH [OF w(3)] by blast
  have "Packed_writes (p # ps) pc = Packed_writes ps pc'" using w(1) by (simp add: Packed_writes_def)
  then show ?case
    using w w' decodeBitsFrom_then [OF w(4) w'(2)] by (intro exI [of _ "w @ w'"]) simp
qed

lemma NewPackedConn_fields:
  "preader (NewPackedConnWithRecord c fd tb pMin pMax rec s) = NewReaderSize PackedIOBufferSize fd"
  "ptable (NewPackedConnWithRecord c fd tb pMin pMax rec s) = tb"
  "pconn (NewPackedConnWithRecord c fd tb pMin pMax rec s) = c"
  "readBits (NewPackedConnWithRecord c fd tb pMin pMax rec s) = 0"
  "bitCount (NewPackedConnWithRecord c fd tb pMin pMax rec s) = 0"
  "ppending (NewPackedConnWithRecord c fd tb pMin pMax rec s) = newPendingBuffer 4096"
  "ppadMarker (NewPackedConnWithRecord c fd (Some t) pMin pMax rec s) = padMarker (layout t)"
  by (simp_all add: NewPackedConnWithRecord_def split: prod.splits option.splits)

lemma NewPackedConn_pool:
  assumes "puzzle_table t"
  shows "padPool (NewPackedConnWithRecord c fd (Some t) pMin pMax rec s) = packedPool (layout t)"
  using hint_layout.pool_without_marker [OF puzzle_table.table_layout [OF assms]] puzzle_table.table_padding [OF assms]
  by (simp add: NewPackedConnWithRecord_def packedPool_def split: prod.splits)

lemma NewPackedConn_sender:
  "puzzle_table t \<Longrightarrow> Packed_sender t (NewPackedConnWithRecord \<lparr>sent = bs, script = []\<rparr> fd (Some t) pMin pMax rec s)"
  by (simp add: Packed_sender_def NewPackedConn_fields NewPackedConn_pool)

lemma Packed_roundtrip:
  assumes t: "puzzle_table t" and "Packed_sender t snd_conn" "sent (pconn snd_conn) = []"
    and fd: "receives fd (sent (pconn (Packed_writes payloads snd_conn)))" and n: "0 < n" "length (concat payloads) < k"
  shows "Packed_readAll k n (NewPackedConnWithRecord c fd (Some t) pMin pMax rec s) = Some (concat payloads, EOF)"
proof -
  let ?pc = "NewPackedConnWithRecord c fd (Some t) pMin pMax rec s"
  have l: "hint_layout (layout t)" by (rule puzzle_table.table_layout [OF t])
  have "0 < PackedIOBufferSize" by (simp add: PackedIOBufferSize_def)
  note r = receives_ok [OF fd this]
  obtain w where "sent (pconn (Packed_writes payloads snd_conn)) = w"
    "decodeBitsFrom (layout t) (padMarker (layout t)) [] w = (concat payloads, [])"
    using Packed_writes_decode [OF l assms(2)] assms(3) by auto
  then have rem: "Packed_remaining t ?pc = concat payloads"
    using r by (simp add: Packed_remaining_def NewPackedConn_fields)
  have "Packed_ok ?pc" "bufio_errs (preader ?pc) = {EOF}" "ptable ?pc = Some t"
    using r by (simp_all add: Packed_ok_def NewPackedConn_fields pack_inv_def)
  then show ?thesis using Packed_readAll_complete [OF l, of ?pc n k] n by (simp add: rem)
qed

lemma Packed_Read_records:
  assumes "Packed_Read n pc = Some (r, pc')" "precording pc" "precorder pc = Some rec"
  shows "\<exists>c. precorder pc' = Some (rec @ c) \<and> precording pc' \<and> wire (preader pc) = c @ wire (preader pc')"
proof -
  have "\<exists>c. rc' = Some (rec @ c) \<and> wire (preader pc) = c @ wire b'"
    if "readLoop rs dc oe dr (precording pc) n [] (preader pc) (precorder pc) s0 = Some (r', b', rc', s')"
    for rs dc oe dr s0 r' b' rc' and s' :: pack_state
    using readLoop_records [OF that assms(2,3)] .
  then show ?thesis using assms
    by (auto simp: Packed_Read_def split: if_splits option.splits prod.splits)
qed

text \<open>After every write the shift register is empty, so that \<open>Flush\<close> sends padding at most.\<close>

lemma Packed_Flush_pads:
  assumes l: "hint_layout (layout t)" and pc: "Packed_sender t pc"
  shows "\<exists>w pc'. Packed_Flush pc = (None, pc') \<and> sent (pconn pc') = sent (pconn pc) @ w \<and> Packed_sender t pc'
    \<and> (\<forall>b \<in> set w. b \<in> set (packedPool (layout t)))"
proof -
  obtain w r where m: "maybeAppendPackedPadding (ppaddingThreshold pc) (packedPool (layout t)) (prng pc) = (w, r)" by (metis surj_pair)
  have "\<forall>b \<in> set w. b \<in> set (packedPool (layout t))"
    using m packed_layout.pool_pick [OF packed_layout_pool [OF l]]
    by (auto simp: maybeAppendPackedPadding_def Let_def split: if_splits prod.splits)
  moreover have "packedPool (layout t) \<noteq> []" by (rule packed_layout.pool_some [OF packed_layout_pool [OF l]])
  ultimately show ?thesis
    using pc m by (cases "w = []") (simp_all add: Packed_Flush_def Packed_sender_def WriteFull_open)
qed

section \<open>Properties\<close>

text \<open>
  Property C2: whatever is written through a packed connection, in any number of writes and with any padding,
  is read back exactly and followed by the end of the stream, for every chunking, every read size and
  every table the constructor returns.
\<close>

theorem packed_conn_roundtrip:
  assumes "newSingleDirectionTable sha256 shuffleU key mode pat = Inr t"
    and "sender = NewPackedConn \<lparr>sent = [], script = []\<rparr> [] (Some t) pMin pMax seed"
    and "receives fd (sent (pconn (Packed_writes payloads sender)))"
    and "0 < n" "length (concat payloads) < k"
  shows "Packed_readAll k n (NewPackedConn w fd (Some t) pMin' pMax' seed') = Some (concat payloads, EOF)"
proof -
  have t: "puzzle_table t" by (rule newSingleDirectionTable_puzzle_table [OF assms(1)])
  have "Packed_sender t sender" "sent (pconn sender) = []"
    using NewPackedConn_sender [OF t] by (simp_all add: assms(2) NewPackedConn_def NewPackedConn_fields)
  then show ?thesis
    using Packed_roundtrip [OF t, of sender fd payloads n k] assms(3-5) by (simp add: NewPackedConn_def)
qed

theorem packed_conn_roundtrip_witness:
  "\<exists>t fd. newSingleDirectionTable (\<lambda>_. replicate 32 7) (\<lambda>_ _. 5) ''key'' ''prefer_ascii'' '''' = Inr t
    \<and> Packed_readAll 10 2 (NewPackedConn \<lparr>sent = [], script = []\<rparr> fd (Some t) 0 0 (newSudokuRand 9))
        = Some ([1, 2, 3], EOF)"
proof -
  have "resolveLayout ''prefer_ascii'' '''' = Inr newASCIILayout" by code_simp
  then obtain t where t: "newSingleDirectionTable (\<lambda>_. replicate 32 7) (\<lambda>_ _. 5) ''key'' ''prefer_ascii'' '''' = Inr t"
    by (simp add: newSingleDirectionTable_def)
  let ?w = "sent (pconn (Packed_writes [[1, 2], [3]] (NewPackedConn \<lparr>sent = [], script = []\<rparr> [] (Some t) 10 30 (newSudokuRand 4))))"
  have "receives [(take 5 ?w, None), (drop 5 ?w, None)] ?w" by (simp add: receives_def)
  from packed_conn_roundtrip [OF t refl this, of 2 10 "\<lparr>sent = [], script = []\<rparr>" 0 0 "newSudokuRand 9"]
  show ?thesis using t by (intro exI conjI) simp_all
qed

text \<open>
  The packed decoding loop, shift register and four-group fast path, never reports an error and
  agrees with the bit-by-bit reference decoder on every chunk, for every layout that can be selected.
\<close>

theorem packed_decode_equiv:
  assumes "resolveLayout mode pat = Inr l" "rBits < 8" "pending_ok pd" "unread pd = []"
    and "packedLoop l m n chunk [] (rBuf, rBits, pd) = (err, out, rBuf', rBits', pd')"
  shows "err = None \<and> rBits' < 8 \<and> length out \<le> n
    \<and> decodeBitsFrom l m (bits_of rBits rBuf) chunk = (out @ unread pd', bits_of rBits' rBuf')"
proof -
  have "refines_bits l m n chunk [] (rBuf, rBits, pd) (err, out, rBuf', rBits', pd')"
    using hint_layout.packedLoop_refines [OF resolveLayout_hint_layout [OF assms(1)], of "(rBuf, rBits, pd)" "[]" n m chunk]
      assms(2-5) by (simp add: pack_inv_def pack_pend_def)
  then show ?thesis using assms(4) by (auto simp: refines_bits_def split: prod.splits)
qed

theorem packed_decode_equiv_witness:
  "fst (packedLoop newASCIILayout 0x3F 4 [0x41, 0x42, 0x20, 0x43] [] (0, 0, newPendingBuffer 8)) = None"
proof -
  have r: "resolveLayout ''ascii'' '''' = Inr newASCIILayout" by code_simp
  obtain err out rb rs pd where lp: "packedLoop newASCIILayout 0x3F 4 [0x41, 0x42, 0x20, 0x43] [] (0, 0, newPendingBuffer 8)
      = (err, out, rb, rs, pd)" by (metis surj_pair)
  from packed_decode_equiv [OF r _ _ _ lp] lp show ?thesis by simp
qed

text \<open>
  After a write the shift register is empty, and a flush sends nothing but padding that the
  reader skips.
\<close>

theorem packed_flush_only_padding:
  assumes "puzzle_table t" "sender = NewPackedConn \<lparr>sent = [], script = []\<rparr> [] (Some t) pMin pMax seed"
  shows "\<exists>w pc'. Packed_Flush (snd (snd (Packed_Write p sender))) = (None, pc') \<and> bitCount pc' = 0
    \<and> sent (pconn pc') = sent (pconn (snd (snd (Packed_Write p sender)))) @ w
    \<and> (\<forall>b \<in> set w. \<not> hintTable (layout t) b \<and> b \<noteq> padMarker (layout t))"
proof -
  have l: "hint_layout (layout t)" by (rule puzzle_table.table_layout [OF assms(1)])
  have "Packed_sender t sender" unfolding assms(2) NewPackedConn_def by (rule NewPackedConn_sender [OF assms(1)])
  from Packed_Write_sends [OF l this, of p] have s: "Packed_sender t (snd (snd (Packed_Write p sender)))" by auto
  from Packed_Flush_pads [OF l this] show ?thesis
    using packed_layout.pool_only [OF packed_layout_pool [OF l]] by (auto simp: Packed_sender_def)
qed

theorem packed_flush_only_padding_witness:
  "\<exists>w pc'. Packed_Flush (snd (snd (Packed_Write [1, 2] (NewPackedConn \<lparr>sent = [], script = []\<rparr> []
      (Some (buildTable (\<lambda>_. 5) newASCIILayout)) 10 30 (newSudokuRand 3))))) = (None, pc') \<and> bitCount pc' = 0"
  using packed_flush_only_padding [OF ascii_table.puzzle_table_axioms refl] by blast

end
