(* ===== verification/Directional.thy ===== *)
theory Directional
  imports PackedConn
begin

text \<open>
  The server's downlink writers (\<open>pkg/obfs/sudoku/downlink.go\<close>) and the connection that joins a reader
  and a writer with their closers (\<open>directional.go\<close>, with \<open>TryCloseRead\<close> and \<open>TryCloseWrite\<close> of
  \<open>pkg/connutil/connutil.go\<close>).
\<close>

section \<open>Downlink writers\<close>

record sudokuDataWriter =
  dwriter :: "writer option"
  dtable :: "Table option"
  drng :: sudokuRand
  dthreshold :: u64

definition newSudokuDataWriter :: "writer option \<Rightarrow> Table option \<Rightarrow> sudokuRand \<Rightarrow> int \<Rightarrow> int \<Rightarrow> sudokuDataWriter" where
  "newSudokuDataWriter w table rng pMin pMax =
    (let (threshold, r) = pickPaddingThreshold rng pMin pMax
     in \<lparr>dwriter = w, dtable = table, drng = r, dthreshold = threshold\<rparr>)"

definition dataWriter_Write :: "bytes \<Rightarrow> sudokuDataWriter \<Rightarrow> nat \<times> go_error option \<times> sudokuDataWriter" where
  "dataWriter_Write p w =
    (if p = [] then (0, None, w)
     else case dwriter w of
       None \<Rightarrow> (0, Some ErrClosedPipe, w)
     | Some wr \<Rightarrow>
       (case dtable w of
          None \<Rightarrow> (0, Some ErrClosedPipe, w)
        | Some t \<Rightarrow>
            let (writeBuf, r) = encodeSudokuPayload t (drng w) (dthreshold w) p;
                (err, wr') = WriteFull wr writeBuf
            in (length p, err, w\<lparr>drng := r, dwriter := Some wr'\<rparr>)))"

text \<open>The codec behind a downlink writer; \<open>NoWriter\<close> is the nil interface.\<close>

datatype DataWriter = NoWriter | SudokuWriter sudokuDataWriter | PackedWriter PackedConn

record DownlinkWriter =
  dataWriter :: DataWriter

definition newDownlinkWriter :: "DataWriter \<Rightarrow> DownlinkWriter" where
  "newDownlinkWriter w = \<lparr>dataWriter = w\<rparr>"

definition NewDownlinkWriter :: "writer \<Rightarrow> Table option \<Rightarrow> int \<Rightarrow> int \<Rightarrow> sudokuRand \<Rightarrow> DownlinkWriter" where
  "NewDownlinkWriter raw table pMin pMax seeded =
    newDownlinkWriter (SudokuWriter (newSudokuDataWriter (Some raw) table seeded pMin pMax))"

definition NewPackedDownlinkWriter ::
  "writer \<Rightarrow> feed \<Rightarrow> Table option \<Rightarrow> int \<Rightarrow> int \<Rightarrow> sudokuRand \<Rightarrow> PackedConn \<times> DownlinkWriter" where
  "NewPackedDownlinkWriter raw fd table pMin pMax seeded =
    (let packed = NewPackedConn raw fd table pMin pMax seeded in (packed, newDownlinkWriter (PackedWriter packed)))"

definition DownlinkWriter_Write :: "bytes \<Rightarrow> DownlinkWriter \<Rightarrow> nat \<times> go_error option \<times> DownlinkWriter" where
  "DownlinkWriter_Write p w =
    (if p = [] then (0, None, w)
     else case dataWriter w of
       NoWriter \<Rightarrow> (0, Some ErrClosedPipe, w)
     | SudokuWriter dw \<Rightarrow>
         (case dataWriter_Write p dw of (n, e, dw') \<Rightarrow> (n, e, w\<lparr>dataWriter := SudokuWriter dw'\<rparr>))
     | PackedWriter pc \<Rightarrow>
         (case Packed_Write p pc of (n, e, pc') \<Rightarrow> (n, e, w\<lparr>dataWriter := PackedWriter pc'\<rparr>)))"

text \<open>The closer of the packed variant flushes the connection the writer shares.\<close>

definition closeFlush :: "DownlinkWriter \<Rightarrow> go_error option \<times> DownlinkWriter" where
  "closeFlush w =
    (case dataWriter w of
       PackedWriter pc \<Rightarrow> (case Packed_Flush pc of (e, pc') \<Rightarrow> (e, w\<lparr>dataWriter := PackedWriter pc'\<rparr>))
     | _ \<Rightarrow> (None, w))"

definition NewServerDownlinkWriter ::
  "writer \<Rightarrow> feed \<Rightarrow> Table option \<Rightarrow> int \<Rightarrow> int \<Rightarrow> bool \<Rightarrow> sudokuRand
    \<Rightarrow> DownlinkWriter \<times> (DownlinkWriter \<Rightarrow> go_error option \<times> DownlinkWriter) option list" where
  "NewServerDownlinkWriter raw fd table pMin pMax pure seeded =
    (if pure then (NewDownlinkWriter raw table pMin pMax seeded, [])
     else case NewPackedDownlinkWriter raw fd table pMin pMax seeded of
       (packed, w) \<Rightarrow> (w, [Some closeFlush]))"

definition downlink_sent :: "DownlinkWriter \<Rightarrow> bytes" where
  "downlink_sent w =
    (case dataWriter w of
       NoWriter \<Rightarrow> [] | SudokuWriter dw \<Rightarrow> (case dwriter dw of None \<Rightarrow> [] | Some wr \<Rightarrow> sent wr)
     | PackedWriter pc \<Rightarrow> sent (pconn pc))"

definition downlink_writes :: "bytes list \<Rightarrow> DownlinkWriter \<Rightarrow> DownlinkWriter" where
  "downlink_writes payloads w = fold (\<lambda>p w. snd (snd (DownlinkWriter_Write p w))) payloads w"

lemma dataWriter_writes_decode:
  assumes t: "puzzle_table t" and w: "dtable dw = Some t" "dwriter dw = Some wr" "script wr = []"
  shows "\<exists>u dw'. downlink_writes ps \<lparr>dataWriter = SudokuWriter dw\<rparr> = \<lparr>dataWriter = SudokuWriter dw'\<rparr>
    \<and> downlink_sent \<lparr>dataWriter = SudokuWriter dw'\<rparr> = sent wr @ u \<and> decodeHints t [] u = Inr (concat ps, [])"
  using w
proof (induction ps arbitrary: dw wr)
  case Nil
  then show ?case by (intro exI [of _ "[]"]) (simp add: downlink_writes_def downlink_sent_def)
next
  case (Cons p ps)
  obtain b r where e: "encodeSudokuPayload t (drng dw) (dthreshold dw) p = (b, r)" by (metis surj_pair)
  have d: "decodeHints t [] b = Inr (p, [])" by (rule puzzle_table.decode_encode [OF t e])
  let ?wr = "wr\<lparr>sent := sent wr @ b\<rparr>" and ?dw = "if p = [] then dw else dw\<lparr>drng := r, dwriter := Some (wr\<lparr>sent := sent wr @ b\<rparr>)\<rparr>"
  have "p = [] \<Longrightarrow> b = []" using e by (simp add: encodeSudokuPayload_def)
  then have "dtable ?dw = Some t" "dwriter ?dw = Some ?wr" "script ?wr = []" using Cons.prems by auto
  from Cons.IH [OF this] obtain u dw' where u: "downlink_writes ps \<lparr>dataWriter = SudokuWriter ?dw\<rparr> = \<lparr>dataWriter = SudokuWriter dw'\<rparr>"
    "downlink_sent \<lparr>dataWriter = SudokuWriter dw'\<rparr> = sent ?wr @ u" "decodeHints t [] u = Inr (concat ps, [])" by blast
  have "downlink_writes (p # ps) \<lparr>dataWriter = SudokuWriter dw\<rparr> = downlink_writes ps \<lparr>dataWriter = SudokuWriter ?dw\<rparr>"
    using Cons.prems e by (simp add: downlink_writes_def DownlinkWriter_Write_def dataWriter_Write_def WriteFull_open)
  then show ?case using u d by (intro exI [of _ "b @ u"]) (simp add: decodeHints_append)
qed

lemma packed_downlink_writes:
  "downlink_writes ps \<lparr>dataWriter = PackedWriter pc\<rparr> = \<lparr>dataWriter = PackedWriter (Packed_writes ps pc)\<rparr>"
proof (induction ps arbitrary: pc)
  case (Cons p ps)
  have "snd (snd (DownlinkWriter_Write p \<lparr>dataWriter = PackedWriter pc\<rparr>)) = \<lparr>dataWriter = PackedWriter (snd (snd (Packed_Write p pc)))\<rparr>"
    by (simp add: DownlinkWriter_Write_def Packed_Write_def split: prod.splits)
  then show ?case using Cons.IH by (simp add: downlink_writes_def Packed_writes_def)
qed (simp add: downlink_writes_def Packed_writes_def)

section \<open>Directional connections\<close>

text \<open>
  The operations of the wrapped values act on a state \<open>'s\<close>. What the interface probes find is the value's
  half-close method, its \<open>Close\<close> method, or neither.
\<close>

record 's closing =
  closeHalfRead :: "('s \<Rightarrow> go_error option \<times> 's) option"
  closeHalfWrite :: "('s \<Rightarrow> go_error option \<times> 's) option"
  closeBoth :: "('s \<Rightarrow> go_error option \<times> 's) option"

definition TryCloseRead :: "'s closing option \<Rightarrow> 's \<Rightarrow> go_error option \<times> 's" where
  "TryCloseRead target s =
    (case target of None \<Rightarrow> (None, s)
     | Some c \<Rightarrow> (case closeHalfRead c of Some f \<Rightarrow> f s | None \<Rightarrow> (None, s)))"

definition TryCloseWrite :: "'s closing option \<Rightarrow> 's \<Rightarrow> go_error option \<times> 's" where
  "TryCloseWrite target s =
    (case target of None \<Rightarrow> (None, s)
     | Some c \<Rightarrow> (case closeHalfWrite c of Some f \<Rightarrow> f s
         | None \<Rightarrow> (case closeBoth c of Some f \<Rightarrow> f s | None \<Rightarrow> (None, s))))"

record 's DirectionalConn =
  base :: "'s closing"
  dreader :: "'s closing"
  dwriter_end :: "'s closing"
  closers :: "('s \<Rightarrow> go_error option \<times> 's) option list"

definition NewDirectionalConn ::
  "'s closing \<Rightarrow> 's closing \<Rightarrow> 's closing \<Rightarrow> ('s \<Rightarrow> go_error option \<times> 's) option list \<Rightarrow> 's DirectionalConn" where
  "NewDirectionalConn b r w cs = \<lparr>base = b, dreader = r, dwriter_end = w, closers = cs\<rparr>"

definition ReplaceWriter :: "'s closing \<Rightarrow> ('s \<Rightarrow> go_error option \<times> 's) option list \<Rightarrow> 's DirectionalConn \<Rightarrow> 's DirectionalConn" where
  "ReplaceWriter w cs c = c\<lparr>dwriter_end := w, closers := cs\<rparr>"

definition Directional_CloseRead :: "'s DirectionalConn \<Rightarrow> 's \<Rightarrow> go_error option \<times> 's" where
  "Directional_CloseRead c s =
    (case TryCloseRead (Some (dreader c)) s of
       (Some e, s1) \<Rightarrow> (Some e, s1)
     | (None, s1) \<Rightarrow> TryCloseRead (Some (base c)) s1)"

definition firstError :: "go_error option \<Rightarrow> go_error option \<Rightarrow> go_error option" where
  "firstError firstErr err = (if err \<noteq> None \<and> firstErr = None then err else firstErr)"

definition Directional_CloseWrite :: "'s DirectionalConn \<Rightarrow> 's \<Rightarrow> go_error option \<times> 's" where
  "Directional_CloseWrite c s =
    (let (e1, s1) = RunClosers (closers c) s;
         (e2, s2) = TryCloseWrite (Some (dwriter_end c)) s1;
         (e3, s3) = TryCloseWrite (Some (base c)) s2
     in (firstError (firstError e1 e2) e3, s3))"

definition Directional_Close :: "'s DirectionalConn \<Rightarrow> 's \<Rightarrow> go_error option \<times> 's" where
  "Directional_Close c s =
    (let (e1, s1) = RunClosers (closers c) s
     in case closeBoth (base c) of
          None \<Rightarrow> (e1, s1)
        | Some f \<Rightarrow> (case f s1 of (e2, s2) \<Rightarrow> (firstError e1 e2, s2)))"

lemma RunClosers_runs_all:
  "snd (RunClosers cs s) = fold (\<lambda>fn s. snd (fn s)) (List.map_filter id cs) s"
  by (simp add: RunClosers_def RunClosers_loop_runs_all)

text \<open>What either downlink writer sends over a table, the matching connection reads back.\<close>

lemma downlink_readable:
  assumes "puzzle_table t"
    and "w = fst (NewServerDownlinkWriter \<lparr>sent = [], script = []\<rparr> fd0 (Some t) pMin pMax pure seed)"
    and "receives fd (downlink_sent (downlink_writes payloads w))" "0 < n" "length (concat payloads) < k"
  shows "(pure \<longrightarrow> Conn_readAll k n (NewConn c fd (Some t) a b rec seed') = Some (concat payloads, EOF))
    \<and> (\<not> pure \<longrightarrow> Packed_readAll k n (NewPackedConnWithRecord c fd (Some t) a b rec seed') = Some (concat payloads, EOF))"
proof (intro conjI impI)
  note t = assms(1)
  {
    assume pure
    obtain th r where p: "pickPaddingThreshold seed pMin pMax = (th, r)" by (metis surj_pair)
    let ?dw = "\<lparr>dwriter = Some \<lparr>sent = [], script = []\<rparr>, dtable = Some t, drng = r, dthreshold = th\<rparr>"
    have w: "w = \<lparr>dataWriter = SudokuWriter ?dw\<rparr>"
      using \<open>pure\<close> p by (simp add: assms(2) NewServerDownlinkWriter_def NewDownlinkWriter_def newDownlinkWriter_def newSudokuDataWriter_def)
    obtain u where u: "downlink_sent (downlink_writes payloads w) = u" "decodeHints t [] u = Inr (concat payloads, [])"
      using dataWriter_writes_decode [OF t, of ?dw "\<lparr>sent = [], script = []\<rparr>" payloads] unfolding w by auto
    have "0 < IOBufferSize" by (simp add: IOBufferSize_def)
    note r = receives_ok [OF assms(3) this]
    show "Conn_readAll k n (NewConn c fd (Some t) a b rec seed') = Some (concat payloads, EOF)"
      by (rule Conn_readAll_complete [where t = t])
        (use r u assms(4,5) in \<open>simp_all add: Conn_ok_def Conn_remaining_def NewConn_fields hint_inv_def hint_plain_def\<close>)
  next
    assume "\<not> pure"
    then have w: "w = \<lparr>dataWriter = PackedWriter (NewPackedConnWithRecord \<lparr>sent = [], script = []\<rparr> fd0 (Some t) pMin pMax False seed)\<rparr>"
      by (simp add: assms(2) NewServerDownlinkWriter_def NewPackedDownlinkWriter_def newDownlinkWriter_def NewPackedConn_def Let_def)
    then show "Packed_readAll k n (NewPackedConnWithRecord c fd (Some t) a b rec seed') = Some (concat payloads, EOF)"
      using Packed_roundtrip [OF t NewPackedConn_sender [OF t]] assms(3-5)
      by (simp add: packed_downlink_writes downlink_sent_def NewPackedConn_fields)
  }
qed

section \<open>Properties\<close>

text \<open>
  A server's downlink is readable by the client's matching connection: with the pure option the
  classic connection, otherwise the packed one, reads back exactly what was written.
\<close>

theorem downlink_roundtrip:
  assumes "newSingleDirectionTable sha256 shuffleU key mode pat = Inr t"
    and "w = fst (NewServerDownlinkWriter \<lparr>sent = [], script = []\<rparr> [] (Some t) pMin pMax pure seed)"
    and "receives fd (downlink_sent (downlink_writes payloads w))" "0 < n" "length (concat payloads) < k"
  shows "(pure \<longrightarrow> Conn_readAll k n (NewConn c fd (Some t) a b rec seed') = Some (concat payloads, EOF))
    \<and> (\<not> pure \<longrightarrow> Packed_readAll k n (NewPackedConnWithRecord c fd (Some t) a b rec seed') = Some (concat payloads, EOF))"
  by (rule downlink_readable [OF newSingleDirectionTable_puzzle_table [OF assms(1)] assms(2-5)])

theorem downlink_roundtrip_witness:
  "\<exists>t fd. newSingleDirectionTable (\<lambda>_. replicate 32 7) (\<lambda>_ _. 5) ''key'' ''prefer_ascii'' '''' = Inr t
    \<and> Packed_readAll 10 2 (NewPackedConnWithRecord \<lparr>sent = [], script = []\<rparr> fd (Some t) 0 0 False (newSudokuRand 9))
        = Some ([1, 2, 3], EOF)"
proof -
  have "resolveLayout ''prefer_ascii'' '''' = Inr newASCIILayout" by code_simp
  then obtain t where t: "newSingleDirectionTable (\<lambda>_. replicate 32 7) (\<lambda>_ _. 5) ''key'' ''prefer_ascii'' '''' = Inr t"
    by (simp add: newSingleDirectionTable_def)
  let ?w = "downlink_sent (downlink_writes [[1, 2], [3]]
      (fst (NewServerDownlinkWriter \<lparr>sent = [], script = []\<rparr> [] (Some t) 10 30 False (newSudokuRand 4))))"
  have "receives [(?w, None)] ?w" by (simp add: receives_def)
  from downlink_roundtrip [OF t refl this, of 2 10 "\<lparr>sent = [], script = []\<rparr>" 0 0 False "newSudokuRand 9"]
  show ?thesis using t by (intro exI conjI) simp_all
qed

text \<open>
  Closing a directional connection runs every closer in order and then closes the connection
  below, whatever errors they give; the error returned is the first one, and none is swallowed.
\<close>

theorem directional_close_runs_all:
  assumes "closeBoth (base c) = Some f"
  shows "snd (Directional_Close c s) = snd (f (fold (\<lambda>fn s. snd (fn s)) (List.map_filter id (closers c)) s))
    \<and> (fst (Directional_Close c s) = None \<longleftrightarrow>
         fst (RunClosers (closers c) s) = None \<and> fst (f (snd (RunClosers (closers c) s))) = None)"
  using assms by (auto simp: Directional_Close_def firstError_def RunClosers_runs_all [symmetric] split: prod.splits)

theorem directional_close_runs_all_witness:
  "fst (Directional_Close (NewDirectionalConn
      \<lparr>closeHalfRead = None, closeHalfWrite = None, closeBoth = Some (\<lambda>s. (None, s + 1))\<rparr>
      \<lparr>closeHalfRead = None, closeHalfWrite = None, closeBoth = None\<rparr>
      \<lparr>closeHalfRead = None, closeHalfWrite = None, closeBoth = None\<rparr>
      [Some (\<lambda>s. (Some ErrClosedPipe, s + 10)), None]) (0 :: nat)) \<noteq> None"
proof -
  let ?f = "\<lambda>s :: nat. (None :: go_error option, s + 1)"
  let ?c = "NewDirectionalConn \<lparr>closeHalfRead = None, closeHalfWrite = None, closeBoth = Some ?f\<rparr>
      \<lparr>closeHalfRead = None, closeHalfWrite = None, closeBoth = None\<rparr>
      \<lparr>closeHalfRead = None, closeHalfWrite = None, closeBoth = None\<rparr> [Some (\<lambda>s. (Some ErrClosedPipe, s + 10)), None]"
  have "closeBoth (base ?c) = Some ?f" by (simp add: NewDirectionalConn_def)
  from directional_close_runs_all [OF this, of 0] show ?thesis by (simp add: NewDirectionalConn_def RunClosers_def)
qed

end
