(* ===== verification/Framing.thy ===== *)
theory Framing
  imports ConnUtil
begin

text \<open>
  Length-prefixed messages on a byte stream, as several protocols of the program use them: the
  interface of a message format, and what follows from it for a stream of messages. It is interpreted
  for the KIP messages, the UDP-over-TCP datagrams and the mux frames.
\<close>

text \<open>Reading messages one after the other until a read fails; at most \<open>k\<close> of them.\<close>

fun readMsgs :: "(reader \<Rightarrow> 'm result \<times> reader) \<Rightarrow> nat \<Rightarrow> reader \<Rightarrow> 'm list \<times> go_error option" where
  "readMsgs rd 0 r = ([], None)"
| "readMsgs rd (Suc k) r =
    (case rd r of
       (Inl e, r') \<Rightarrow> ([], Some e)
     | (Inr x, r') \<Rightarrow> (case readMsgs rd k r' of (xs, e) \<Rightarrow> (x # xs, e)))"

locale framing =
  fixes wire :: "'m \<Rightarrow> bytes"
    and valid :: "'m \<Rightarrow> bool"
    and rd :: "reader \<Rightarrow> 'm result \<times> reader"
  assumes read_wire: "valid x \<Longrightarrow> rd (r\<lparr>rdata := wire x @ rest\<rparr>) = (Inr x, r\<lparr>rdata := rest\<rparr>)"
    and read_empty: "rdata r = [] \<Longrightarrow> rd r = (Inl (rterm r), r)"
begin

lemma read_stream:
  "list_all valid xs \<Longrightarrow> readMsgs rd (Suc (length xs)) (r\<lparr>rdata := concat (map wire xs)\<rparr>) = (xs, Some (rterm r))"
proof (induction xs)
  case Nil
  then show ?case using read_empty [of "r\<lparr>rdata := []\<rparr>"] by simp
next
  case (Cons x xs)
  then show ?case using read_wire [of x "concat (map wire xs)" r] by simp
qed

lemma unambiguous:
  assumes "valid x" "valid y" "wire x @ a = wire y @ b"
  shows "x = y \<and> a = b"
  using read_wire [OF assms(1), of a "reader_of []"] read_wire [OF assms(2), of b "reader_of []"] assms(3)
  by (auto simp: reader_of_def)

lemma stream_unambiguous:
  assumes "list_all valid xs" "list_all valid ys" "concat (map wire xs) = concat (map wire ys)"
  shows "xs = ys"
proof -
  have wire_nonempty: "wire x \<noteq> []" if "valid x" for x
  proof
    assume w: "wire x = []"
    have "rd (reader_of []) = (Inr x, reader_of [])" using read_wire [OF that, of "[]" "reader_of []"] w by (simp add: reader_of_def)
    then show False using read_empty [of "reader_of []"] by (simp add: reader_of_def)
  qed
  show ?thesis using assms
  proof (induction xs arbitrary: ys)
    case Nil
    then show ?case using wire_nonempty by (cases ys) auto
  next
    case (Cons x xs)
    show ?case
    proof (cases ys)
      case Nil then show ?thesis using Cons.prems wire_nonempty by auto
    next
      case (Cons y ys')
      then show ?thesis using Cons.prems Cons.IH [of ys'] unambiguous [of x y] by auto
    qed
  qed
qed

end

end
