(* ===== verification/GoNet.thy ===== *)
theory GoNet
  imports GoStrings ConnUtil
begin

text \<open>
  What the modelled code uses of Go's packages \<open>strconv\<close> and \<open>net\<close>: decimal integers, host and port
  strings, and the text form of IP addresses (\<open>net.ParseIP\<close>, \<open>net.IP.String\<close>). An IP address is its
  4 or 16 bytes.
\<close>

section \<open>Decimal integers\<close>

definition digit_char :: "nat \<Rightarrow> char" where
  "digit_char d = char_of (48 + d)"

fun Itoa :: "nat \<Rightarrow> string" where
  "Itoa n = (if n < 10 then [digit_char n] else Itoa (n div 10) @ [digit_char (n mod 10)])"

declare Itoa.simps [simp del]

definition is_digit :: "char \<Rightarrow> bool" where
  "is_digit c \<longleftrightarrow> 48 \<le> (of_char c :: nat) \<and> (of_char c :: nat) \<le> 57"

definition digit_val :: "char \<Rightarrow> nat" where
  "digit_val c = of_char c - 48"

definition digits_val :: "string \<Rightarrow> nat" where
  "digits_val s = foldl (\<lambda>v c. v * 10 + digit_val c) 0 s"

text \<open>\<open>strconv.Atoi\<close>: an optional sign and at least one digit, within 64 bits; \<open>None\<close> is its error.\<close>

definition Atoi :: "string \<Rightarrow> int option" where
  "Atoi s =
    (let neg = (s \<noteq> [] \<and> hd s = CHR ''-'');
         ds = (if s \<noteq> [] \<and> (hd s = CHR ''-'' \<or> hd s = CHR ''+'') then tl s else s)
     in if ds = [] \<or> \<not> list_all is_digit ds then None
        else
          let v = (if neg then - int (digits_val ds) else int (digits_val ds))
          in if - (2 ^ 63) \<le> v \<and> v < 2 ^ 63 then Some v else None)"

lemma of_char_digit [simp]: "d < 10 \<Longrightarrow> (of_char (digit_char d) :: nat) = 48 + d"
  by (simp add: digit_char_def of_char_of)

lemma digit_char_props [simp]: "d < 10 \<Longrightarrow> is_digit (digit_char d)" "d < 10 \<Longrightarrow> digit_val (digit_char d) = d"
  by (simp_all add: is_digit_def digit_val_def)

lemma digits_val_snoc: "digits_val (s @ [c]) = digits_val s * 10 + digit_val c"
  by (simp add: digits_val_def)

lemma Itoa_digits: "list_all is_digit (Itoa n)" "Itoa n \<noteq> []" "digits_val (Itoa n) = n"
proof (induction n rule: Itoa.induct)
  case (1 n)
  { case 1 show ?case using "1.IH" by (simp add: Itoa.simps [of n]) next
    case 2 show ?case by (simp add: Itoa.simps [of n]) next
    case 3 show ?case using "1.IH" by (simp add: Itoa.simps [of n] digits_val_snoc) (simp add: digits_val_def) }
qed

lemma Atoi_Itoa: "n < 2 ^ 63 \<Longrightarrow> Atoi (Itoa n) = Some (int n)"
proof -
  assume n: "n < 2 ^ 63"
  have "is_digit (hd (Itoa n))" using Itoa_digits(1,2) [of n] by (cases "Itoa n") auto
  then have "hd (Itoa n) \<noteq> CHR ''-''" "hd (Itoa n) \<noteq> CHR ''+''" by (auto simp: is_digit_def)
  moreover have "int n < 2 ^ 63" using n by (metis of_nat_less_iff of_nat_numeral of_nat_power)
  ultimately show ?thesis using Itoa_digits [of n] by (simp add: Atoi_def Let_def)
qed

section \<open>Host and port\<close>

fun IndexByte :: "string \<Rightarrow> char \<Rightarrow> nat option" where
  "IndexByte [] c = None"
| "IndexByte (d # s) c = (if d = c then Some 0 else map_option Suc (IndexByte s c))"

fun LastIndexByte :: "string \<Rightarrow> char \<Rightarrow> nat option" where
  "LastIndexByte [] c = None"
| "LastIndexByte (d # s) c =
    (case LastIndexByte s c of Some i \<Rightarrow> Some (Suc i) | None \<Rightarrow> if d = c then Some 0 else None)"

definition JoinHostPort :: "string \<Rightarrow> string \<Rightarrow> string" where
  "JoinHostPort host port =
    (if CHR '':'' \<in> set host then ''['' @ host @ '']:'' @ port else host @ '':'' @ port)"

definition SplitHostPort :: "string \<Rightarrow> (string \<times> string) result" where
  "SplitHostPort hostport =
    (case LastIndexByte hostport (CHR '':'') of
       None \<Rightarrow> Inl (ErrMsg ''missing port in address'')
     | Some i \<Rightarrow>
       let rest = (\<lambda>host j k.
             if CHR ''['' \<in> set (drop j hostport) then Inl (ErrMsg ''unexpected open bracket'')
             else if CHR '']'' \<in> set (drop k hostport) then Inl (ErrMsg ''unexpected close bracket'')
             else Inr (host, drop (Suc i) hostport))
       in if hd hostport = CHR ''['' then
            (case IndexByte hostport (CHR '']'') of
               None \<Rightarrow> Inl (ErrMsg ''missing close bracket'')
             | Some e \<Rightarrow>
               if Suc e = length hostport then Inl (ErrMsg ''missing port in address'')
               else if Suc e = i then rest (drop 1 (take e hostport)) 1 (Suc e)
               else if hostport ! Suc e = CHR '':'' then Inl (ErrMsg ''too many colons in address'')
               else Inl (ErrMsg ''missing port in address''))
          else if CHR '':'' \<in> set (take i hostport) then Inl (ErrMsg ''too many colons in address'')
          else rest (take i hostport) 0 0)"

section \<open>The text form of IP addresses\<close>

text \<open>
  The four decimal fields of an IPv4 address: \<open>fs\<close> the finished fields, \<open>val\<close> and \<open>dl\<close> the value and the
  number of digits of the current one, \<open>prev\<close> whether the last character was a dot (or there was none).
\<close>

fun parseIPv4Fields :: "bytes \<Rightarrow> nat \<Rightarrow> nat \<Rightarrow> string \<Rightarrow> bytes option" where
  "parseIPv4Fields fs val dl [] = (if length fs < 3 then None else Some (fs @ [of_nat val]))"
| "parseIPv4Fields fs val dl (c # s) =
    (if is_digit c then
       (if dl = 1 \<and> val = 0 then None
        else let v = val * 10 + digit_val c in if 255 < v then None else parseIPv4Fields fs v (Suc dl) s)
     else if c = CHR ''.'' then
       (if dl = 0 \<or> s = [] then None
        else if length fs = 3 then None
        else parseIPv4Fields (fs @ [of_nat val]) 0 0 s)
     else None)"

definition hex_val :: "char \<Rightarrow> nat option" where
  "hex_val c =
    (let n = of_char c :: nat in
     if 48 \<le> n \<and> n \<le> 57 then Some (n - 48)
     else if 97 \<le> n \<and> n \<le> 102 then Some (n - 97 + 10)
     else if 65 \<le> n \<and> n \<le> 70 then Some (n - 65 + 10)
     else None)"

text \<open>The leading hexadecimal digits of a string: their number, their value and the rest; more than four fail.\<close>

fun hexField :: "nat \<Rightarrow> int \<Rightarrow> string \<Rightarrow> (nat \<times> int \<times> string) option" where
  "hexField off acc [] = Some (off, acc, [])"
| "hexField off acc (c # s) =
    (case hex_val c of
       None \<Rightarrow> Some (off, acc, c # s)
     | Some d \<Rightarrow>
         if 3 < off then None
         else let acc' = acc * 16 + int d in if 65535 < acc' then None else hexField (Suc off) acc' s)"

text \<open>
  The loop over the colon-separated fields: the bytes so far, the position of the ellipsis and the rest of
  the string. It returns the bytes, the ellipsis and what is left of the string.
\<close>

lemma hexField_length: "hexField off acc s = Some (o', a, s') \<Longrightarrow> length s' + o' = length s + off"
proof (induction off acc s rule: hexField.induct)
  case (2 off acc c s)
  then show ?case by (auto simp: Let_def split: option.splits if_splits)
qed simp

function parseIPv6Loop :: "bytes \<Rightarrow> nat option \<Rightarrow> string \<Rightarrow> (bytes \<times> nat option \<times> string) option" where
  "parseIPv6Loop ip ell s =
    (if 16 \<le> length ip then Some (ip, ell, s)
     else case hexField 0 0 s of
       None \<Rightarrow> None
     | Some (off, acc, s1) \<Rightarrow>
       if off = 0 then None
       else if s1 \<noteq> [] \<and> hd s1 = CHR ''.'' then
         (if ell = None \<and> length ip \<noteq> 12 then None
          else if 16 < length ip + 4 then None
          else map_option (\<lambda>f. (ip @ f, ell, [])) (parseIPv4Fields [] 0 0 s))
       else
         let ip1 = ip @ [of_int (acc div 256), of_int acc] in
         (case s1 of
            [] \<Rightarrow> Some (ip1, ell, [])
          | c # s2 \<Rightarrow>
            if c \<noteq> CHR '':'' then None
            else if s2 = [] then None
            else if hd s2 = CHR '':'' then
              (if ell \<noteq> None then None
               else if tl s2 = [] then Some (ip1, Some (length ip1), [])
               else parseIPv6Loop ip1 (Some (length ip1)) (tl s2))
            else parseIPv6Loop ip1 ell s2))"
  by pat_completeness auto
termination
proof (relation "measure (\<lambda>(ip, ell, s). length s)", goal_cases)
  case (2 ip ell s y off y2 acc s1 ip1 c s2)
  then show ?case using hexField_length [of 0 0 s off acc s1] by (cases s2) auto
next
  case (3 ip ell s y off y2 acc s1 ip1 c s2)
  then show ?case using hexField_length [of 0 0 s off acc s1] by auto
qed simp

declare parseIPv6Loop.simps [simp del]

text \<open>The parse of a string without a zone.\<close>

definition parseIPv6 :: "string \<Rightarrow> bytes option" where
  "parseIPv6 s0 =
    (let lead = (2 \<le> length s0 \<and> s0 ! 0 = CHR '':'' \<and> s0 ! 1 = CHR '':'');
         s = (if lead then drop 2 s0 else s0)
     in if lead \<and> s = [] then Some (replicate 16 0)
        else case parseIPv6Loop [] (if lead then Some 0 else None) s of
          None \<Rightarrow> None
        | Some (ip, ell, s') \<Rightarrow>
          if s' \<noteq> [] then None
          else if length ip < 16 then
            (case ell of None \<Rightarrow> None
             | Some e \<Rightarrow> Some (take e ip @ replicate (16 - length ip) 0 @ drop e ip))
          else if ell \<noteq> None then None
          else Some ip)"

text \<open>
  \<open>net.ParseIP\<close> of a string without \<open>%\<close>: the first dot or colon decides the family. The result is the
  16-byte form, IPv4 addresses mapped into IPv6.
\<close>

definition v4InV6Prefix :: bytes where
  "v4InV6Prefix = replicate 10 0 @ [255, 255]"

fun ParseIP_at :: "string \<Rightarrow> string \<Rightarrow> bytes option" where
  "ParseIP_at s [] = None"
| "ParseIP_at s (c # cs) =
    (if c = CHR ''.'' then map_option (\<lambda>f. v4InV6Prefix @ f) (parseIPv4Fields [] 0 0 s)
     else if c = CHR '':'' then parseIPv6 s
     else if c = CHR ''%'' then None
     else ParseIP_at s cs)"

definition ParseIP :: "string \<Rightarrow> bytes option" where
  "ParseIP s = ParseIP_at s s"

definition To4 :: "bytes \<Rightarrow> bytes option" where
  "To4 ip =
    (if length ip = 4 then Some ip
     else if length ip = 16 \<and> take 12 ip = v4InV6Prefix then Some (drop 12 ip)
     else None)"

definition To16 :: "bytes \<Rightarrow> bytes option" where
  "To16 ip =
    (if length ip = 4 then Some (v4InV6Prefix @ ip) else if length ip = 16 then Some ip else None)"

definition hex_char :: "nat \<Rightarrow> char" where
  "hex_char d = (if d < 10 then char_of (48 + d) else char_of (87 + d))"

fun hexString :: "nat \<Rightarrow> string" where
  "hexString n = (if n < 16 then [hex_char n] else hexString (n div 16) @ [hex_char (n mod 16)])"

declare hexString.simps [simp del]

definition IP4_String :: "bytes \<Rightarrow> string" where
  "IP4_String ip =
    Itoa (unat (ip ! 0)) @ ''.'' @ Itoa (unat (ip ! 1)) @ ''.'' @ Itoa (unat (ip ! 2)) @ ''.'' @ Itoa (unat (ip ! 3))"

definition v6u16 :: "bytes \<Rightarrow> nat \<Rightarrow> nat" where
  "v6u16 ip i = unat (ip ! (2 * i)) * 256 + unat (ip ! (2 * i + 1))"

definition zeroRun :: "bytes \<Rightarrow> nat \<Rightarrow> nat" where
  "zeroRun ip i = length (takeWhile (\<lambda>j. v6u16 ip j = 0) [i..<8])"

text \<open>The first longest run of at least two zero groups: its start and its end.\<close>

definition bestZeroRun :: "bytes \<Rightarrow> (nat \<times> nat) option" where
  "bestZeroRun ip =
    foldl (\<lambda>best i.
        let l = zeroRun ip i in
        if 2 \<le> l \<and> (case best of None \<Rightarrow> True | Some (a, b) \<Rightarrow> b - a < l) then Some (i, i + l) else best)
      None [0..<8]"

definition joinGroups :: "bytes \<Rightarrow> nat list \<Rightarrow> string" where
  "joinGroups ip is = concat (map (\<lambda>i. (if i = hd is then [] else '':'') @ hexString (v6u16 ip i)) is)"

definition IP6_String :: "bytes \<Rightarrow> string" where
  "IP6_String ip =
    (case bestZeroRun ip of
       None \<Rightarrow> joinGroups ip [0..<8]
     | Some (a, b) \<Rightarrow> joinGroups ip [0..<a] @ ''::'' @ joinGroups ip [b..<8])"

definition IP_String :: "bytes \<Rightarrow> string" where
  "IP_String ip =
    (case To4 ip of Some p4 \<Rightarrow> IP4_String p4
     | None \<Rightarrow> if length ip = 16 then IP6_String ip else ''?'')"

section \<open>Round trips\<close>

lemma LastIndexByte_last: "c \<notin> set b \<Longrightarrow> LastIndexByte (a @ c # b) c = Some (length a)"
proof -
  assume "c \<notin> set b"
  then have "LastIndexByte b c = None" by (induction b) auto
  then show ?thesis by (induction a) auto
qed

lemma IndexByte_first: "c \<notin> set a \<Longrightarrow> IndexByte (a @ c # b) c = Some (length a)"
  by (induction a) auto

theorem SplitHostPort_Join:
  assumes "set port \<inter> {CHR '':'', CHR ''['', CHR '']''} = {}" "set host \<inter> {CHR ''['', CHR '']''} = {}"
  shows "SplitHostPort (JoinHostPort host port) = Inr (host, port)"
proof (cases "CHR '':'' \<in> set host")
  case True
  have e: "IndexByte (CHR ''['' # host @ CHR '']'' # CHR '':'' # port) (CHR '']'') = Some (Suc (length host))"
    using IndexByte_first [of "CHR '']''" "CHR ''['' # host" "CHR '':'' # port"] assms(2) by simp
  have i: "LastIndexByte (CHR ''['' # host @ CHR '']'' # CHR '':'' # port) (CHR '':'') = Some (Suc (Suc (length host)))"
    using LastIndexByte_last [of "CHR '':''" port "CHR ''['' # host @ [CHR '']'']"] assms(1) by simp
  have s: "JoinHostPort host port = CHR ''['' # host @ CHR '']'' # CHR '':'' # port"
    using True by (simp add: JoinHostPort_def)
  show ?thesis unfolding s SplitHostPort_def i using e assms True by (auto simp: Let_def)
next
  case False
  have i: "LastIndexByte (host @ CHR '':'' # port) (CHR '':'') = Some (length host)"
    using LastIndexByte_last [of "CHR '':''" port host] assms(1) by simp
  have s: "JoinHostPort host port = host @ CHR '':'' # port" using False by (simp add: JoinHostPort_def)
  have h: "hd (host @ CHR '':'' # port) \<noteq> CHR ''[''" using assms(2) by (cases host) auto
  show ?thesis unfolding s SplitHostPort_def i using h assms False by (auto simp: Let_def)
qed

lemma set_Itoa: "set (Itoa n) \<inter> {CHR '':'', CHR ''['', CHR '']'', CHR ''%''} = {}"
  using Itoa_digits(1) [of n] by (auto simp: list_all_iff is_digit_def)

lemma SplitHostPort_canonical:
  "set host \<inter> {CHR ''['', CHR '']''} = {} \<Longrightarrow> SplitHostPort (JoinHostPort host (Itoa p)) = Inr (host, Itoa p)"
  using SplitHostPort_Join [of "Itoa p" host] set_Itoa [of p] by blast

lemma parseIPv4_octet:
  assumes "v < 256"
  shows "parseIPv4Fields fs 0 0 (Itoa v @ s) = parseIPv4Fields fs v (length (Itoa v)) s"
proof -
  have two: "Itoa (q * 10 + r) = Itoa q @ [digit_char r]" if "0 < q" "r < 10" for q r
    using that by (simp add: Itoa.simps [of "q * 10 + r"])
  have one: "Itoa r = [digit_char r]" if "r < 10" for r using that by (simp add: Itoa.simps)
  consider "v < 10" | q r where "v = q * 10 + r" "0 < q" "q < 10" "r < 10"
    | p q r where "v = (p * 10 + q) * 10 + r" "0 < p" "p < 10" "q < 10" "r < 10"
  proof (cases "v < 100")
    case True
    then show ?thesis using that(1) that(2) [of "v div 10" "v mod 10"] by (cases "v < 10") simp_all
  next
    case False
    have "v div 10 = v div 10 div 10 * 10 + v div 10 mod 10" by (rule div_mod_decomp)
    then show ?thesis using that(3) [of "v div 10 div 10" "v div 10 mod 10" "v mod 10"] False assms by simp
  qed
  then show ?thesis
  proof cases
    case (3 p q r)
    define w where "w = p * 10 + q"
    have "Itoa v = Itoa w @ [digit_char r]" "Itoa w = [digit_char p, digit_char q]"
      using 3 two [of w r] two [of p q] one [of p] by (simp_all add: w_def)
    then show ?thesis using 3(2-) assms unfolding 3(1) w_def [symmetric] by (simp add: w_def)
  qed (use assms in \<open>simp_all add: one two\<close>)
qed

lemma parseIPv4_dot: "length fs < 3 \<Longrightarrow> s \<noteq> [] \<Longrightarrow> 0 < dl \<Longrightarrow>
    parseIPv4Fields fs v dl (CHR ''.'' # s) = parseIPv4Fields (fs @ [of_nat v]) 0 0 s"
  by (simp add: is_digit_def)

lemma parseIPv4_String: "length ip = 4 \<Longrightarrow> parseIPv4Fields [] 0 0 (IP4_String ip) = Some ip"
proof -
  assume "length ip = 4"
  then obtain a b c d where ip: "ip = [a, b, c, d]" by (metis list4_conv)
  have len: "0 < length (Itoa n)" for n using Itoa_digits(2) [of n] by simp
  show ?thesis
    unfolding ip IP4_String_def
    by (simp add: parseIPv4_octet parseIPv4_dot unat_byte_less Itoa_digits(2) len 
        del: length_greater_0_conv parseIPv4Fields.simps(2))
      (use parseIPv4_octet [of "unat d" "[a, b, c]" "[]"] unat_byte_less in simp)
qed

lemma set_IP4_String: "set (IP4_String ip) \<subseteq> {c. is_digit c} \<union> {CHR ''.''}"
  using Itoa_digits(1) by (auto simp: IP4_String_def list_all_iff)

lemma ParseIP_at_first:
  "list_all is_digit ds \<Longrightarrow> ParseIP_at s (ds @ CHR ''.'' # cs) = map_option (\<lambda>f. v4InV6Prefix @ f) (parseIPv4Fields [] 0 0 s)"
  by (induction ds) (auto simp: is_digit_def)

lemma ParseIP_IP4: "length ip = 4 \<Longrightarrow> ParseIP (IP4_String ip) = Some (v4InV6Prefix @ ip)"
proof -
  assume ip: "length ip = 4"
  have s: "IP4_String ip = Itoa (unat (ip ! 0)) @ CHR ''.'' #
      (Itoa (unat (ip ! 1)) @ ''.'' @ Itoa (unat (ip ! 2)) @ ''.'' @ Itoa (unat (ip ! 3)))" (is "_ = ?d @ _ # ?r")
    by (simp add: IP4_String_def)
  have "ParseIP (IP4_String ip) = map_option (\<lambda>f. v4InV6Prefix @ f) (parseIPv4Fields [] 0 0 (IP4_String ip))"
    unfolding ParseIP_def using ParseIP_at_first [OF Itoa_digits(1), of "IP4_String ip" _ ?r] s by simp
  then show ?thesis using parseIPv4_String [OF ip] by simp
qed

lemma parseIPv4_length: "parseIPv4Fields fs v dl s = Some ip \<Longrightarrow> length fs \<le> 3 \<Longrightarrow> length ip = 4"
  by (induction fs v dl s rule: parseIPv4Fields.induct) (auto simp: Let_def split: if_splits)

lemma parseIPv6Loop_length:
  "parseIPv6Loop ip ell s = Some (ip', ell', s') \<Longrightarrow> even (length ip) \<Longrightarrow> length ip \<le> 16
    \<Longrightarrow> (\<forall>e. ell = Some e \<longrightarrow> e \<le> length ip)
    \<Longrightarrow> length ip' \<le> 16 \<and> (\<forall>e. ell' = Some e \<longrightarrow> e \<le> length ip')"
proof (induction ip ell s rule: parseIPv6Loop.induct)
  case (1 ip ell s)
  show ?case
  proof (cases "16 \<le> length ip")
    case True then show ?thesis using "1.prems" by (simp add: parseIPv6Loop.simps)
  next
    case False
    then have l: "length ip + 2 \<le> 16" using "1.prems"(2) by presburger
    obtain off acc s1 where h: "hexField 0 0 s = Some (off, acc, s1)" "off \<noteq> 0"
      using "1.prems"(1) False by (auto simp: parseIPv6Loop.simps [of ip] split: option.splits if_splits)
    note IH = "1.IH" [OF False h(1) refl refl h(2)]
    have "\<forall>e. ell = Some e \<longrightarrow> e \<le> Suc (Suc (length ip))" using "1.prems"(4) by auto
    then show ?thesis
      using "1.prems" False h l IH
      by (auto simp: parseIPv6Loop.simps [of ip] Let_def neq_Nil_conv dest: parseIPv4_length split: if_splits list.splits)
  qed
qed

lemma ParseIP_length: "ParseIP s = Some ip \<Longrightarrow> length ip = 16"
proof -
  have v6: "length ip = 16" if "parseIPv6 s = Some ip" for s ip
    using that parseIPv6Loop_length [of "[]"] unfolding parseIPv6_def Let_def
    by (fastforce split: if_splits option.splits prod.splits)
  have "ParseIP_at s cs = Some ip \<Longrightarrow> length ip = 16" for cs
    by (induction s cs rule: ParseIP_at.induct) (auto simp: v6 v4InV6Prefix_def dest: parseIPv4_length split: if_splits)
  then show "ParseIP s = Some ip \<Longrightarrow> length ip = 16" by (simp add: ParseIP_def)
qed

end
