(* ===== verification/Address.thy ===== *)
theory Address
  imports GoNet
begin

text \<open>
  SOCKS5 addresses (\<open>internal/protocol/address.go\<close>): \<open>WriteAddress\<close> encodes a \<open>host:port\<close> string,
  \<open>ReadAddress\<close> decodes one from a stream.
\<close>

definition AddrTypeIPv4 :: byte where "AddrTypeIPv4 = 0x01"
definition AddrTypeDomain :: byte where "AddrTypeDomain = 0x03"
definition AddrTypeIPv6 :: byte where "AddrTypeIPv6 = 0x04"

lemmas AddrType_defs = AddrTypeIPv4_def AddrTypeDomain_def AddrTypeIPv6_def

text \<open>The host part by address type: its text and, for the numeric types, the address.\<close>

definition readHost :: "byte \<Rightarrow> reader \<Rightarrow> (string \<times> bytes option) result \<times> reader" where
  "readHost addrType r =
    (if addrType = AddrTypeIPv4 then
       (case ReadFull 4 r of (Inl e, r1) \<Rightarrow> (Inl e, r1) | (Inr b, r1) \<Rightarrow> (Inr (IP_String b, Some b), r1))
     else if addrType = AddrTypeDomain then
       (case ReadFull 1 r of
          (Inl e, r1) \<Rightarrow> (Inl e, r1)
        | (Inr lb, r1) \<Rightarrow>
          let domainLen = unat (lb ! 0) in
          if domainLen \<le> 0 \<or> 255 < domainLen then (Inl (ErrMsg ''invalid domain length''), r1)
          else
            (case ReadFull domainLen r1 of
               (Inl e, r2) \<Rightarrow> (Inl e, r2)
             | (Inr domain, r2) \<Rightarrow> (Inr (string_of domain, None), r2)))
     else if addrType = AddrTypeIPv6 then
       (case ReadFull 16 r of (Inl e, r1) \<Rightarrow> (Inl e, r1) | (Inr b, r1) \<Rightarrow> (Inr (IP_String b, Some b), r1))
     else (Inl (ErrMsg ''unknown address type''), r))"

definition ReadAddress :: "reader \<Rightarrow> (string \<times> byte \<times> bytes option) result \<times> reader" where
  "ReadAddress r =
    (case ReadFull 1 r of
       (Inl e, r1) \<Rightarrow> (Inl e, r1)
     | (Inr atyp, r1) \<Rightarrow>
       (case readHost (atyp ! 0) r1 of
          (Inl e, r2) \<Rightarrow> (Inl e, r2)
        | (Inr (host, ip), r2) \<Rightarrow>
          (case ReadFull 2 r2 of
             (Inl e, r3) \<Rightarrow> (Inl e, r3)
           | (Inr pb, r3) \<Rightarrow> (Inr (JoinHostPort host (Itoa (unat (Uint16 pb))), atyp ! 0, ip), r3))))"

definition stripZone :: "string \<Rightarrow> string" where
  "stripZone host = (case IndexByte host (CHR ''%'') of Some i \<Rightarrow> take i host | None \<Rightarrow> host)"

definition encodeHost :: "string \<Rightarrow> bytes result" where
  "encodeHost host =
    (case ParseIP host of
       Some ip \<Rightarrow>
         (case To4 ip of
            Some ip4 \<Rightarrow> Inr (AddrTypeIPv4 # ip4)
          | None \<Rightarrow>
            (case To16 ip of
               None \<Rightarrow> Inl (ErrMsg ''invalid ipv6'')
             | Some ip16 \<Rightarrow> Inr (AddrTypeIPv6 # ip16)))
     | None \<Rightarrow>
         if 255 < length host then Inl (ErrMsg ''domain too long'')
         else Inr (AddrTypeDomain # of_nat (length host) # bytes_of host))"

text \<open>The buffer \<open>WriteAddress\<close> builds before its only call of \<open>Write\<close>.\<close>

definition encodeAddress :: "string \<Rightarrow> bytes result" where
  "encodeAddress rawAddr =
    (case SplitHostPort rawAddr of
       Inl e \<Rightarrow> Inl e
     | Inr (host, portStr) \<Rightarrow>
       (case Atoi portStr of
          None \<Rightarrow> Inl (ErrMsg ''invalid port'')
        | Some portInt \<Rightarrow>
          if portInt < 0 \<or> 65535 < portInt then Inl (ErrMsg ''invalid port'')
          else
            (case encodeHost (stripZone host) of
               Inl e \<Rightarrow> Inl e
             | Inr buf \<Rightarrow> Inr (buf @ PutUint16 (of_int portInt)))))"

definition WriteAddress :: "writer \<Rightarrow> string \<Rightarrow> go_error option \<times> writer" where
  "WriteAddress w rawAddr =
    (case encodeAddress rawAddr of
       Inl e \<Rightarrow> (Some e, w)
     | Inr buf \<Rightarrow> (case conn_write w buf of (n, err, w') \<Rightarrow> (err, w')))"

section \<open>Decoding what was encoded\<close>

text \<open>The host a decoded address shows: addresses in their canonical text, domains as they are.\<close>

definition canonicalHost :: "string \<Rightarrow> string" where
  "canonicalHost host = (case ParseIP host of Some ip \<Rightarrow> IP_String ip | None \<Rightarrow> host)"

definition hostIP :: "string \<Rightarrow> bytes option" where
  "hostIP host = (case ParseIP host of None \<Rightarrow> None | Some ip \<Rightarrow> (case To4 ip of Some p \<Rightarrow> Some p | None \<Rightarrow> Some ip))"

lemma To4_cases:
  assumes "length ip = 16"
  shows "To4 ip = Some p \<Longrightarrow> length p = 4 \<and> IP_String p = IP_String ip" "To16 ip = Some ip"
  using assms by (auto simp: To4_def To16_def IP_String_def split: if_splits)

lemma readHost_encodeHost:
  assumes "encodeHost host = Inr buf" "host \<noteq> []"
  shows "readHost (hd buf) (r\<lparr>rdata := tl buf @ rest\<rparr>) = (Inr (canonicalHost host, hostIP host), r\<lparr>rdata := rest\<rparr>)"
proof (cases "ParseIP host")
  case None
  then have b: "buf = AddrTypeDomain # [of_nat (length host)] @ bytes_of host" "length host < 256"
    using assms(1) by (auto simp: encodeHost_def split: if_splits)
  have u: "unat (of_nat (length host) :: byte) = length host" using b(2) by (simp add: unat_of_nat)
  have "ReadFull 1 (r\<lparr>rdata := [of_nat (length host)] @ bytes_of host @ rest\<rparr>) = (Inr [of_nat (length host)], r\<lparr>rdata := bytes_of host @ rest\<rparr>)"
    by (rule ReadFull_append) simp
  moreover have "ReadFull (length host) (r\<lparr>rdata := bytes_of host @ rest\<rparr>) = (Inr (bytes_of host), r\<lparr>rdata := rest\<rparr>)"
    by (rule ReadFull_append) simp
  ultimately show ?thesis using None b assms(2) u
    by (simp add: readHost_def AddrType_defs canonicalHost_def hostIP_def)
next
  case (Some ip)
  note l = ParseIP_length [OF Some]
  show ?thesis
  proof (cases "To4 ip")
    case None
    have "ReadFull 16 (r\<lparr>rdata := ip @ rest\<rparr>) = (Inr ip, r\<lparr>rdata := rest\<rparr>)" by (rule ReadFull_append [OF l])
    then show ?thesis using Some None l assms(1)
      by (auto simp: encodeHost_def To4_cases(2) [OF l] readHost_def AddrType_defs canonicalHost_def hostIP_def)
  next
    case (Some p)
    note q = To4_cases(1) [OF l Some]
    have "ReadFull 4 (r\<lparr>rdata := p @ rest\<rparr>) = (Inr p, r\<lparr>rdata := rest\<rparr>)" by (rule ReadFull_append) (use q in simp)
    then show ?thesis using Some \<open>ParseIP host = Some ip\<close> q assms(1)
      by (auto simp: encodeHost_def readHost_def AddrType_defs canonicalHost_def hostIP_def)
  qed
qed

lemma encodeHost_Cons: "encodeHost host = Inr buf \<Longrightarrow> buf \<noteq> []"
  by (auto simp: encodeHost_def split: option.splits if_splits)

lemma ReadAddress_encode:
  assumes "SplitHostPort addr = Inr (host, port)" "encodeAddress addr = Inr buf" "stripZone host \<noteq> []"
  shows "\<exists>p. Atoi port = Some (int p) \<and> p < 65536
    \<and> ReadAddress (r\<lparr>rdata := buf @ rest\<rparr>) =
        (Inr (JoinHostPort (canonicalHost (stripZone host)) (Itoa p), hd buf, hostIP (stripZone host)), r\<lparr>rdata := rest\<rparr>)"
proof -
  obtain i hb where i: "Atoi port = Some i" "0 \<le> i" "i \<le> 65535" "encodeHost (stripZone host) = Inr hb" "buf = hb @ PutUint16 (of_int i)"
    using assms(1,2) by (auto simp: encodeAddress_def split: option.splits if_splits sum.splits)
  define p where "p = nat i"
  have p: "Atoi port = Some (int p)" "p < 65536" "of_int i = (of_nat p :: u16)" using i by (simp_all add: p_def)
  have hb: "hb = [hd hb] @ tl hb" using encodeHost_Cons [OF i(4)] by simp
  have "ReadFull 1 (r\<lparr>rdata := [hd hb] @ tl hb @ PutUint16 (of_nat p) @ rest\<rparr>) = (Inr [hd hb], r\<lparr>rdata := tl hb @ PutUint16 (of_nat p) @ rest\<rparr>)"
    by (rule ReadFull_append) simp
  moreover have "ReadFull 2 (r\<lparr>rdata := PutUint16 (of_nat p) @ rest\<rparr>) = (Inr (PutUint16 (of_nat p)), r\<lparr>rdata := rest\<rparr>)"
    by (rule ReadFull_append) simp
  moreover have "buf @ rest = [hd hb] @ tl hb @ PutUint16 (of_nat p) @ rest" "hd buf = hd hb" using hb i(5) p(3) by (metis append.assoc, metis append.assoc append_Cons list.sel(1))
  ultimately show ?thesis
    using readHost_encodeHost [OF i(4) assms(3), where r = r and rest = "PutUint16 (of_nat p) @ rest"] p by (simp add: ReadAddress_def)
qed

lemma encodeHost_length: "encodeHost h = Inr b \<Longrightarrow> length b \<le> 257"
  using ParseIP_length [of h] by (auto simp: encodeHost_def To4_def To16_def split: option.splits if_splits)

lemma encodeAddress_length: "encodeAddress a = Inr b \<Longrightarrow> length b \<le> 259"
  by (auto simp: encodeAddress_def dest!: encodeHost_length split: sum.splits option.splits if_splits)

section \<open>Properties\<close>

lemma no_zone: "CHR ''%'' \<notin> set host \<Longrightarrow> stripZone host = host"
proof -
  assume "CHR ''%'' \<notin> set host"
  then have "IndexByte host (CHR ''%'') = None" by (induction host) auto
  then show ?thesis by (simp add: stripZone_def)
qed

text \<open>
  Property C12: what \<open>WriteAddress\<close> sends for an address with a host, \<open>ReadAddress\<close> reads back, consuming
  exactly those bytes: the port, the IP address if the host is one, and the host in canonical form.
\<close>

theorem address_roundtrip:
  assumes "WriteAddress \<lparr>sent = [], script = []\<rparr> addr = (None, w)"
    and "SplitHostPort addr = Inr (host, port)" "stripZone host \<noteq> []"
  shows "\<exists>p ty. Atoi port = Some (int p) \<and> p < 65536 \<and>
    ReadAddress \<lparr>rdata = sent w @ rest, rterm = e\<rparr> =
      (Inr (JoinHostPort (canonicalHost (stripZone host)) (Itoa p), ty, hostIP (stripZone host)), \<lparr>rdata = rest, rterm = e\<rparr>)"
proof -
  obtain buf where "encodeAddress addr = Inr buf" "sent w = buf"
    using assms(1) by (auto simp: WriteAddress_def conn_write_def split: sum.splits)
  then show ?thesis
    using ReadAddress_encode [OF assms(2) _ assms(3), where r = "\<lparr>rdata = [], rterm = e\<rparr>" and rest = rest] by auto
qed

theorem address_roundtrip_witness:
  "\<exists>typ. ReadAddress \<lparr>rdata = sent (snd (WriteAddress \<lparr>sent = [], script = []\<rparr> ''[::1%eth0]:80'')) @ [9], rterm = EOF\<rparr> =
    (Inr (''[::1]:80'', typ, Some [0, 0, 0, 0, 0, 0, 0, 0, 0, 0, 0, 0, 0, 0, 0, 1]), \<lparr>rdata = [9], rterm = EOF\<rparr>)"
proof -
  have w: "WriteAddress \<lparr>sent = [], script = []\<rparr> ''[::1%eth0]:80'' =
      (None, \<lparr>sent = [4, 0, 0, 0, 0, 0, 0, 0, 0, 0, 0, 0, 0, 0, 0, 0, 1, 0, 80], script = []\<rparr>)"
    by code_simp
  have s: "SplitHostPort ''[::1%eth0]:80'' = Inr (''::1%eth0'', ''80'')" "stripZone ''::1%eth0'' = ''::1''"
    by code_simp+
  have c: "canonicalHost ''::1'' = ''::1''" "hostIP ''::1'' = Some [0, 0, 0, 0, 0, 0, 0, 0, 0, 0, 0, 0, 0, 0, 0, 1]"
    "Atoi ''80'' = Some 80" by code_simp+
  obtain p ty where "int p = 80" "ReadAddress \<lparr>rdata = sent (snd (WriteAddress \<lparr>sent = [], script = []\<rparr> ''[::1%eth0]:80'')) @ [9], rterm = EOF\<rparr> =
      (Inr (JoinHostPort (canonicalHost ''::1'') (Itoa p), ty, hostIP ''::1''), \<lparr>rdata = [9], rterm = EOF\<rparr>)"
    using address_roundtrip [OF w s(1), of "[9]" EOF] c(3) unfolding w s(2) by auto
  moreover from this(1) have "p = 80" by simp
  moreover have "JoinHostPort ''::1'' (Itoa 80) = ''[::1]:80''" by code_simp
  ultimately show ?thesis using c by auto
qed

text \<open>
  Canonical addresses: an IPv4 address in dotted form, or a domain name of at most 255 bytes that is not an IP
  literal, with a port in decimal.
\<close>

definition canonical_host :: "string \<Rightarrow> bool" where
  "canonical_host host \<longleftrightarrow> (\<exists>ip. length ip = 4 \<and> host = IP4_String ip) \<or>
    (ParseIP host = None \<and> host \<noteq> [] \<and> length host \<le> 255 \<and> set host \<inter> {CHR ''['', CHR '']'', CHR ''%''} = {})"

lemma canonical_encode:
  assumes "p < 65536" "canonical_host host"
  shows "\<exists>buf ty ip. encodeAddress (JoinHostPort host (Itoa p)) = Inr buf \<and> buf \<noteq> []
    \<and> ReadAddress (reader_of buf) = (Inr (JoinHostPort host (Itoa p), ty, ip), reader_of [])"
proof -
  have h: "host \<noteq> [] \<and> set host \<inter> {CHR ''['', CHR '']'', CHR ''%''} = {} \<and> canonicalHost host = host \<and> (\<exists>hb. encodeHost host = Inr hb)"
    using assms(2) [unfolded canonical_host_def]
  proof
    assume "\<exists>ip. length ip = 4 \<and> host = IP4_String ip"
    then obtain ip where ip: "length ip = 4" "host = IP4_String ip" by blast
    have "set host \<inter> {CHR ''['', CHR '']'', CHR ''%''} = {}" using set_IP4_String [of ip] ip(2) by (auto simp: is_digit_def)
    then show ?thesis using ip ParseIP_IP4 [OF ip(1)]
      by (auto simp: canonicalHost_def encodeHost_def To4_def IP_String_def v4InV6Prefix_def IP4_String_def)
  qed (auto simp: canonicalHost_def encodeHost_def)
  then have z: "stripZone host = host" by (intro no_zone) auto
  have s: "SplitHostPort (JoinHostPort host (Itoa p)) = Inr (host, Itoa p)" by (rule SplitHostPort_canonical) (use h in auto)
  have a: "Atoi (Itoa p) = Some (int p)" using assms(1) by (simp add: Atoi_Itoa)
  obtain hb where hb: "encodeHost host = Inr hb" using h by blast
  then have e: "encodeAddress (JoinHostPort host (Itoa p)) = Inr (hb @ PutUint16 (of_nat p))"
    using s a z assms(1) by (simp add: encodeAddress_def)
  show ?thesis
    using ReadAddress_encode [OF s e, where r = "reader_of []" and rest = "[]"] a z h e encodeHost_Cons [OF hb]
    by (auto simp: reader_of_def)
qed

text \<open>
  The empty host is the one that does not travel: \<open>WriteAddress\<close> accepts \<open>:port\<close> and sends a
  domain of length 0, which \<open>ReadAddress\<close> refuses.
\<close>

theorem address_empty_host:
  assumes "p < 65536"
  shows "\<exists>w. WriteAddress \<lparr>sent = [], script = []\<rparr> (CHR '':'' # Itoa p) = (None, w)
    \<and> fst (ReadAddress (reader_of (sent w))) = Inl (ErrMsg ''invalid domain length'')"
proof -
  have s: "SplitHostPort (CHR '':'' # Itoa p) = Inr ([], Itoa p)"
    using SplitHostPort_canonical [of "[]" p] by (simp add: JoinHostPort_def)
  have a: "Atoi (Itoa p) = Some (int p)" using assms by (simp add: Atoi_Itoa)
  have "encodeAddress (CHR '':'' # Itoa p) = Inr ([AddrTypeDomain, 0] @ PutUint16 (of_nat p))"
    using s a assms by (simp add: encodeAddress_def encodeHost_def ParseIP_def stripZone_def bytes_of_def)
  moreover have "fst (ReadAddress (reader_of ([AddrTypeDomain, 0] @ b))) = Inl (ErrMsg ''invalid domain length'')" for b
    by (simp add: ReadAddress_def readHost_def reader_of_def ReadFull_def AddrType_defs)
  ultimately show ?thesis by (simp add: WriteAddress_def conn_write_def)
qed

theorem address_empty_host_witness:
  "\<exists>w. WriteAddress \<lparr>sent = [], script = []\<rparr> '':80'' = (None, w)
    \<and> fst (ReadAddress (reader_of (sent w))) = Inl (ErrMsg ''invalid domain length'')"
proof -
  have "CHR '':'' # Itoa 80 = '':80''" by code_simp
  then show ?thesis using address_empty_host [of 80] by simp
qed

end
