(* ===== verification/Kip.thy ===== *)
theory Kip
  imports Framing Address
begin

text \<open>
  The KIP control messages (\<open>internal/tunnel/kip.go\<close>, \<open>kip_cmd.go\<close>). SHA-256 is a parameter. A nil
  connection is not represented. A time is its
  Unix seconds, a signed 64-bit integer.
\<close>

definition kipMagic :: string where "kipMagic = ''kip''"

definition KIPTypeClientHello :: byte where "KIPTypeClientHello = 0x01"
definition KIPTypeServerHello :: byte where "KIPTypeServerHello = 0x02"
definition KIPTypeOpenTCP :: byte where "KIPTypeOpenTCP = 0x10"
definition KIPTypeStartMux :: byte where "KIPTypeStartMux = 0x11"
definition KIPTypeStartUoT :: byte where "KIPTypeStartUoT = 0x12"
definition KIPTypeStartRev :: byte where "KIPTypeStartRev = 0x13"
definition KIPTypeKeepAlive :: byte where "KIPTypeKeepAlive = 0x14"

definition KIPFeatAll :: u32 where
  "KIPFeatAll = push_bit 0 1 OR push_bit 1 1 OR push_bit 2 1 OR push_bit 3 1 OR push_bit 4 1"

definition kipHelloUserHashSize :: nat where "kipHelloUserHashSize = 8"
definition kipHelloNonceSize :: nat where "kipHelloNonceSize = 16"
definition kipHelloPubSize :: nat where "kipHelloPubSize = 32"
definition kipMaxPayload :: nat where "kipMaxPayload = 64 * 1024"
definition kipClientHelloTableHintSize :: nat where "kipClientHelloTableHintSize = 4"

lemmas kip_sizes = kipHelloUserHashSize_def kipHelloNonceSize_def kipHelloPubSize_def kipMaxPayload_def
  kipClientHelloTableHintSize_def

record KIPMessage =
  msgType :: byte
  Payload :: bytes

definition kipHeader :: "byte \<Rightarrow> bytes \<Rightarrow> bytes" where
  "kipHeader ty payload = bytes_of kipMagic @ [ty] @ PutUint16 (of_nat (length payload))"

text \<open>
  The two operations over any connection, given its \<open>WriteFull\<close> and \<open>io.ReadFull\<close>; on a plain byte
  stream they are \<open>WriteKIPMessage\<close> and \<open>ReadKIPMessage\<close>.
\<close>

definition writeKIP :: "('s \<Rightarrow> bytes \<Rightarrow> go_error option \<times> 's) \<Rightarrow> 's \<Rightarrow> byte \<Rightarrow> bytes \<Rightarrow> go_error option \<times> 's" where
  "writeKIP wfl w ty payload =
    (if kipMaxPayload < length payload then (Some (ErrMsg ''kip protocol error: payload too large''), w)
     else
       (case wfl w (kipHeader ty payload) of
          (Some e, w1) \<Rightarrow> (Some e, w1)
        | (None, w1) \<Rightarrow> if payload = [] then (None, w1) else wfl w1 payload))"

definition readKIP :: "(nat \<Rightarrow> 's \<Rightarrow> bytes result \<times> 's) \<Rightarrow> 's \<Rightarrow> KIPMessage result \<times> 's" where
  "readKIP rf r =
    (case rf 6 r of
       (Inl e, r1) \<Rightarrow> (Inl e, r1)
     | (Inr hdr, r1) \<Rightarrow>
       if string_of (take 3 hdr) \<noteq> kipMagic then (Inl (ErrMsg ''kip protocol error: bad magic''), r1)
       else
         let n = unat (Uint16 (drop 4 hdr)) in
         if kipMaxPayload < n then (Inl (ErrMsg ''kip protocol error: invalid payload length''), r1)
         else if 0 < n then
           (case rf n r1 of
              (Inl e, r2) \<Rightarrow> (Inl e, r2)
            | (Inr payload, r2) \<Rightarrow> (Inr \<lparr>msgType = hdr ! 3, Payload = payload\<rparr>, r2))
         else (Inr \<lparr>msgType = hdr ! 3, Payload = []\<rparr>, r1))"

definition WriteKIPMessage :: "writer \<Rightarrow> byte \<Rightarrow> bytes \<Rightarrow> go_error option \<times> writer" where
  "WriteKIPMessage w ty payload = writeKIP WriteFull w ty payload"

definition ReadKIPMessage :: "reader \<Rightarrow> KIPMessage result \<times> reader" where
  "ReadKIPMessage r = readKIP ReadFull r"

section \<open>Hello messages\<close>

record KIPClientHello =
  Timestamp :: u64
  UserHash :: bytes
  Nonce :: bytes
  ClientPub :: bytes
  Features :: u32
  TableHint :: u32
  HasTableHint :: bool

record KIPServerHello =
  SNonce :: bytes
  ServerPub :: bytes
  SelectedFeats :: u32

definition kipUserHashFromPrivateKey :: "(bytes \<Rightarrow> bytes) \<Rightarrow> bytes \<Rightarrow> string \<Rightarrow> bytes" where
  "kipUserHashFromPrivateKey sha256 privateKey fallbackPSK =
    (if 0 < length privateKey then take kipHelloUserHashSize (sha256 privateKey)
     else take kipHelloUserHashSize (sha256 (bytes_of (TrimSpace fallbackPSK))))"

definition hexByte :: "byte \<Rightarrow> string" where
  "hexByte b = [hex_char (unat b div 16), hex_char (unat b mod 16)]"

definition kipUserHashHex :: "bytes \<Rightarrow> string" where
  "kipUserHashHex userHash = concat (map hexByte userHash)"

definition EncodeClientHello :: "KIPClientHello \<Rightarrow> bytes" where
  "EncodeClientHello m =
    PutUint64 (Timestamp m) @ UserHash m @ Nonce m @ ClientPub m @ PutUint32 (Features m)
    @ (if HasTableHint m then PutUint32 (TableHint m) else [])"

definition slice :: "bytes \<Rightarrow> nat \<Rightarrow> nat \<Rightarrow> bytes" where
  "slice b off n = take n (drop off b)"

definition DecodeKIPClientHelloPayload :: "bytes \<Rightarrow> KIPClientHello result" where
  "DecodeKIPClientHelloPayload payload =
    (let minLen = 8 + kipHelloUserHashSize + kipHelloNonceSize + kipHelloPubSize + 4 in
     if length payload < minLen then Inl (ErrMsg ''kip protocol error: client hello too short'')
     else
       let off1 = 8; off2 = off1 + kipHelloUserHashSize; off3 = off2 + kipHelloNonceSize;
           off4 = off3 + kipHelloPubSize; off5 = off4 + 4;
           hinted = (off5 + kipClientHelloTableHintSize \<le> length payload)
       in Inr \<lparr>Timestamp = Uint64 (take 8 payload), UserHash = slice payload off1 kipHelloUserHashSize,
               Nonce = slice payload off2 kipHelloNonceSize, ClientPub = slice payload off3 kipHelloPubSize,
               Features = Uint32 (slice payload off4 4),
               TableHint = (if hinted then Uint32 (slice payload off5 kipClientHelloTableHintSize) else 0),
               HasTableHint = hinted\<rparr>)"

definition EncodeServerHello :: "KIPServerHello \<Rightarrow> bytes" where
  "EncodeServerHello m = SNonce m @ ServerPub m @ PutUint32 (SelectedFeats m)"

definition DecodeKIPServerHelloPayload :: "bytes \<Rightarrow> KIPServerHello result" where
  "DecodeKIPServerHelloPayload payload =
    (if length payload \<noteq> kipHelloNonceSize + kipHelloPubSize + 4 then Inl (ErrMsg ''kip protocol error: server hello bad len'')
     else Inr \<lparr>SNonce = slice payload 0 kipHelloNonceSize, ServerPub = slice payload kipHelloNonceSize kipHelloPubSize,
               SelectedFeats = Uint32 (slice payload (kipHelloNonceSize + kipHelloPubSize) 4)\<rparr>)"

definition writeKIPOpenTCP :: "writer \<Rightarrow> string \<Rightarrow> go_error option \<times> writer" where
  "writeKIPOpenTCP w addr =
    (case WriteAddress \<lparr>sent = [], script = []\<rparr> addr of
       (Some e, b) \<Rightarrow> (Some (ErrMsg ''encode address failed''), w)
     | (None, b) \<Rightarrow> WriteKIPMessage w KIPTypeOpenTCP (sent b))"

section \<open>The message format\<close>

definition kip_wire :: "KIPMessage \<Rightarrow> bytes" where
  "kip_wire x = kipHeader (msgType x) (Payload x) @ Payload x"

lemma kipHeader_parts:
  "length (kipHeader ty p) = 6" "string_of (take 3 (kipHeader ty p)) = kipMagic"
  "kipHeader ty p ! 3 = ty" "drop 4 (kipHeader ty p) = PutUint16 (of_nat (length p))"
proof -
  have "length kipMagic = 3" by (simp add: kipMagic_def)
  then show "length (kipHeader ty p) = 6" "string_of (take 3 (kipHeader ty p)) = kipMagic"
    "kipHeader ty p ! 3 = ty" "drop 4 (kipHeader ty p) = PutUint16 (of_nat (length p))"
    by (simp_all add: kipHeader_def nth_append)
qed

lemma ReadKIPMessage_wire:
  assumes "length (Payload x) < 65536"
  shows "ReadKIPMessage (r\<lparr>rdata := kip_wire x @ rest\<rparr>) = (Inr x, r\<lparr>rdata := rest\<rparr>)"
proof -
  have h: "ReadFull 6 (r\<lparr>rdata := kipHeader (msgType x) (Payload x) @ Payload x @ rest\<rparr>) =
      (Inr (kipHeader (msgType x) (Payload x)), r\<lparr>rdata := Payload x @ rest\<rparr>)"
    by (rule ReadFull_append) (simp add: kipHeader_parts)
  have p: "ReadFull (length (Payload x)) (r\<lparr>rdata := Payload x @ rest\<rparr>) = (Inr (Payload x), r\<lparr>rdata := rest\<rparr>)"
    by (rule ReadFull_append) simp
  show ?thesis
    using h p assms by (cases x) (simp add: ReadKIPMessage_def readKIP_def kip_wire_def kipHeader_parts kip_sizes Let_def)
qed

interpretation kip: framing kip_wire "\<lambda>x. length (Payload x) < 65536" ReadKIPMessage
  by unfold_locales (simp_all add: ReadKIPMessage_wire, simp add: ReadKIPMessage_def readKIP_def ReadFull_def)

lemma WriteKIPMessage_open:
  assumes "script w = []" "length p \<le> kipMaxPayload"
  shows "WriteKIPMessage w ty p = (None, w\<lparr>sent := sent w @ kip_wire \<lparr>msgType = ty, Payload = p\<rparr>\<rparr>)"
  using assms by (simp add: WriteKIPMessage_def writeKIP_def WriteFull_open kip_wire_def)

section \<open>Hello round trips\<close>

definition hello_ok :: "KIPClientHello \<Rightarrow> bool" where
  "hello_ok h \<longleftrightarrow> length (UserHash h) = 8 \<and> length (Nonce h) = 16 \<and> length (ClientPub h) = 32
    \<and> (\<not> HasTableHint h \<longrightarrow> TableHint h = 0)"

lemma slice_skip: "length a = off \<Longrightarrow> length b = n \<Longrightarrow> slice (a @ b @ c) off n = b"
  by (simp add: slice_def)

lemma DecodeClientHello_Encode:
  assumes "hello_ok h"
  shows "DecodeKIPClientHelloPayload (EncodeClientHello h) = Inr h"
proof -
  let ?t = "if HasTableHint h then PutUint32 (TableHint h) else []"
  let ?e = "EncodeClientHello h"
  have len: "length (UserHash h) = 8" "length (Nonce h) = 16" "length (ClientPub h) = 32"
    using assms by (simp_all add: hello_ok_def)
  have s1: "slice ?e 8 8 = UserHash h" "slice ?e 16 16 = Nonce h" "slice ?e 32 32 = ClientPub h" "slice ?e 64 4 = PutUint32 (Features h)"
    "HasTableHint h \<Longrightarrow> slice ?e 68 4 = PutUint32 (TableHint h)" "length ?e = 68 + length ?t" "Uint64 (take 8 ?e) = Timestamp h"
    using len by (simp_all add: EncodeClientHello_def slice_def)
  show ?thesis
    using s1 assms by (cases h) (simp add: DecodeKIPClientHelloPayload_def kip_sizes hello_ok_def Let_def)
qed

lemma DecodeServerHello_Encode:
  assumes "length (SNonce h) = 16" "length (ServerPub h) = 32"
  shows "DecodeKIPServerHelloPayload (EncodeServerHello h) = Inr h"
  using assms by (cases h) (simp add: DecodeKIPServerHelloPayload_def EncodeServerHello_def kip_sizes slice_def)

lemma take_slice: "slice b 0 n @ drop n b = b" by (simp add: slice_def)

text \<open>The server hello has no slack: every accepted payload is the encoding of what it decodes to.\<close>

lemma EncodeServerHello_Decode:
  assumes "DecodeKIPServerHelloPayload b = Inr h"
  shows "EncodeServerHello h = b"
proof -
  have l: "length b = 52" "h = \<lparr>SNonce = slice b 0 16, ServerPub = slice b 16 32, SelectedFeats = Uint32 (slice b 48 4)\<rparr>"
    using assms by (auto simp: DecodeKIPServerHelloPayload_def kip_sizes split: if_splits)
  have "PutUint32 (Uint32 (slice b 48 4)) = drop 48 b" using l(1) Put_Uint32 [of "drop 48 b"] by (simp add: slice_def)
  moreover have "slice b 0 16 @ slice b 16 32 @ drop 48 b = b"
    using append_take_drop_id [of 32 "drop 16 b"] append_take_drop_id [of 16 b] by (simp add: slice_def)
  ultimately show ?thesis using l(2) by (simp add: EncodeServerHello_def)
qed

section \<open>Properties\<close>

definition writeMsgs :: "KIPMessage list \<Rightarrow> writer \<Rightarrow> writer" where
  "writeMsgs xs w = fold (\<lambda>x w. snd (WriteKIPMessage w (msgType x) (Payload x))) xs w"

lemma writeMsgs_open:
  "script w = [] \<Longrightarrow> list_all (\<lambda>x. length (Payload x) \<le> kipMaxPayload) xs \<Longrightarrow>
    writeMsgs xs w = w\<lparr>sent := sent w @ concat (map kip_wire xs)\<rparr>"
proof (induction xs arbitrary: w)
  case (Cons x xs)
  then show ?case using WriteKIPMessage_open [of w "Payload x" "msgType x"] by (cases x) (simp add: writeMsgs_def)
qed (simp add: writeMsgs_def)

text \<open>
  Property C16: KIP messages with payloads of up to 65535 bytes, written one after the other, are read back in
  order, and the reader then sees the end of the stream.
\<close>

theorem kip_stream_roundtrip:
  assumes "list_all (\<lambda>x. length (Payload x) < 65536) xs"
  shows "readMsgs ReadKIPMessage (Suc (length xs)) (reader_of (sent (writeMsgs xs \<lparr>sent = [], script = []\<rparr>))) = (xs, Some EOF)"
proof -
  have "list_all (\<lambda>x. length (Payload x) \<le> kipMaxPayload) xs" using assms by (auto simp: list_all_iff kip_sizes)
  then show ?thesis using kip.read_stream [OF assms, of "reader_of []"] writeMsgs_open [of "\<lparr>sent = [], script = []\<rparr>" xs]
    by (simp add: reader_of_def)
qed

theorem kip_stream_roundtrip_witness:
  "readMsgs ReadKIPMessage 3 (reader_of (sent (writeMsgs [\<lparr>msgType = 0x11, Payload = []\<rparr>, \<lparr>msgType = 0x10, Payload = [1, 2]\<rparr>]
     \<lparr>sent = [], script = []\<rparr>))) = ([\<lparr>msgType = 0x11, Payload = []\<rparr>, \<lparr>msgType = 0x10, Payload = [1, 2]\<rparr>], Some EOF)"
proof -
  let ?xs = "[\<lparr>msgType = 0x11, Payload = []\<rparr>, \<lparr>msgType = 0x10, Payload = [1, 2]\<rparr>]"
  have "Suc (length ?xs) = 3" "list_all (\<lambda>x. length (Payload x) < 65536) ?xs" by simp_all
  then show ?thesis using kip_stream_roundtrip [of ?xs] by metis
qed



text \<open>
  The client hello is decoded to exactly what was encoded, with or without a table hint; the
  server hello likewise, and no other payload decodes to it.
\<close>

theorem hello_roundtrip:
  "(hello_ok h \<longrightarrow> DecodeKIPClientHelloPayload (EncodeClientHello h) = Inr h)
   \<and> (length (SNonce s) = 16 \<and> length (ServerPub s) = 32 \<longrightarrow> (DecodeKIPServerHelloPayload b = Inr s \<longleftrightarrow> b = EncodeServerHello s))"
  using DecodeClientHello_Encode DecodeServerHello_Encode EncodeServerHello_Decode by blast

theorem hello_roundtrip_witness:
  "DecodeKIPClientHelloPayload (EncodeClientHello \<lparr>Timestamp = 5, UserHash = replicate 8 1, Nonce = replicate 16 2, ClientPub = replicate 32 3,
      Features = 31, TableHint = 77, HasTableHint = True\<rparr>) = Inr \<lparr>Timestamp = 5, UserHash = replicate 8 1, Nonce = replicate 16 2,
      ClientPub = replicate 32 3, Features = 31, TableHint = 77, HasTableHint = True\<rparr>
   \<and> DecodeKIPServerHelloPayload (EncodeServerHello \<lparr>SNonce = replicate 16 2, ServerPub = replicate 32 3, SelectedFeats = 31\<rparr>)
      = Inr \<lparr>SNonce = replicate 16 2, ServerPub = replicate 32 3, SelectedFeats = 31\<rparr>"
  using hello_roundtrip [of "\<lparr>Timestamp = 5, UserHash = replicate 8 1, Nonce = replicate 16 2, ClientPub = replicate 32 3,
      Features = 31, TableHint = 77, HasTableHint = True\<rparr>" "\<lparr>SNonce = replicate 16 2, ServerPub = replicate 32 3, SelectedFeats = 31\<rparr>"]
  by (simp add: hello_ok_def)

text \<open>
  The target of an open request survives the trip: the server reads one \<open>OpenTCP\<close> message whose
  payload decodes to the client's address in canonical form, with no byte left over.
\<close>

theorem kip_open_target:
  assumes "writeKIPOpenTCP \<lparr>sent = [], script = []\<rparr> addr = (None, w)"
    and "SplitHostPort addr = Inr (host, port)" "stripZone host \<noteq> []"
  shows "\<exists>p ty ip payload. Atoi port = Some (int p)
    \<and> ReadKIPMessage (reader_of (sent w)) = (Inr \<lparr>msgType = KIPTypeOpenTCP, Payload = payload\<rparr>, reader_of [])
    \<and> ReadAddress (reader_of payload) = (Inr (JoinHostPort (canonicalHost (stripZone host)) (Itoa p), ty, ip), reader_of [])"
proof -
  obtain b where b: "encodeAddress addr = Inr b"
    using assms(1) by (auto simp: writeKIPOpenTCP_def WriteAddress_def conn_write_def split: sum.splits)
  then have w: "sent w = kip_wire \<lparr>msgType = KIPTypeOpenTCP, Payload = b\<rparr>"
    using assms(1) encodeAddress_length [OF b]
    by (auto simp: writeKIPOpenTCP_def WriteAddress_def conn_write_def WriteKIPMessage_open kip_sizes)
  have "ReadKIPMessage (reader_of (sent w)) = (Inr \<lparr>msgType = KIPTypeOpenTCP, Payload = b\<rparr>, reader_of [])"
    using ReadKIPMessage_wire [of "\<lparr>msgType = KIPTypeOpenTCP, Payload = b\<rparr>" "[]" "reader_of []"] encodeAddress_length [OF b] w
    by (simp add: reader_of_def)
  then show ?thesis
    using ReadAddress_encode [OF assms(2) b assms(3), where r = "reader_of []" and rest = "[]"] by (auto simp: reader_of_def)
qed

theorem kip_open_target_witness:
  "\<exists>p ty ip payload. Atoi ''80'' = Some (int p)
    \<and> ReadKIPMessage (reader_of (sent (snd (writeKIPOpenTCP \<lparr>sent = [], script = []\<rparr> ''a.io:80''))))
        = (Inr \<lparr>msgType = KIPTypeOpenTCP, Payload = payload\<rparr>, reader_of [])
    \<and> ReadAddress (reader_of payload) = (Inr (JoinHostPort (canonicalHost ''a.io'') (Itoa p), ty, ip), reader_of [])"
proof -
  have e: "encodeAddress ''a.io:80'' = Inr [3, 4, 97, 46, 105, 111, 0, 80]" by code_simp
  have w: "writeKIPOpenTCP \<lparr>sent = [], script = []\<rparr> ''a.io:80'' = (None, snd (writeKIPOpenTCP \<lparr>sent = [], script = []\<rparr> ''a.io:80''))"
    by (simp add: writeKIPOpenTCP_def WriteAddress_def conn_write_def e WriteKIPMessage_open kip_sizes)
  have "SplitHostPort ''a.io:80'' = Inr (''a.io'', ''80'')" "stripZone ''a.io'' = ''a.io''" by code_simp+
  then show ?thesis using kip_open_target [OF w, of "''a.io''" "''80''"] by simp
qed

end
