(* ===== verification/TableSelect.thy ===== *)
theory TableSelect
  imports Kip Table Bufio
begin

text \<open>
  How the server settles on a table: the client's hint (\<open>ResolveClientHelloTable\<close> of
  \<open>internal/tunnel/kip.go\<close>) and the probing of the candidates (\<open>internal/tunnel/table_probe.go\<close>). A table
  pointer is an index into a store of tables.
\<close>

section \<open>The table hint\<close>

fun findHinted :: "Table list \<Rightarrow> u32 \<Rightarrow> nat option list \<Rightarrow> nat option" where
  "findHinted ts h [] = None"
| "findHinted ts h (c # cs) = (if c = None \<or> Hint ts c \<noteq> h then findHinted ts h cs else c)"

definition ResolveClientHelloTable :: "Table list \<Rightarrow> nat option \<Rightarrow> nat option list \<Rightarrow> KIPClientHello option \<Rightarrow> nat result" where
  "ResolveClientHelloTable ts selected candidates hello =
    (case selected of
       None \<Rightarrow> Inl (ErrMsg ''nil selected table'')
     | Some s \<Rightarrow>
       (case hello of
          None \<Rightarrow> Inr s
        | Some h \<Rightarrow>
          if \<not> HasTableHint h then Inr s
          else if Hint ts selected = TableHint h then Inr s
          else if candidates = [] then Inl (ErrMsg ''no table candidates'')
          else
            (case findHinted ts (TableHint h) candidates of
               None \<Rightarrow> Inl (ErrMsg ''unknown table hint'')
             | Some k \<Rightarrow>
               if k \<noteq> s \<and> (\<not> IsASCII (ts ! k) \<or> \<not> IsASCII (ts ! s)) then Inl (ErrMsg ''table hint mismatches probed uplink table'')
               else Inr k)))"

lemma findHinted_Some:
  "findHinted ts h cs = Some k \<Longrightarrow> Some k \<in> set cs \<and> Hint ts (Some k) = h"
  by (induction ts h cs rule: findHinted.induct) (auto split: if_splits)

lemma findHinted_None: "findHinted ts h cs = None \<longleftrightarrow> (\<forall>k. Some k \<in> set cs \<longrightarrow> Hint ts (Some k) \<noteq> h)"
  by (induction ts h cs rule: findHinted.induct) auto

section \<open>Probing\<close>

datatype ObfsUplinkMode = ObfsUplinkPure | ObfsUplinkPacked

definition drainBuffered :: "bufio \<Rightarrow> bytes \<times> bufio" where
  "drainBuffered b = (buffered b, b\<lparr>buffered := []\<rparr>)"

definition isProbeNeedMore :: "go_error \<Rightarrow> bool" where
  "isProbeNeedMore e \<longleftrightarrow> e = EOF \<or> e = ErrUnexpectedEOF"

text \<open>
  One round over the candidates: the first that matches, or those that need more bytes. A probe answers nil
  (\<open>None\<close>) on a match.
\<close>

fun probeRound :: "(bytes \<Rightarrow> 'c \<Rightarrow> go_error option) \<Rightarrow> bytes \<Rightarrow> 'c list \<Rightarrow> 'c list \<Rightarrow> 'c + 'c list" where
  "probeRound probe pb [] nxt = Inr nxt"
| "probeRound probe pb (c # cs) nxt =
    (case probe pb c of
       None \<Rightarrow> Inl c
     | Some e \<Rightarrow> probeRound probe pb cs (if isProbeNeedMore e then nxt @ [c] else nxt))"

definition maxProbeBytes :: nat where "maxProbeBytes = 64 * 1024"
definition readChunk :: nat where "readChunk = 4 * 1024"

type_synonym 'c selection = "('c result) \<times> bytes \<times> bufio"

partial_function (option) selectLoop ::
  "(bytes \<Rightarrow> 'c \<Rightarrow> go_error option) \<Rightarrow> 'c list \<Rightarrow> bytes \<Rightarrow> bufio \<Rightarrow> 'c selection option" where
  "selectLoop probe candidates pb b =
    (case candidates of
       [c] \<Rightarrow> (case drainBuffered b of (tail, b') \<Rightarrow> Some (Inr c, pb @ tail, b'))
     | _ \<Rightarrow>
       (case probeRound probe pb candidates [] of
          Inl c \<Rightarrow> (case drainBuffered b of (tail, b') \<Rightarrow> Some (Inr c, pb @ tail, b'))
        | Inr nxt \<Rightarrow>
          if nxt = [] then Some (Inl (ErrMsg ''handshake table selection failed''), pb, b)
          else if maxProbeBytes \<le> length pb then Some (Inl (ErrMsg ''handshake probe exceeded''), pb, b)
          else
            (case bufio_Read readChunk b of (chunk, err, b') \<Rightarrow>
               (case err of
                  Some e \<Rightarrow> Some (Inl (ErrMsg ''handshake probe read failed''), pb @ chunk, b')
                | None \<Rightarrow> selectLoop probe nxt (pb @ chunk) b'))))"

definition selectProbeCandidates :: "bufio \<Rightarrow> 'c list \<Rightarrow> (bytes \<Rightarrow> 'c \<Rightarrow> go_error option) \<Rightarrow> 'c selection option" where
  "selectProbeCandidates b candidates probe =
    (if candidates = [] then Some (Inl (ErrMsg ''no table candidates''), [], b)
     else case drainBuffered b of (pb, b1) \<Rightarrow> selectLoop probe candidates pb b1)"

definition expandCandidates :: "nat option list \<Rightarrow> (nat \<times> ObfsUplinkMode) list" where
  "expandCandidates tables = concat (map (\<lambda>t. case t of None \<Rightarrow> [] | Some i \<Rightarrow> [(i, ObfsUplinkPure), (i, ObfsUplinkPacked)]) tables)"

definition SelectHandshakeObfsByProbe ::
  "bufio \<Rightarrow> nat option list \<Rightarrow> (bytes \<Rightarrow> nat \<Rightarrow> ObfsUplinkMode \<Rightarrow> go_error option) \<Rightarrow> (nat \<times> ObfsUplinkMode) selection option" where
  "SelectHandshakeObfsByProbe b tables probe =
    (let expanded = expandCandidates tables in
     if expanded = [] then Some (Inl (ErrMsg ''no table candidates''), [], b)
     else selectProbeCandidates b expanded (\<lambda>pb (t, mode). probe pb t mode))"

lemma probeRound_cases:
  "probeRound probe pb cs nxt = r \<Longrightarrow>
    (case r of Inl c \<Rightarrow> c \<in> set cs \<and> probe pb c = None
     | Inr xs \<Rightarrow> xs = nxt @ filter (\<lambda>c. case probe pb c of None \<Rightarrow> False | Some e \<Rightarrow> isProbeNeedMore e) cs
         \<and> (\<forall>c\<in>set cs. probe pb c \<noteq> None))"
  by (induction probe pb cs nxt arbitrary: r rule: probeRound.induct) (force split: option.splits sum.splits)+

lemma drainBuffered_wire: "drainBuffered b = (t, b') \<Longrightarrow> wire b = t @ wire b' \<and> (bufio_ok b \<longrightarrow> bufio_ok b')"
  by (auto simp: drainBuffered_def wire_def bufio_ok_def)

text \<open>
  The selection loop returns, keeps every byte it took from the connection, and picks the candidate that
  is compatible with every prefix when no other one is ever accepted.
\<close>

definition compatible :: "(bytes \<Rightarrow> 'c \<Rightarrow> go_error option) \<Rightarrow> 'c \<Rightarrow> bool" where
  "compatible probe c \<longleftrightarrow> (\<forall>p. probe p c = None \<or> probe p c = Some EOF \<or> probe p c = Some ErrUnexpectedEOF)"

definition only_match :: "(bytes \<Rightarrow> 'c \<Rightarrow> go_error option) \<Rightarrow> 'c list \<Rightarrow> 'c \<Rightarrow> bool" where
  "only_match probe cs c0 \<longleftrightarrow> c0 \<in> set cs \<and> compatible probe c0 \<and> (\<forall>p d. d \<in> set cs \<and> d \<noteq> c0 \<longrightarrow> probe p d \<noteq> None)"

lemma selectLoop_complete:
  assumes "bufio_ok b"
  shows "\<exists>r pb' b'. selectLoop probe cs pb b = Some (r, pb', b') \<and> pb' @ wire b' = pb @ wire b \<and> bufio_ok b'
    \<and> (\<forall>c. r = Inr c \<longrightarrow> c \<in> set cs)
    \<and> (\<forall>c0 c. only_match probe cs c0 \<longrightarrow> r = Inr c \<longrightarrow> c = c0)"
  using assms
proof (induction "pull_measure b" arbitrary: b cs pb rule: less_induct)
  case less
  obtain t b1 where dr: "drainBuffered b = (t, b1)" by (metis surj_pair)
  note dw = drainBuffered_wire [OF dr]
  show ?case
  proof (cases "\<exists>c. cs = [c]")
    case True
    then show ?thesis using dr dw less.prems by (auto simp: selectLoop.simps only_match_def)
  next
    case False
    then have unf: "selectLoop probe cs pb b =
        (case probeRound probe pb cs [] of
          Inl c \<Rightarrow> (case drainBuffered b of (tail, b') \<Rightarrow> Some (Inr c, pb @ tail, b'))
        | Inr nxt \<Rightarrow>
          if nxt = [] then Some (Inl (ErrMsg ''handshake table selection failed''), pb, b)
          else if maxProbeBytes \<le> length pb then Some (Inl (ErrMsg ''handshake probe exceeded''), pb, b)
          else
            (case bufio_Read readChunk b of (chunk, err, b') \<Rightarrow>
               (case err of
                  Some e \<Rightarrow> Some (Inl (ErrMsg ''handshake probe read failed''), pb @ chunk, b')
                | None \<Rightarrow> selectLoop probe nxt (pb @ chunk) b')))"
      by (simp add: selectLoop.simps [of probe cs] split: list.splits)
    show ?thesis
    proof (cases "probeRound probe pb cs []")
      case (Inl c)
      then have c: "c \<in> set cs" "probe pb c = None" using probeRound_cases [OF Inl] by auto
      then have "only_match probe cs c0 \<longrightarrow> c = c0" for c0 unfolding only_match_def by blast
      then show ?thesis using Inl unf dr dw less.prems c(1) by simp
    next
      case (Inr nxt)
      have nxt: "nxt = filter (\<lambda>c. case probe pb c of None \<Rightarrow> False | Some e \<Rightarrow> isProbeNeedMore e) cs"
        "\<forall>c\<in>set cs. probe pb c \<noteq> None" using probeRound_cases [OF Inr] by auto
      obtain chunk err b2 where rd: "bufio_Read readChunk b = (chunk, err, b2)" by (metis surj_pair)
      have w: "wire b = chunk @ wire b2" "bufio_ok b2"
        using bufio_Read_wire [OF rd] bufio_Read_ok [OF rd] less.prems by auto
      show ?thesis
      proof (cases "nxt = [] \<or> maxProbeBytes \<le> length pb \<or> err \<noteq> None")
        case True
        then show ?thesis using unf Inr rd w less.prems by (cases "nxt = []"; cases "maxProbeBytes \<le> length pb") auto
      next
        case go: False
        then have "pull_measure b2 < pull_measure b"
          using bufio_Read_shrinks [of readChunk b chunk b2] rd less.prems by (simp add: readChunk_def)
        from less.hyps [OF this w(2), of nxt "pb @ chunk"] obtain r pb' b' where ih:
          "selectLoop probe nxt (pb @ chunk) b2 = Some (r, pb', b')" "pb' @ wire b' = (pb @ chunk) @ wire b2" "bufio_ok b'"
          "\<forall>c. r = Inr c \<longrightarrow> c \<in> set nxt"
          "\<forall>c0 c. only_match probe nxt c0 \<longrightarrow> r = Inr c \<longrightarrow> c = c0" by blast
        have sub: "set nxt \<subseteq> set cs" using nxt(1) by auto
        have keep: "only_match probe nxt c0" if o: "only_match probe cs c0" for c0
        proof -
          have "probe pb c0 = Some EOF \<or> probe pb c0 = Some ErrUnexpectedEOF"
            using o nxt(2) unfolding only_match_def compatible_def by blast
          then have "c0 \<in> set nxt" using o nxt(1) by (auto simp: isProbeNeedMore_def only_match_def)
          then show ?thesis using o sub by (auto simp: only_match_def)
        qed
        have "selectLoop probe cs pb b = Some (r, pb', b')" using unf Inr rd go ih(1) by simp
        moreover have "\<forall>c0 c. only_match probe cs c0 \<longrightarrow> r = Inr c \<longrightarrow> c = c0" using ih(5) keep by blast
        ultimately show ?thesis using ih(2,3,4) w(1) sub by auto
      qed
    qed
  qed
qed

section \<open>Properties\<close>



text \<open>
  The table hint. Without a hint, or when the selected table carries it, the selected table is
  used; otherwise the first candidate with that hint, which must share an ASCII uplink with the selected
  one. A table that is returned for a hint always has this hint.
\<close>

theorem table_hint_resolution:
  "ResolveClientHelloTable ts (Some s) cands hello = r \<Longrightarrow>
    (case hello of
       None \<Rightarrow> r = Inr s
     | Some h \<Rightarrow>
         (\<not> HasTableHint h \<longrightarrow> r = Inr s)
         \<and> (HasTableHint h \<longrightarrow> (\<forall>k. r = Inr k \<longrightarrow> Hint ts (Some k) = TableHint h
               \<and> (k = s \<or> Some k \<in> set cands \<and> IsASCII (ts ! k) \<and> IsASCII (ts ! s))))
         \<and> (HasTableHint h \<and> Hint ts (Some s) \<noteq> TableHint h \<and> (\<forall>k. Some k \<in> set cands \<longrightarrow> Hint ts (Some k) \<noteq> TableHint h)
               \<longrightarrow> (\<exists>e. r = Inl e)))"
  by (auto simp: ResolveClientHelloTable_def findHinted_None dest: findHinted_Some split: option.splits if_splits)

theorem table_hint_resolution_witness:
  "ResolveClientHelloTable [] (Some 0) [] (Some \<lparr>Timestamp = 0, UserHash = [], Nonce = [], ClientPub = [], Features = 0,
      TableHint = 0, HasTableHint = False\<rparr>) = Inr 0"
  using table_hint_resolution [of "[]" 0 "[]" "Some \<lparr>Timestamp = 0, UserHash = [], Nonce = [], ClientPub = [], Features = 0,
      TableHint = 0, HasTableHint = False\<rparr>", OF refl] by simp

end
