(* ===== verification/ObfsConn.thy ===== *)
theory ObfsConn
  imports Directional TableSelect
begin

text \<open>
  The obfuscation layer of a connection (\<open>internal/tunnel/obfs_conn.go\<close>): which codec and which table each end
  uses for each direction. The raw connection is a writer and a feed of chunks; of the several objects built over it
  one reads and one writes.
\<close>

text \<open>A \<open>RecordingObfsConn\<close>: a classic or a packed connection.\<close>

datatype Codec = Classic Conn | Packed PackedConn

definition codec_Read :: "nat \<Rightarrow> Codec \<Rightarrow> (bytes result \<times> Codec) option" where
  "codec_Read n c =
    (case c of
       Classic sc \<Rightarrow> map_option (\<lambda>(r, sc'). (r, Classic sc')) (Conn_Read n sc)
     | Packed pc \<Rightarrow> map_option (\<lambda>(r, pc'). (r, Packed pc')) (Packed_Read n pc))"

definition codec_Write :: "bytes \<Rightarrow> Codec \<Rightarrow> nat \<times> go_error option \<times> Codec" where
  "codec_Write p c =
    (case c of
       Classic sc \<Rightarrow> (case Conn_Write p sc of (n, e, sc') \<Rightarrow> (n, e, Classic sc'))
     | Packed pc \<Rightarrow> (case Packed_Write p pc of (n, e, pc') \<Rightarrow> (n, e, Packed pc')))"

definition codec_StopRecording :: "Codec \<Rightarrow> Codec" where
  "codec_StopRecording c = (case c of Classic sc \<Rightarrow> Classic (StopRecording sc) | Packed pc \<Rightarrow> Packed (Packed_StopRecording pc))"

definition codec_GetBufferedAndRecorded :: "Codec \<Rightarrow> bytes" where
  "codec_GetBufferedAndRecorded c =
    (case c of Classic sc \<Rightarrow> GetBufferedAndRecorded sc | Packed pc \<Rightarrow> Packed_GetBufferedAndRecorded pc)"

text \<open>The writing end: a codec of the client or a downlink writer of the server.\<close>

datatype ObfsWriter = CodecWriter Codec | Downlink DownlinkWriter

definition writer_Write :: "bytes \<Rightarrow> ObfsWriter \<Rightarrow> nat \<times> go_error option \<times> ObfsWriter" where
  "writer_Write p w =
    (case w of
       CodecWriter c \<Rightarrow> (case codec_Write p c of (n, e, c') \<Rightarrow> (n, e, CodecWriter c'))
     | Downlink d \<Rightarrow> (case DownlinkWriter_Write p d of (n, e, d') \<Rightarrow> (n, e, Downlink d')))"

definition writer_Flush :: "ObfsWriter \<Rightarrow> go_error option \<times> ObfsWriter" where
  "writer_Flush w =
    (case w of
       CodecWriter (Packed pc) \<Rightarrow> (case Packed_Flush pc of (e, pc') \<Rightarrow> (e, CodecWriter (Packed pc')))
     | Downlink d \<Rightarrow> (case closeFlush d of (e, d') \<Rightarrow> (e, Downlink d'))
     | _ \<Rightarrow> (None, w))"

text \<open>The directional connection with its uplink mode (\<open>connWithObfsMeta\<close>).\<close>

record ObfsConn =
  obfsReader :: Codec
  obfsWriter :: ObfsWriter
  obfsClosers :: "(ObfsWriter \<Rightarrow> go_error option \<times> ObfsWriter) option list"
  uplinkPacked :: bool

definition SudokuUplinkPacked :: "ObfsConn option \<Rightarrow> bool" where
  "SudokuUplinkPacked c = (case c of None \<Rightarrow> False | Some oc \<Rightarrow> uplinkPacked oc)"

definition SwitchConnDownlinkWriter ::
  "ObfsWriter \<Rightarrow> (ObfsWriter \<Rightarrow> go_error option \<times> ObfsWriter) option list \<Rightarrow> ObfsConn \<Rightarrow> ObfsConn" where
  "SwitchConnDownlinkWriter w cs c = c\<lparr>obfsWriter := w, obfsClosers := cs\<rparr>"

definition tableAt :: "Table list \<Rightarrow> nat option \<Rightarrow> Table option" where
  "tableAt ts t = map_option (\<lambda>i. ts ! i) t"

definition buildClientObfsConnForMode ::
  "Table list \<Rightarrow> writer \<Rightarrow> feed \<Rightarrow> nat option \<Rightarrow> int \<Rightarrow> int \<Rightarrow> bool \<Rightarrow> ObfsUplinkMode \<Rightarrow> sudokuRand \<Rightarrow> sudokuRand \<Rightarrow> ObfsConn" where
  "buildClientObfsConnForMode ts w fd table pMin pMax pureDownlink mode s1 s2 =
    (let uplinkTable = tableAt ts table;
         downlinkTable = tableAt ts (OppositeDirection ts table);
         rd = (if pureDownlink then Classic (NewConn w fd downlinkTable pMin pMax False s1)
               else Packed (NewPackedConn w fd downlinkTable pMin pMax s1))
     in case mode of
          ObfsUplinkPacked \<Rightarrow>
            \<lparr>obfsReader = rd, obfsWriter = CodecWriter (Packed (NewPackedConn w fd uplinkTable pMin pMax s2)),
             obfsClosers = [Some writer_Flush], uplinkPacked = True\<rparr>
        | ObfsUplinkPure \<Rightarrow>
            \<lparr>obfsReader = rd, obfsWriter = CodecWriter (Classic (NewConn w fd uplinkTable pMin pMax False s2)),
             obfsClosers = [], uplinkPacked = False\<rparr>)"

definition buildServerObfsConnForMode ::
  "Table list \<Rightarrow> writer \<Rightarrow> feed \<Rightarrow> nat option \<Rightarrow> int \<Rightarrow> int \<Rightarrow> bool \<Rightarrow> ObfsUplinkMode \<Rightarrow> bool \<Rightarrow> sudokuRand \<Rightarrow> sudokuRand \<Rightarrow> ObfsConn" where
  "buildServerObfsConnForMode ts w fd table pMin pMax pureDownlink mode rec s1 s2 =
    (let uplink = (case mode of
           ObfsUplinkPacked \<Rightarrow> Packed (NewPackedConnWithRecord w fd (tableAt ts table) pMin pMax rec s1)
         | ObfsUplinkPure \<Rightarrow> Classic (NewConn w fd (tableAt ts table) pMin pMax rec s1));
         (downlink, cs) = NewServerDownlinkWriter w fd (tableAt ts (OppositeDirection ts table)) pMin pMax pureDownlink s2
     in \<lparr>obfsReader = uplink, obfsWriter = Downlink downlink, obfsClosers = (if cs = [] then [] else [Some writer_Flush]),
         uplinkPacked = (mode = ObfsUplinkPacked)\<rparr>)"

definition buildObfsConnForClient :: "Table list \<Rightarrow> writer \<Rightarrow> feed \<Rightarrow> nat option \<Rightarrow> int \<Rightarrow> int \<Rightarrow> bool \<Rightarrow> sudokuRand \<Rightarrow> sudokuRand \<Rightarrow> ObfsConn" where
  "buildObfsConnForClient ts w fd table pMin pMax pureDownlink s1 s2 =
    buildClientObfsConnForMode ts w fd table pMin pMax pureDownlink ObfsUplinkPure s1 s2"

definition buildReverseObfsConnForClient :: "Table list \<Rightarrow> writer \<Rightarrow> feed \<Rightarrow> nat option \<Rightarrow> int \<Rightarrow> int \<Rightarrow> bool \<Rightarrow> sudokuRand \<Rightarrow> sudokuRand \<Rightarrow> ObfsConn" where
  "buildReverseObfsConnForClient ts w fd table pMin pMax pureDownlink s1 s2 =
    buildClientObfsConnForMode ts w fd table pMin pMax pureDownlink ObfsUplinkPacked s1 s2"

section \<open>Both ends agree\<close>

fun codec_readAll :: "nat \<Rightarrow> nat \<Rightarrow> Codec \<Rightarrow> (bytes \<times> go_error) option" where
  "codec_readAll 0 n c = None"
| "codec_readAll (Suc k) n c =
    (case codec_Read n c of
       None \<Rightarrow> None
     | Some (Inl e, c') \<Rightarrow> Some ([], e)
     | Some (Inr out, c') \<Rightarrow> map_option (\<lambda>(bs, e). (out @ bs, e)) (codec_readAll k n c'))"

definition writer_sent :: "ObfsWriter \<Rightarrow> bytes" where
  "writer_sent w = (case w of CodecWriter (Classic sc) \<Rightarrow> sent (conn sc) | CodecWriter (Packed pc) \<Rightarrow> sent (pconn pc) | Downlink d \<Rightarrow> downlink_sent d)"

definition writer_writes :: "bytes list \<Rightarrow> ObfsWriter \<Rightarrow> ObfsWriter" where
  "writer_writes ps w = fold (\<lambda>p w. snd (snd (writer_Write p w))) ps w"

lemma codec_readAll_parts:
  "codec_readAll k n (Classic sc) = Conn_readAll k n sc" "codec_readAll k n (Packed pc) = Packed_readAll k n pc"
proof (induction k arbitrary: sc pc)
  case (Suc k)
  { case 1 show ?case using Suc by (simp add: codec_Read_def split: option.splits prod.splits sum.splits) }
  { case 2 show ?case using Suc by (simp add: codec_Read_def split: option.splits prod.splits sum.splits) }
qed simp_all

lemma writer_writes_parts:
  "writer_writes ps (CodecWriter (Classic sc)) = CodecWriter (Classic (Conn_writes ps sc))"
  "writer_writes ps (CodecWriter (Packed pc)) = CodecWriter (Packed (Packed_writes ps pc))"
  "writer_writes ps (Downlink d) = Downlink (downlink_writes ps d)"
  by (induction ps arbitrary: sc pc d)
    (simp_all add: writer_writes_def writer_Write_def codec_Write_def Conn_writes_def Packed_writes_def downlink_writes_def split: prod.splits)

text \<open>The uplink: a client's writer against a server's reader over the same table and mode.\<close>

lemma uplink_readable:
  assumes "t < length ts" "puzzle_table (ts ! t)"
    and "receives fd (writer_sent (writer_writes ps
      (obfsWriter (buildClientObfsConnForMode ts \<lparr>sent = [], script = []\<rparr> fd0 (Some t) pMin pMax pd mode s1 s2))))"
    and "0 < n" "length (concat ps) < k"
  shows "codec_readAll k n (obfsReader (buildServerObfsConnForMode ts w fd (Some t) a b pd mode rec s3 s4)) = Some (concat ps, EOF)"
proof (cases mode)
  case ObfsUplinkPure
  then show ?thesis
    using Conn_roundtrip [OF assms(2), of "NewConn \<lparr>sent = [], script = []\<rparr> fd0 (Some (ts ! t)) pMin pMax False s2" fd ps n k] assms
    by (simp add: buildClientObfsConnForMode_def buildServerObfsConnForMode_def writer_writes_parts writer_sent_def codec_readAll_parts
        tableAt_def NewConn_fields Let_def split: prod.splits)
next
  case ObfsUplinkPacked
  then show ?thesis
    using Packed_roundtrip [OF assms(2), of "NewPackedConnWithRecord \<lparr>sent = [], script = []\<rparr> fd0 (Some (ts ! t)) pMin pMax False s2" fd ps n k]
      NewPackedConn_sender [OF assms(2)] assms
    by (simp add: buildClientObfsConnForMode_def buildServerObfsConnForMode_def writer_writes_parts writer_sent_def codec_readAll_parts
        tableAt_def NewPackedConn_fields NewPackedConn_def Let_def split: prod.splits)
qed

text \<open>The downlink: a server's writer against a client's reader.\<close>

lemma downlink_matches:
  assumes "OppositeDirection ts (Some t) = Some j" "puzzle_table (ts ! j)"
    and "receives fd (writer_sent (writer_writes ps
      (obfsWriter (buildServerObfsConnForMode ts \<lparr>sent = [], script = []\<rparr> fd0 (Some t) pMin pMax pd mode rec s1 s2))))"
    and "0 < n" "length (concat ps) < k"
  shows "codec_readAll k n (obfsReader (buildClientObfsConnForMode ts w fd (Some t) a b pd mode s3 s4)) = Some (concat ps, EOF)"
proof -
  have "obfsWriter (buildServerObfsConnForMode ts \<lparr>sent = [], script = []\<rparr> fd0 (Some t) pMin pMax pd mode rec s1 s2)
      = Downlink (fst (NewServerDownlinkWriter \<lparr>sent = [], script = []\<rparr> fd0 (Some (ts ! j)) pMin pMax pd s2))"
    using assms(1) by (simp add: buildServerObfsConnForMode_def tableAt_def Let_def split: prod.splits)
  then show ?thesis
    using downlink_readable [OF assms(2) refl, of fd ps fd0 pMin pMax pd s2 n k w a b False s3] assms(1,3-5)
    by (cases mode) (simp_all add: buildClientObfsConnForMode_def writer_writes_parts writer_sent_def codec_readAll_parts tableAt_def NewPackedConn_def Let_def)
qed

end
