(* ===== verification/RecordConn.thy ===== *)
theory RecordConn
  imports GoStrings ConnUtil
begin

text \<open>
  The AEAD record layer (\<open>pkg/crypto/record_conn.go\<close>). The primitives of the Go libraries are a
  parameter: \<open>hmac\<close> is HMAC-SHA256, \<open>aseal\<close> and \<open>aopen\<close> the AEAD of a method under a key (nonce, text,
  additional data), \<open>aoverhead\<close> its tag length. What the code relies on is \<open>aead_ok\<close>: opening what was
  sealed gives the plaintext back, and a sealed text is longer by the overhead. The random reader and
  the connection are byte streams (\<open>ConnUtil\<close>). An AEAD object is represented by its key.
\<close>

record crypto =
  hmac :: "bytes \<Rightarrow> bytes \<Rightarrow> bytes"
  aseal :: "string \<Rightarrow> bytes \<Rightarrow> bytes \<Rightarrow> bytes \<Rightarrow> bytes \<Rightarrow> bytes"
  aopen :: "string \<Rightarrow> bytes \<Rightarrow> bytes \<Rightarrow> bytes \<Rightarrow> bytes \<Rightarrow> bytes option"
  aoverhead :: "string \<Rightarrow> nat"

definition aead_ok :: "crypto \<Rightarrow> bool" where
  "aead_ok cr \<longleftrightarrow> (\<forall>mt k nonce p ad. aopen cr mt k nonce (aseal cr mt k nonce p ad) ad = Some p
     \<and> length (aseal cr mt k nonce p ad) = length p + aoverhead cr mt)"

definition recordHeaderSize :: nat where
  "recordHeaderSize = 12"

definition maxFrameBodySize :: nat where
  "maxFrameBodySize = 65535"

record RecordConn =
  cin :: reader
  cout :: writer
  entropy :: reader
  rmethod :: string
  baseSend :: bytes
  baseRecv :: bytes
  sendAEAD :: "bytes option"
  sendAEADEpoch :: u32
  recvAEAD :: "bytes option"
  recvAEADEpoch :: u32
  sendEpoch :: u32
  sendSeq :: u64
  sendBytes :: u64
  sendEpochUpdates :: u32
  recvEpoch :: u32
  recvSeq :: u64
  recvInitialized :: bool
  readPlain :: bytes
  readOff :: nat

section \<open>Counters and keys\<close>

function randomNonZeroUint32 :: "reader \<Rightarrow> u32 result \<times> reader" where
  "randomNonZeroUint32 rd =
    (case ReadFull 4 rd of
       (Inl e, rd1) \<Rightarrow> (Inl e, rd1)
     | (Inr b, rd1) \<Rightarrow>
         let v = Uint32 b in if v \<noteq> 0 \<and> v \<noteq> NOT 0 then (Inr v, rd1) else randomNonZeroUint32 rd1)"
  by pat_completeness auto
termination
  by (relation "measure (\<lambda>rd. length (rdata rd))") (auto simp: ReadFull_def split: if_splits)

function randomNonZeroUint64 :: "reader \<Rightarrow> u64 result \<times> reader" where
  "randomNonZeroUint64 rd =
    (case ReadFull 8 rd of
       (Inl e, rd1) \<Rightarrow> (Inl e, rd1)
     | (Inr b, rd1) \<Rightarrow>
         let v = Uint64 b in if v \<noteq> 0 \<and> v \<noteq> NOT 0 then (Inr v, rd1) else randomNonZeroUint64 rd1)"
  by pat_completeness auto
termination
  by (relation "measure (\<lambda>rd. length (rdata rd))") (auto simp: ReadFull_def split: if_splits)

declare randomNonZeroUint32.simps [simp del] randomNonZeroUint64.simps [simp del]

definition randomRecordCounters :: "reader \<Rightarrow> (u32 \<times> u64) result \<times> reader" where
  "randomRecordCounters rd =
    (case randomNonZeroUint32 rd of
       (Inl e, rd1) \<Rightarrow> (Inl e, rd1)
     | (Inr epoch, rd1) \<Rightarrow>
       (case randomNonZeroUint64 rd1 of
          (Inl e, rd2) \<Rightarrow> (Inl e, rd2)
        | (Inr sq, rd2) \<Rightarrow> (Inr (epoch, sq), rd2)))"

definition normalizeAEADMethod :: "string \<Rightarrow> string" where
  "normalizeAEADMethod mt = (if mt = '''' \<or> mt = ''chacha20-poly1305'' then ''chacha20-poly1305'' else mt)"

definition validateBaseKey :: "bytes \<Rightarrow> go_error option" where
  "validateBaseKey b = (if length b < 32 then Some (ErrMsg ''need at least 32 bytes'') else None)"

definition resetTrafficState :: "RecordConn \<Rightarrow> go_error option \<times> RecordConn" where
  "resetTrafficState c =
    (case randomRecordCounters (entropy c) of
       (Inl e, rd) \<Rightarrow> (Some (ErrMsg ''initialize record counters''), c\<lparr>entropy := rd\<rparr>)
     | (Inr (epoch, sq), rd) \<Rightarrow>
         (None, c\<lparr>entropy := rd, sendEpoch := epoch, sendSeq := sq, sendBytes := 0, sendEpochUpdates := 0,
                 recvEpoch := 0, recvSeq := 0, recvInitialized := False\<rparr>))"

definition NewRecordConn ::
  "reader \<Rightarrow> writer \<Rightarrow> reader \<Rightarrow> string \<Rightarrow> bytes \<Rightarrow> bytes \<Rightarrow> RecordConn result" where
  "NewRecordConn inp outp rnd mt bSend bRecv =
    (let mt' = normalizeAEADMethod mt in
     if mt' \<noteq> ''none'' \<and> validateBaseKey bSend \<noteq> None then Inl (ErrMsg ''invalid send base key'')
     else if mt' \<noteq> ''none'' \<and> validateBaseKey bRecv \<noteq> None then Inl (ErrMsg ''invalid recv base key'')
     else
       (case resetTrafficState
          \<lparr>cin = inp, cout = outp, entropy = rnd, rmethod = mt', baseSend = bSend, baseRecv = bRecv,
           sendAEAD = None, sendAEADEpoch = 0, recvAEAD = None, recvAEADEpoch = 0, sendEpoch = 0, sendSeq = 0,
           sendBytes = 0, sendEpochUpdates = 0, recvEpoch = 0, recvSeq = 0, recvInitialized = False,
           readPlain = [], readOff = 0\<rparr> of
          (Some e, _) \<Rightarrow> Inl e
        | (None, rc) \<Rightarrow> Inr rc))"

definition Rekey :: "bytes \<Rightarrow> bytes \<Rightarrow> RecordConn \<Rightarrow> go_error option \<times> RecordConn" where
  "Rekey bSend bRecv c =
    (if rmethod c \<noteq> ''none'' \<and> validateBaseKey bSend \<noteq> None then (Some (ErrMsg ''invalid send base key''), c)
     else if rmethod c \<noteq> ''none'' \<and> validateBaseKey bRecv \<noteq> None then (Some (ErrMsg ''invalid recv base key''), c)
     else
       (case resetTrafficState (c\<lparr>baseSend := bSend, baseRecv := bRecv\<rparr>) of
          (Some e, c1) \<Rightarrow> (Some e, c1)
        | (None, c1) \<Rightarrow>
            (None, c1\<lparr>readPlain := [], readOff := 0, sendAEAD := None, recvAEAD := None,
                      sendAEADEpoch := 0, recvAEADEpoch := 0\<rparr>)))"

definition deriveEpochKey :: "crypto \<Rightarrow> bytes \<Rightarrow> u32 \<Rightarrow> string \<Rightarrow> bytes" where
  "deriveEpochKey cr bse epoch mt = hmac cr bse (bytes_of ''sudoku-record:'' @ bytes_of mt @ PutUint32 epoch)"

text \<open>
  The AEAD of an epoch. Its nonce size is the header size and a key of the sliced length is always
  accepted, so that the only error is that of an unknown method; the nil AEAD of \<open>none\<close> is the empty key.
\<close>

definition newAEADFor :: "crypto \<Rightarrow> RecordConn \<Rightarrow> bytes \<Rightarrow> u32 \<Rightarrow> bytes result" where
  "newAEADFor cr c bse epoch =
    (let key = deriveEpochKey cr bse epoch (rmethod c) in
     if rmethod c = ''none'' then Inr []
     else if rmethod c = ''aes-128-gcm'' then Inr (take 16 key)
     else if rmethod c = ''chacha20-poly1305'' then Inr (take 32 key)
     else Inl (ErrMsg ''unsupported cipher''))"

section \<open>Writing\<close>

text \<open>\<open>ku\<close> is \<open>KeyUpdateAfterBytes\<close>; the byte counters are signed 64-bit integers.\<close>

definition maybeBumpSendEpochLocked :: "u64 \<Rightarrow> nat \<Rightarrow> RecordConn \<Rightarrow> go_error option \<times> RecordConn" where
  "maybeBumpSendEpochLocked ku addedPlain c =
    (if sint ku \<le> 0 \<or> rmethod c = ''none'' then (None, c)
     else
       let c1 = c\<lparr>sendBytes := sendBytes c + of_nat addedPlain\<rparr>;
           threshold = ku * ucast (sendEpochUpdates c1 + 1)
       in if sint (sendBytes c1) < sint threshold then (None, c1)
          else
            let c2 = c1\<lparr>sendEpoch := sendEpoch c1 + 1, sendEpochUpdates := sendEpochUpdates c1 + 1\<rparr> in
            (case randomNonZeroUint64 (entropy c2) of
               (Inl e, rd) \<Rightarrow> (Some (ErrMsg ''rotate record seq''), c2\<lparr>entropy := rd\<rparr>)
             | (Inr nextSeq, rd) \<Rightarrow> (None, c2\<lparr>entropy := rd, sendSeq := nextSeq\<rparr>)))"

definition recordHeader :: "u32 \<Rightarrow> u64 \<Rightarrow> bytes" where
  "recordHeader epoch sq = PutUint32 epoch @ PutUint64 sq"

definition recordFrame :: "crypto \<Rightarrow> string \<Rightarrow> bytes \<Rightarrow> u32 \<Rightarrow> u64 \<Rightarrow> bytes \<Rightarrow> bytes" where
  "recordFrame cr mt key epoch sq chunk =
    (let header = recordHeader epoch sq;
         bodyLen = recordHeaderSize + (length chunk + aoverhead cr mt)
     in PutUint16 (of_nat bodyLen) @ header @ aseal cr mt key header chunk header)"

definition ensureSendAEAD :: "crypto \<Rightarrow> RecordConn \<Rightarrow> go_error option \<times> RecordConn" where
  "ensureSendAEAD cr c =
    (if sendAEAD c = None \<or> sendAEADEpoch c \<noteq> sendEpoch c then
       (case newAEADFor cr c (baseSend c) (sendEpoch c) of
          Inl e \<Rightarrow> (Some e, c)
        | Inr a \<Rightarrow> (None, c\<lparr>sendAEAD := Some a, sendAEADEpoch := sendEpoch c\<rparr>))
     else (None, c))"

function writeRecords :: "crypto \<Rightarrow> u64 \<Rightarrow> bytes \<Rightarrow> nat \<Rightarrow> RecordConn \<Rightarrow> nat \<times> go_error option \<times> RecordConn" where
  "writeRecords cr ku p tot c =
    (if p = [] then (tot, None, c)
     else case ensureSendAEAD cr c of
       (Some e, c1) \<Rightarrow> (tot, Some e, c1)
     | (None, c1) \<Rightarrow>
       let maxPlain = maxFrameBodySize - recordHeaderSize - aoverhead cr (rmethod c1) in
       if maxPlain \<le> 0 then (tot, Some (ErrMsg ''frame size too small''), c1)
       else
         let n = min (length p) maxPlain;
             chunk = take n p;
             c2 = c1\<lparr>sendSeq := sendSeq c1 + 1\<rparr>
         in if maxFrameBodySize < recordHeaderSize + (n + aoverhead cr (rmethod c1))
            then (tot, Some (ErrMsg ''frame too large''), c2)
            else
              (case WriteFull (cout c2)
                 (recordFrame cr (rmethod c1) (the (sendAEAD c1)) (sendEpoch c1) (sendSeq c1) chunk) of
                 (Some e, w) \<Rightarrow> (tot, Some e, c2\<lparr>cout := w\<rparr>)
               | (None, w) \<Rightarrow>
                 (case maybeBumpSendEpochLocked ku n (c2\<lparr>cout := w\<rparr>) of
                    (Some e, c3) \<Rightarrow> (tot + n, Some e, c3)
                  | (None, c3) \<Rightarrow> writeRecords cr ku (drop n p) (tot + n) c3)))"
  by pat_completeness auto
termination
  by (relation "measure (\<lambda>(cr, ku, p, tot, c). length p)") auto

declare writeRecords.simps [simp del]

lemma writeRecords_Nil [simp]: "writeRecords cr ku [] tot c = (tot, None, c)"
  by (simp add: writeRecords.simps)

definition Record_Write :: "crypto \<Rightarrow> u64 \<Rightarrow> bytes \<Rightarrow> RecordConn \<Rightarrow> nat \<times> go_error option \<times> RecordConn" where
  "Record_Write cr ku p c =
    (if rmethod c = ''none'' then
       (case conn_write (cout c) p of (n, e, w) \<Rightarrow> (n, e, c\<lparr>cout := w\<rparr>))
     else writeRecords cr ku p 0 c)"

section \<open>Reading\<close>

definition hasPendingPlainLocked :: "RecordConn \<Rightarrow> bool" where
  "hasPendingPlainLocked c \<longleftrightarrow> readOff c < length (readPlain c)"

definition drainPlainLocked :: "nat \<Rightarrow> RecordConn \<Rightarrow> bytes \<times> RecordConn" where
  "drainPlainLocked n c =
    (let out = take n (drop (readOff c) (readPlain c));
         c1 = c\<lparr>readOff := readOff c + length out\<rparr>
     in (out, if length (readPlain c1) \<le> readOff c1 then c1\<lparr>readPlain := [], readOff := 0\<rparr> else c1))"

text \<open>A plain read of the connection: what has arrived, at most \<open>n\<close> bytes.\<close>

definition reader_Read :: "nat \<Rightarrow> reader \<Rightarrow> bytes result \<times> reader" where
  "reader_Read n rd =
    (if rdata rd = [] then (Inl (rterm rd), rd) else (Inr (take n (rdata rd)), rd\<lparr>rdata := drop n (rdata rd)\<rparr>))"

definition maxJump :: u32 where
  "maxJump = 8"

text \<open>The order check on the header of a record.\<close>

definition checkOrder :: "u32 \<Rightarrow> u64 \<Rightarrow> RecordConn \<Rightarrow> go_error option" where
  "checkOrder epoch sq c =
    (if recvInitialized c then
       if epoch < recvEpoch c then Some (ErrMsg ''replayed epoch'')
       else if epoch = recvEpoch c \<and> sq \<noteq> recvSeq c then Some (ErrMsg ''out of order'')
       else if epoch > recvEpoch c \<and> epoch - recvEpoch c > maxJump then Some (ErrMsg ''epoch jump too large'')
       else None
     else None)"

definition ensureRecvAEAD :: "crypto \<Rightarrow> u32 \<Rightarrow> RecordConn \<Rightarrow> bytes result" where
  "ensureRecvAEAD cr epoch c =
    (if recvAEAD c = None \<or> recvAEADEpoch c \<noteq> epoch then newAEADFor cr c (baseRecv c) epoch
     else Inr (the (recvAEAD c)))"

definition Record_Read :: "crypto \<Rightarrow> nat \<Rightarrow> RecordConn \<Rightarrow> bytes result \<times> RecordConn" where
  "Record_Read cr n c =
    (if n = 0 then (Inr [], c)
     else if rmethod c = ''none'' then (case reader_Read n (cin c) of (r, rd) \<Rightarrow> (r, c\<lparr>cin := rd\<rparr>))
     else if hasPendingPlainLocked c then (case drainPlainLocked n c of (out, c1) \<Rightarrow> (Inr out, c1))
     else
       (case ReadFull 2 (cin c) of
          (Inl e, rd) \<Rightarrow> (Inl e, c\<lparr>cin := rd\<rparr>)
        | (Inr lenBuf, rd) \<Rightarrow>
          let bodyLen = unat (Uint16 lenBuf); c1 = c\<lparr>cin := rd\<rparr> in
          if bodyLen < recordHeaderSize then (Inl (ErrMsg ''frame too short''), c1)
          else if maxFrameBodySize < bodyLen then (Inl (ErrMsg ''frame too large''), c1)
          else
            (case ReadFull bodyLen (cin c1) of
               (Inl e, rd2) \<Rightarrow> (Inl e, c1\<lparr>cin := rd2\<rparr>)
             | (Inr body, rd2) \<Rightarrow>
               let c2 = c1\<lparr>cin := rd2\<rparr>;
                   header = take recordHeaderSize body;
                   ciphertext = drop recordHeaderSize body;
                   epoch = Uint32 (take 4 header);
                   sq = Uint64 (drop 4 header)
               in (case checkOrder epoch sq c2 of
                     Some e \<Rightarrow> (Inl e, c2)
                   | None \<Rightarrow>
                     (case ensureRecvAEAD cr epoch c2 of
                        Inl e \<Rightarrow> (Inl e, c2)
                      | Inr aead \<Rightarrow>
                        let c3 = c2\<lparr>recvAEAD := Some aead, recvAEADEpoch := epoch\<rparr> in
                        (case aopen cr (rmethod c3) aead header ciphertext header of
                           None \<Rightarrow> (Inl (ErrMsg ''decryption failed''), c3)
                         | Some plaintext \<Rightarrow>
                           let c4 = c3\<lparr>recvEpoch := epoch, recvSeq := sq + 1, recvInitialized := True,
                                       readPlain := plaintext, readOff := 0\<rparr>
                           in (case drainPlainLocked n c4 of (out, c5) \<Rightarrow> (Inr out, c5))))))))"

section \<open>Records in order\<close>

definition epochKey :: "crypto \<Rightarrow> string \<Rightarrow> bytes \<Rightarrow> u32 \<Rightarrow> bytes" where
  "epochKey cr mt bse epoch = take (if mt = ''aes-128-gcm'' then 16 else 32) (deriveEpochKey cr bse epoch mt)"

definition supported :: "string \<Rightarrow> bool" where
  "supported mt \<longleftrightarrow> mt = ''aes-128-gcm'' \<or> mt = ''chacha20-poly1305''"

lemma newAEADFor_key: "supported (rmethod c) \<Longrightarrow> newAEADFor cr c bse epoch = Inr (epochKey cr (rmethod c) bse epoch)"
  by (auto simp: newAEADFor_def supported_def epochKey_def Let_def)

lemma supported_not_none: "supported mt \<Longrightarrow> mt \<noteq> ''none''"
  by (auto simp: supported_def)

text \<open>The cached AEAD objects belong to the epoch they are cached for.\<close>

definition caches_ok :: "crypto \<Rightarrow> RecordConn \<Rightarrow> bool" where
  "caches_ok cr c \<longleftrightarrow>
    (\<forall>a. sendAEAD c = Some a \<longrightarrow> a = epochKey cr (rmethod c) (baseSend c) (sendAEADEpoch c))
    \<and> (\<forall>a. recvAEAD c = Some a \<longrightarrow> a = epochKey cr (rmethod c) (baseRecv c) (recvAEADEpoch c))"

text \<open>A record is its epoch, its sequence number and its plaintext.\<close>

type_synonym rec = "u32 \<times> u64 \<times> bytes"

definition frameOf :: "crypto \<Rightarrow> string \<Rightarrow> bytes \<Rightarrow> rec \<Rightarrow> bytes" where
  "frameOf cr mt bse r = (case r of (epoch, sq, chunk) \<Rightarrow> recordFrame cr mt (epochKey cr mt bse epoch) epoch sq chunk)"

definition framesOf :: "crypto \<Rightarrow> string \<Rightarrow> bytes \<Rightarrow> rec list \<Rightarrow> bytes" where
  "framesOf cr mt bse rs = concat (map (frameOf cr mt bse) rs)"

definition plainOf :: "rec list \<Rightarrow> bytes" where
  "plainOf rs = concat (map (snd \<circ> snd) rs)"

definition fits :: "crypto \<Rightarrow> string \<Rightarrow> rec \<Rightarrow> bool" where
  "fits cr mt r \<longleftrightarrow> snd (snd r) \<noteq> [] \<and> recordHeaderSize + (length (snd (snd r)) + aoverhead cr mt) \<le> maxFrameBodySize"

text \<open>
  \<open>ordered e s rs e' s'\<close>: the records start at counters \<open>(e, s)\<close>, each is followed by the next sequence
  number or by a new epoch, and \<open>(e', s')\<close> are the counters after them.
\<close>

inductive ordered :: "u32 \<Rightarrow> u64 \<Rightarrow> rec list \<Rightarrow> u32 \<Rightarrow> u64 \<Rightarrow> bool" where
  Done: "ordered e s [] e s"
| Next: "ordered e (s + 1) rs e' s' \<Longrightarrow> ordered e s ((e, s, chunk) # rs) e' s'"
| Rotate: "ordered (e + 1) s2 rs e' s' \<Longrightarrow> ordered e s ((e, s, chunk) # rs) e' s'"

inductive_cases ordered_ConsE: "ordered e s (r # rs) e' s'"

lemma maybeBump_counters:
  assumes "maybeBumpSendEpochLocked ku n c = (None, c')"
  shows "(sendEpoch c' = sendEpoch c \<and> sendSeq c' = sendSeq c \<or> sendEpoch c' = sendEpoch c + 1)
    \<and> rmethod c' = rmethod c \<and> baseSend c' = baseSend c \<and> baseRecv c' = baseRecv c \<and> cout c' = cout c
    \<and> sendAEAD c' = sendAEAD c \<and> sendAEADEpoch c' = sendAEADEpoch c \<and> recvAEAD c' = recvAEAD c
    \<and> recvAEADEpoch c' = recvAEADEpoch c"
  using assms by (auto simp: maybeBumpSendEpochLocked_def Let_def split: if_splits sum.splits prod.splits)

lemma ensureSendAEAD_key:
  assumes "supported (rmethod c)" "caches_ok cr c"
  shows "ensureSendAEAD cr c = (None, c\<lparr>sendAEAD := Some (epochKey cr (rmethod c) (baseSend c) (sendEpoch c)),
    sendAEADEpoch := sendEpoch c\<rparr>)"
  using assms by (cases c) (auto simp: ensureSendAEAD_def newAEADFor_key caches_ok_def)

lemma ensureRecvAEAD_key:
  "supported (rmethod c) \<Longrightarrow> caches_ok cr c \<Longrightarrow> ensureRecvAEAD cr e c = Inr (epochKey cr (rmethod c) (baseRecv c) e)"
  by (auto simp: ensureRecvAEAD_def newAEADFor_key caches_ok_def)

lemma writeRecords_ordered:
  assumes "writeRecords cr ku p tot c = (k, None, c')" "supported (rmethod c)" "caches_ok cr c" "script (cout c) = []"
  shows "\<exists>rs. sent (cout c') = sent (cout c) @ framesOf cr (rmethod c) (baseSend c) rs \<and> plainOf rs = p
    \<and> list_all (fits cr (rmethod c)) rs \<and> ordered (sendEpoch c) (sendSeq c) rs (sendEpoch c') (sendSeq c')
    \<and> k = tot + length p \<and> script (cout c') = [] \<and> caches_ok cr c' \<and> rmethod c' = rmethod c \<and> baseSend c' = baseSend c"
  using assms
proof (induction "length p" arbitrary: p tot c rule: less_induct)
  case less
  show ?case
  proof (cases "p = []")
    case True
    then show ?thesis using less.prems
      by (intro exI [of _ "[]"]) (auto simp: framesOf_def plainOf_def ordered.Done)
  next
    case False
    define m n where "m = rmethod c" and "n = min (length p) (maxFrameBodySize - recordHeaderSize - aoverhead cr (rmethod c))"
    let ?key = "epochKey cr m (baseSend c) (sendEpoch c)"
    let ?c1 = "c\<lparr>sendAEAD := Some ?key, sendAEADEpoch := sendEpoch c\<rparr>"
    let ?f = "recordFrame cr m ?key (sendEpoch c) (sendSeq c) (take n p)"
    let ?c2 = "?c1\<lparr>sendSeq := sendSeq c + 1, cout := (cout c)\<lparr>sent := sent (cout c) @ ?f\<rparr>\<rparr>"
    note es = ensureSendAEAD_key [OF less.prems(2,3), folded m_def]
    have max: "0 < maxFrameBodySize - recordHeaderSize - aoverhead cr m"
      using less.prems(1) False es
      by (auto simp: writeRecords.simps [of cr ku p] m_def [symmetric] Let_def split: if_splits)
    then have n: "0 < n" "n \<le> length p" "recordHeaderSize + (n + aoverhead cr m) \<le> maxFrameBodySize"
      using False by (auto simp: n_def m_def)
    have nn: "min (length p) (maxFrameBodySize - (recordHeaderSize + aoverhead cr m)) = n" by (simp add: n_def m_def)
    have wf: "WriteFull (cout c) ?f = (None, (cout c)\<lparr>sent := sent (cout c) @ ?f\<rparr>)"
      by (rule WriteFull_open [OF less.prems(4)])
    obtain e3 c3 where b: "maybeBumpSendEpochLocked ku n ?c2 = (e3, c3)" by (metis surj_pair)
    have step: "writeRecords cr ku p tot c = (case e3 of Some e \<Rightarrow> (tot + n, Some e, c3) | None \<Rightarrow> writeRecords cr ku (drop n p) (tot + n) c3)"
      using False max n(3) es b wf
      by (simp add: writeRecords.simps [of cr ku p] m_def [symmetric] Let_def nn not_less)
    then have e3: "e3 = None" "writeRecords cr ku (drop n p) (tot + n) c3 = (k, None, c')"
      using less.prems(1) by (auto split: option.splits)
    have bump: "sendEpoch c3 = sendEpoch c \<and> sendSeq c3 = sendSeq c + 1 \<or> sendEpoch c3 = sendEpoch c + 1"
      "rmethod c3 = m" "baseSend c3 = baseSend c" "cout c3 = (cout c)\<lparr>sent := sent (cout c) @ ?f\<rparr>" "caches_ok cr c3"
      using maybeBump_counters [OF b [unfolded e3(1)]] less.prems(3) by (auto simp: m_def caches_ok_def)
    have prem: "length (drop n p) < length p" "supported (rmethod c3)" "script (cout c3) = []"
      using n bump(2,4) less.prems(2,4) by (simp_all add: m_def)
    obtain rs where rs:
      "sent (cout c') = sent (cout c3) @ framesOf cr m (baseSend c) rs" "plainOf rs = drop n p"
      "list_all (fits cr m) rs" "ordered (sendEpoch c3) (sendSeq c3) rs (sendEpoch c') (sendSeq c')"
      "k = tot + n + length (drop n p)" "script (cout c') = []" "caches_ok cr c'" "rmethod c' = m" "baseSend c' = baseSend c"
      using less.hyps [OF prem(1) e3(2) prem(2) bump(5) prem(3)] unfolding bump(2,3) by blast
    have "ordered (sendEpoch c) (sendSeq c) ((sendEpoch c, sendSeq c, take n p) # rs) (sendEpoch c') (sendSeq c')"
      using bump(1) rs(4) by (auto intro: ordered.intros)
    then show ?thesis
      using rs bump n False unfolding m_def [symmetric]
      by (intro exI [of _ "(sendEpoch c, sendSeq c, take n p) # rs"])
        (simp add: framesOf_def frameOf_def plainOf_def fits_def)
  qed
qed

section \<open>Receiving records in order\<close>

definition expects :: "RecordConn \<Rightarrow> u32 \<Rightarrow> u64 \<Rightarrow> bool" where
  "expects c epoch sq \<longleftrightarrow> checkOrder epoch sq c = None"

definition pendingPlain :: "RecordConn \<Rightarrow> bytes" where
  "pendingPlain c = drop (readOff c) (readPlain c)"

lemma checkOrder_cin: "checkOrder e s (c\<lparr>cin := rd\<rparr>) = checkOrder e s c"
  by (simp add: checkOrder_def)

lemma recordHeader_parts:
  "length (recordHeader e s) = 12" "Uint32 (take 4 (recordHeader e s)) = e" "Uint64 (drop 4 (recordHeader e s)) = s"
  by (simp_all add: recordHeader_def)

lemma drainPlain_pending:
  "drainPlainLocked n c = (out, c') \<Longrightarrow>
    out = take n (pendingPlain c) \<and> pendingPlain c' = drop n (pendingPlain c)
    \<and> c' = c\<lparr>readPlain := readPlain c', readOff := readOff c'\<rparr>"
  by (cases c) (auto simp: drainPlainLocked_def pendingPlain_def Let_def min_def add.commute split: if_splits)

lemma Record_Read_frame:
  assumes cr: "aead_ok cr" and m: "supported (rmethod c)" and c: "caches_ok cr c" "pendingPlain c = []" "0 < n"
    and cin: "rdata (cin c) = frameOf cr (rmethod c) (baseRecv c) (e, s, chunk) @ rest"
    and fit: "fits cr (rmethod c) (e, s, chunk)" and ex: "expects c e s"
  shows "\<exists>c'. Record_Read cr n c = (Inr (take n chunk), c') \<and> pendingPlain c' = drop n chunk
    \<and> cin c' = (cin c)\<lparr>rdata := rest\<rparr> \<and> rmethod c' = rmethod c \<and> baseRecv c' = baseRecv c \<and> caches_ok cr c'
    \<and> recvInitialized c' \<and> recvEpoch c' = e \<and> recvSeq c' = s + 1"
proof -
  let ?m = "rmethod c" and ?h = "recordHeader e s"
  let ?key = "epochKey cr ?m (baseRecv c) e"
  let ?ct = "aseal cr ?m ?key ?h chunk ?h"
  define len where "len = recordHeaderSize + (length chunk + aoverhead cr ?m)"
  have len: "len < 65536" "length (?h @ ?ct) = len" "12 \<le> len"
    using fit cr by (simp_all add: len_def fits_def maxFrameBodySize_def recordHeaderSize_def aead_ok_def recordHeader_parts)
  have ulen: "unat (Uint16 (PutUint16 (of_nat len))) = len"
    using len(1) by (simp add: unat_of_nat)
  have d: "rdata (cin c) = PutUint16 (of_nat len) @ (?h @ ?ct) @ rest"
    using cin by (simp add: frameOf_def recordFrame_def Let_def len_def)
  have r1: "ReadFull 2 (cin c) = (Inr (PutUint16 (of_nat len)), (cin c)\<lparr>rdata := (?h @ ?ct) @ rest\<rparr>)"
    using ReadFull_append [of "PutUint16 (of_nat len)" 2 "(?h @ ?ct) @ rest" "cin c"] d by (cases "cin c") simp
  have r2: "ReadFull len ((cin c)\<lparr>rdata := (?h @ ?ct) @ rest\<rparr>) = (Inr (?h @ ?ct), (cin c)\<lparr>rdata := rest\<rparr>)"
    using ReadFull_append [OF len(2), of rest "cin c"] by simp
  have np: "\<not> hasPendingPlainLocked c" using c(2) by (simp add: hasPendingPlainLocked_def pendingPlain_def)
  have key: "ensureRecvAEAD cr e (c\<lparr>cin := (cin c)\<lparr>rdata := rest\<rparr>\<rparr>) = Inr ?key"
    using m c(1) by (simp add: ensureRecvAEAD_key caches_ok_def)
  let ?c4 = "c\<lparr>cin := (cin c)\<lparr>rdata := rest\<rparr>, recvAEAD := Some ?key, recvAEADEpoch := e, recvEpoch := e, recvSeq := s + 1,
      recvInitialized := True, readPlain := chunk, readOff := 0\<rparr>"
  obtain out c5 where dr: "drainPlainLocked n ?c4 = (out, c5)" by (metis surj_pair)
  have ck: "checkOrder e s (c\<lparr>cin := (cin c)\<lparr>rdata := rest\<rparr>\<rparr>) = None" using ex by (simp only: expects_def checkOrder_cin)
  have "Record_Read cr n c = (Inr out, c5)"
    using supported_not_none [OF m] np r1 r2 len key cr c(3) dr ck ulen
    by (simp add: Record_Read_def Let_def maxFrameBodySize_def recordHeaderSize_def recordHeader_parts aead_ok_def)
  moreover have out: "out = take n chunk" "pendingPlain c5 = drop n chunk"
    using drainPlain_pending [OF dr] by (simp_all add: pendingPlain_def)
  moreover obtain x y where "c5 = ?c4\<lparr>readPlain := x, readOff := y\<rparr>"
    using drainPlain_pending [OF dr] by blast
  then have "cin c5 = (cin c)\<lparr>rdata := rest\<rparr> \<and> rmethod c5 = rmethod c \<and> baseRecv c5 = baseRecv c \<and> caches_ok cr c5
    \<and> recvInitialized c5 \<and> recvEpoch c5 = e \<and> recvSeq c5 = s + 1"
    using c(1) by (simp add: caches_ok_def)
  ultimately show ?thesis by blast
qed

text \<open>
  A receiver that is in step: the bytes to come are the frames of \<open>rs\<close>, the first of which it accepts;
  the epochs of the records never wrap around.
\<close>

definition in_step :: "crypto \<Rightarrow> RecordConn \<Rightarrow> rec list \<Rightarrow> bool" where
  "in_step cr c rs \<longleftrightarrow> supported (rmethod c) \<and> caches_ok cr c
    \<and> cin c = \<lparr>rdata = framesOf cr (rmethod c) (baseRecv c) rs, rterm = EOF\<rparr>
    \<and> list_all (fits cr (rmethod c)) rs
    \<and> (\<forall>e s ch rs'. rs = (e, s, ch) # rs' \<longrightarrow> expects c e s \<and> unat e + length rs' < 2 ^ 32
        \<and> (\<exists>e' s'. ordered e s rs e' s'))"

lemma unat_Suc_u32: "unat (e :: u32) + 1 < 2 ^ 32 \<Longrightarrow> unat (e + 1) = unat e + 1"
  by (simp add: unat_word_ariths)

lemma expects_next:
  assumes "recvInitialized c" "recvEpoch c = e" "recvSeq c = s + 1" "ordered e s ((e, s, ch) # (e2, s2, ch2) # rs) e' s'"
    and "unat e + 1 < 2 ^ 32"
  shows "expects c e2 s2 \<and> unat e2 \<le> unat e + 1 \<and> ordered e2 s2 ((e2, s2, ch2) # rs) e' s'"
proof -
  have e1: "unat (e + 1) = unat e + 1" by (rule unat_Suc_u32 [OF assms(5)])
  have "ordered e (s + 1) ((e2, s2, ch2) # rs) e' s' \<or> (\<exists>s3. ordered (e + 1) s3 ((e2, s2, ch2) # rs) e' s')"
    using assms(4) by (auto elim: ordered_ConsE)
  then show ?thesis
  proof
    assume o: "ordered e (s + 1) ((e2, s2, ch2) # rs) e' s'"
    then have "e2 = e" "s2 = s + 1" by (auto elim: ordered_ConsE)
    then show ?thesis using o assms(1-3) by (simp add: expects_def checkOrder_def)
  next
    assume "\<exists>s3. ordered (e + 1) s3 ((e2, s2, ch2) # rs) e' s'"
    then obtain s3 where o: "ordered (e + 1) s3 ((e2, s2, ch2) # rs) e' s'" by blast
    then have "e2 = e + 1" "s2 = s3" by (auto elim: ordered_ConsE)
    moreover have "\<not> e + 1 < e" "e + 1 \<noteq> e" using e1 by (simp_all add: word_less_nat_alt)
    ultimately show ?thesis using o assms(1,2) e1 by (simp add: expects_def checkOrder_def maxJump_def)
  qed
qed

fun Record_readAll :: "crypto \<Rightarrow> nat \<Rightarrow> nat \<Rightarrow> RecordConn \<Rightarrow> (bytes \<times> go_error) option" where
  "Record_readAll cr 0 n c = None"
| "Record_readAll cr (Suc k) n c =
    (case Record_Read cr n c of
       (Inl e, c') \<Rightarrow> Some ([], e)
     | (Inr out, c') \<Rightarrow> map_option (\<lambda>(bs, e). (out @ bs, e)) (Record_readAll cr k n c'))"

lemma Record_readAll_pending:
  assumes "pendingPlain c \<noteq> []" "0 < n" "supported (rmethod c)"
  shows "Record_Read cr n c = (Inr (take n (pendingPlain c)), snd (drainPlainLocked n c))
    \<and> pendingPlain (snd (drainPlainLocked n c)) = drop n (pendingPlain c)"
proof -
  obtain out c' where d: "drainPlainLocked n c = (out, c')" by (metis surj_pair)
  have "hasPendingPlainLocked c" using assms(1) by (simp add: hasPendingPlainLocked_def pendingPlain_def)
  then show ?thesis
    using drainPlain_pending [OF d] d assms supported_not_none [OF assms(3)] by (simp add: Record_Read_def)
qed

lemma in_step_drain: "in_step cr c rs \<Longrightarrow> in_step cr (snd (drainPlainLocked n c)) rs"
proof -
  assume i: "in_step cr c rs"
  obtain out c' where d: "drainPlainLocked n c = (out, c')" by (metis surj_pair)
  then obtain x y where "c' = c\<lparr>readPlain := x, readOff := y\<rparr>" using drainPlain_pending [OF d] by blast
  moreover have "expects (c\<lparr>readPlain := x, readOff := y\<rparr>) = expects c" for x y
    by (intro ext) (simp add: expects_def checkOrder_def)
  ultimately show ?thesis using i d by (simp add: in_step_def caches_ok_def)
qed

lemma in_step_frame:
  assumes cr: "aead_ok cr" and i: "in_step cr c ((e, s, ch) # rs)" and "pendingPlain c = []" "0 < n"
  shows "\<exists>c'. Record_Read cr n c = (Inr (take n ch), c') \<and> pendingPlain c' = drop n ch \<and> in_step cr c' rs"
proof -
  have m: "supported (rmethod c)" "caches_ok cr c" "fits cr (rmethod c) (e, s, ch)" "expects c e s" "unat e + length rs < 2 ^ 32"
    and cin: "cin c = \<lparr>rdata = frameOf cr (rmethod c) (baseRecv c) (e, s, ch) @ framesOf cr (rmethod c) (baseRecv c) rs, rterm = EOF\<rparr>"
    using i by (simp_all add: in_step_def framesOf_def)
  obtain e' s' where o: "ordered e s ((e, s, ch) # rs) e' s'" using i by (auto simp: in_step_def)
  obtain c' where c': "Record_Read cr n c = (Inr (take n ch), c')" "pendingPlain c' = drop n ch"
    "cin c' = (cin c)\<lparr>rdata := framesOf cr (rmethod c) (baseRecv c) rs\<rparr>" "rmethod c' = rmethod c" "baseRecv c' = baseRecv c"
    "caches_ok cr c'" "recvInitialized c'" "recvEpoch c' = e" "recvSeq c' = s + 1"
    using Record_Read_frame [OF cr m(1,2) assms(3,4) _ m(3,4), of "framesOf cr (rmethod c) (baseRecv c) rs"] cin by auto
  have "in_step cr c' rs"
  proof -
    have "expects c' e2 s2 \<and> unat e2 + length rs2 < 2 ^ 32 \<and> (\<exists>e' s'. ordered e2 s2 rs e' s')"
      if "rs = (e2, s2, ch2) # rs2" for e2 s2 ch2 rs2
      using expects_next [OF c'(7,8,9), of ch e2 s2 ch2 rs2 e' s'] o m(5) that by auto
    then show ?thesis using i c' cin m(1) by (simp add: in_step_def)
  qed
  then show ?thesis using c' by blast
qed

lemma Record_readAll_complete:
  assumes "aead_ok cr" "0 < n" "in_step cr c rs" "length (pendingPlain c @ plainOf rs) < k"
  shows "Record_readAll cr k n c = Some (pendingPlain c @ plainOf rs, EOF)"
  using assms(3,4)
proof (induction k arbitrary: c rs)
  case (Suc k)
  have m: "supported (rmethod c)" using Suc.prems(1) by (simp add: in_step_def)
  show ?case
  proof (cases "pendingPlain c = []")
    case False
    have p: "Record_Read cr n c = (Inr (take n (pendingPlain c)), snd (drainPlainLocked n c))"
      "pendingPlain (snd (drainPlainLocked n c)) = drop n (pendingPlain c)"
      using Record_readAll_pending [OF False assms(2) m] by blast+
    have "length (drop n (pendingPlain c) @ plainOf rs) < k"
      using Suc.prems(2) False assms(2) by (cases "pendingPlain c"; cases n) auto
    then have "Record_readAll cr k n (snd (drainPlainLocked n c)) = Some (drop n (pendingPlain c) @ plainOf rs, EOF)"
      using Suc.IH [OF in_step_drain [OF Suc.prems(1), of n]] p(2) by simp
    then show ?thesis using p by simp
  next
    case True
    show ?thesis
    proof (cases rs)
      case Nil
      then have "Record_Read cr n c = (Inl EOF, c\<lparr>cin := cin c\<rparr>)"
        using Suc.prems(1) True supported_not_none [OF m] assms(2)
        by (simp add: in_step_def Record_Read_def hasPendingPlainLocked_def pendingPlain_def framesOf_def ReadFull_def)
      then show ?thesis using True Nil by (simp add: plainOf_def)
    next
      case (Cons r rs')
      obtain e s ch where r: "r = (e, s, ch)" by (metis surj_pair)
      obtain c' where c': "Record_Read cr n c = (Inr (take n ch), c')" "pendingPlain c' = drop n ch" "in_step cr c' rs'"
        using in_step_frame [OF assms(1) Suc.prems(1) [unfolded Cons r] True assms(2)] by blast
      have "ch \<noteq> []" using Suc.prems(1) by (simp add: Cons r in_step_def fits_def)
      then have "length (pendingPlain c' @ plainOf rs') < k"
        using Suc.prems(2) True assms(2) c'(2) by (cases ch; cases n) (auto simp: Cons r plainOf_def)
      then show ?thesis using Suc.IH [OF c'(3)] c' True by (simp add: Cons r plainOf_def)
    qed
  qed
qed simp

section \<open>A conversation\<close>

text \<open>Several writes on one connection; the first error ends them.\<close>

fun Record_writeAll :: "crypto \<Rightarrow> u64 \<Rightarrow> bytes list \<Rightarrow> RecordConn \<Rightarrow> go_error option \<times> RecordConn" where
  "Record_writeAll cr ku [] c = (None, c)"
| "Record_writeAll cr ku (p # ps) c =
    (case Record_Write cr ku p c of
       (_, Some e, c') \<Rightarrow> (Some e, c')
     | (_, None, c') \<Rightarrow> Record_writeAll cr ku ps c')"

lemma ordered_append: "ordered e s rs e1 s1 \<Longrightarrow> ordered e1 s1 rs' e2 s2 \<Longrightarrow> ordered e s (rs @ rs') e2 s2"
  by (induction rule: ordered.induct) (auto intro: ordered.intros)

lemma Record_writeAll_ordered:
  assumes "Record_writeAll cr ku ps c = (None, c')" "supported (rmethod c)" "caches_ok cr c" "script (cout c) = []"
  shows "\<exists>rs. sent (cout c') = sent (cout c) @ framesOf cr (rmethod c) (baseSend c) rs \<and> plainOf rs = concat ps
    \<and> list_all (fits cr (rmethod c)) rs \<and> ordered (sendEpoch c) (sendSeq c) rs (sendEpoch c') (sendSeq c')"
  using assms
proof (induction ps arbitrary: c)
  case Nil
  then show ?case by (intro exI [of _ "[]"]) (auto simp: framesOf_def plainOf_def ordered.Done)
next
  case (Cons p ps)
  obtain k c1 where w: "writeRecords cr ku p 0 c = (k, None, c1)" and ws: "Record_writeAll cr ku ps c1 = (None, c')"
    using Cons.prems(1,2) supported_not_none by (auto simp: Record_Write_def split: prod.splits option.splits)
  obtain rs1 where r1: "sent (cout c1) = sent (cout c) @ framesOf cr (rmethod c) (baseSend c) rs1" "plainOf rs1 = p"
    "list_all (fits cr (rmethod c)) rs1" "ordered (sendEpoch c) (sendSeq c) rs1 (sendEpoch c1) (sendSeq c1)"
    "script (cout c1) = []" "caches_ok cr c1" "rmethod c1 = rmethod c" "baseSend c1 = baseSend c"
    using writeRecords_ordered [OF w Cons.prems(2,3,4)] by blast
  obtain rs2 where r2: "sent (cout c') = sent (cout c1) @ framesOf cr (rmethod c1) (baseSend c1) rs2" "plainOf rs2 = concat ps"
    "list_all (fits cr (rmethod c1)) rs2" "ordered (sendEpoch c1) (sendSeq c1) rs2 (sendEpoch c') (sendSeq c')"
    using Cons.IH [OF ws _ r1(6,5)] Cons.prems(2) r1(7) by auto
  show ?case using r1 r2 ordered_append [OF r1(4) r2(4)]
    by (intro exI [of _ "rs1 @ rs2"]) (simp add: framesOf_def plainOf_def)
qed

lemma fits_length: "list_all (fits cr mt) rs \<Longrightarrow> length rs \<le> length (plainOf rs)"
proof (induction rs)
  case (Cons r rs)
  then have "snd (snd r) \<noteq> []" by (simp add: fits_def)
  then show ?case using Cons by (cases "snd (snd r)") (simp_all add: plainOf_def)
qed simp

text \<open>The state of a connection that has not carried traffic yet.\<close>

definition fresh :: "RecordConn \<Rightarrow> bool" where
  "fresh c \<longleftrightarrow> sendAEAD c = None \<and> recvAEAD c = None \<and> \<not> recvInitialized c \<and> readPlain c = []"

lemma fresh_caches: "fresh c \<Longrightarrow> caches_ok cr c \<and> pendingPlain c = []"
  by (simp add: fresh_def caches_ok_def pendingPlain_def)

lemma resetTrafficState_fields:
  assumes "resetTrafficState c = (None, c')"
  shows "cin c' = cin c \<and> cout c' = cout c \<and> rmethod c' = rmethod c \<and> baseSend c' = baseSend c \<and> baseRecv c' = baseRecv c
    \<and> sendAEAD c' = sendAEAD c \<and> recvAEAD c' = recvAEAD c \<and> readPlain c' = readPlain c \<and> \<not> recvInitialized c'
    \<and> sendBytes c' = 0 \<and> sendEpochUpdates c' = 0"
  using assms by (auto simp: resetTrafficState_def split: sum.splits prod.splits)

lemma NewRecordConn_fresh:
  assumes "NewRecordConn inp outp rnd mt bs br = Inr c"
  shows "fresh c \<and> cin c = inp \<and> cout c = outp \<and> rmethod c = normalizeAEADMethod mt \<and> baseSend c = bs \<and> baseRecv c = br"
  using assms unfolding NewRecordConn_def Let_def
  by (auto simp: fresh_def dest: resetTrafficState_fields split: if_splits prod.splits option.splits)

lemma unread_in_step:
  assumes "\<not> recvInitialized d" "caches_ok cr d" "supported (rmethod d)" "cin d = reader_of (framesOf cr (rmethod d) (baseRecv d) rs)"
    "list_all (fits cr (rmethod d)) rs" "ordered e s rs e' s'" "unat e + length rs \<le> 2 ^ 32"
  shows "in_step cr d rs"
proof -
  have "expects d e2 s2 \<and> unat e2 + length rs2 < 2 ^ 32 \<and> (\<exists>e' s'. ordered e2 s2 rs e' s')"
    if r: "rs = (e2, s2, ch2) # rs2" for e2 s2 ch2 rs2
  proof -
    have "e2 = e" "s2 = s" using assms(6) r by (auto elim: ordered_ConsE)
    then show ?thesis using assms r by (auto simp: expects_def checkOrder_def)
  qed
  then show ?thesis using assms by (simp add: in_step_def reader_of_def)
qed

lemma fresh_in_step:
  assumes "fresh d" "supported (rmethod d)" "cin d = reader_of (framesOf cr (rmethod d) (baseRecv d) rs)"
    "list_all (fits cr (rmethod d)) rs" "ordered e s rs e' s'" "unat e + length rs \<le> 2 ^ 32"
  shows "in_step cr d rs"
  using unread_in_step [OF _ _ assms(2-6)] assms(1) fresh_caches by (simp add: fresh_def)

lemma record_conversation:
  assumes cr: "aead_ok cr" and m: "supported mt"
    and c: "fresh c" "rmethod c = mt" "baseSend c = key" "cout c = \<lparr>sent = [], script = []\<rparr>"
    and w: "Record_writeAll cr ku ps c = (None, c')"
    and d: "fresh d" "rmethod d = mt" "baseRecv d = key" "cin d = reader_of (sent (cout c'))"
    and wrap: "unat (sendEpoch c) + length (concat ps) \<le> 2 ^ 32" and n: "0 < n"
  shows "Record_readAll cr (Suc (length (concat ps))) n d = Some (concat ps, EOF)"
proof -
  obtain rs where rs: "sent (cout c') = framesOf cr mt key rs" "plainOf rs = concat ps" "list_all (fits cr mt) rs"
    "ordered (sendEpoch c) (sendSeq c) rs (sendEpoch c') (sendSeq c')"
    using Record_writeAll_ordered [OF w] m c fresh_caches [OF c(1)] by auto
  have "in_step cr d rs"
    by (rule fresh_in_step) (use d m rs wrap fits_length [OF rs(3)] in auto)
  then show ?thesis
    using Record_readAll_complete [OF cr n, of d rs "Suc (length (concat ps))"] rs(2) fresh_caches [OF d(1)] by simp
qed

section \<open>Nonces and replays\<close>

text \<open>Headers in the order a receiver accepts them: a later epoch, or the next sequence number.\<close>

fun chain :: "(u32 \<times> u64) list \<Rightarrow> bool" where
  "chain ((e, s) # (e2, s2) # hs) \<longleftrightarrow> (e < e2 \<or> e2 = e \<and> s2 = s + 1) \<and> chain ((e2, s2) # hs)"
| "chain hs \<longleftrightarrow> True"

lemma chain_later:
  assumes "chain (h # hs)" "(e2, s2) \<in> set hs"
  shows "fst h < e2 \<or> e2 = fst h \<and> (\<exists>k. 0 < k \<and> k \<le> length hs \<and> s2 = snd h + of_nat k)"
  using assms
proof (induction hs arbitrary: h)
  case (Cons g hs)
  obtain e s e1 s1 where h: "h = (e, s)" "g = (e1, s1)" by (metis surj_pair)
  have step: "e < e1 \<or> e1 = e \<and> s1 = s + 1" and "chain ((e1, s1) # hs)" using Cons.prems(1) h by auto
  then have "(e2, s2) = (e1, s1) \<or> e1 < e2 \<or> e2 = e1 \<and> (\<exists>k. 0 < k \<and> k \<le> length hs \<and> s2 = s1 + of_nat k)"
    using Cons.IH [of "(e1, s1)"] Cons.prems(2) h by auto
  then show ?case
  proof (elim disjE conjE exE)
    assume "(e2, s2) = (e1, s1)"
    then show ?thesis using step h by (auto intro!: exI [of _ "1 :: nat"])
  next
    assume "e1 < e2"
    then show ?thesis using step h by auto
  next
    fix k assume "e2 = e1" "0 < k" "k \<le> length hs" "s2 = s1 + of_nat k"
    then show ?thesis using step h by (auto intro!: exI [of _ "Suc k"] simp: add.commute add.left_commute)
  qed
qed simp

lemma chain_Cons: "chain (h # hs) \<Longrightarrow> chain hs"
  by (cases hs; cases h) auto

lemma chain_distinct: "chain hs \<Longrightarrow> length hs \<le> 2 ^ 64 \<Longrightarrow> distinct hs"
proof (induction hs)
  case (Cons h hs)
  have "h \<notin> set hs"
  proof
    assume h: "h \<in> set hs"
    then obtain k where k: "0 < k" "k \<le> length hs" "snd h = snd h + of_nat k"
      using chain_later [OF Cons.prems(1), of "fst h" "snd h"] by auto
    have "k < 2 ^ 64" using k(2) Cons.prems(2) by simp
    then have "unat (of_nat k :: u64) = k" by (simp add: unat_of_nat)
    moreover have "(of_nat k :: u64) = 0" using k(3) by (metis add_cancel_left_right)
    ultimately show False using k(1) by (metis unat_0 less_irrefl)
  qed
  then show ?case using Cons chain_Cons [OF Cons.prems(1)] by simp
qed simp

lemma ordered_chain:
  "ordered e s rs e' s' \<Longrightarrow> unat e + length rs \<le> 2 ^ 32 \<Longrightarrow> chain (map (\<lambda>(e, s, _). (e, s)) rs)"
proof (induction rule: ordered.induct)
  case (Next e s rs e' s' chunk)
  then show ?case by (cases rs) (auto elim: ordered_ConsE)
next
  case (Rotate e s2 rs e' s' s chunk)
  show ?case
  proof (cases rs)
    case (Cons r rs')
    have e1: "unat (e + 1) = unat e + 1" using unat_Suc_u32 [of e] Rotate.prems Cons by simp
    then have "e < e + 1" by (simp add: word_less_nat_alt)
    then show ?thesis using Rotate e1 Cons by (auto elim: ordered_ConsE)
  qed simp
qed simp

text \<open>The headers \<open>k\<close> reads accept: a read that takes a frame leaves its counters behind.\<close>

fun accepted :: "crypto \<Rightarrow> nat \<Rightarrow> nat \<Rightarrow> RecordConn \<Rightarrow> (u32 \<times> u64) list" where
  "accepted cr 0 n c = []"
| "accepted cr (Suc k) n c =
    (case Record_Read cr n c of
       (Inl e, c') \<Rightarrow> accepted cr k n c'
     | (Inr out, c') \<Rightarrow>
         (if hasPendingPlainLocked c then [] else [(recvEpoch c', recvSeq c' - 1)]) @ accepted cr k n c')"

lemma Record_Read_cases:
  assumes "Record_Read cr n c = (r, c')" "rmethod c \<noteq> ''none''" "0 < n"
  shows "rmethod c' = rmethod c \<and>
    (if (\<exists>out. r = Inr out) \<and> \<not> hasPendingPlainLocked c
     then recvInitialized c' \<and> (recvInitialized c \<longrightarrow>
       recvEpoch c < recvEpoch c' \<or> recvEpoch c' = recvEpoch c \<and> recvSeq c' - 1 = recvSeq c)
     else recvInitialized c' = recvInitialized c \<and> recvEpoch c' = recvEpoch c \<and> recvSeq c' = recvSeq c)"
proof -
  have order: "recvEpoch c < e \<or> e = recvEpoch c \<and> s = recvSeq c" if "checkOrder e s c2 = None" "recvInitialized c"
      "recvInitialized c2 = recvInitialized c" "recvEpoch c2 = recvEpoch c" "recvSeq c2 = recvSeq c" for e s c2
    using that by (auto simp: checkOrder_def split: if_splits)
  show ?thesis
    using assms unfolding Record_Read_def Let_def drainPlainLocked_def
    by (auto split: if_splits sum.splits prod.splits option.splits dest!: order)
qed

lemma accepted_chain:
  assumes "rmethod c \<noteq> ''none''" "0 < n"
  shows "chain (accepted cr k n c) \<and> (recvInitialized c \<longrightarrow> chain ((recvEpoch c, recvSeq c - 1) # accepted cr k n c))"
  using assms(1)
proof (induction k arbitrary: c)
  case (Suc k)
  obtain r c' where r: "Record_Read cr n c = (r, c')" by (metis surj_pair)
  note f = Record_Read_cases [OF r Suc.prems assms(2)]
  have "rmethod c' \<noteq> ''none''" using f Suc.prems by simp
  then show ?case
    using Suc.IH [of c'] f r by (cases r) (auto split: if_splits)
qed simp

section \<open>Properties\<close>

text \<open>
  A toy cipher for the concrete runs below: it appends a tag of 16 zero bytes.
\<close>

definition toy_crypto :: crypto where
  "toy_crypto = \<lparr>hmac = (\<lambda>k m. take 32 (k @ m)), aseal = (\<lambda>mt k nonce p ad. p @ replicate 16 0),
    aopen = (\<lambda>mt k nonce ct ad. if length ct < 16 then None else Some (take (length ct - 16) ct)),
    aoverhead = (\<lambda>mt. 16)\<rparr>"

lemma toy_crypto_ok: "aead_ok toy_crypto"
  by (simp add: aead_ok_def toy_crypto_def)

definition toy_conn :: "bytes \<Rightarrow> RecordConn" where
  "toy_conn inp = \<lparr>cin = reader_of inp, cout = \<lparr>sent = [], script = []\<rparr>, entropy = reader_of [0, 0, 0, 0, 0, 0, 0, 9],
    rmethod = ''aes-128-gcm'', baseSend = replicate 32 7, baseRecv = replicate 32 7,
    sendAEAD = None, sendAEADEpoch = 0, recvAEAD = None, recvAEADEpoch = 0, sendEpoch = 5, sendSeq = 8,
    sendBytes = 0, sendEpochUpdates = 0, recvEpoch = 0, recvSeq = 0, recvInitialized = False, readPlain = [], readOff = 0\<rparr>"

text \<open>
  Property C3: whatever is written to a fresh record connection, in any number of writes and with any
  key-update threshold, the peer reads back unchanged and then sees the end of the stream, in reads of
  any positive size, as long as the send epoch cannot run past its 32 bits.
\<close>

theorem record_roundtrip:
  assumes "aead_ok cr" "supported (rmethod c)" "fresh c" "cout c = \<lparr>sent = [], script = []\<rparr>"
    and "Record_writeAll cr ku ps c = (None, c')"
    and "fresh d" "rmethod d = rmethod c" "baseRecv d = baseSend c" "cin d = reader_of (sent (cout c'))"
    and "unat (sendEpoch c) + length (concat ps) \<le> 2 ^ 32" "0 < n"
  shows "Record_readAll cr (Suc (length (concat ps))) n d = Some (concat ps, EOF)"
  using record_conversation [OF assms(1,2,3) refl refl assms(4,5,6,7,8,9,10,11)] .

lemma toy_write:
  "\<exists>c'. Record_writeAll toy_crypto 3 [[1, 2, 3], [4]] (toy_conn []) = (None, c')"
  by (simp add: Record_Write_def toy_conn_def writeRecords.simps ensureSendAEAD_def newAEADFor_def maxFrameBodySize_def
      recordHeaderSize_def toy_crypto_def WriteFull_open maybeBumpSendEpochLocked_def reader_of_def
      randomNonZeroUint64.simps ReadFull_def Uint64_def Let_def)

theorem record_roundtrip_witness:
  "Record_readAll toy_crypto 5 2
     (toy_conn (sent (cout (snd (Record_writeAll toy_crypto 3 [[1, 2, 3], [4]] (toy_conn [])))))) = Some ([1, 2, 3, 4], EOF)"
proof -
  obtain c' where w: "Record_writeAll toy_crypto 3 [[1, 2, 3], [4]] (toy_conn []) = (None, c')" using toy_write by blast
  have "Record_readAll toy_crypto (Suc (length (concat [[1, 2, 3], [4 :: byte]]))) 2 (toy_conn (sent (cout c'))) = Some (concat [[1, 2, 3], [4]], EOF)"
    by (rule record_roundtrip [OF toy_crypto_ok _ _ _ w]) (simp_all add: toy_conn_def supported_def fresh_def)
  moreover have "Suc (length (concat [[1, 2, 3], [4 :: byte]])) = 5" "concat [[1, 2, 3], [4 :: byte]] = [1, 2, 3, 4]" by simp_all
  ultimately show ?thesis by (simp only: w snd_conv)
qed



text \<open>
  Property C6: replay protection against an arbitrary byte stream. Whatever bytes arrive, forged and
  replayed frames included, no (epoch, sequence) header is accepted twice in up to \<open>2 ^ 64\<close> reads.
\<close>

theorem record_no_replay:
  assumes "rmethod c \<noteq> ''none''" "0 < n" "k \<le> 2 ^ 64"
  shows "distinct (accepted cr k n c)"
proof -
  have "length (accepted cr k n c) \<le> k"
    by (induction cr k n c rule: accepted.induct) (auto split: prod.splits sum.splits)
  then show ?thesis
    using chain_distinct accepted_chain [OF assms(1,2), of cr k] assms(3) by simp
qed

theorem record_no_replay_witness:
  "distinct (accepted toy_crypto 3 1 (toy_conn (recordFrame toy_crypto ''aes-128-gcm'' [] 5 8 [1] @ recordFrame toy_crypto ''aes-128-gcm'' [] 5 8 [1])))"
  by (rule record_no_replay) (simp_all add: toy_conn_def)

text \<open>
  Property C11: a key update at the last epoch wraps the epoch to 0, and a peer that is at that epoch
  then refuses every further record as a replay.
\<close>

theorem record_epoch_wrap:
  assumes "maybeBumpSendEpochLocked ku k c = (None, c')" "sendEpoch c = 2 ^ 32 - 1" "sendEpoch c' \<noteq> sendEpoch c"
    and "recvInitialized d" "recvEpoch d = sendEpoch c"
  shows "sendEpoch c' = 0 \<and> checkOrder (sendEpoch c') s d = Some (ErrMsg ''replayed epoch'')"
  using maybeBump_counters [OF assms(1)] assms by (auto simp: checkOrder_def)

theorem record_epoch_wrap_witness:
  "checkOrder (sendEpoch (snd (maybeBumpSendEpochLocked 3 3 ((toy_conn [])\<lparr>sendEpoch := 2 ^ 32 - 1\<rparr>)))) 9
     ((toy_conn [])\<lparr>recvEpoch := 2 ^ 32 - 1, recvInitialized := True\<rparr>) = Some (ErrMsg ''replayed epoch'')"
proof -
  obtain c' where b: "maybeBumpSendEpochLocked 3 3 ((toy_conn [])\<lparr>sendEpoch := 2 ^ 32 - 1\<rparr>) = (None, c')" "sendEpoch c' = 0"
    by (simp add: maybeBumpSendEpochLocked_def toy_conn_def reader_of_def randomNonZeroUint64.simps ReadFull_def Uint64_def Let_def)
  then show ?thesis
    using record_epoch_wrap [OF b(1), of "(toy_conn [])\<lparr>recvEpoch := 2 ^ 32 - 1, recvInitialized := True\<rparr>" 9]
    by (simp add: toy_conn_def)
qed

text \<open>
  \<open>Rekey\<close>. With valid keys and enough entropy the connection is fresh under the new keys:
  no plaintext, cached cipher or receive counter of the old ones survives; with a short key it fails
  and nothing changes.
\<close>

theorem Rekey_fresh:
  "(Rekey bs br c = (None, c') \<longrightarrow> fresh c' \<and> baseSend c' = bs \<and> baseRecv c' = br \<and> rmethod c' = rmethod c
      \<and> cin c' = cin c \<and> cout c' = cout c \<and> sendBytes c' = 0)
   \<and> (rmethod c \<noteq> ''none'' \<and> (length bs < 32 \<or> length br < 32) \<longrightarrow> (\<exists>e. Rekey bs br c = (Some e, c)))"
  by (auto simp: Rekey_def validateBaseKey_def fresh_def dest!: resetTrafficState_fields split: if_splits prod.splits option.splits)

theorem Rekey_fresh_witness:
  "(\<exists>e. Rekey [1] [2] (toy_conn []) = (Some e, toy_conn [])) \<and>
   (\<exists>c'. Rekey [1] [2] ((toy_conn [])\<lparr>rmethod := ''none'', entropy := reader_of [0, 0, 0, 1, 0, 0, 0, 0, 0, 0, 0, 9]\<rparr>) = (None, c') \<and> fresh c')"
proof -
  let ?c = "(toy_conn [])\<lparr>rmethod := ''none'', entropy := reader_of [0, 0, 0, 1, 0, 0, 0, 0, 0, 0, 0, 9]\<rparr>"
  obtain c' where "Rekey [1] [2] ?c = (None, c')"
    by (simp add: Rekey_def resetTrafficState_def randomRecordCounters_def randomNonZeroUint32.simps randomNonZeroUint64.simps
        ReadFull_def reader_of_def Uint32_def Uint64_def Let_def)
  then show ?thesis
    using Rekey_fresh [of "[1]" "[2]" ?c c'] Rekey_fresh [of "[1]" "[2]" "toy_conn []"] by (simp add: toy_conn_def)
qed

end
