(* ===== verification/RecordIO.thy ===== *)
theory RecordIO
  imports RecordConn Kip
begin

text \<open>
  Full reads and writes and KIP messages on a record connection: \<open>io.ReadFull\<close> and \<open>connutil.WriteFull\<close> over
  \<open>RecordConn.Read\<close> and \<open>RecordConn.Write\<close>, and that one message written by a connection is the message a peer in
  step reads.
\<close>

section \<open>Reading and writing fully on a record connection\<close>

lemma Record_Read_shrinks:
  assumes "Record_Read cr n c = (Inr out, c')" "0 < n"
  shows "length (rdata (cin c')) < length (rdata (cin c))
    \<or> length (rdata (cin c')) = length (rdata (cin c)) \<and> length (pendingPlain c') < length (pendingPlain c)"
proof (cases "rmethod c \<noteq> ''none'' \<and> hasPendingPlainLocked c")
  case True
  then have "drainPlainLocked n c = (out, c')" using assms by (auto simp: Record_Read_def split: prod.splits)
  then show ?thesis using drainPlain_pending [of n c out c'] True assms(2)
    by (auto simp: hasPendingPlainLocked_def pendingPlain_def) (metis (no_types) RecordConn.select_convs(1) RecordConn.surjective RecordConn.update_convs(18,19))
next
  case False
  then show ?thesis
    using assms unfolding Record_Read_def reader_Read_def drainPlainLocked_def Let_def
    by (auto simp: ReadFull_def recordHeaderSize_def split: if_splits sum.splits prod.splits option.splits)
qed

function readRest :: "crypto \<Rightarrow> nat \<Rightarrow> bytes \<Rightarrow> RecordConn \<Rightarrow> bytes result \<times> RecordConn" where
  "readRest cr n got c =
    (if n \<le> length got then (Inr got, c)
     else case Record_Read cr (n - length got) c of
       (Inl e, c') \<Rightarrow> (Inl (if got \<noteq> [] \<and> e = EOF then ErrUnexpectedEOF else e), c')
     | (Inr out, c') \<Rightarrow> readRest cr n (got @ out) c')"
  by pat_completeness auto
termination
proof (relation "inv_image (less_than <*lex*> less_than) (\<lambda>(cr, n, got, c). (length (rdata (cin c)), length (pendingPlain c)))", goal_cases)
  case (2 cr n got c r c' out)
  then show ?case using Record_Read_shrinks [of cr "n - length got" c out c'] by auto
qed auto

declare readRest.simps [simp del]

definition Record_ReadFull :: "crypto \<Rightarrow> nat \<Rightarrow> RecordConn \<Rightarrow> bytes result \<times> RecordConn" where
  "Record_ReadFull cr n c = readRest cr n [] c"

text \<open>\<open>connutil.WriteFull\<close> on a record connection.\<close>

function Record_WriteFull :: "crypto \<Rightarrow> u64 \<Rightarrow> RecordConn \<Rightarrow> bytes \<Rightarrow> go_error option \<times> RecordConn" where
  "Record_WriteFull cr ku c b =
    (if b = [] then (None, c)
     else case Record_Write cr ku b c of (n, err, c') \<Rightarrow>
       (case err of
          Some e \<Rightarrow> (Some e, c')
        | None \<Rightarrow> if n = 0 then (Some ErrShortWrite, c') else Record_WriteFull cr ku c' (drop n b)))"
  by pat_completeness auto
termination
  by (relation "measure (\<lambda>(cr, ku, c, b). length b)") auto

declare Record_WriteFull.simps [simp del]


section \<open>The two halves of a connection\<close>

definition recv_side :: "RecordConn \<Rightarrow> reader \<times> string \<times> bytes \<times> bytes \<times> bytes option \<times> u32 \<times> bool \<times> bytes \<times> nat" where
  "recv_side c = (cin c, rmethod c, baseSend c, baseRecv c, recvAEAD c, recvAEADEpoch c, recvInitialized c, readPlain c, readOff c)"

definition send_side :: "RecordConn \<Rightarrow> writer \<times> reader \<times> string \<times> bytes \<times> bytes \<times> bytes option \<times> u32 \<times> u32 \<times> u64" where
  "send_side c = (cout c, entropy c, rmethod c, baseSend c, baseRecv c, sendAEAD c, sendAEADEpoch c, sendEpoch c, sendSeq c)"

lemma ensureSendAEAD_recv_side: "ensureSendAEAD cr c = (e, c') \<Longrightarrow> recv_side c' = recv_side c"
  by (auto simp: ensureSendAEAD_def recv_side_def split: if_splits sum.splits)

lemma maybeBump_recv_side: "maybeBumpSendEpochLocked ku n c = (e, c') \<Longrightarrow> recv_side c' = recv_side c"
  by (auto simp: maybeBumpSendEpochLocked_def Let_def recv_side_def split: if_splits sum.splits prod.splits)

lemma recv_side_send_update [simp]:
  "recv_side (c\<lparr>sendSeq := s, cout := w\<rparr>) = recv_side c" "recv_side (c\<lparr>sendSeq := s\<rparr>) = recv_side c"
  by (simp_all add: recv_side_def)

lemma writeRecords_recv_side: "writeRecords cr ku p tot c = (k, e, c') \<Longrightarrow> recv_side c' = recv_side c"
proof (induction cr ku p tot c rule: writeRecords.induct)
  case (1 cr ku p tot c)
  show ?case
    using 1 by (subst (asm) writeRecords.simps [of cr ku p])
      (auto simp: Let_def dest!: ensureSendAEAD_recv_side maybeBump_recv_side split: if_splits prod.splits option.splits)
qed

lemma drain_send_side: "drainPlainLocked n c = (out, c') \<Longrightarrow> send_side c' = send_side c"
  by (auto simp: drainPlainLocked_def Let_def send_side_def split: if_splits)

lemma Record_Read_send_side: "Record_Read cr n c = (r, c') \<Longrightarrow> send_side c' = send_side c"
  unfolding Record_Read_def Let_def
  by (auto simp: send_side_def split: if_splits sum.splits prod.splits option.splits dest!: drain_send_side)

section \<open>Writing\<close>

lemma Record_WriteFull_records:
  assumes "Record_WriteFull cr ku c b = (None, c')" "supported (rmethod c)" "caches_ok cr c" "script (cout c) = []"
  shows "\<exists>rs. sent (cout c') = sent (cout c) @ framesOf cr (rmethod c) (baseSend c) rs \<and> plainOf rs = b
    \<and> list_all (fits cr (rmethod c)) rs \<and> ordered (sendEpoch c) (sendSeq c) rs (sendEpoch c') (sendSeq c')
    \<and> script (cout c') = [] \<and> caches_ok cr c' \<and> recv_side c' = recv_side c"
proof (cases "b = []")
  case True
  then show ?thesis using assms by (intro exI [of _ "[]"]) (auto simp: Record_WriteFull.simps framesOf_def plainOf_def ordered.Done)
next
  case False
  obtain n c1 where w: "writeRecords cr ku b 0 c = (n, None, c1)"
    and r: "if n = 0 then False else Record_WriteFull cr ku c1 (drop n b) = (None, c')"
    using assms(1,2) False supported_not_none
    by (subst (asm) Record_WriteFull.simps) (auto simp: Record_Write_def split: prod.splits option.splits if_splits)
  obtain rs where rs: "sent (cout c1) = sent (cout c) @ framesOf cr (rmethod c) (baseSend c) rs" "plainOf rs = b"
    "list_all (fits cr (rmethod c)) rs" "ordered (sendEpoch c) (sendSeq c) rs (sendEpoch c1) (sendSeq c1)"
    "n = length b" "script (cout c1) = []" "caches_ok cr c1"
    using writeRecords_ordered [OF w assms(2,3,4)] by auto
  have "c' = c1" using r rs(5) by (auto simp: Record_WriteFull.simps split: if_splits)
  then show ?thesis using rs writeRecords_recv_side [OF w] by blast
qed

text \<open>One message is a run of records whose plaintext is the message.\<close>

lemma writeKIP_records:
  assumes "writeKIP (Record_WriteFull cr ku) c ty p = (None, c')" "supported (rmethod c)" "caches_ok cr c" "script (cout c) = []"
  shows "\<exists>rs. sent (cout c') = sent (cout c) @ framesOf cr (rmethod c) (baseSend c) rs \<and> plainOf rs = kip_wire \<lparr>msgType = ty, Payload = p\<rparr>
    \<and> list_all (fits cr (rmethod c)) rs \<and> ordered (sendEpoch c) (sendSeq c) rs (sendEpoch c') (sendSeq c')
    \<and> caches_ok cr c' \<and> recv_side c' = recv_side c"
proof -
  obtain c1 where h: "Record_WriteFull cr ku c (kipHeader ty p) = (None, c1)" and q: "Record_WriteFull cr ku c1 p = (None, c')"
    using assms(1) by (auto simp: writeKIP_def Record_WriteFull.simps [of cr ku _ "[]"] split: if_splits prod.splits option.splits)
  obtain rs1 where r1: "sent (cout c1) = sent (cout c) @ framesOf cr (rmethod c) (baseSend c) rs1" "plainOf rs1 = kipHeader ty p"
    "list_all (fits cr (rmethod c)) rs1" "ordered (sendEpoch c) (sendSeq c) rs1 (sendEpoch c1) (sendSeq c1)"
    "script (cout c1) = []" "caches_ok cr c1" "recv_side c1 = recv_side c"
    using Record_WriteFull_records [OF h assms(2,3,4)] by blast
  have m: "rmethod c1 = rmethod c" "baseSend c1 = baseSend c" using r1(7) by (simp_all add: recv_side_def)
  obtain rs2 where r2: "sent (cout c') = sent (cout c1) @ framesOf cr (rmethod c) (baseSend c) rs2" "plainOf rs2 = p"
    "list_all (fits cr (rmethod c)) rs2" "ordered (sendEpoch c1) (sendSeq c1) rs2 (sendEpoch c') (sendSeq c')"
    "caches_ok cr c'" "recv_side c' = recv_side c1"
    using Record_WriteFull_records [OF q _ r1(6,5)] assms(2) m by auto
  show ?thesis using r1 r2 ordered_append [OF r1(4) r2(4)]
    by (intro exI [of _ "rs1 @ rs2"]) (simp add: framesOf_def plainOf_def kip_wire_def)
qed

section \<open>Reading\<close>

lemma Record_Read_in_step:
  assumes "aead_ok cr" "in_step cr c rs" "pendingPlain c @ plainOf rs \<noteq> []" "0 < n"
  shows "\<exists>out c' rs'. Record_Read cr n c = (Inr out, c') \<and> in_step cr c' rs' \<and> out \<noteq> [] \<and> length out \<le> n
    \<and> pendingPlain c @ plainOf rs = out @ pendingPlain c' @ plainOf rs'"
proof (cases "pendingPlain c = []")
  case False
  have m: "supported (rmethod c)" using assms(2) by (simp add: in_step_def)
  have p: "Record_Read cr n c = (Inr (take n (pendingPlain c)), snd (drainPlainLocked n c))"
      "pendingPlain (snd (drainPlainLocked n c)) = drop n (pendingPlain c)"
    using Record_readAll_pending [OF False assms(4) m] by blast+
  show ?thesis
    by (rule exI [of _ "take n (pendingPlain c)"], rule exI [of _ "snd (drainPlainLocked n c)"], rule exI [of _ rs])
      (use p in_step_drain [OF assms(2), of n] False assms(4) in simp)
next
  case True
  then obtain e s ch rs' where r: "rs = (e, s, ch) # rs'" using assms(3) by (cases rs) (auto simp: plainOf_def)
  obtain c' where c': "Record_Read cr n c = (Inr (take n ch), c')" "pendingPlain c' = drop n ch" "in_step cr c' rs'"
    using in_step_frame [OF assms(1) assms(2) [unfolded r] True assms(4)] by blast
  have "ch \<noteq> []" using assms(2) by (simp add: r in_step_def fits_def)
  then show ?thesis
    by (intro exI [of _ "take n ch"] exI [of _ c'] exI [of _ rs']) (use c' True assms(4) r in \<open>simp add: plainOf_def\<close>)
qed

lemma append_split: "a @ b = c @ d \<Longrightarrow> length c \<le> length a \<Longrightarrow> \<exists>x. a = c @ x \<and> d = x @ b"
  by (auto simp: append_eq_append_conv2)

lemma readRest_in_step:
  assumes "aead_ok cr" "in_step cr c rs" "pendingPlain c @ plainOf rs = bs @ rest" "n = length got + length bs"
  shows "\<exists>c' rs'. readRest cr n got c = (Inr (got @ bs), c') \<and> in_step cr c' rs' \<and> pendingPlain c' @ plainOf rs' = rest
    \<and> send_side c' = send_side c"
  using assms(2-)
proof (induction "length bs" arbitrary: bs got c rs rule: less_induct)
  case less
  show ?case
  proof (cases "bs = []")
    case True
    then show ?thesis using less.prems by (intro exI [of _ c] exI [of _ rs]) (simp add: readRest.simps)
  next
    case False
    obtain out c1 rs1 where o: "Record_Read cr (length bs) c = (Inr out, c1)" "in_step cr c1 rs1" "out \<noteq> []" "length out \<le> length bs"
      "bs @ rest = out @ pendingPlain c1 @ plainOf rs1"
      using Record_Read_in_step [OF assms(1) less.prems(1), of "length bs"] less.prems(2) False by auto
    obtain bs' where bs: "bs = out @ bs'" "pendingPlain c1 @ plainOf rs1 = bs' @ rest"
      using append_split [OF o(5,4)] by metis
    have "length bs' < length bs" "n = length (got @ out) + length bs'" using bs(1) o(3) less.prems(3) by simp_all
    then obtain c' rs' where r: "readRest cr n (got @ out) c1 = (Inr ((got @ out) @ bs'), c')" "in_step cr c' rs'"
      "pendingPlain c' @ plainOf rs' = rest" "send_side c' = send_side c1"
      using less.hyps [of bs' c1 rs1 "got @ out"] o(2) bs(2) by blast
    have "readRest cr n got c = readRest cr n (got @ out) c1"
      using o(1) less.prems(3) False by (subst readRest.simps) simp
    then show ?thesis using r bs(1) Record_Read_send_side [OF o(1)] by auto
  qed
qed

lemma Record_ReadFull_in_step:
  assumes "aead_ok cr" "in_step cr c rs" "pendingPlain c @ plainOf rs = bs @ rest"
  shows "\<exists>c' rs'. Record_ReadFull cr (length bs) c = (Inr bs, c') \<and> in_step cr c' rs' \<and> pendingPlain c' @ plainOf rs' = rest
    \<and> send_side c' = send_side c"
  using readRest_in_step [OF assms, of "length bs" "[]"] by (simp add: Record_ReadFull_def)

lemma readKIP_in_step:
  assumes "aead_ok cr" "in_step cr c rs" "pendingPlain c @ plainOf rs = kip_wire x @ rest" "length (Payload x) < 65536"
  shows "\<exists>c' rs'. readKIP (Record_ReadFull cr) c = (Inr x, c') \<and> in_step cr c' rs' \<and> pendingPlain c' @ plainOf rs' = rest
    \<and> send_side c' = send_side c"
proof -
  let ?h = "kipHeader (msgType x) (Payload x)"
  obtain c1 rs1 where c1: "Record_ReadFull cr 6 c = (Inr ?h, c1)" "in_step cr c1 rs1" "pendingPlain c1 @ plainOf rs1 = Payload x @ rest"
    "send_side c1 = send_side c"
    using Record_ReadFull_in_step [OF assms(1,2), of ?h "Payload x @ rest"] assms(3) by (auto simp: kip_wire_def kipHeader_parts)
  obtain c2 rs2 where c2: "Record_ReadFull cr (length (Payload x)) c1 = (Inr (Payload x), c2)" "in_step cr c2 rs2"
    "pendingPlain c2 @ plainOf rs2 = rest" "send_side c2 = send_side c1"
    using Record_ReadFull_in_step [OF assms(1) c1(2,3)] by blast
  have "readKIP (Record_ReadFull cr) c = (Inr x, if Payload x = [] then c1 else c2)"
    using c1(1) c2(1) assms(4) by (cases x) (auto simp: readKIP_def kipHeader_parts kip_sizes Let_def)
  then show ?thesis using c1 c2 by (cases "Payload x = []") auto
qed

section \<open>Writing succeeds\<close>

text \<open>With an open writer, room in a frame and key updates off, nothing can fail and no randomness is used.\<close>

lemma writeRecords_ok:
  assumes "supported (rmethod c)" "caches_ok cr c" "script (cout c) = []" "sint ku \<le> 0" "aoverhead cr (rmethod c) < 65523"
  shows "\<exists>c'. writeRecords cr ku p tot c = (tot + length p, None, c') \<and> entropy c' = entropy c"
  using assms(1-3,5)
proof (induction "length p" arbitrary: p tot c rule: less_induct)
  case less
  show ?case
  proof (cases "p = []")
    case False
    define n where "n = min (length p) (65523 - aoverhead cr (rmethod c))"
    let ?key = "epochKey cr (rmethod c) (baseSend c) (sendEpoch c)"
    let ?f = "recordFrame cr (rmethod c) ?key (sendEpoch c) (sendSeq c) (take n p)"
    let ?c3 = "c\<lparr>sendAEAD := Some ?key, sendAEADEpoch := sendEpoch c, sendSeq := sendSeq c + 1,
      cout := (cout c)\<lparr>sent := sent (cout c) @ ?f\<rparr>\<rparr>"
    have n: "0 < n" "n \<le> length p" "n + aoverhead cr (rmethod c) \<le> 65523" using False less.prems(4) by (auto simp: n_def)
    have "writeRecords cr ku p tot c = writeRecords cr ku (drop n p) (tot + n) ?c3"
      using False less.prems n assms(4)
      by (simp add: writeRecords.simps [of cr ku p] ensureSendAEAD_key maxFrameBodySize_def recordHeaderSize_def Let_def
          n_def [symmetric] WriteFull_open maybeBumpSendEpochLocked_def)
    moreover have "\<exists>c'. writeRecords cr ku (drop n p) (tot + n) ?c3 = (tot + n + length (drop n p), None, c') \<and> entropy c' = entropy ?c3"
      by (rule less.hyps) (use less.prems n in \<open>auto simp: caches_ok_def\<close>)
    ultimately show ?thesis using n by auto
  qed simp
qed

lemma Record_WriteFull_ok:
  assumes "supported (rmethod c)" "caches_ok cr c" "script (cout c) = []" "sint ku \<le> 0" "aoverhead cr (rmethod c) < 65523"
  shows "\<exists>c'. Record_WriteFull cr ku c b = (None, c') \<and> entropy c' = entropy c"
proof (cases "b = []")
  case False
  obtain c' where "writeRecords cr ku b 0 c = (length b, None, c')" "entropy c' = entropy c"
    using writeRecords_ok [OF assms, of b 0] by auto
  then have "Record_WriteFull cr ku c b = (None, c') \<and> entropy c' = entropy c"
    using False supported_not_none [OF assms(1)] by (simp add: Record_WriteFull.simps Record_Write_def)
  then show ?thesis by blast
qed (simp add: Record_WriteFull.simps)

lemma writeKIP_ok:
  assumes "supported (rmethod c)" "caches_ok cr c" "script (cout c) = []" "sint ku \<le> 0" "aoverhead cr (rmethod c) < 65523"
    "length p \<le> kipMaxPayload"
  shows "\<exists>c'. writeKIP (Record_WriteFull cr ku) c ty p = (None, c') \<and> entropy c' = entropy c"
proof -
  obtain c1 where c1: "Record_WriteFull cr ku c (kipHeader ty p) = (None, c1)" "entropy c1 = entropy c"
    using Record_WriteFull_ok [OF assms(1-5)] by blast
  have f: "script (cout c1) = []" "caches_ok cr c1" "rmethod c1 = rmethod c"
    using Record_WriteFull_records [OF c1(1) assms(1-3)] by (auto simp: recv_side_def)
  obtain c2 where "Record_WriteFull cr ku c1 p = (None, c2)" "entropy c2 = entropy c1"
    using Record_WriteFull_ok [OF _ f(2,1) assms(4)] assms(1,5) f(3) by metis
  then show ?thesis using c1 assms(6) by (auto simp: writeKIP_def)
qed

end
