(* ===== verification/Replay.thy ===== *)
theory Replay
  imports Kip "HOL-Library.AList"
begin

text \<open>
  The handshake replay protector (\<open>internal/tunnel/replay.go\<close>). Times and durations are nanoseconds. A Go
  map is an association list with distinct keys; which entry an iteration visits first is the runtime's
  choice, the parameter \<open>ch\<close>.
\<close>

definition zeroTime :: int where "zeroTime = - 62135596800 * second"

definition maxDuration :: int where "maxDuration = 2 ^ 63 - 1"

text \<open>\<open>Time.Sub\<close> saturates.\<close>

definition timeSub :: "int \<Rightarrow> int \<Rightarrow> int" where
  "timeSub t u = max (- maxDuration - 1) (min maxDuration (t - u))"

definition handshakeReplayTTL :: int where "handshakeReplayTTL = 60 * second"

record nonceSet =
  entries :: "(bytes \<times> int) list"
  maxEntries :: int
  lastPrune :: int

definition newNonceSet :: "int \<Rightarrow> nonceSet" where
  "newNonceSet maxE = \<lparr>entries = [], maxEntries = (if maxE \<le> 0 then 4096 else maxE), lastPrune = zeroTime\<rparr>"

text \<open>Deleting the entry the iteration visits first, until the map is small enough.\<close>

fun remove_at :: "nat \<Rightarrow> 'a list \<Rightarrow> 'a list" where
  "remove_at i [] = []"
| "remove_at i (x # xs) = (case i of 0 \<Rightarrow> xs | Suc j \<Rightarrow> x # remove_at j xs)"

lemma length_remove_at: "i < length xs \<Longrightarrow> length (remove_at i xs) < length xs"
  by (induction i xs rule: remove_at.induct) (auto split: nat.splits)

function trim :: "((bytes \<times> int) list \<Rightarrow> nat) \<Rightarrow> int \<Rightarrow> (bytes \<times> int) list \<Rightarrow> (bytes \<times> int) list" where
  "trim ch maxE es =
    (if maxE < int (length es) \<and> es \<noteq> [] then trim ch maxE (remove_at (ch es mod length es) es) else es)"
  by pat_completeness auto
termination
  by (relation "measure (\<lambda>(ch, maxE, es). length es)") (auto intro: length_remove_at)

declare trim.simps [simp del]

definition prune :: "((bytes \<times> int) list \<Rightarrow> nat) \<Rightarrow> int \<Rightarrow> nonceSet \<Rightarrow> nonceSet" where
  "prune ch now s =
    (let live = filter (\<lambda>(k, exp). now < exp) (entries s)
     in s\<lparr>entries := trim ch (maxEntries s) live, lastPrune := now\<rparr>)"

definition nonce_allow :: "((bytes \<times> int) list \<Rightarrow> nat) \<Rightarrow> bytes \<Rightarrow> int \<Rightarrow> int \<Rightarrow> nonceSet \<Rightarrow> bool \<times> nonceSet" where
  "nonce_allow ch nonce now ttl0 s =
    (let ttl = (if ttl0 \<le> 0 then 60 * second else ttl0);
         s1 = (if ttl div 2 < timeSub now (lastPrune s) \<or> maxEntries s < int (length (entries s)) then prune ch now s else s)
     in case map_of (entries s1) nonce of
          Some exp \<Rightarrow> if now < exp then (False, s1) else (True, s1\<lparr>entries := AList.update nonce (now + ttl) (entries s1)\<rparr>)
        | None \<Rightarrow> (True, s1\<lparr>entries := AList.update nonce (now + ttl) (entries s1)\<rparr>))"

type_synonym protector = "string \<rightharpoonup> nonceSet"

definition protector_allow :: "((bytes \<times> int) list \<Rightarrow> nat) \<Rightarrow> string \<Rightarrow> bytes \<Rightarrow> int \<Rightarrow> protector \<Rightarrow> bool \<times> protector" where
  "protector_allow ch userHash nonce now p =
    (let u = (if userHash = '''' then ''_'' else userHash);
         s = (case p u of Some s \<Rightarrow> s | None \<Rightarrow> newNonceSet 4096);
         (ok, s') = nonce_allow ch nonce now handshakeReplayTTL s
     in (ok, p(u \<mapsto> s')))"

definition AllowHandshakeReplay :: "((bytes \<times> int) list \<Rightarrow> nat) \<Rightarrow> string \<Rightarrow> bytes \<Rightarrow> int \<Rightarrow> protector \<Rightarrow> bool \<times> protector" where
  "AllowHandshakeReplay ch userHash nonce now globalHandshakeReplay = protector_allow ch userHash nonce now globalHandshakeReplay"

section \<open>The set stays small and remembers\<close>

text \<open>The invariant of a nonce set: distinct keys, and at most one entry above the limit.\<close>

definition set_ok :: "nonceSet \<Rightarrow> bool" where
  "set_ok s \<longleftrightarrow> distinct (map fst (entries s)) \<and> 0 < maxEntries s \<and> int (length (entries s)) \<le> maxEntries s + 1"

lemma set_remove_at: "set (remove_at i xs) \<subseteq> set xs"
  by (induction i xs rule: remove_at.induct) (auto split: nat.splits)

lemma distinct_remove_at: "distinct (map fst xs) \<Longrightarrow> distinct (map fst (remove_at i xs))"
proof (induction i xs rule: remove_at.induct)
  case (2 i x xs)
  then show ?case using set_remove_at [of _ xs] by (auto split: nat.splits)
qed simp

lemma trim_ok:
  "0 \<le> maxE \<Longrightarrow> distinct (map fst es) \<Longrightarrow>
    distinct (map fst (trim ch maxE es)) \<and> int (length (trim ch maxE es)) \<le> maxE \<and> set (trim ch maxE es) \<subseteq> set es"
proof (induction ch maxE es rule: trim.induct)
  case (1 ch maxE es)
  show ?case
  proof (cases "maxE < int (length es) \<and> es \<noteq> []")
    case True
    then have "trim ch maxE es = trim ch maxE (remove_at (ch es mod length es) es)" by (simp add: trim.simps [of ch maxE es])
    then show ?thesis
      using "1.IH" [OF True "1.prems"(1) distinct_remove_at [OF "1.prems"(2)]] set_remove_at [of "ch es mod length es" es] by auto
  next
    case False
    then show ?thesis using "1.prems" by (auto simp: trim.simps [of ch maxE es])
  qed
qed

lemma trim_small: "int (length es) \<le> maxE \<Longrightarrow> trim ch maxE es = es"
  by (simp add: trim.simps [of ch maxE es])

lemma prune_ok: "set_ok s \<Longrightarrow> set_ok (prune ch now s) \<and> int (length (entries (prune ch now s))) \<le> maxEntries s"
  using trim_ok [of "maxEntries s" "filter (\<lambda>(k, exp). now < exp) (entries s)" ch]
  by (simp add: set_ok_def prune_def Let_def distinct_map_filter)

lemma length_update: "length (AList.update k v al) \<le> Suc (length al)"
  by (induction al) auto

lemma nonce_allow_ok:
  assumes "set_ok s" "nonce_allow ch nonce now ttl s = (ok, s')"
  shows "set_ok s' \<and> maxEntries s' = maxEntries s"
proof -
  let ?ttl = "if ttl \<le> 0 then 60 * second else ttl"
  define s1 where "s1 = (if ?ttl div 2 < timeSub now (lastPrune s) \<or> maxEntries s < int (length (entries s)) then prune ch now s else s)"
  have s1: "set_ok s1" "int (length (entries s1)) \<le> maxEntries s" "maxEntries s1 = maxEntries s"
    using assms(1) prune_ok [OF assms(1), of ch now] by (auto simp: s1_def prune_def Let_def)
  have "s' = s1 \<or> s' = s1\<lparr>entries := AList.update nonce (now + ?ttl) (entries s1)\<rparr>"
    using assms(2) unfolding nonce_allow_def Let_def s1_def [symmetric] by (auto split: option.splits if_splits)
  then show ?thesis
    using s1 length_update [of nonce "now + ?ttl" "entries s1"] distinct_update [of "entries s1" nonce "now + ?ttl"]
    by (auto simp: set_ok_def)
qed

lemma nonce_allow_remembers:
  assumes s: "set_ok s" "int (length (entries s)) \<le> maxEntries s" and e: "map_of (entries s) n = Some e" "now < e"
    and a: "nonce_allow ch k now ttl s = (ok, s')"
  shows "map_of (entries s') n = Some e \<and> (k = n \<longrightarrow> \<not> ok)"
proof -
  let ?ttl = "if ttl \<le> 0 then 60 * second else ttl"
  define s1 where "s1 = (if ?ttl div 2 < timeSub now (lastPrune s) \<or> maxEntries s < int (length (entries s)) then prune ch now s else s)"
  have d: "distinct (map fst (entries s))" using s(1) by (simp add: set_ok_def)
  have len: "int (length (filter (\<lambda>(k, exp). now < exp) (entries s))) \<le> maxEntries s"
    using s(2) length_filter_le [of "\<lambda>(k, exp). now < exp" "entries s"] by linarith
  have "(n, e) \<in> set (filter (\<lambda>(k, exp). now < exp) (entries s))" using map_of_SomeD [OF e(1)] e(2) by simp
  then have "map_of (filter (\<lambda>(k, exp). now < exp) (entries s)) n = Some e"
    by (rule map_of_is_SomeI [rotated]) (simp add: d distinct_map_filter)
  then have s1: "map_of (entries s1) n = Some e"
    using e(1) trim_small [OF len] by (simp add: s1_def prune_def Let_def)
  show ?thesis
    using a s1 e(2) unfolding nonce_allow_def Let_def s1_def [symmetric]
    by (cases "k = n") (auto simp: update_conv' split: option.splits if_splits)
qed

lemma nonce_allow_length:
  assumes "nonce_allow ch k now ttl s = (ok, s')" "int (length (entries s)) \<le> maxEntries s"
  shows "length (entries s') \<le> Suc (length (entries s))"
proof -
  let ?ttl = "if ttl \<le> 0 then 60 * second else ttl"
  define s1 where "s1 = (if ?ttl div 2 < timeSub now (lastPrune s) \<or> maxEntries s < int (length (entries s)) then prune ch now s else s)"
  have f: "length (filter (\<lambda>(k, exp). now < exp) (entries s)) \<le> length (entries s)" by simp
  then have "int (length (filter (\<lambda>(k, exp). now < exp) (entries s))) \<le> maxEntries s" using assms(2) by linarith
  then have "length (entries s1) \<le> length (entries s)" using f by (simp add: s1_def prune_def Let_def trim_small)
  then show ?thesis
    using assms(1) length_update [of k _ "entries s1"] unfolding nonce_allow_def Let_def s1_def [symmetric]
    by (fastforce split: option.splits if_splits intro: le_trans)
qed

lemma nonce_allow_stores:
  "nonce_allow ch n now ttl s = (True, s') \<Longrightarrow> map_of (entries s') n = Some (now + (if ttl \<le> 0 then 60 * second else ttl))"
  unfolding nonce_allow_def Let_def by (auto simp: update_conv' split: option.splits if_splits)

text \<open>A protector after at most \<open>k\<close> calls.\<close>

definition protector_ok :: "nat \<Rightarrow> protector \<Rightarrow> bool" where
  "protector_ok k p \<longleftrightarrow> (\<forall>u s. p u = Some s \<longrightarrow> set_ok s \<and> maxEntries s = 4096 \<and> length (entries s) \<le> k)"

lemma newNonceSet_ok: "set_ok (newNonceSet 4096)" "maxEntries (newNonceSet 4096) = 4096" "entries (newNonceSet 4096) = []"
  by (simp_all add: newNonceSet_def set_ok_def)

lemma protector_allow_ok:
  assumes "protector_ok k p" "k \<le> 4096" "protector_allow ch u n now p = (ok, p')"
  shows "protector_ok (Suc k) p'"
proof -
  let ?u = "if u = '''' then ''_'' else u"
  define s where "s = (case p ?u of Some s \<Rightarrow> s | None \<Rightarrow> newNonceSet 4096)"
  obtain s' where a: "nonce_allow ch n now handshakeReplayTTL s = (ok, s')" "p' = p(?u \<mapsto> s')"
    using assms(3) unfolding protector_allow_def Let_def s_def [symmetric] by (auto split: prod.splits)
  have s: "set_ok s" "maxEntries s = 4096" "length (entries s) \<le> k"
    using assms(1) newNonceSet_ok by (auto simp: s_def protector_ok_def split: option.splits)
  have "set_ok s' \<and> maxEntries s' = 4096 \<and> length (entries s') \<le> Suc k"
    using nonce_allow_ok [OF s(1) a(1)] nonce_allow_length [OF a(1)] s assms(2) by auto
  then show ?thesis using assms(1) a(2) by (auto simp: protector_ok_def intro: le_SucI)
qed

lemma protector_allow_remembers:
  assumes "protector_ok k p" "k \<le> 4096" "p v = Some s" "map_of (entries s) n = Some e" "now < e" "v \<noteq> ''''"
    and "protector_allow ch u m now p = (ok, p')"
  shows "\<exists>s'. p' v = Some s' \<and> map_of (entries s') n = Some e
    \<and> ((if u = '''' then ''_'' else u) = v \<and> m = n \<longrightarrow> \<not> ok)"
proof (cases "(if u = '''' then ''_'' else u) = v")
  case True
  then obtain s' where a: "nonce_allow ch m now handshakeReplayTTL s = (ok, s')" "p' = p(v \<mapsto> s')"
    using assms(3,7) unfolding protector_allow_def Let_def by (auto split: prod.splits)
  have "set_ok s" "maxEntries s = 4096" "length (entries s) \<le> k" using assms(1,3) by (auto simp: protector_ok_def)
  then have "set_ok s" "int (length (entries s)) \<le> maxEntries s" using assms(2) by simp_all
  from nonce_allow_remembers [OF this assms(4,5) a(1)] show ?thesis using a(2) by auto
next
  case False
  then show ?thesis using assms(3,4,7) by (auto simp: protector_allow_def Let_def split: prod.splits)
qed

text \<open>A run of calls.\<close>

fun protector_run :: "((bytes \<times> int) list \<Rightarrow> nat) \<Rightarrow> (string \<times> bytes \<times> int) list \<Rightarrow> protector \<Rightarrow> protector" where
  "protector_run ch [] p = p"
| "protector_run ch ((u, n, now) # calls) p = protector_run ch calls (snd (AllowHandshakeReplay ch u n now p))"

lemma protector_run_ok:
  "protector_ok k p \<Longrightarrow> k + length calls \<le> 4097 \<Longrightarrow> protector_ok (k + length calls) (protector_run ch calls p)"
proof (induction ch calls p arbitrary: k rule: protector_run.induct)
  case (2 ch u n now calls p)
  have "protector_ok (Suc k) (snd (AllowHandshakeReplay ch u n now p))"
    using protector_allow_ok [OF "2.prems"(1)] "2.prems"(2) by (simp add: AllowHandshakeReplay_def prod_eq_iff)
  from "2.IH" [OF this] show ?case using "2.prems"(2) by simp
qed simp

lemma protector_run_remembers:
  assumes "protector_ok k p" "k + length calls \<le> 4097" "p v = Some s" "map_of (entries s) n = Some e" "v \<noteq> ''''"
    and "list_all (\<lambda>(u, m, now). now < e) calls"
  shows "\<exists>s'. protector_run ch calls p v = Some s' \<and> map_of (entries s') n = Some e"
  using assms
proof (induction ch calls p arbitrary: k s rule: protector_run.induct)
  case (2 ch u m now calls p)
  obtain ok p' where a: "protector_allow ch u m now p = (ok, p')" by (metis surj_pair)
  have k: "k \<le> 4096" "now < e" using "2.prems"(2,6) by auto
  obtain s' where s': "p' v = Some s'" "map_of (entries s') n = Some e"
    using protector_allow_remembers [OF "2.prems"(1) k(1) "2.prems"(3,4) k(2) "2.prems"(5) a] by blast
  have "protector_ok (Suc k) p'" by (rule protector_allow_ok [OF "2.prems"(1) k(1) a])
  from "2.IH" [OF _ _ _ s'(2) "2.prems"(5), of "Suc k"] this show ?case
    using "2.prems"(2,6) s'(1) a by (simp add: AllowHandshakeReplay_def)
qed simp

section \<open>Properties\<close>



text \<open>
  A nonce set never holds more than one entry above its limit and never holds a nonce twice,
  whatever the calls and whatever entries the trimming picks.
\<close>

theorem nonce_set_bounded:
  assumes "set_ok s" "nonce_allow ch nonce now ttl s = (ok, s')"
  shows "set_ok s' \<and> (ok \<longrightarrow> map_of (entries s') nonce = Some (now + (if ttl \<le> 0 then 60 * second else ttl)))"
  using nonce_allow_ok [OF assms] nonce_allow_stores [of ch nonce now ttl s s'] assms(2) by auto

theorem nonce_set_bounded_witness:
  "set_ok (snd (nonce_allow (\<lambda>_. 0) [1] 5 0 (newNonceSet 1)))"
  using nonce_set_bounded [of "newNonceSet 1" "\<lambda>_. 0" "[1]" 5 0 "fst (nonce_allow (\<lambda>_. 0) [1] 5 0 (newNonceSet 1))" "snd (nonce_allow (\<lambda>_. 0) [1] 5 0 (newNonceSet 1))"]
  by (simp add: newNonceSet_def set_ok_def)

end
