(* ===== verification/Handshake.thy ===== *)
theory Handshake
  imports RecordIO TableSelect Replay
begin

text \<open>
  The key agreement of the tunnel (\<open>internal/tunnel/session_keys.go\<close>, \<open>handshake_kip.go\<close> and the handshake part of
  \<open>server.go\<close>) over the record layer. The primitives are a parameter: SHA-256, HKDF, and X25519 as key
  generation from the random source, the public key of a private key and the shared secret (which
  includes parsing the peer's key). \<open>kex_ok\<close> is what the code relies on: the two ends compute the same secret,
  public keys have 32 bytes and HKDF gives keys of the length asked for.
\<close>

record kexlib =
  sha :: "bytes \<Rightarrow> bytes"
  hkdfExtract :: "bytes \<Rightarrow> bytes \<Rightarrow> bytes result"
  hkdfExpand :: "bytes \<Rightarrow> string \<Rightarrow> nat \<Rightarrow> bytes result"
  genKey :: "reader \<Rightarrow> bytes result \<times> reader"
  publicKey :: "bytes \<Rightarrow> bytes"
  ecdh :: "bytes \<Rightarrow> bytes \<Rightarrow> bytes result"

definition kex_ok :: "kexlib \<Rightarrow> bool" where
  "kex_ok lib \<longleftrightarrow> (\<forall>a b. \<exists>z. ecdh lib a (publicKey lib b) = Inr z \<and> ecdh lib b (publicKey lib a) = Inr z)
    \<and> (\<forall>a. length (publicKey lib a) = 32) \<and> (\<forall>ikm salt. \<exists>k. hkdfExtract lib ikm salt = Inr k)
    \<and> (\<forall>k info. \<exists>x. hkdfExpand lib k info 32 = Inr x \<and> length x = 32)"

section \<open>Keys\<close>

definition orNil :: "bytes result \<Rightarrow> bytes" where
  "orNil r = (case r of Inl e \<Rightarrow> [] | Inr b \<Rightarrow> b)"

definition derivePSKDirectionalBases :: "kexlib \<Rightarrow> string \<Rightarrow> bytes \<times> bytes" where
  "derivePSKDirectionalBases lib psk =
    (let sum = sha lib (bytes_of psk)
     in (orNil (hkdfExpand lib sum ''sudoku-psk-c2s'' 32), orNil (hkdfExpand lib sum ''sudoku-psk-s2c'' 32)))"

definition deriveSessionDirectionalBases :: "kexlib \<Rightarrow> string \<Rightarrow> bytes \<Rightarrow> bytes \<Rightarrow> (bytes \<times> bytes) result" where
  "deriveSessionDirectionalBases lib psk shared nonce =
    (case hkdfExtract lib (shared @ nonce) (sha lib (bytes_of psk)) of
       Inl e \<Rightarrow> Inl (ErrMsg ''hkdf extract'')
     | Inr prk \<Rightarrow>
       (case hkdfExpand lib prk ''sudoku-session-c2s'' 32 of
          Inl e \<Rightarrow> Inl (ErrMsg ''hkdf expand c2s'')
        | Inr c2s \<Rightarrow>
          (case hkdfExpand lib prk ''sudoku-session-s2c'' 32 of
             Inl e \<Rightarrow> Inl (ErrMsg ''hkdf expand s2c'')
           | Inr s2c \<Rightarrow> Inr (c2s, s2c))))"

definition x25519SharedSecret :: "kexlib \<Rightarrow> bytes \<Rightarrow> bytes \<Rightarrow> bytes result" where
  "x25519SharedSecret lib priv peerPub = (case ecdh lib priv peerPub of Inl e \<Rightarrow> Inl (ErrMsg ''ecdh'') | Inr secret \<Rightarrow> Inr secret)"

section \<open>The client\<close>

text \<open>Up to the client hello: the ephemeral key and the nonce it keeps.\<close>

definition clientSendHello :: "kexlib \<Rightarrow> crypto \<Rightarrow> u64 \<Rightarrow> bytes \<Rightarrow> u32 \<Rightarrow> u32 \<Rightarrow> bool \<Rightarrow> int \<Rightarrow> RecordConn
    \<Rightarrow> (bytes \<times> bytes) result \<times> RecordConn" where
  "clientSendHello lib cr ku userHash feats tableHint hasTableHint now rc =
    (case genKey lib (entropy rc) of
       (Inl e, rd) \<Rightarrow> (Inl (ErrMsg ''ecdh generate failed''), rc\<lparr>entropy := rd\<rparr>)
     | (Inr ephemeral, rd) \<Rightarrow>
       (case ReadFull kipHelloNonceSize rd of
          (Inl e, rd2) \<Rightarrow> (Inl (ErrMsg ''nonce generate failed''), rc\<lparr>entropy := rd2\<rparr>)
        | (Inr nonce, rd2) \<Rightarrow>
          let ch = \<lparr>Timestamp = unixTime now, UserHash = userHash, Nonce = nonce, ClientPub = publicKey lib ephemeral,
                    Features = feats, TableHint = tableHint, HasTableHint = hasTableHint\<rparr>
          in (case writeKIP (Record_WriteFull cr ku) (rc\<lparr>entropy := rd2\<rparr>) KIPTypeClientHello (EncodeClientHello ch) of
                (Some e, rc1) \<Rightarrow> (Inl (ErrMsg ''write client hello failed''), rc1)
              | (None, rc1) \<Rightarrow> (Inr (ephemeral, nonce), rc1))))"

definition clientFinish :: "kexlib \<Rightarrow> crypto \<Rightarrow> string \<Rightarrow> bytes \<Rightarrow> bytes \<Rightarrow> RecordConn \<Rightarrow> u32 result \<times> RecordConn" where
  "clientFinish lib cr seed ephemeral nonce rc =
    (case readKIP (Record_ReadFull cr) rc of
       (Inl e, rc1) \<Rightarrow> (Inl (ErrMsg ''read server hello failed''), rc1)
     | (Inr msg, rc1) \<Rightarrow>
       if msgType msg \<noteq> KIPTypeServerHello then (Inl (ErrMsg ''unexpected handshake message''), rc1)
       else
         (case DecodeKIPServerHelloPayload (Payload msg) of
            Inl e \<Rightarrow> (Inl (ErrMsg ''decode server hello failed''), rc1)
          | Inr sh \<Rightarrow>
            if SNonce sh \<noteq> nonce then (Inl (ErrMsg ''handshake nonce mismatch''), rc1)
            else
              (case x25519SharedSecret lib ephemeral (ServerPub sh) of
                 Inl e \<Rightarrow> (Inl (ErrMsg ''ecdh failed''), rc1)
               | Inr shared \<Rightarrow>
                 (case deriveSessionDirectionalBases lib seed shared nonce of
                    Inl e \<Rightarrow> (Inl (ErrMsg ''derive session keys failed''), rc1)
                  | Inr (sessC2S, sessS2C) \<Rightarrow>
                    (case Rekey sessC2S sessS2C rc1 of
                       (Some e, rc2) \<Rightarrow> (Inl (ErrMsg ''rekey failed''), rc2)
                     | (None, rc2) \<Rightarrow> (Inr (SelectedFeats sh), rc2))))))"

definition KIPHandshakeClient :: "kexlib \<Rightarrow> crypto \<Rightarrow> u64 \<Rightarrow> string \<Rightarrow> bytes \<Rightarrow> u32 \<Rightarrow> u32 \<Rightarrow> bool \<Rightarrow> int \<Rightarrow> RecordConn
    \<Rightarrow> u32 result \<times> RecordConn" where
  "KIPHandshakeClient lib cr ku seed userHash feats tableHint hasTableHint now rc =
    (case clientSendHello lib cr ku userHash feats tableHint hasTableHint now rc of
       (Inl e, rc1) \<Rightarrow> (Inl e, rc1)
     | (Inr (ephemeral, nonce), rc1) \<Rightarrow> clientFinish lib cr seed ephemeral nonce rc1)"

section \<open>The server\<close>

definition kipHandshakeSkewSeconds :: int where "kipHandshakeSkewSeconds = 60"

definition skewed :: "int \<Rightarrow> u64 \<Rightarrow> bool" where
  "skewed now ts \<longleftrightarrow> kipHandshakeSkewSeconds < sint (AbsInt64 (unixTime now - ts))"

record HandshakeMeta =
  metaUserHash :: string
  UplinkPacked :: bool

text \<open>
  The handshake of \<open>HandshakeAndUpgradeWithTablesMeta\<close> once the table and the uplink mode are selected and the
  record connection is set up; every error is suspicious. Beside the metadata it gives the table the downlink uses
  from the server hello on.
\<close>

definition serverHandshake :: "kexlib \<Rightarrow> crypto \<Rightarrow> u64 \<Rightarrow> string \<Rightarrow> Table list \<Rightarrow> nat option list \<Rightarrow> nat \<Rightarrow> ObfsUplinkMode
    \<Rightarrow> int \<Rightarrow> ((bytes \<times> int) list \<Rightarrow> nat) \<Rightarrow> protector \<Rightarrow> RecordConn \<Rightarrow> (HandshakeMeta \<times> nat) result \<times> protector \<times> RecordConn" where
  "serverHandshake lib cr ku key ts tables selected mode now ch pr c =
    (case readKIP (Record_ReadFull cr) c of
       (Inl e, c1) \<Rightarrow> (Inl (ErrMsg ''handshake read failed''), pr, c1)
     | (Inr msg, c1) \<Rightarrow>
       if msgType msg \<noteq> KIPTypeClientHello then (Inl (ErrMsg ''unexpected handshake message''), pr, c1)
       else
         (case DecodeKIPClientHelloPayload (Payload msg) of
            Inl e \<Rightarrow> (Inl (ErrMsg ''decode client hello failed''), pr, c1)
          | Inr hello \<Rightarrow>
            if skewed now (Timestamp hello) then (Inl (ErrMsg ''time skew/replay''), pr, c1)
            else
              (case protector_allow ch (kipUserHashHex (UserHash hello)) (Nonce hello) now pr of
                 (False, pr1) \<Rightarrow> (Inl (ErrMsg ''replay''), pr1, c1)
               | (True, pr1) \<Rightarrow>
                 (case ResolveClientHelloTable ts (Some selected) tables (Some hello) of
                    Inl e \<Rightarrow> (Inl (ErrMsg ''resolve table hint failed''), pr1, c1)
                  | Inr resolved \<Rightarrow>
                    (case genKey lib (entropy c1) of
                       (Inl e, rd) \<Rightarrow> (Inl (ErrMsg ''ecdh generate failed''), pr1, c1\<lparr>entropy := rd\<rparr>)
                     | (Inr serverEphemeral, rd) \<Rightarrow>
                       let c2 = c1\<lparr>entropy := rd\<rparr> in
                       (case x25519SharedSecret lib serverEphemeral (ClientPub hello) of
                          Inl e \<Rightarrow> (Inl (ErrMsg ''ecdh failed''), pr1, c2)
                        | Inr shared \<Rightarrow>
                          (case deriveSessionDirectionalBases lib key shared (Nonce hello) of
                             Inl e \<Rightarrow> (Inl (ErrMsg ''derive session keys failed''), pr1, c2)
                           | Inr (sessC2S, sessS2C) \<Rightarrow>
                             let sh = \<lparr>SNonce = Nonce hello, ServerPub = publicKey lib serverEphemeral,
                                       SelectedFeats = Features hello AND KIPFeatAll\<rparr>
                             in (case writeKIP (Record_WriteFull cr ku) c2 KIPTypeServerHello (EncodeServerHello sh) of
                                   (Some e, c3) \<Rightarrow> (Inl (ErrMsg ''write server hello failed''), pr1, c3)
                                 | (None, c3) \<Rightarrow>
                                   (case Rekey sessS2C sessC2S c3 of
                                      (Some e, c4) \<Rightarrow> (Inl (ErrMsg ''rekey failed''), pr1, c4)
                                    | (None, c4) \<Rightarrow>
                                      (Inr (\<lparr>metaUserHash = kipUserHashHex (UserHash hello), UplinkPacked = (mode = ObfsUplinkPacked)\<rparr>, resolved),
                                       pr1, c4))))))))))"

section \<open>Agreement\<close>

text \<open>What a successful \<open>Rekey\<close> leaves: the new keys on a connection without traffic, everything else in place.\<close>

lemma Rekey_result:
  assumes "Rekey bS bR c = (None, c')"
  shows "fresh c' \<and> baseSend c' = bS \<and> baseRecv c' = bR \<and> rmethod c' = rmethod c \<and> cout c' = cout c"
  using assms unfolding Rekey_def
  by (auto simp: fresh_def dest!: resetTrafficState_fields split: if_splits prod.splits option.splits)

lemma Rekey_ok:
  assumes "randomRecordCounters (entropy c) = (Inr x, rd)" "32 \<le> length bS" "32 \<le> length bR"
  shows "\<exists>c'. Rekey bS bR c = (None, c')"
  using assms by (cases x) (simp add: Rekey_def validateBaseKey_def resetTrafficState_def)

lemma session_keys:
  assumes "kex_ok lib"
  shows "\<exists>c2s s2c. deriveSessionDirectionalBases lib psk shared nonce = Inr (c2s, s2c) \<and> length c2s = 32 \<and> length s2c = 32"
proof -
  obtain prk where "hkdfExtract lib (shared @ nonce) (sha lib (bytes_of psk)) = Inr prk" using assms unfolding kex_ok_def by metis
  moreover obtain a where "hkdfExpand lib prk ''sudoku-session-c2s'' 32 = Inr a" "length a = 32" using assms unfolding kex_ok_def by metis
  moreover obtain b where "hkdfExpand lib prk ''sudoku-session-s2c'' 32 = Inr b" "length b = 32" using assms unfolding kex_ok_def by metis
  ultimately show ?thesis by (simp add: deriveSessionDirectionalBases_def)
qed

lemma shared_secret:
  assumes "kex_ok lib"
  shows "\<exists>z. x25519SharedSecret lib a (publicKey lib b) = Inr z \<and> x25519SharedSecret lib b (publicKey lib a) = Inr z"
proof -
  obtain z where "ecdh lib a (publicKey lib b) = Inr z" "ecdh lib b (publicKey lib a) = Inr z"
    using assms unfolding kex_ok_def by metis
  then show ?thesis by (simp add: x25519SharedSecret_def)
qed

definition helloOf :: "kexlib \<Rightarrow> bytes \<Rightarrow> u32 \<Rightarrow> u32 \<Rightarrow> bool \<Rightarrow> int \<Rightarrow> bytes \<Rightarrow> bytes \<Rightarrow> KIPClientHello" where
  "helloOf lib userHash feats th hth now ephemeral nonce =
    \<lparr>Timestamp = unixTime now, UserHash = userHash, Nonce = nonce, ClientPub = publicKey lib ephemeral,
     Features = feats, TableHint = th, HasTableHint = hth\<rparr>"

text \<open>A run of records that carries one message, as a peer in step receives it.\<close>

definition carries :: "crypto \<Rightarrow> RecordConn \<Rightarrow> RecordConn \<Rightarrow> rec list \<Rightarrow> KIPMessage \<Rightarrow> bool" where
  "carries cr c c' rs x \<longleftrightarrow> sent (cout c') = sent (cout c) @ framesOf cr (rmethod c) (baseSend c) rs \<and> plainOf rs = kip_wire x
    \<and> list_all (fits cr (rmethod c)) rs \<and> ordered (sendEpoch c) (sendSeq c) rs (sendEpoch c') (sendSeq c')
    \<and> caches_ok cr c' \<and> recv_side c' = recv_side c"

lemma carries_read:
  assumes "aead_ok cr" "carries cr c c' rs x" "sent (cout c) = []" "length (Payload x) < 65536"
    and "\<not> recvInitialized d" "caches_ok cr d" "pendingPlain d = []" "supported (rmethod d)"
    and "rmethod d = rmethod c" "baseRecv d = baseSend c" "cin d = reader_of (sent (cout c'))"
    and "unat (sendEpoch c) + length (kip_wire x) \<le> 2 ^ 32"
  shows "\<exists>d'. readKIP (Record_ReadFull cr) d = (Inr x, d') \<and> send_side d' = send_side d \<and> caches_ok cr d'"
proof -
  have c: "sent (cout c') = framesOf cr (rmethod d) (baseRecv d) rs" "plainOf rs = kip_wire x" "list_all (fits cr (rmethod d)) rs"
    "ordered (sendEpoch c) (sendSeq c) rs (sendEpoch c') (sendSeq c')"
    using assms(2,3,9,10) by (simp_all add: carries_def)
  have "length rs \<le> length (kip_wire x)" using fits_length [OF c(3)] c(2) by simp
  then have "in_step cr d rs"
    using unread_in_step [OF assms(5,6,8) _ c(3,4)] assms(11,12) c(1) by simp
  then show ?thesis using readKIP_in_step [OF assms(1), of d rs x "[]"] assms(4,7) c(2) by (auto simp: in_step_def)
qed

lemma clientSendHello_carries:
  assumes "clientSendHello lib cr ku uh feats th hth now rc = (Inr (eph, nonce), rc1)" "supported (rmethod rc)" "fresh rc"
    "script (cout rc) = []"
  shows "length nonce = 16 \<and> (\<exists>rs rd. carries cr (rc\<lparr>entropy := rd\<rparr>) rc1 rs
      \<lparr>msgType = KIPTypeClientHello, Payload = EncodeClientHello (helloOf lib uh feats th hth now eph nonce)\<rparr>)"
proof -
  obtain rd rd2 where g: "genKey lib (entropy rc) = (Inr eph, rd)" "ReadFull kipHelloNonceSize rd = (Inr nonce, rd2)"
    and w: "writeKIP (Record_WriteFull cr ku) (rc\<lparr>entropy := rd2\<rparr>) KIPTypeClientHello
      (EncodeClientHello (helloOf lib uh feats th hth now eph nonce)) = (None, rc1)"
    using assms(1) by (auto simp: clientSendHello_def helloOf_def Let_def split: prod.splits sum.splits option.splits)
  have "caches_ok cr (rc\<lparr>entropy := rd2\<rparr>)" using fresh_caches [OF assms(3), of cr] by (simp add: caches_ok_def)
  moreover have "length nonce = 16" using g(2) by (auto simp: ReadFull_def kip_sizes split: if_splits)
  ultimately show ?thesis using writeKIP_records [OF w] assms(2,4) unfolding carries_def by auto
qed

lemma serverHandshake_success:
  assumes "serverHandshake lib cr ku key ts tables selected mode now ch pr c = (Inr (meta, tb), pr', c')"
    and "readKIP (Record_ReadFull cr) c = (Inr \<lparr>msgType = ty, Payload = p\<rparr>, c1)" "DecodeKIPClientHelloPayload p = Inr hello"
  shows "\<exists>eph rd shared c2s s2c c3. genKey lib (entropy c1) = (Inr eph, rd) \<and> x25519SharedSecret lib eph (ClientPub hello) = Inr shared
    \<and> deriveSessionDirectionalBases lib key shared (Nonce hello) = Inr (c2s, s2c)
    \<and> writeKIP (Record_WriteFull cr ku) (c1\<lparr>entropy := rd\<rparr>) KIPTypeServerHello
        (EncodeServerHello \<lparr>SNonce = Nonce hello, ServerPub = publicKey lib eph, SelectedFeats = Features hello AND KIPFeatAll\<rparr>) = (None, c3)
    \<and> Rekey s2c c2s c3 = (None, c') \<and> \<not> skewed now (Timestamp hello)
    \<and> protector_allow ch (kipUserHashHex (UserHash hello)) (Nonce hello) now pr = (True, pr')
    \<and> metaUserHash meta = kipUserHashHex (UserHash hello) \<and> UplinkPacked meta = (mode = ObfsUplinkPacked)
    \<and> ResolveClientHelloTable ts (Some selected) tables (Some hello) = Inr tb"
  using assms unfolding serverHandshake_def
  by (simp add: Let_def split: if_splits prod.splits sum.splits option.splits bool.splits) auto

lemma wire_lengths:
  "hello_ok h \<Longrightarrow> length (EncodeClientHello h) \<le> 72"
  "length (SNonce sh) = 16 \<Longrightarrow> length (ServerPub sh) = 32 \<Longrightarrow> length (EncodeServerHello sh) = 52"
  "length (kip_wire x) = 6 + length (Payload x)"
  by (simp_all add: EncodeClientHello_def EncodeServerHello_def hello_ok_def kip_wire_def kipHeader_parts)

text \<open>The client's half, once the server's hello is the message the connection carries.\<close>

lemma clientFinish_success:
  assumes lib: "kex_ok lib" and rd: "readKIP (Record_ReadFull cr) rc = (Inr \<lparr>msgType = KIPTypeServerHello, Payload = EncodeServerHello sh\<rparr>, rc1)"
    and sh: "sh = \<lparr>SNonce = nonce, ServerPub = publicKey lib seph, SelectedFeats = f\<rparr>" "length nonce = 16"
    and secret: "x25519SharedSecret lib eph (publicKey lib seph) = Inr shared"
    and keys: "deriveSessionDirectionalBases lib seed shared nonce = Inr (c2s, s2c)"
    and ent: "randomRecordCounters (entropy rc1) = (Inr x, rd')"
  shows "\<exists>rc'. clientFinish lib cr seed eph nonce rc = (Inr f, rc') \<and> fresh rc' \<and> baseSend rc' = c2s \<and> baseRecv rc' = s2c
    \<and> rmethod rc' = rmethod rc1"
proof -
  have len: "length c2s = 32" "length s2c = 32" using session_keys [OF lib, of seed shared nonce] keys by auto
  have "length (publicKey lib seph) = 32" using lib by (simp add: kex_ok_def)
  then have dec: "DecodeKIPServerHelloPayload (EncodeServerHello sh) = Inr sh" using sh by (simp add: DecodeServerHello_Encode)
  obtain rc' where "Rekey c2s s2c rc1 = (None, rc')" using Rekey_ok [OF ent, of c2s s2c] len by auto
  moreover from this have "fresh rc' \<and> baseSend rc' = c2s \<and> baseRecv rc' = s2c \<and> rmethod rc' = rmethod rc1"
    using Rekey_result by blast
  ultimately show ?thesis using rd dec sh secret keys by (simp add: clientFinish_def)
qed

definition serverHelloOf :: "kexlib \<Rightarrow> KIPClientHello \<Rightarrow> bytes \<Rightarrow> KIPServerHello" where
  "serverHelloOf lib hello seph = \<lparr>SNonce = Nonce hello, ServerPub = publicKey lib seph, SelectedFeats = Features hello AND KIPFeatAll\<rparr>"

text \<open>The server's half: it reads the hello the client's records carry and replies in records of its own.\<close>

lemma server_reply:
  assumes cr: "aead_ok cr" and m: "supported (rmethod c)"
    and cs: "carries cr rc0 rc1 rs \<lparr>msgType = KIPTypeClientHello, Payload = EncodeClientHello hello\<rparr>" "sent (cout rc0) = []"
      "hello_ok hello" "unat (sendEpoch rc0) + 78 \<le> 2 ^ 32"
    and server: "fresh c" "cout c = \<lparr>sent = [], script = []\<rparr>" "rmethod c = rmethod rc0" "baseRecv c = baseSend rc0"
    and s: "serverHandshake lib cr ku seed ts tables selected mode now ch pr (c\<lparr>cin := reader_of (sent (cout rc1))\<rparr>) = (Inr (meta, tb), pr', c')"
  shows "\<exists>seph shared c2s s2c c2 c3 rs'. x25519SharedSecret lib seph (ClientPub hello) = Inr shared
    \<and> deriveSessionDirectionalBases lib seed shared (Nonce hello) = Inr (c2s, s2c)
    \<and> carries cr c2 c3 rs' \<lparr>msgType = KIPTypeServerHello, Payload = EncodeServerHello (serverHelloOf lib hello seph)\<rparr>
    \<and> cout c2 = cout c \<and> sendEpoch c2 = sendEpoch c \<and> rmethod c2 = rmethod c \<and> baseSend c2 = baseSend c
    \<and> cout c' = cout c3 \<and> fresh c' \<and> baseSend c' = s2c \<and> baseRecv c' = c2s \<and> rmethod c' = rmethod c
    \<and> metaUserHash meta = kipUserHashHex (UserHash hello) \<and> UplinkPacked meta = (mode = ObfsUplinkPacked)"
proof -
  define d where "d = c\<lparr>cin := reader_of (sent (cout rc1))\<rparr>"
  have dc: "\<not> recvInitialized d" "caches_ok cr d" "pendingPlain d = []" "supported (rmethod d)" "rmethod d = rmethod rc0"
      "baseRecv d = baseSend rc0" "cin d = reader_of (sent (cout rc1))"
    using server fresh_caches [OF server(1), of cr] m by (simp_all add: d_def fresh_def caches_ok_def pendingPlain_def)
  obtain c1 where c1: "readKIP (Record_ReadFull cr) d = (Inr \<lparr>msgType = KIPTypeClientHello, Payload = EncodeClientHello hello\<rparr>, c1)"
    "send_side c1 = send_side d" "caches_ok cr c1"
    using carries_read [OF cr cs(1,2) _ dc] cs(4) wire_lengths(1) [OF cs(3)] by (auto simp: wire_lengths(3))
  obtain seph rd shared c2s s2c c3 where
    sv: "x25519SharedSecret lib seph (ClientPub hello) = Inr shared"
      "deriveSessionDirectionalBases lib seed shared (Nonce hello) = Inr (c2s, s2c)"
      "writeKIP (Record_WriteFull cr ku) (c1\<lparr>entropy := rd\<rparr>) KIPTypeServerHello (EncodeServerHello (serverHelloOf lib hello seph)) = (None, c3)"
      "Rekey s2c c2s c3 = (None, c')" "metaUserHash meta = kipUserHashHex (UserHash hello)" "UplinkPacked meta = (mode = ObfsUplinkPacked)"
    using serverHandshake_success [OF s [folded d_def] c1(1) DecodeClientHello_Encode [OF cs(3)]] by (auto simp: serverHelloOf_def)
  define c2 where "c2 = c1\<lparr>entropy := rd\<rparr>"
  have f: "cout c2 = cout c" "sendEpoch c2 = sendEpoch c" "rmethod c2 = rmethod c" "baseSend c2 = baseSend c" "sendAEAD c2 = None"
    using c1(2) server(1) by (simp_all add: c2_def d_def send_side_def fresh_def)
  have "caches_ok cr c2" using c1(3) by (simp add: c2_def caches_ok_def)
  then obtain rs' where "carries cr c2 c3 rs' \<lparr>msgType = KIPTypeServerHello, Payload = EncodeServerHello (serverHelloOf lib hello seph)\<rparr>"
    using writeKIP_records [OF sv(3) [folded c2_def]] f(1,3) m server(2) unfolding carries_def by auto
  moreover have "rmethod c3 = rmethod c" using calculation f(3) by (simp add: carries_def recv_side_def)
  ultimately show ?thesis using sv f Rekey_result [OF sv(4)] by metis
qed

lemma handshake_run:
  assumes lib: "kex_ok lib" "aead_ok cr" and m: "supported (rmethod rc)"
    and client: "fresh rc" "cout rc = \<lparr>sent = [], script = []\<rparr>" "length uh = 8" "\<not> hth \<longrightarrow> th = 0" "unat (sendEpoch rc) + 78 \<le> 2 ^ 32"
    and server: "fresh c" "cout c = \<lparr>sent = [], script = []\<rparr>" "rmethod c = rmethod rc" "baseRecv c = baseSend rc" "baseSend c = baseRecv rc"
      "unat (sendEpoch c) + 58 \<le> 2 ^ 32"
    and h: "clientSendHello lib cr ku uh feats th hth now rc = (Inr (eph, nonce), rc1)"
    and s: "serverHandshake lib cr ku' seed ts tables selected mode now' ch pr (c\<lparr>cin := reader_of (sent (cout rc1))\<rparr>) = (Inr (meta, tb), pr', c')"
    and ent: "randomRecordCounters (entropy rc1) = (Inr x, rd)"
  shows "\<exists>rc'. clientFinish lib cr seed eph nonce (rc1\<lparr>cin := reader_of (sent (cout c'))\<rparr>) = (Inr (feats AND KIPFeatAll), rc')
    \<and> UplinkPacked meta = (mode = ObfsUplinkPacked) \<and> metaUserHash meta = kipUserHashHex uh
    \<and> fresh rc' \<and> fresh c' \<and> rmethod rc' = rmethod c' \<and> baseSend rc' = baseRecv c' \<and> baseRecv rc' = baseSend c'"
proof -
  define hello where "hello = helloOf lib uh feats th hth now eph nonce"
  obtain rs rd1 where nonce: "length nonce = 16"
    and cs: "carries cr (rc\<lparr>entropy := rd1\<rparr>) rc1 rs \<lparr>msgType = KIPTypeClientHello, Payload = EncodeClientHello hello\<rparr>"
    using clientSendHello_carries [OF h m client(1)] client(2) by (auto simp: hello_def)
  have ok: "hello_ok hello" using lib(1) client(3,4) nonce by (auto simp: hello_ok_def hello_def helloOf_def kex_ok_def)
  obtain seph shared c2s s2c c2 c3 rs' where sv: "x25519SharedSecret lib seph (publicKey lib eph) = Inr shared"
    "deriveSessionDirectionalBases lib seed shared nonce = Inr (c2s, s2c)"
    "carries cr c2 c3 rs' \<lparr>msgType = KIPTypeServerHello, Payload = EncodeServerHello (serverHelloOf lib hello seph)\<rparr>"
    "cout c2 = cout c" "sendEpoch c2 = sendEpoch c" "rmethod c2 = rmethod c" "baseSend c2 = baseSend c" "cout c' = cout c3"
    "fresh c'" "baseSend c' = s2c" "baseRecv c' = c2s" "rmethod c' = rmethod c" "metaUserHash meta = kipUserHashHex uh"
    "UplinkPacked meta = (mode = ObfsUplinkPacked)"
    using server_reply [OF lib(2) _ cs _ ok _ server(1,2) _ _ s] m client(2,5) server by (auto simp: hello_def helloOf_def)
  define rc2 where "rc2 = rc1\<lparr>cin := reader_of (sent (cout c'))\<rparr>"
  have f: "\<not> recvInitialized rc2" "caches_ok cr rc2" "pendingPlain rc2 = []" "supported (rmethod rc2)" "rmethod rc2 = rmethod c2"
    "baseRecv rc2 = baseSend c2" "cin rc2 = reader_of (sent (cout c3))"
    using cs client(1) m server(3,5) sv(6,7,8) by (auto simp: rc2_def carries_def recv_side_def fresh_def caches_ok_def pendingPlain_def)
  have len: "length (EncodeServerHello (serverHelloOf lib hello seph)) = 52"
    using lib(1) nonce by (simp add: wire_lengths(2) serverHelloOf_def hello_def helloOf_def kex_ok_def)
  obtain rc3 where rc3: "readKIP (Record_ReadFull cr) rc2
      = (Inr \<lparr>msgType = KIPTypeServerHello, Payload = EncodeServerHello (serverHelloOf lib hello seph)\<rparr>, rc3)" "send_side rc3 = send_side rc2"
    using carries_read [OF lib(2) sv(3) _ _ f] sv(4,5) server(2,6) len by (auto simp: wire_lengths(3))
  have e3: "entropy rc3 = entropy rc1" "rmethod rc3 = rmethod rc2" using rc3(2) by (simp_all add: send_side_def rc2_def)
  have "x25519SharedSecret lib eph (publicKey lib seph) = Inr shared"
    using shared_secret [OF lib(1), of eph seph] sv(1) by auto
  then obtain rc' where "clientFinish lib cr seed eph nonce rc2 = (Inr (feats AND KIPFeatAll), rc')" "fresh rc'"
    "baseSend rc' = c2s" "baseRecv rc' = s2c" "rmethod rc' = rmethod rc3"
    using clientFinish_success [OF lib(1) rc3(1), of nonce seph "feats AND KIPFeatAll" eph shared seed c2s s2c x rd] nonce sv(2) ent e3(1)
    by (auto simp: serverHelloOf_def hello_def helloOf_def)
  then show ?thesis unfolding rc2_def [symmetric] using sv(6,9-14) e3(2) f(5) by auto
qed

section \<open>Properties\<close>

text \<open>Primitives and connections for a concrete run.\<close>

definition toy_kex :: kexlib where
  "toy_kex = \<lparr>sha = id, hkdfExtract = (\<lambda>ikm salt. Inr ikm), hkdfExpand = (\<lambda>k info n. Inr (replicate n (of_nat (length info)))),
    genKey = (\<lambda>rd. (Inr [5], rd)), publicKey = (\<lambda>a. replicate 32 3), ecdh = (\<lambda>a b. Inr [9])\<rparr>"

lemma toy_kex_ok: "kex_ok toy_kex"
  by (simp add: kex_ok_def toy_kex_def)

definition toy_peer :: RecordConn where
  "toy_peer = (toy_conn [])\<lparr>entropy := reader_of (replicate 28 1)\<rparr>"

text \<open>
  Property C5: the handshake ends in agreement. When the client's hello reaches a server that accepts it and the
  server's reply reaches the client, the client finishes too, the server reports the client's identity and uplink
  mode, the client learns the requested features restricted to the known ones, and they hold crossed session keys on connections without traffic, ready for the records that
  follow.
\<close>

theorem handshake_agreement:
  assumes "kex_ok lib" "aead_ok cr" "supported (rmethod rc)"
    and "fresh rc" "cout rc = \<lparr>sent = [], script = []\<rparr>" "length uh = 8" "\<not> hth \<longrightarrow> th = 0" "unat (sendEpoch rc) + 78 \<le> 2 ^ 32"
    and "fresh c" "cout c = \<lparr>sent = [], script = []\<rparr>" "rmethod c = rmethod rc" "baseRecv c = baseSend rc" "baseSend c = baseRecv rc"
      "unat (sendEpoch c) + 58 \<le> 2 ^ 32"
    and "clientSendHello lib cr ku uh feats th hth now rc = (Inr (eph, nonce), rc1)"
    and "serverHandshake lib cr ku' seed ts tables selected mode now' ch pr (c\<lparr>cin := reader_of (sent (cout rc1))\<rparr>) = (Inr (meta, tb), pr', c')"
    and "randomRecordCounters (entropy rc1) = (Inr x, rd)"
  shows "\<exists>rc'. clientFinish lib cr seed eph nonce (rc1\<lparr>cin := reader_of (sent (cout c'))\<rparr>) = (Inr (feats AND KIPFeatAll), rc')
    \<and> UplinkPacked meta = (mode = ObfsUplinkPacked) \<and> metaUserHash meta = kipUserHashHex uh
    \<and> fresh rc' \<and> fresh c' \<and> rmethod rc' = rmethod c' \<and> baseSend rc' = baseRecv c' \<and> baseRecv rc' = baseSend c'"
  using handshake_run [OF assms] .

lemma toy_counters: "randomRecordCounters (reader_of (replicate 12 1)) = (Inr (0x01010101, 0x0101010101010101), reader_of [])"
proof -
  have r: "replicate 12 (1 :: byte) = [1, 1, 1, 1, 1, 1, 1, 1, 1, 1, 1, 1]" by (simp add: numeral_eq_Suc)
  show ?thesis unfolding r
    by (simp add: randomRecordCounters_def randomNonZeroUint32.simps randomNonZeroUint64.simps ReadFull_def reader_of_def
        Uint32_def Uint64_def Let_def)
qed

lemma toy_peer_ok:
  "supported (rmethod toy_peer)" "fresh toy_peer" "cout toy_peer = \<lparr>sent = [], script = []\<rparr>" "sendEpoch toy_peer = 5"
  "baseRecv toy_peer = baseSend toy_peer" "caches_ok cr toy_peer" "entropy toy_peer = reader_of (replicate 28 1)"
  by (simp_all add: toy_peer_def toy_conn_def supported_def fresh_def caches_ok_def)

lemma toy_hello:
  "\<exists>rc1. clientSendHello toy_kex toy_crypto 0 (replicate 8 2) 3 0 False 0 toy_peer = (Inr ([5], replicate 16 1), rc1)
    \<and> entropy rc1 = reader_of (replicate 12 1)"
proof -
  have r: "ReadFull kipHelloNonceSize (reader_of (replicate 28 1)) = (Inr (replicate 16 1), reader_of (replicate 12 1))"
    by (simp add: ReadFull_def reader_of_def kip_sizes)
  have "hello_ok (helloOf toy_kex (replicate 8 2) 3 0 False 0 [5] (replicate 16 1))"
    by (simp add: hello_ok_def helloOf_def toy_kex_def)
  then have "\<exists>c'. writeKIP (Record_WriteFull toy_crypto 0) (toy_peer\<lparr>entropy := reader_of (replicate 12 1)\<rparr>) KIPTypeClientHello
     (EncodeClientHello (helloOf toy_kex (replicate 8 2) 3 0 False 0 [5] (replicate 16 1))) = (None, c') \<and> entropy c' = reader_of (replicate 12 1)"
    using writeKIP_ok [of "toy_peer\<lparr>entropy := reader_of (replicate 12 1)\<rparr>" toy_crypto 0] wire_lengths(1)
      toy_peer_ok(1,3,6)
    by (fastforce simp: caches_ok_def toy_crypto_def kip_sizes)
  then show ?thesis using r by (auto simp: clientSendHello_def helloOf_def toy_kex_def toy_peer_ok)
qed

lemma toy_server:
  assumes h: "clientSendHello toy_kex toy_crypto 0 (replicate 8 2) 3 0 False 0 toy_peer = (Inr ([5], replicate 16 1), rc1)"
  shows "\<exists>meta tb pr' c'. serverHandshake toy_kex toy_crypto 0 ''k'' [] [] 0 ObfsUplinkPacked 0 (\<lambda>_. 0) Map.empty
    (toy_peer\<lparr>entropy := reader_of (replicate 12 1), cin := reader_of (sent (cout rc1))\<rparr>) = (Inr (meta, tb), pr', c')"
proof -
  define hello where "hello = helloOf toy_kex (replicate 8 2) 3 0 False 0 [5] (replicate 16 1)"
  let ?peer = "toy_peer\<lparr>entropy := reader_of (replicate 12 1)\<rparr>"
  let ?d = "?peer\<lparr>cin := reader_of (sent (cout rc1))\<rparr>"
  obtain rs rd1 where cs: "carries toy_crypto (toy_peer\<lparr>entropy := rd1\<rparr>) rc1 rs \<lparr>msgType = KIPTypeClientHello, Payload = EncodeClientHello hello\<rparr>"
    using clientSendHello_carries [OF h toy_peer_ok(1,2)] toy_peer_ok(3) by (auto simp: hello_def)
  have ok: "hello_ok hello" by (simp add: hello_def hello_ok_def helloOf_def toy_kex_def)
  obtain c1 where c1: "readKIP (Record_ReadFull toy_crypto) ?d = (Inr \<lparr>msgType = KIPTypeClientHello, Payload = EncodeClientHello hello\<rparr>, c1)"
    "send_side c1 = send_side ?d" "caches_ok toy_crypto c1"
    using carries_read [OF toy_crypto_ok cs, of ?d] wire_lengths(1) [OF ok] toy_peer_ok(1,2) toy_peer_ok(3,4,5) toy_peer_ok(6) [of toy_crypto]
    by (auto simp: wire_lengths(3) fresh_def caches_ok_def pendingPlain_def)
  have al: "fst (protector_allow (\<lambda>_. 0) (kipUserHashHex (UserHash hello)) (Nonce hello) 0 Map.empty) = True"
    by (simp add: protector_allow_def newNonceSet_def nonce_allow_def handshakeReplayTTL_def second_def
        zeroTime_def maxDuration_def timeSub_def prune_def trim_small Let_def)
  then obtain pr' where al: "protector_allow (\<lambda>_. 0) (kipUserHashHex (UserHash hello)) (Nonce hello) 0 Map.empty = (True, pr')"
    by (metis prod.collapse)
  have sk: "\<not> skewed 0 (Timestamp hello)"
    by (simp add: skewed_def hello_def helloOf_def AbsInt64_def kipHandshakeSkewSeconds_def)
  define sh where "sh = serverHelloOf toy_kex hello [5]"
  have e: "length (EncodeServerHello sh) = 52"
    by (rule wire_lengths(2)) (simp_all add: sh_def serverHelloOf_def hello_def helloOf_def toy_kex_def)
  obtain c3 where c3: "writeKIP (Record_WriteFull toy_crypto 0) c1 KIPTypeServerHello (EncodeServerHello sh) = (None, c3)" "entropy c3 = reader_of (replicate 12 1)"
    using writeKIP_ok [of c1 toy_crypto 0 "EncodeServerHello sh"] c1(2,3) toy_peer_ok(1,3) e by (auto simp: send_side_def toy_crypto_def kip_sizes)
  obtain c4 where "Rekey (replicate 32 18) (replicate 32 18) c3 = (None, c4)"
    using Rekey_ok [of c3 _ _ "replicate 32 18" "replicate 32 18"] toy_counters c3(2) by auto
  moreover have "c1\<lparr>entropy := entropy c1\<rparr> = c1" by simp
  ultimately show ?thesis
    using c1(1) DecodeClientHello_Encode [OF ok] sk al c3(1)
    by (simp add: serverHandshake_def ResolveClientHelloTable_def hello_def helloOf_def toy_kex_def x25519SharedSecret_def
        deriveSessionDirectionalBases_def sh_def serverHelloOf_def Let_def)
qed

theorem handshake_agreement_witness:
  "\<exists>rc1 meta tb pr' c' rc'. clientSendHello toy_kex toy_crypto 0 (replicate 8 2) 3 0 False 0 toy_peer = (Inr ([5], replicate 16 1), rc1)
    \<and> serverHandshake toy_kex toy_crypto 0 ''k'' [] [] 0 ObfsUplinkPacked 0 (\<lambda>_. 0) Map.empty
        (toy_peer\<lparr>entropy := reader_of (replicate 12 1), cin := reader_of (sent (cout rc1))\<rparr>) = (Inr (meta, tb), pr', c')
    \<and> clientFinish toy_kex toy_crypto ''k'' [5] (replicate 16 1) (rc1\<lparr>cin := reader_of (sent (cout c'))\<rparr>) = (Inr (3 AND KIPFeatAll), rc')
    \<and> baseSend rc' = baseRecv c' \<and> baseRecv rc' = baseSend c'"
proof -
  obtain rc1 where h: "clientSendHello toy_kex toy_crypto 0 (replicate 8 2) 3 0 False 0 toy_peer = (Inr ([5], replicate 16 1), rc1)"
    and e: "entropy rc1 = reader_of (replicate 12 1)" using toy_hello by blast
  obtain meta tb pr' c' where s: "serverHandshake toy_kex toy_crypto 0 ''k'' [] [] 0 ObfsUplinkPacked 0 (\<lambda>_. 0) Map.empty
    (toy_peer\<lparr>entropy := reader_of (replicate 12 1), cin := reader_of (sent (cout rc1))\<rparr>) = (Inr (meta, tb), pr', c')"
    using toy_server [OF h] by blast
  have "\<exists>rc'. clientFinish toy_kex toy_crypto ''k'' [5] (replicate 16 1) (rc1\<lparr>cin := reader_of (sent (cout c'))\<rparr>) = (Inr (3 AND KIPFeatAll), rc')
    \<and> UplinkPacked meta = (ObfsUplinkPacked = ObfsUplinkPacked) \<and> metaUserHash meta = kipUserHashHex (replicate 8 2)
    \<and> fresh rc' \<and> fresh c' \<and> rmethod rc' = rmethod c' \<and> baseSend rc' = baseRecv c' \<and> baseRecv rc' = baseSend c'"
    by (rule handshake_agreement [OF toy_kex_ok toy_crypto_ok toy_peer_ok(1,2,3) _ _ _ _ _ _ _ _ _ h s])
      (use toy_peer_ok(2-5) toy_counters e in \<open>simp_all add: fresh_def\<close>)
  then show ?thesis using h s by blast
qed

text \<open>
  Property C19: the clock check of the handshake. A hello passes it exactly when its time is within the allowed skew of the
  server's, or when it is off by exactly \<open>2 ^ 63\<close> seconds, the one difference whose absolute value does not fit 64 bits.
\<close>

theorem handshake_skew_exact:
  "\<not> skewed now ts \<longleftrightarrow> \<bar>sint (unixTime now - ts)\<bar> \<le> kipHandshakeSkewSeconds \<or> unixTime now - ts = 2 ^ 63"
  using AbsInt64_bound [of kipHandshakeSkewSeconds "unixTime now - ts"] by (simp add: skewed_def kipHandshakeSkewSeconds_def)

end
