(* ===== verification/Stack.thy ===== *)
theory Stack
  imports ObfsConn Handshake
begin

text \<open>
  The layers of a tunnel put together: the record layer over the obfuscation layer over the network, for both
  directions, as \<open>ClientHandshakeWithUplinkMode\<close> and \<open>HandshakeAndUpgradeWithTablesMeta\<close> stack them.
\<close>

text \<open>The writing and the reading end of one direction of a tunnel over table \<open>t\<close>.\<close>

definition sendingEnd :: "bool \<Rightarrow> Table list \<Rightarrow> nat \<Rightarrow> int \<Rightarrow> int \<Rightarrow> bool \<Rightarrow> ObfsUplinkMode \<Rightarrow> sudokuRand \<Rightarrow> sudokuRand \<Rightarrow> ObfsWriter" where
  "sendingEnd up ts t pMin pMax pureDownlink mode s1 s2 = obfsWriter
    (if up then buildClientObfsConnForMode ts \<lparr>sent = [], script = []\<rparr> [] (Some t) pMin pMax pureDownlink mode s1 s2
     else buildServerObfsConnForMode ts \<lparr>sent = [], script = []\<rparr> [] (Some t) pMin pMax pureDownlink mode True s1 s2)"

definition receivingEnd :: "bool \<Rightarrow> Table list \<Rightarrow> nat \<Rightarrow> feed \<Rightarrow> int \<Rightarrow> int \<Rightarrow> bool \<Rightarrow> ObfsUplinkMode \<Rightarrow> sudokuRand \<Rightarrow> sudokuRand \<Rightarrow> Codec" where
  "receivingEnd up ts t fd pMin pMax pureDownlink mode s1 s2 = obfsReader
    (if up then buildServerObfsConnForMode ts \<lparr>sent = [], script = []\<rparr> fd (Some t) pMin pMax pureDownlink mode True s1 s2
     else buildClientObfsConnForMode ts \<lparr>sent = [], script = []\<rparr> fd (Some t) pMin pMax pureDownlink mode s1 s2)"

lemma obfs_direction:
  assumes "NewTableWithCustom sha256 shuffleU key tmode pat = Inr ts" "t < length ts"
    and "receives fd (writer_sent (writer_writes ps (sendingEnd up ts t pMin pMax pd mode s1 s2)))" "0 < n" "length (concat ps) < k"
  shows "codec_readAll k n (receivingEnd up ts t fd a b pd mode s3 s4) = Some (concat ps, EOF)"
proof (cases up)
  case True
  have "puzzle_table (ts ! t)" using NewTableWithCustom_ok(1) [OF assms(1)] assms(2) by simp
  from uplink_readable [OF assms(2) this _ assms(4,5)] show ?thesis
    using assms(3) True by (auto simp: sendingEnd_def receivingEnd_def)
next
  case False
  obtain j where j: "j < length ts" "OppositeDirection ts (Some t) = Some j"
    using NewTableWithCustom_opposite [OF assms(1,2)] by blast
  then have "puzzle_table (ts ! j)" using NewTableWithCustom_ok(1) [OF assms(1)] by simp
  from downlink_matches [OF j(2) this _ assms(4,5)] show ?thesis
    using assms(3) False by (auto simp: sendingEnd_def receivingEnd_def)
qed



end
