(* ===== verification/HttpAuth.thy ===== *)
theory HttpAuth
  imports GoNet
begin

text \<open>
  The path root and the request tokens of the HTTP tunnel (\<open>pkg/obfs/httpmask/pathroot.go\<close>, \<open>auth.go\<close> and the mode of
  \<open>tunnel.go\<close>), with the unpadded URL-safe Base64 of Go's \<open>encoding/base64\<close>. SHA-256 and HMAC-SHA256 are parameters.
\<close>

section \<open>Strings\<close>

definition upper_char :: "char \<Rightarrow> char" where
  "upper_char c = (let n = of_char c :: nat in if 97 \<le> n \<and> n \<le> 122 then char_of (n - 32) else c)"

definition ToUpper :: "string \<Rightarrow> string" where
  "ToUpper s = map upper_char s"

definition EqualFold :: "string \<Rightarrow> string \<Rightarrow> bool" where
  "EqualFold s t \<longleftrightarrow> ToLower s = ToLower t"

text \<open>\<open>strings.Trim\<close> with a cutset of one character.\<close>

definition TrimChar :: "char \<Rightarrow> string \<Rightarrow> string" where
  "TrimChar c s = rev (dropWhile (\<lambda>d. d = c) (rev (dropWhile (\<lambda>d. d = c) s)))"

section \<open>Base64\<close>

definition b64Alphabet :: string where
  "b64Alphabet = ''ABCDEFGHIJKLMNOPQRSTUVWXYZabcdefghijklmnopqrstuvwxyz0123456789-_''"

definition b64Char :: "nat \<Rightarrow> char" where
  "b64Char i = b64Alphabet ! i"

fun indexOf :: "char \<Rightarrow> string \<Rightarrow> nat option" where
  "indexOf c [] = None"
| "indexOf c (d # ds) = (if d = c then Some 0 else map_option Suc (indexOf c ds))"

definition b64Val :: "char \<Rightarrow> nat option" where
  "b64Val c = indexOf c b64Alphabet"

fun sextets :: "bytes \<Rightarrow> nat list" where
  "sextets (x # y # z # r) =
    [unat x div 4, unat x mod 4 * 16 + unat y div 16, unat y mod 16 * 4 + unat z div 64, unat z mod 64] @ sextets r"
| "sextets [x, y] = [unat x div 4, unat x mod 4 * 16 + unat y div 16, unat y mod 16 * 4]"
| "sextets [x] = [unat x div 4, unat x mod 4 * 16]"
| "sextets [] = []"

fun unsextets :: "nat list \<Rightarrow> bytes option" where
  "unsextets (a # b # c # d # r) =
    map_option ((@) [of_nat (a * 4 + b div 16), of_nat (b mod 16 * 16 + c div 4), of_nat (c mod 4 * 64 + d)]) (unsextets r)"
| "unsextets [a, b, c] = Some [of_nat (a * 4 + b div 16), of_nat (b mod 16 * 16 + c div 4)]"
| "unsextets [a, b] = Some [of_nat (a * 4 + b div 16)]"
| "unsextets [a] = None"
| "unsextets [] = Some []"

definition b64Encode :: "bytes \<Rightarrow> string" where
  "b64Encode b = map b64Char (sextets b)"

text \<open>The decoder skips line ends and does not look at the unused bits of the last character.\<close>

definition b64Decode :: "string \<Rightarrow> bytes option" where
  "b64Decode s =
    (let vs = map b64Val (filter (\<lambda>c. c \<noteq> CHR 0x0A \<and> c \<noteq> CHR 0x0D) s)
     in if None \<in> set vs then None else unsextets (map the vs))"

lemma indexOf_nth: "distinct cs \<Longrightarrow> i < length cs \<Longrightarrow> indexOf (cs ! i) cs = Some i"
  by (induction cs arbitrary: i) (auto simp: nth_Cons split: nat.splits)

lemma b64Alphabet_facts: "distinct b64Alphabet" "length b64Alphabet = 64"
  "list_all (\<lambda>c. c \<noteq> CHR 0x0A \<and> c \<noteq> CHR 0x0D \<and> \<not> is_space c) b64Alphabet"
  by code_simp+

lemma b64Val_Char: "i < 64 \<Longrightarrow> b64Val (b64Char i) = Some i"
  using indexOf_nth [of b64Alphabet i] b64Alphabet_facts by (simp add: b64Val_def b64Char_def)

lemma b64Char_plain: "i < 64 \<Longrightarrow> b64Char i \<noteq> CHR 0x0A \<and> b64Char i \<noteq> CHR 0x0D \<and> \<not> is_space (b64Char i)"
  using b64Alphabet_facts(2,3) by (auto simp: b64Char_def list_all_length)

lemma sextets_range: "v \<in> set (sextets b) \<Longrightarrow> v < 64"
proof (induction b rule: sextets.induct)
  case (1 x y z r)
  have "unat x div 4 < 64" "unat y div 16 < 16" "unat z div 64 < 4" using unat_byte_less [of x] unat_byte_less [of y] unat_byte_less [of z] by auto
  then show ?case using 1 by auto
next
  case (2 x y)
  have "unat x div 4 < 64" "unat y div 16 < 16" using unat_byte_less [of x] unat_byte_less [of y] by auto
  then show ?case using 2 by auto
next
  case (3 x)
  then show ?case using unat_byte_less [of x] by auto
qed simp

lemma byte_parts:
  "(of_nat (unat x div 4 * 4 + unat x mod 4) :: byte) = x"
  "(of_nat (unat x div 16 * 16 + unat x mod 16) :: byte) = x" "(of_nat (unat x div 64 * 64 + unat x mod 64) :: byte) = x"
  by (simp_all only: div_mult_mod_eq) simp_all

lemma unsextets_sextets: "unsextets (sextets b) = Some b"
proof (induction b rule: sextets.induct)
  case (1 x y z r)
  have "unat y div 16 < 16" "unat z div 64 < 4" using unat_byte_less [of y] unat_byte_less [of z] by auto
  then show ?case using 1 byte_parts [of x] byte_parts [of y] byte_parts [of z] by (simp add: div_add1_eq add.commute mult.commute)
next
  case (2 x y)
  have "unat y div 16 < 16" using unat_byte_less [of y] by auto
  then show ?case using byte_parts [of x] byte_parts [of y] by (simp add: add.commute mult.commute)
next
  case (3 x)
  then show ?case using byte_parts [of x] by (simp add: add.commute mult.commute)
qed simp

lemma b64_roundtrip: "b64Decode (b64Encode b) = Some b"
proof -
  have f: "filter (\<lambda>c. c \<noteq> CHR 0x0A \<and> c \<noteq> CHR 0x0D) (b64Encode b) = b64Encode b"
    using b64Char_plain sextets_range by (auto simp: b64Encode_def filter_id_conv)
  have "map b64Val (b64Encode b) = map Some (sextets b)"
    using b64Val_Char sextets_range by (auto simp: b64Encode_def)
  then have "None \<notin> set (map b64Val (b64Encode b))" "map the (map b64Val (b64Encode b)) = sextets b" by auto
  then show ?thesis unfolding b64Decode_def Let_def f by (simp add: unsextets_sextets)
qed

section \<open>The path root\<close>

definition rootChar :: "char \<Rightarrow> bool" where
  "rootChar c \<longleftrightarrow> (let n = of_char c :: nat in 97 \<le> n \<and> n \<le> 122 \<or> 65 \<le> n \<and> n \<le> 90 \<or> 48 \<le> n \<and> n \<le> 57)
    \<or> c = CHR ''_'' \<or> c = CHR ''-''"

definition normalizePathRoot :: "string \<Rightarrow> string" where
  "normalizePathRoot root0 =
    (let root = TrimChar (CHR ''/'') (TrimSpace root0)
     in if root = '''' then '''' else if list_all rootChar root then ''/'' @ root else '''')"

definition joinPathRoot :: "string \<Rightarrow> string \<Rightarrow> string" where
  "joinPathRoot root0 path =
    (let root = normalizePathRoot root0
     in if root = '''' then path
        else if path = '''' then root
        else root @ (if HasPrefix path ''/'' then path else ''/'' @ path))"

definition stripPathRoot :: "string \<Rightarrow> string \<Rightarrow> string \<times> bool" where
  "stripPathRoot root0 fullPath =
    (let root = normalizePathRoot root0
     in if root = '''' then (fullPath, True)
        else if \<not> HasPrefix fullPath (root @ ''/'') then ('''', False)
        else (TrimPrefix fullPath root, True))"

lemma strip_join: "HasPrefix path ''/'' \<Longrightarrow> stripPathRoot root (joinPathRoot root path) = (path, True)"
  by (auto simp: stripPathRoot_def joinPathRoot_def Let_def HasPrefix_def TrimPrefix_def)

lemma join_strip: "stripPathRoot root full = (path, True) \<Longrightarrow> joinPathRoot root path = full"
proof -
  assume s: "stripPathRoot root full = (path, True)"
  define r where "r = normalizePathRoot root"
  show ?thesis
  proof (cases "r = ''''")
    case True
    then show ?thesis using s by (simp add: stripPathRoot_def joinPathRoot_def r_def [symmetric] Let_def)
  next
    case False
    then have p: "HasPrefix full (r @ ''/'')" "path = TrimPrefix full r"
      using s by (auto simp: stripPathRoot_def r_def [symmetric] Let_def split: if_splits)
    then obtain q where q: "full = r @ ''/'' @ q" by (metis HasPrefix_def append.assoc append_take_drop_id)
    then have "path = ''/'' @ q" using p(2) by simp
    then show ?thesis using False q by (simp add: joinPathRoot_def r_def [symmetric] Let_def HasPrefix_def)
  qed
qed

section \<open>Tokens\<close>

text \<open>A tunnel mode is the string the code uses for it.\<close>

definition normalizeTunnelMode :: "string \<Rightarrow> string" where
  "normalizeTunnelMode mode =
    (let m = ToLower (TrimSpace mode)
     in if m = '''' \<or> m = ''legacy'' then ''legacy''
        else if m = ''stream'' then ''stream''
        else if m = ''poll'' then ''poll''
        else if m = ''auto'' then ''auto''
        else if m = ''ws'' then ''ws''
        else ''legacy'')"

definition multiplexEnabled :: "string \<Rightarrow> bool" where
  "multiplexEnabled mode \<longleftrightarrow> ToLower (TrimSpace mode) \<in> {'''', ''auto'', ''on''}"

record tunnelAuth =
  authKey :: bytes
  authSkew :: int

definition newTunnelAuth :: "(bytes \<Rightarrow> bytes) \<Rightarrow> string \<Rightarrow> int \<Rightarrow> tunnelAuth option" where
  "newTunnelAuth sha256 key0 skew =
    (let key = TrimSpace key0
     in if key = '''' then None
        else Some \<lparr>authKey = sha256 (bytes_of (''sudoku-httpmask-auth-v1:'' @ key)), authSkew = (if skew \<le> 0 then 60 * second else skew)\<rparr>)"

definition signInput :: "string \<Rightarrow> string \<Rightarrow> string \<Rightarrow> u64 \<Rightarrow> bytes" where
  "signInput mode method0 path ts =
    (let method1 = ToUpper (TrimSpace method0);
         method = (if method1 = '''' then ''GET'' else method1)
     in bytes_of mode @ [0] @ bytes_of method @ [0] @ bytes_of (TrimSpace path) @ [0] @ PutUint64 ts)"

definition auth_sign :: "(bytes \<Rightarrow> bytes \<Rightarrow> bytes) \<Rightarrow> tunnelAuth \<Rightarrow> string \<Rightarrow> string \<Rightarrow> string \<Rightarrow> u64 \<Rightarrow> bytes" where
  "auth_sign hmac256 a mode method path ts = take 16 (hmac256 (authKey a) (signInput mode method path ts))"

definition auth_token :: "(bytes \<Rightarrow> bytes \<Rightarrow> bytes) \<Rightarrow> tunnelAuth option \<Rightarrow> string \<Rightarrow> string \<Rightarrow> string \<Rightarrow> int \<Rightarrow> string" where
  "auth_token hmac256 auth mode method path now =
    (case auth of
       None \<Rightarrow> ''''
     | Some a \<Rightarrow> let ts = unixTime now in b64Encode (PutUint64 ts @ auth_sign hmac256 a mode method path ts))"

definition tunnelAuthHeaderPrefix :: string where
  "tunnelAuthHeaderPrefix = ''Bearer ''"

text \<open>What is left of a header value: a \<open>Bearer\<close> prefix in any case is optional.\<close>

definition stripBearer :: "string \<Rightarrow> string" where
  "stripBearer val0 =
    (let val = TrimSpace val0
     in if length tunnelAuthHeaderPrefix < length val \<and> EqualFold (take (length tunnelAuthHeaderPrefix) val) tunnelAuthHeaderPrefix
        then TrimSpace (drop (length tunnelAuthHeaderPrefix) val) else val)"

definition verifyValue :: "(bytes \<Rightarrow> bytes \<Rightarrow> bytes) \<Rightarrow> tunnelAuth option \<Rightarrow> string \<Rightarrow> string \<Rightarrow> string \<Rightarrow> string \<Rightarrow> int \<Rightarrow> bool" where
  "verifyValue hmac256 auth val mode method path now =
    (case auth of
       None \<Rightarrow> True
     | Some a \<Rightarrow>
       if TrimSpace val = '''' then False
       else if stripBearer val = '''' then False
       else
         (case b64Decode (stripBearer val) of
            None \<Rightarrow> False
          | Some raw \<Rightarrow>
            if length raw \<noteq> 8 + 16 then False
            else
              let ts = Uint64 (take 8 raw);
                  delta = unixTime now - ts;
                  delta' = (if sint delta < 0 then - delta else delta)
              in if authSkew a div second < sint delta' then False
                 else drop 8 raw = auth_sign hmac256 a mode method path ts))"

lemma TrimSpace_ends: "\<not> is_space (hd s) \<Longrightarrow> \<not> is_space (last s) \<Longrightarrow> TrimSpace s = s"
proof (cases "s = []")
  case False
  have d: "dropWhile is_space t = t" if "t \<noteq> []" "\<not> is_space (hd t)" for t using that by (cases t) auto
  assume "\<not> is_space (hd s)" "\<not> is_space (last s)"
  then show ?thesis using False d [of s] d [of "rev s"] by (simp add: TrimSpace_def hd_rev)
qed (simp add: TrimSpace_def)

lemma TrimSpace_id: "list_all (\<lambda>c. \<not> is_space c) s \<Longrightarrow> TrimSpace s = s"
  by (cases "s = []") (simp_all add: TrimSpace_def [of "[]"] TrimSpace_ends list_all_iff)

lemma b64Encode_plain: "list_all (\<lambda>c. \<not> is_space c) (b64Encode b)"
  using b64Char_plain sextets_range by (auto simp: b64Encode_def list_all_iff)

lemma lower_char_space: "lower_char c = CHR '' '' \<Longrightarrow> c = CHR '' ''"
proof -
  assume a: "lower_char c = CHR '' ''"
  show ?thesis
  proof (cases "65 \<le> (of_char c :: nat) \<and> (of_char c :: nat) \<le> 90")
    case True
    then have "of_char (char_of (of_char c + 32 :: nat) :: char) = (32 :: nat)" using a by (simp add: lower_char_def)
    then show ?thesis using True by (simp add: of_char_of)
  next
    case False then show ?thesis using a by (auto simp: lower_char_def Let_def)
  qed
qed

lemma stripBearer_token:
  "stripBearer (b64Encode b) = b64Encode b"
  "b \<noteq> [] \<Longrightarrow> stripBearer (tunnelAuthHeaderPrefix @ b64Encode b) = b64Encode b"
proof -
  have len: "length tunnelAuthHeaderPrefix = 7" by (simp add: tunnelAuthHeaderPrefix_def)
  have t: "TrimSpace (b64Encode b) = b64Encode b" by (rule TrimSpace_id [OF b64Encode_plain])
  have "\<not> EqualFold (take 7 (b64Encode b)) tunnelAuthHeaderPrefix" if "7 < length (b64Encode b)"
  proof
    assume "EqualFold (take 7 (b64Encode b)) tunnelAuthHeaderPrefix"
    then have "map lower_char (take 7 (b64Encode b)) ! 6 = map lower_char tunnelAuthHeaderPrefix ! 6"
      by (simp add: EqualFold_def ToLower_def)
    moreover have "map lower_char tunnelAuthHeaderPrefix ! 6 = CHR '' ''" by code_simp
    ultimately have "b64Encode b ! 6 = CHR '' ''" using that lower_char_space by simp
    then have "is_space (b64Encode b ! 6)" by (simp add: is_space_def)
    then show False using b64Encode_plain [of b] that by (auto simp: list_all_length)
  qed
  then show "stripBearer (b64Encode b) = b64Encode b"
    using t len by (auto simp: stripBearer_def Let_def)
  assume "b \<noteq> []"
  then have ne: "b64Encode b \<noteq> []" by (cases b rule: sextets.cases) (simp_all add: b64Encode_def)
  have "TrimSpace (tunnelAuthHeaderPrefix @ b64Encode b) = tunnelAuthHeaderPrefix @ b64Encode b"
    by (rule TrimSpace_ends) (use ne b64Encode_plain [of b] in \<open>simp_all add: tunnelAuthHeaderPrefix_def is_space_def list_all_iff\<close>)
  then show "stripBearer (tunnelAuthHeaderPrefix @ b64Encode b) = b64Encode b"
    using t ne by (simp add: stripBearer_def EqualFold_def Let_def)
qed

lemma Put_Uint64: "length b = 8 \<Longrightarrow> PutUint64 (Uint64 b) = b"
proof -
  assume "length b = 8"
  then obtain x1 x2 x3 x4 x5 x6 x7 x8 where b: "b = [x1, x2, x3, x4, x5, x6, x7, x8]"
    by (auto simp: length_Suc_conv numeral_eq_Suc)
  have "ucast (drop_bit 56 (Uint64 b)) = x1" "ucast (drop_bit 48 (Uint64 b)) = x2" "ucast (drop_bit 40 (Uint64 b)) = x3"
    "ucast (drop_bit 32 (Uint64 b)) = x4" "ucast (drop_bit 24 (Uint64 b)) = x5" "ucast (drop_bit 16 (Uint64 b)) = x6"
    "ucast (drop_bit 8 (Uint64 b)) = x7" "ucast (Uint64 b) = x8"
    unfolding b Uint64_def by (rule bit_word_eqI, simp add: bit_simps bit_byte_out)+
  then show ?thesis by (simp add: PutUint64_def b)
qed

lemma Uint64_split: "length raw = 24 \<Longrightarrow> raw = PutUint64 (Uint64 (take 8 raw)) @ drop 8 raw"
  using Put_Uint64 [of "take 8 raw"] by simp

text \<open>What is signed determines the mode, method, path and time, as long as mode and method contain no zero byte.\<close>

lemma zero_split: "0 \<notin> set a \<Longrightarrow> 0 \<notin> set b \<Longrightarrow> a @ (0 :: byte) # c = b @ 0 # d \<Longrightarrow> a = b \<and> c = d"
  by (induction a arbitrary: b) (auto simp: Cons_eq_append_conv append_eq_Cons_conv)

lemma bytes_of_inj: "bytes_of s = bytes_of t \<longleftrightarrow> s = t"
  by (metis string_of_bytes_of)

definition signedMethod :: "string \<Rightarrow> string" where
  "signedMethod m = (if ToUpper (TrimSpace m) = '''' then ''GET'' else ToUpper (TrimSpace m))"

lemma signInput_injective:
  assumes "signInput m1 me1 p1 t1 = signInput m2 me2 p2 t2"
    and "0 \<notin> set (bytes_of m1)" "0 \<notin> set (bytes_of m2)" "0 \<notin> set (bytes_of (signedMethod me1))" "0 \<notin> set (bytes_of (signedMethod me2))"
  shows "m1 = m2 \<and> signedMethod me1 = signedMethod me2 \<and> TrimSpace p1 = TrimSpace p2 \<and> t1 = t2"
proof -
  have i: "signInput m me p t = bytes_of m @ 0 # bytes_of (signedMethod me) @ 0 # (bytes_of (TrimSpace p) @ 0 # PutUint64 t)" for m me p t
    by (simp add: signInput_def signedMethod_def Let_def)
  have a: "bytes_of m1 = bytes_of m2" "bytes_of (signedMethod me1) = bytes_of (signedMethod me2)"
    and b: "bytes_of (TrimSpace p1) @ 0 # PutUint64 t1 = bytes_of (TrimSpace p2) @ 0 # PutUint64 t2"
    using zero_split [OF assms(2,3)] zero_split [OF assms(4,5)] assms(1) unfolding i by blast+
  from b have "bytes_of (TrimSpace p1) = bytes_of (TrimSpace p2) \<and> PutUint64 t1 = PutUint64 t2"
    by (simp add: append_eq_append_conv)
  then show ?thesis using a by (metis bytes_of_inj Uint64_Put)
qed

section \<open>Properties\<close>



text \<open>
  A token of the client is accepted by a server with the same key for the same request while the clocks differ by
  no more than the skew, as the bare token and as a bearer token.
\<close>

theorem auth_token_accepted:
  assumes "\<And>k m. length (hmac256 k m) = 32" "newTunnelAuth sha256 key skew = Some a"
    and "\<bar>sint (unixTime now' - unixTime now)\<bar> \<le> authSkew a div second"
  shows "verifyValue hmac256 (Some a) (auth_token hmac256 (Some a) mode method path now) mode method path now'
    \<and> verifyValue hmac256 (Some a) (tunnelAuthHeaderPrefix @ auth_token hmac256 (Some a) mode method path now) mode method path now'"
proof -
  let ?b = "PutUint64 (unixTime now) @ auth_sign hmac256 a mode method path (unixTime now)"
  have s: "0 \<le> authSkew a" using assms(2) by (auto simp: newTunnelAuth_def second_def Let_def split: if_splits)
  have l: "length ?b = 24" using assms(1) by (simp add: auth_sign_def)
  then have ne: "?b \<noteq> []" by (metis length_0_conv zero_neq_numeral)
  have tk: "auth_token hmac256 (Some a) mode method path now = b64Encode ?b" by (simp add: auth_token_def Let_def)
  have u: "Uint64 (take 8 ?b) = unixTime now" "drop 8 ?b = auth_sign hmac256 a mode method path (unixTime now)" by simp_all
  have d: "verifyValue hmac256 (Some a) v mode method path now'" if "stripBearer v = b64Encode ?b" for v
  proof -
    have k: "\<not> authSkew a div second < sint (AbsInt64 (unixTime now' - unixTime now))"
      using AbsInt64_bound [of "authSkew a div second"] assms(3) s by (simp add: second_def)
    have ne2: "b64Encode ?b \<noteq> []" using b64_roundtrip [of ?b] ne by (metis b64_roundtrip b64Encode_def list.simps(8) option.inject sextets.simps(4))
    then have "TrimSpace v \<noteq> ''''" using that by (auto simp: stripBearer_def Let_def)
    then show ?thesis using that ne2 k l u by (simp add: verifyValue_def b64_roundtrip Let_def AbsInt64_def)
  qed
  show ?thesis using d stripBearer_token ne unfolding tk by blast
qed

theorem auth_token_accepted_witness:
  "\<exists>a. newTunnelAuth (\<lambda>_. replicate 32 7) '' k '' 0 = Some a
    \<and> verifyValue (\<lambda>k m. take 32 (m @ replicate 32 1)) (Some a)
        (auth_token (\<lambda>k m. take 32 (m @ replicate 32 1)) (Some a) ''ws'' ''get'' ''/ws'' 0) ''ws'' ''get'' ''/ws'' (59 * second)"
proof -
  obtain a where a: "newTunnelAuth (\<lambda>_. replicate 32 7) '' k '' 0 = Some a"
    by (simp add: newTunnelAuth_def TrimSpace_def is_space_def)
  then have s: "authSkew a = 60 * second"
    by (auto simp: newTunnelAuth_def TrimSpace_def is_space_def)
  show ?thesis
    using auth_token_accepted [of "\<lambda>k m. take 32 (m @ replicate 32 1)", OF _ a, of "59 * second" 0 "''ws''" "''get''" "''/ws''"] a s
    by (simp add: second_def unixTime_def)
qed

text \<open>
  The path root is added and removed consistently: a path below the root is served as the path the client asked for,
  and a request is taken exactly when the client could have made it.
\<close>

theorem path_root_roundtrip:
  "(HasPrefix path ''/'' \<longrightarrow> stripPathRoot root (joinPathRoot root path) = (path, True))
    \<and> (stripPathRoot root full = (path, True) \<longrightarrow> joinPathRoot root path = full)"
  using strip_join join_strip by blast

theorem path_root_roundtrip_witness:
  "stripPathRoot ''/ab/'' (joinPathRoot ''/ab/'' ''/api'') = (''/api'', True) \<and> joinPathRoot ''/ab/'' ''/api'' = ''/ab/api''"
  using path_root_roundtrip [of "''/api''" "''/ab/''" "''/ab/api''"]
  by (simp add: HasPrefix_def joinPathRoot_def normalizePathRoot_def TrimSpace_def TrimChar_def is_space_def rootChar_def)

end
