(* ===== verification/HttpMasker.thy ===== *)
theory HttpMasker
  imports HttpAuth Bufio
begin

text \<open>
  The legacy HTTP mask (\<open>pkg/obfs/httpmask/masker.go\<close>): a random request header in front of the stream, and its removal by the
  server through \<open>bufio.Reader\<close> (\<open>ReadSlice\<close>, \<open>Peek\<close>). The values of \<open>math/rand\<close> are a parameter: \<open>u k n\<close> is the \<open>k\<close>-th
  number drawn, below \<open>n\<close>. The embedded word lists are an argument. A reader that delivers nothing a hundred times in
  a row is not represented.
\<close>

section \<open>Reading lines\<close>

definition newline :: byte where "newline = 10"

text \<open>\<open>fill\<close>: one read of the connection into the free part of the buffer.\<close>

definition bufio_fill :: "bufio \<Rightarrow> bufio" where
  "bufio_fill b = (case conn_read (bsize b - length (buffered b)) (feed b) of
     (bs, e, fd) \<Rightarrow> b\<lparr>buffered := buffered b @ bs, berr := e, feed := fd\<rparr>)"

definition fill_measure :: "bufio \<Rightarrow> nat" where
  "fill_measure b = length (concat (map fst (feed b))) + length (feed b) + (if berr b = None then 1 else 0)"

lemma bufio_fill_shrinks:
  "length (buffered b) < bsize b \<Longrightarrow> berr b = None \<Longrightarrow> fill_measure (bufio_fill b) < fill_measure b"
  by (cases "feed b") (auto simp: bufio_fill_def fill_measure_def conn_read_def)

function ReadSlice :: "byte \<Rightarrow> bufio \<Rightarrow> bytes \<times> go_error option \<times> bufio" where
  "ReadSlice delim b =
    (if delim \<in> set (buffered b) then
       (let line = takeWhile (\<lambda>x. x \<noteq> delim) (buffered b) @ [delim]
        in (line, None, b\<lparr>buffered := drop (length line) (buffered b)\<rparr>))
     else case berr b of
       Some e \<Rightarrow> (buffered b, Some e, b\<lparr>buffered := [], berr := None\<rparr>)
     | None \<Rightarrow>
       if bsize b \<le> length (buffered b) then (buffered b, Some (ErrMsg ''bufio: buffer full''), b\<lparr>buffered := []\<rparr>)
       else ReadSlice delim (bufio_fill b))"
  by pat_completeness auto
termination
  by (relation "measure (\<lambda>(delim, b). fill_measure b)") (use bufio_fill_shrinks in auto)

declare ReadSlice.simps [simp del]

function Peek :: "nat \<Rightarrow> bufio \<Rightarrow> bytes \<times> go_error option \<times> bufio" where
  "Peek n b =
    (if length (buffered b) < n \<and> length (buffered b) < bsize b \<and> berr b = None then Peek n (bufio_fill b)
     else if bsize b < n then (buffered b, Some (ErrMsg ''bufio: buffer full''), b)
     else if length (buffered b) < n then
       (buffered b, Some (case berr b of Some e \<Rightarrow> e | None \<Rightarrow> ErrMsg ''bufio: buffer full''), b\<lparr>berr := None\<rparr>)
     else (take n (buffered b), None, b))"
  by pat_completeness auto
termination
  by (relation "measure (\<lambda>(n, b). fill_measure b)") (use bufio_fill_shrinks in auto)

declare Peek.simps [simp del]

section \<open>The header\<close>

definition LooksLikeHTTPRequestStart :: "bytes \<Rightarrow> bool" where
  "LooksLikeHTTPRequestStart peek4 \<longleftrightarrow>
    \<not> length peek4 < 4 \<and> string_of peek4 \<in> {''GET '', ''POST'', ''HEAD'', ''PUT '', ''OPTI'', ''PATC'', ''DELE''}"

definition trimPortForHost :: "string \<Rightarrow> string" where
  "trimPortForHost host =
    (if host = '''' then host
     else case SplitHostPort host of Inr (h, p) \<Rightarrow> if h \<noteq> '''' then h else host | Inl e \<Rightarrow> host)"

definition validMethod :: "bytes \<Rightarrow> bool" where
  "validMethod line \<longleftrightarrow>
    list_ex (HasPrefix (string_of line)) [''POST '', ''GET '', ''HEAD '', ''PUT '', ''DELETE '', ''OPTIONS '', ''PATCH '']"

definition blankLine :: "bytes \<Rightarrow> bool" where
  "blankLine line \<longleftrightarrow> line = [13, 10] \<or> line = [10]"

lemma ReadSlice_shrinks:
  "ReadSlice delim b = (line, None, b') \<Longrightarrow> length (wire b') < length (wire b)"
proof (induction delim b rule: ReadSlice.induct)
  case (1 delim b)
  show ?case
  proof (cases "delim \<in> set (buffered b)")
    case True
    then have "buffered b \<noteq> []" by auto
    then show ?thesis using 1(2) True by (auto simp: ReadSlice.simps [of delim b] wire_def Let_def)
  next
    case False
    then have s: "berr b = None" "\<not> bsize b \<le> length (buffered b)" "ReadSlice delim (bufio_fill b) = (line, None, b')"
      using 1(2) by (auto simp: ReadSlice.simps [of delim b] split: option.splits if_splits)
    have "wire (bufio_fill b) = wire b"
      by (auto simp: bufio_fill_def wire_def split: prod.splits dest: conn_read_wire)
    then show ?thesis using 1(1) [OF False s(1,2,3)] by simp
  qed
qed

function consumeLines :: "bytes \<Rightarrow> bufio \<Rightarrow> bytes \<times> go_error option \<times> bufio" where
  "consumeLines consumed b =
    (case ReadSlice newline b of
       (line, Some e, b') \<Rightarrow> (consumed, Some e, b')
     | (line, None, b') \<Rightarrow> if blankLine line then (consumed @ line, None, b') else consumeLines (consumed @ line) b')"
  by pat_completeness auto
termination
  by (relation "measure (\<lambda>(c, b). length (wire b))") (auto dest: ReadSlice_shrinks [OF sym])

declare consumeLines.simps [simp del]

definition ConsumeHeader :: "bufio \<Rightarrow> bytes \<times> go_error option \<times> bufio" where
  "ConsumeHeader b =
    (case ReadSlice newline b of
       (line, Some e, b') \<Rightarrow> ([], Some e, b')
     | (line, None, b') \<Rightarrow>
         if \<not> validMethod line then (line, Some (ErrMsg ''invalid method or garbage''), b')
         else consumeLines line b')"

section \<open>Writing the header\<close>

definition crlf :: string where "crlf = [CHR 0x0D, CHR 0x0A]"

text \<open>\<open>strings.Split\<close> at a line end.\<close>

fun splitNL :: "string \<Rightarrow> string list" where
  "splitNL [] = [[]]"
| "splitNL (c # cs) =
    (if c = CHR 0x0A then [] # splitNL cs else (case splitNL cs of [] \<Rightarrow> [[c]] | l # ls \<Rightarrow> (c # l) # ls))"

definition splitLines :: "string \<Rightarrow> string list" where
  "splitLines s0 =
    (let s = TrimSpace s0 in if s = '''' then [] else filter (\<lambda>v. v \<noteq> '''') (map TrimSpace (splitNL s)))"

record maskData =
  userAgents :: "string list"
  accepts :: "string list"
  acceptLanguages :: "string list"
  acceptEncodings :: "string list"
  paths :: "string list"
  contentTypes :: "string list"

definition maskDataOf :: "string \<Rightarrow> string \<Rightarrow> string \<Rightarrow> string \<Rightarrow> string \<Rightarrow> string \<Rightarrow> maskData" where
  "maskDataOf a b c d e f = \<lparr>userAgents = splitLines a, accepts = splitLines b, acceptLanguages = splitLines c,
    acceptEncodings = splitLines d, paths = splitLines e, contentTypes = splitLines f\<rparr>"

definition pickOf :: "(nat \<Rightarrow> nat \<Rightarrow> nat) \<Rightarrow> nat \<Rightarrow> string list \<Rightarrow> string" where
  "pickOf u k xs = xs ! u k (length xs)"

definition appendCommonHeaders :: "maskData \<Rightarrow> string \<Rightarrow> (nat \<Rightarrow> nat \<Rightarrow> nat) \<Rightarrow> nat \<Rightarrow> string" where
  "appendCommonHeaders md host u k =
    ''Host: '' @ host @ crlf @ ''User-Agent: '' @ pickOf u k (userAgents md) @ crlf
    @ ''Accept: '' @ pickOf u (k + 1) (accepts md) @ crlf
    @ ''Accept-Language: '' @ pickOf u (k + 2) (acceptLanguages md) @ crlf
    @ ''Accept-Encoding: '' @ pickOf u (k + 3) (acceptEncodings md) @ crlf
    @ ''Connection: keep-alive'' @ crlf @ ''Cache-Control: no-cache'' @ crlf @ ''Pragma: no-cache'' @ crlf"

definition b64StdEncode :: "bytes \<Rightarrow> string" where
  "b64StdEncode b =
    map (\<lambda>i. ''ABCDEFGHIJKLMNOPQRSTUVWXYZabcdefghijklmnopqrstuvwxyz0123456789+/'' ! i) (sextets b)
    @ replicate ((3 - length b mod 3) mod 3) (CHR ''='')"

definition minCL :: nat where "minCL = 4 * 1024"
definition maxCL :: nat where "maxCL = 10 * 1024 * 1024"

definition maskHeader :: "maskData \<Rightarrow> (nat \<Rightarrow> nat \<Rightarrow> nat) \<Rightarrow> bytes \<Rightarrow> string \<Rightarrow> string \<Rightarrow> string" where
  "maskHeader md u keyBytes host pathRoot =
    (let path = joinPathRoot pathRoot (pickOf u 0 (paths md));
         ctype = pickOf u 1 (contentTypes md)
     in if u 2 10 \<in> {0, 1} then
          ''GET '' @ path @ '' HTTP/1.1'' @ crlf @ appendCommonHeaders md host u 3
          @ ''Upgrade: websocket'' @ crlf @ ''Connection: Upgrade'' @ crlf @ ''Sec-WebSocket-Version: 13'' @ crlf
          @ ''Sec-WebSocket-Key: '' @ b64StdEncode keyBytes @ crlf @ ''Origin: https://'' @ trimPortForHost host @ crlf @ crlf
        else
          let contentLength = minCL + u 3 (maxCL - minCL + 1)
          in ''POST '' @ path @ '' HTTP/1.1'' @ crlf @ appendCommonHeaders md host u 4
             @ ''Content-Type: '' @ ctype @ crlf @ ''Content-Length: '' @ Itoa contentLength
             @ (if u 8 2 = 0 then crlf @ ''X-Requested-With: XMLHttpRequest'' else '''')
             @ (if u 9 3 = 0 then crlf @ ''Referer: https://'' @ trimPortForHost host @ ''/'' else '''')
             @ crlf @ crlf)"

text \<open>An empty word list makes \<open>Intn(0)\<close> panic.\<close>

definition WriteRandomRequestHeaderWithPathRoot ::
  "maskData \<Rightarrow> (nat \<Rightarrow> nat \<Rightarrow> nat) \<Rightarrow> bytes \<Rightarrow> writer \<Rightarrow> string \<Rightarrow> string \<Rightarrow> go_error option \<times> writer" where
  "WriteRandomRequestHeaderWithPathRoot md u keyBytes w host pathRoot =
    (if [] \<in> {paths md, contentTypes md, userAgents md, accepts md, acceptLanguages md, acceptEncodings md} then (Some RuntimePanic, w)
     else case conn_write w (bytes_of (maskHeader md u keyBytes host pathRoot)) of (n, e, w') \<Rightarrow> (e, w'))"

section \<open>Lines\<close>

definition no_nl :: "string \<Rightarrow> bool" where
  "no_nl s \<longleftrightarrow> CHR 0x0A \<notin> set s"

lemma no_nl_simps [simp]: "no_nl (s @ t) \<longleftrightarrow> no_nl s \<and> no_nl t" "no_nl []" "no_nl (c # s) \<longleftrightarrow> c \<noteq> CHR 0x0A \<and> no_nl s"
  by (auto simp: no_nl_def)

lemma newline_bytes: "newline \<in> set (bytes_of s) \<longleftrightarrow> \<not> no_nl s"
proof -
  have "(of_nat (of_char c) = newline) \<longleftrightarrow> c = CHR 0x0A" for c :: char
  proof
    assume "of_nat (of_char c) = newline"
    then have "unat (of_nat (of_char c) :: byte) = 10" by (simp add: newline_def)
    then have "(of_char c :: nat) = 10" by (simp add: unat_of_nat)
    then have "c = char_of (10 :: nat)" by (metis char_of_char)
    moreover have "char_of (10 :: nat) = CHR 0x0A" by code_simp
    ultimately show "c = CHR 0x0A" by simp
  qed (simp add: newline_def)
  then have "newline = of_nat (of_char c) \<longleftrightarrow> c = CHR 0x0A" for c :: char by (simp only: eq_commute [of newline])
  then show ?thesis by (simp add: bytes_of_def no_nl_def image_iff del: of_nat_of_char)
qed

lemma splitNL_no_nl: "l \<in> set (splitNL s) \<Longrightarrow> no_nl l"
  by (induction s arbitrary: l rule: splitNL.induct) (auto split: if_splits list.splits)

lemma TrimSpace_set: "set (TrimSpace s) \<subseteq> set s"
  unfolding TrimSpace_def by (metis set_dropWhileD set_rev subsetI)

lemma splitLines_lines: "l \<in> set (splitLines s) \<Longrightarrow> no_nl l \<and> l \<noteq> ''''"
  using splitNL_no_nl TrimSpace_set by (fastforce simp: splitLines_def no_nl_def Let_def split: if_splits)

definition clean_feed :: "bufio \<Rightarrow> bool" where
  "clean_feed b \<longleftrightarrow> berr b = None \<and> (\<forall>e \<in> snd ` set (feed b). e = None)"

lemma bufio_fill_clean:
  assumes "clean_feed b" "feed b \<noteq> []" "length (buffered b) < bsize b"
  shows "clean_feed (bufio_fill b) \<and> wire (bufio_fill b) = wire b \<and> bsize (bufio_fill b) = bsize b"
  using assms by (cases "feed b") (auto simp: clean_feed_def bufio_fill_def conn_read_def wire_def split: if_splits)

lemma ReadSlice_line:
  assumes "wire b = x @ newline # rest" "newline \<notin> set x" "length x < bsize b" "clean_feed b"
  shows "\<exists>b'. ReadSlice newline b = (x @ [newline], None, b') \<and> wire b' = rest \<and> bsize b' = bsize b \<and> clean_feed b'"
  using assms
proof (induction newline b rule: ReadSlice.induct)
  case (1 b)
  show ?case
  proof (cases "newline \<in> set (buffered b)")
    case True
    obtain p q where pq: "buffered b = p @ newline # q" "newline \<notin> set p" using split_list_first [OF True] by blast
    have eq: "x @ newline # rest = p @ newline # (q @ concat (map fst (feed b)))" using 1(2) pq(1) by (simp add: wire_def)
    have "takeWhile (\<lambda>y. y \<noteq> newline) (x @ newline # rest) = x" "takeWhile (\<lambda>y. y \<noteq> newline) (p @ newline # (q @ concat (map fst (feed b)))) = p"
      using 1(3) pq(2) by (auto simp: takeWhile_append)
    then have "x = p" using eq by metis
    moreover have "takeWhile (\<lambda>y. y \<noteq> newline) (buffered b) = p" using pq by (auto simp: takeWhile_append)
    ultimately show ?thesis using True 1(5) pq eq by (auto simp: ReadSlice.simps [of newline b] wire_def clean_feed_def Let_def)
  next
    case False
    have "length (buffered b) \<le> length x"
    proof (rule ccontr)
      assume "\<not> ?thesis"
      then have "wire b ! length x = buffered b ! length x" "length x < length (buffered b)" by (auto simp: wire_def nth_append)
      moreover have "wire b ! length x = newline" using 1(2) by simp
      ultimately show False using False by (metis nth_mem)
    qed
    then have l: "length (buffered b) < bsize b" using 1(4) by simp
    have "feed b \<noteq> []" using 1(2) False by (auto simp: wire_def)
    note f = bufio_fill_clean [OF 1(5) this l]
    have be: "berr b = None" using 1(5) by (simp add: clean_feed_def)
    obtain b' where "ReadSlice newline (bufio_fill b) = (x @ [newline], None, b') \<and> wire b' = rest \<and> bsize b' = bsize b \<and> clean_feed b'"
      using 1(1) [OF False be] l f 1(2-4) by auto
    then show ?thesis using False be l by (auto simp: ReadSlice.simps [of newline b])
  qed
qed

text \<open>A header is a request line, further lines that are not blank, and a blank line.\<close>

definition hdrline :: "string \<Rightarrow> bytes" where
  "hdrline s = bytes_of (s @ crlf)"

lemma bytes_of_append: "bytes_of (s @ t) = bytes_of s @ bytes_of t"
  by (simp add: bytes_of_def)

lemma hdrline_eq: "hdrline s = (bytes_of s @ [13]) @ [newline]"
  by (simp add: hdrline_def bytes_of_append crlf_def newline_def) (simp add: bytes_of_def)

lemma hdrline_facts: "no_nl s \<Longrightarrow> newline \<notin> set (bytes_of s @ [13])" "s \<noteq> '''' \<Longrightarrow> \<not> blankLine (hdrline s)" "blankLine (hdrline '''')"
proof -
  show "no_nl s \<Longrightarrow> newline \<notin> set (bytes_of s @ [13])" using newline_bytes [of s] by (auto simp: newline_def)
  show "blankLine (hdrline '''')" by (simp add: hdrline_eq blankLine_def newline_def bytes_of_def)
  assume "s \<noteq> ''''"
  then have "2 < length (hdrline s)" by (cases s) (simp_all add: hdrline_eq)
  then show "\<not> blankLine (hdrline s)" by (auto simp: blankLine_def)
qed

lemma consumeLines_header:
  assumes "list_all (\<lambda>s. no_nl s \<and> s \<noteq> '''' \<and> length s + 2 \<le> bsize b) ls" "2 \<le> bsize b"
    and "wire b = concat (map hdrline ls) @ hdrline '''' @ rest" "clean_feed b"
  shows "\<exists>b'. consumeLines c b = (c @ concat (map hdrline ls) @ hdrline '''', None, b') \<and> wire b' = rest"
  using assms
proof (induction ls arbitrary: b c)
  case Nil
  have "wire b = [13] @ newline # rest" using Nil by (simp add: hdrline_eq bytes_of_def)
  from ReadSlice_line [OF this] Nil obtain b' where r: "ReadSlice newline b = ([13] @ [newline], None, b')" "wire b' = rest"
    by (auto simp: newline_def)
  have "hdrline '''' = [13] @ [newline]" by (simp add: hdrline_eq bytes_of_def)
  then show ?case using r hdrline_facts(3) by (simp add: consumeLines.simps [of c b])
next
  case (Cons s ls)
  have s: "no_nl s" "s \<noteq> ''''" "length s + 2 \<le> bsize b" using Cons.prems by auto
  have "wire b = (bytes_of s @ [13]) @ newline # (concat (map hdrline ls) @ hdrline '''' @ rest)"
    using Cons.prems(3) by (simp add: hdrline_eq [of s])
  from ReadSlice_line [OF this hdrline_facts(1) [OF s(1)] _ Cons.prems(4)] s(3)
  obtain b1 where b1: "ReadSlice newline b = (hdrline s, None, b1)" "wire b1 = concat (map hdrline ls) @ hdrline '''' @ rest"
    "bsize b1 = bsize b" "clean_feed b1"
    by (auto simp: hdrline_eq [of s])
  have "list_all (\<lambda>s. no_nl s \<and> s \<noteq> '''' \<and> length s + 2 \<le> bsize b1) ls" "2 \<le> bsize b1" using Cons.prems(1,2) b1(3) by auto
  then obtain b' where "consumeLines (c @ hdrline s) b1 = ((c @ hdrline s) @ concat (map hdrline ls) @ hdrline '''', None, b')" "wire b' = rest"
    using Cons.IH [of b1 "c @ hdrline s"] b1(2,4) by blast
  then show ?case using b1(1) hdrline_facts(2) [OF s(2)] by (simp add: consumeLines.simps [of c b])
qed

lemma ConsumeHeader_lines:
  assumes "list_all (\<lambda>s. no_nl s \<and> s \<noteq> '''' \<and> length s + 2 \<le> bsize b) (r # ls)" "2 \<le> bsize b" "validMethod (hdrline r)"
    and "wire b = concat (map hdrline (r # ls)) @ hdrline '''' @ rest" "clean_feed b"
  shows "\<exists>b'. ConsumeHeader b = (concat (map hdrline (r # ls)) @ hdrline '''', None, b') \<and> wire b' = rest"
proof -
  have s: "no_nl r" "length r + 2 \<le> bsize b" using assms(1) by auto
  have "wire b = (bytes_of r @ [13]) @ newline # (concat (map hdrline ls) @ hdrline '''' @ rest)"
    using assms(4) by (simp add: hdrline_eq [of r])
  from ReadSlice_line [OF this hdrline_facts(1) [OF s(1)] _ assms(5)] s(2)
  obtain b1 where b1: "ReadSlice newline b = (hdrline r, None, b1)" "wire b1 = concat (map hdrline ls) @ hdrline '''' @ rest"
    "bsize b1 = bsize b" "clean_feed b1"
    by (auto simp: hdrline_eq [of r])
  have "list_all (\<lambda>s. no_nl s \<and> s \<noteq> '''' \<and> length s + 2 \<le> bsize b1) ls" "2 \<le> bsize b1" using assms(1,2) b1(3) by auto
  from consumeLines_header [OF this b1(2,4), of "hdrline r"] show ?thesis
    using b1(1) assms(3) by (auto simp: ConsumeHeader_def)
qed

text \<open>The lines of the header the client writes.\<close>

definition commonLines :: "maskData \<Rightarrow> string \<Rightarrow> (nat \<Rightarrow> nat \<Rightarrow> nat) \<Rightarrow> nat \<Rightarrow> string list" where
  "commonLines md host u k =
    [''Host: '' @ host, ''User-Agent: '' @ pickOf u k (userAgents md), ''Accept: '' @ pickOf u (k + 1) (accepts md),
     ''Accept-Language: '' @ pickOf u (k + 2) (acceptLanguages md), ''Accept-Encoding: '' @ pickOf u (k + 3) (acceptEncodings md),
     ''Connection: keep-alive'', ''Cache-Control: no-cache'', ''Pragma: no-cache'']"

definition requestLine :: "maskData \<Rightarrow> (nat \<Rightarrow> nat \<Rightarrow> nat) \<Rightarrow> string \<Rightarrow> string" where
  "requestLine md u pathRoot = (if u 2 10 \<in> {0, 1} then ''GET '' else ''POST '') @ joinPathRoot pathRoot (pickOf u 0 (paths md)) @ '' HTTP/1.1''"

definition otherLines :: "maskData \<Rightarrow> (nat \<Rightarrow> nat \<Rightarrow> nat) \<Rightarrow> bytes \<Rightarrow> string \<Rightarrow> string list" where
  "otherLines md u keyBytes host =
    (if u 2 10 \<in> {0, 1} then
       commonLines md host u 3 @ [''Upgrade: websocket'', ''Connection: Upgrade'', ''Sec-WebSocket-Version: 13'',
         ''Sec-WebSocket-Key: '' @ b64StdEncode keyBytes, ''Origin: https://'' @ trimPortForHost host]
     else
       commonLines md host u 4 @ [''Content-Type: '' @ pickOf u 1 (contentTypes md),
         ''Content-Length: '' @ Itoa (minCL + u 3 (maxCL - minCL + 1))]
       @ (if u 8 2 = 0 then [''X-Requested-With: XMLHttpRequest''] else [])
       @ (if u 9 3 = 0 then [''Referer: https://'' @ trimPortForHost host @ ''/''] else []))"

lemma appendCommonHeaders_lines: "bytes_of (appendCommonHeaders md host u k @ s) = concat (map hdrline (commonLines md host u k)) @ bytes_of s"
  by (simp add: appendCommonHeaders_def commonLines_def hdrline_def bytes_of_def)

lemma maskHeader_lines:
  "bytes_of (maskHeader md u keyBytes host pathRoot) = concat (map hdrline (requestLine md u pathRoot # otherLines md u keyBytes host)) @ hdrline ''''"
proof -
  have "bytes_of (appendCommonHeaders md host u k) = concat (map hdrline (commonLines md host u k))" "bytes_of [] = []" for k
    using appendCommonHeaders_lines [of md host u k "[]"] by (simp_all add: bytes_of_def)
  then show ?thesis
    by (simp add: maskHeader_def requestLine_def otherLines_def hdrline_def bytes_of_append Let_def del: append_Cons)
qed

text \<open>What the random numbers and the word lists promise.\<close>

definition draws :: "(nat \<Rightarrow> nat \<Rightarrow> nat) \<Rightarrow> bool" where
  "draws u \<longleftrightarrow> (\<forall>k n. 0 < n \<longrightarrow> u k n < n)"

lemma pick_line: "draws u \<Longrightarrow> splitLines a \<noteq> [] \<Longrightarrow> no_nl (pickOf u k (splitLines a))"
  using splitLines_lines [of "pickOf u k (splitLines a)" a] by (simp add: pickOf_def draws_def)

lemma joinPathRoot_no_nl: "no_nl path \<Longrightarrow> no_nl (joinPathRoot root path)"
proof -
  have "\<not> rootChar (CHR 0x0A)" by code_simp
  then have "no_nl (normalizePathRoot root)"
    by (auto simp: normalizePathRoot_def no_nl_def list_all_iff Let_def)
  then show "no_nl path \<Longrightarrow> no_nl (joinPathRoot root path)" by (auto simp: joinPathRoot_def Let_def)
qed

lemma Itoa_no_nl: "no_nl (Itoa n)"
  using Itoa_digits(1) [of n] by (auto simp: no_nl_def list_all_iff is_digit_def)

lemma SplitHostPort_host: "SplitHostPort s = Inr (h, p) \<Longrightarrow> set h \<subseteq> set s"
  by (auto simp: SplitHostPort_def Let_def dest: in_set_takeD in_set_dropD split: option.splits if_splits)

lemma trimPort_no_nl: "no_nl host \<Longrightarrow> no_nl (trimPortForHost host)"
  using SplitHostPort_host by (fastforce simp: trimPortForHost_def no_nl_def split: sum.splits prod.splits if_splits)

lemma b64Std_no_nl: "no_nl (b64StdEncode b)"
proof -
  have a: "list_all (\<lambda>c. c \<noteq> CHR 0x0A) ''ABCDEFGHIJKLMNOPQRSTUVWXYZabcdefghijklmnopqrstuvwxyz0123456789+/''" by code_simp
  have "''ABCDEFGHIJKLMNOPQRSTUVWXYZabcdefghijklmnopqrstuvwxyz0123456789+/'' ! i \<noteq> CHR 0x0A" if "i < 64" for i
    using a that unfolding list_all_length by simp
  then show ?thesis using sextets_range [of _ b] unfolding b64StdEncode_def no_nl_def by fastforce
qed

lemma header_lines_ok:
  assumes "draws u" "no_nl host" "md = maskDataOf a b c d e f"
    and "[] \<notin> {paths md, contentTypes md, userAgents md, accepts md, acceptLanguages md, acceptEncodings md}"
  shows "list_all (\<lambda>s. no_nl s \<and> s \<noteq> '''') (requestLine md u pathRoot # otherLines md u keyBytes host)"
proof -
  have p: "no_nl (pickOf u k x)" if "x \<in> {paths md, contentTypes md, userAgents md, accepts md, acceptLanguages md, acceptEncodings md}" for k x
    using that assms(3,4) pick_line [OF assms(1)] by (auto simp: maskDataOf_def)
  have com: "list_all (\<lambda>s. no_nl s \<and> s \<noteq> '''') (commonLines md host u k)" for k
    using p assms(2) by (simp add: commonLines_def)
  show ?thesis
    using com p assms(2) joinPathRoot_no_nl [of "pickOf u 0 (paths md)"] trimPort_no_nl [OF assms(2)]
    by (simp add: requestLine_def otherLines_def b64Std_no_nl Itoa_no_nl)
qed

lemma requestLine_method: "validMethod (hdrline (requestLine md u pathRoot))"
  by (auto simp: validMethod_def hdrline_def requestLine_def HasPrefix_def)

lemma concat_length_le: "x \<in> set xs \<Longrightarrow> length x \<le> length (concat xs)"
  by (induction xs) auto

text \<open>
  When the header cannot be completed, \<open>ConsumeHeader\<close> reports the lines before the unfinished one as consumed, while the reader
  has already dropped the rest.
\<close>

lemma ConsumeHeader_drops_line:
  assumes "no_nl reqline" "validMethod (hdrline reqline)" "newline \<notin> set part"
  shows "ConsumeHeader \<lparr>buffered = hdrline reqline @ part, berr = Some e, bsize = n, feed = []\<rparr>
    = (hdrline reqline, Some e, \<lparr>buffered = [], berr = None, bsize = n, feed = []\<rparr>)"
proof -
  let ?b1 = "\<lparr>buffered = hdrline reqline @ part, berr = Some e, bsize = n, feed = []\<rparr>"
  have nl: "newline \<in> set (hdrline reqline)" "newline \<notin> set (bytes_of reqline)" by (simp add: hdrline_eq, use assms(1) newline_bytes in blast)
  have t: "takeWhile (\<lambda>x. x \<noteq> newline) (hdrline reqline @ part) @ [newline] = hdrline reqline"
    using nl(2) by (simp add: hdrline_eq takeWhile_append newline_def)
  have s2: "ReadSlice newline ?b1 = (hdrline reqline, None, ?b1\<lparr>buffered := part\<rparr>)"
    using nl(1) t by (simp add: ReadSlice.simps [of newline ?b1] Let_def)
  have s3: "ReadSlice newline (?b1\<lparr>buffered := part\<rparr>) = (part, Some e, ?b1\<lparr>buffered := [], berr := None\<rparr>)"
    using assms(3) by (simp add: ReadSlice.simps)
  show ?thesis using s2 s3 assms(2) by (simp add: ConsumeHeader_def consumeLines.simps [of "hdrline reqline"])
qed

section \<open>Properties\<close>

text \<open>
  Property C23: the mask is transparent. Whatever random choices the client makes, the server recognises the request by its first
  four bytes, consumes exactly the header the client wrote, and leaves the stream behind it untouched, for every chunking
  of the network, as long as the header fits the server's read buffer.
\<close>

theorem mask_header_transparent:
  assumes "draws u" "no_nl host" "md = maskDataOf a b c d e f"
    and "WriteRandomRequestHeaderWithPathRoot md u keyBytes \<lparr>sent = [], script = []\<rparr> host pathRoot = (None, w)"
    and "wire r = sent w @ rest" "clean_feed r" "length (sent w) \<le> bsize r"
  shows "LooksLikeHTTPRequestStart (take 4 (sent w)) \<and> (\<exists>r'. ConsumeHeader r = (sent w, None, r') \<and> wire r' = rest)"
proof -
  let ?ls = "requestLine md u pathRoot # otherLines md u keyBytes host"
  have ne: "[] \<notin> {paths md, contentTypes md, userAgents md, accepts md, acceptLanguages md, acceptEncodings md}"
    and w: "sent w = bytes_of (maskHeader md u keyBytes host pathRoot)"
    using assms(4) by (auto simp: WriteRandomRequestHeaderWithPathRoot_def conn_write_def split: if_splits)
  have h: "sent w = concat (map hdrline ?ls) @ hdrline ''''" unfolding w by (rule maskHeader_lines)
  have ok: "list_all (\<lambda>s. no_nl s \<and> s \<noteq> '''') ?ls" by (rule header_lines_ok [OF assms(1-3) ne])
  have "length s + 2 \<le> bsize r" if "s \<in> set ?ls" for s
  proof -
    have "length (hdrline s) \<le> length (concat (map hdrline ?ls))" by (rule concat_length_le) (use that in auto)
    then show ?thesis using assms(7) h by (simp add: hdrline_eq [of s])
  qed
  then have "list_all (\<lambda>s. no_nl s \<and> s \<noteq> '''' \<and> length s + 2 \<le> bsize r) ?ls" using ok by (auto simp: list_all_iff)
  moreover have "2 \<le> bsize r" using assms(7) h by (simp add: hdrline_eq)
  ultimately have "\<exists>r'. ConsumeHeader r = (sent w, None, r') \<and> wire r' = rest"
    using ConsumeHeader_lines [OF _ _ requestLine_method [of md u pathRoot], of r "otherLines md u keyBytes host" rest] assms(5,6) h by auto
  moreover have "string_of (take 4 (sent w)) = take 4 (maskHeader md u keyBytes host pathRoot)"
    unfolding w by (metis string_of_bytes_of string_of_def take_map)
  then have "LooksLikeHTTPRequestStart (take 4 (sent w))"
    by (auto simp: LooksLikeHTTPRequestStart_def maskHeader_def w Let_def)
  ultimately show ?thesis by blast
qed

theorem mask_header_transparent_witness:
  "\<exists>w r'. WriteRandomRequestHeaderWithPathRoot (maskDataOf ''ua'' ''*/*'' ''en'' ''gzip'' ''/ws'' ''text'') (\<lambda>k n. 0) (replicate 16 1)
      \<lparr>sent = [], script = []\<rparr> ''a.io:80'' ''ab'' = (None, w)
    \<and> ConsumeHeader (NewReaderSize (length (sent w)) [(sent w @ [7, 8], None)]) = (sent w, None, r') \<and> wire r' = [7, 8]"
proof -
  let ?md = "maskDataOf ''ua'' ''*/*'' ''en'' ''gzip'' ''/ws'' ''text''"
  have "[] \<notin> {paths ?md, contentTypes ?md, userAgents ?md, accepts ?md, acceptLanguages ?md, acceptEncodings ?md}"
    by (simp add: maskDataOf_def splitLines_def TrimSpace_def is_space_def)
  then obtain w where w: "WriteRandomRequestHeaderWithPathRoot ?md (\<lambda>k n. 0) (replicate 16 1) \<lparr>sent = [], script = []\<rparr> ''a.io:80'' ''ab'' = (None, w)"
    by (simp add: WriteRandomRequestHeaderWithPathRoot_def conn_write_def)
  have "\<exists>r'. ConsumeHeader (NewReaderSize (length (sent w)) [(sent w @ [7, 8], None)]) = (sent w, None, r') \<and> wire r' = [7, 8]"
    using mask_header_transparent [OF _ _ refl w, of "NewReaderSize (length (sent w)) [(sent w @ [7, 8], None)]" "[7, 8]"]
    by (simp add: draws_def NewReaderSize_def wire_def clean_feed_def)
  then show ?thesis using w by blast
qed

end
