(* ===== verification/ServerConn.thy ===== *)
theory ServerConn
  imports HttpMasker
begin

text \<open>
  The connection wrappers of \<open>internal/tunnel/server.go\<close>: \<open>PreBufferedConn\<close> replays bytes that were read ahead, \<open>BufferedConn\<close>
  records what is read through it, and the removal of the legacy HTTP mask hands the connection over in one of them.
\<close>

record PreBufferedConn =
  preBuf :: bytes
  preConn :: "feed option"

definition NewPreBufferedConn :: "feed option \<Rightarrow> bytes \<Rightarrow> PreBufferedConn" where
  "NewPreBufferedConn c preRead = \<lparr>preBuf = preRead, preConn = c\<rparr>"

definition PreBuffered_Read :: "nat \<Rightarrow> PreBufferedConn \<Rightarrow> bytes \<times> go_error option \<times> PreBufferedConn" where
  "PreBuffered_Read n p =
    (if 0 < length (preBuf p) then (take n (preBuf p), None, p\<lparr>preBuf := drop n (preBuf p)\<rparr>)
     else case preConn p of
       None \<Rightarrow> ([], Some EOF, p)
     | Some c \<Rightarrow> (case conn_read n c of (bs, e, c') \<Rightarrow> (bs, e, p\<lparr>preConn := Some c'\<rparr>)))"

record BufferedConn =
  brd :: bufio
  brecorder :: "bytes option"

definition Buffered_Read :: "nat \<Rightarrow> BufferedConn \<Rightarrow> bytes \<times> go_error option \<times> BufferedConn" where
  "Buffered_Read n bc =
    (case bufio_Read n (brd bc) of (bs, e, b) \<Rightarrow>
       (bs, e, \<lparr>brd = b, brecorder = (if bs \<noteq> [] then map_option (\<lambda>r. r @ bs) (brecorder bc) else brecorder bc)\<rparr>))"

definition Buffered_GetBufferedAndRecorded :: "BufferedConn option \<Rightarrow> bytes" where
  "Buffered_GetBufferedAndRecorded bc =
    (case bc of
       None \<Rightarrow> []
     | Some c \<Rightarrow>
       let recorded = (case brecorder c of None \<Rightarrow> [] | Some r \<Rightarrow> r)
       in if 0 < length (buffered (brd c)) then recorded @ buffered (brd c) else recorded)"

text \<open>\<open>recordedConn\<close> and \<open>prefixedRecorderConn\<close>: the bytes a fallback sends on before the rest of the connection.\<close>

definition prefixed_GetBufferedAndRecorded :: "bytes \<Rightarrow> bytes option \<Rightarrow> bytes" where
  "prefixed_GetBufferedAndRecorded prefix inner = prefix @ (case inner of None \<Rightarrow> [] | Some rest \<Rightarrow> rest)"

text \<open>
  The result: the header bytes, the suspicious connection if the header is bad, and the reader afterwards. \<open>disabled\<close> is
  \<open>cfg.HTTPMask.Disable\<close>.
\<close>

definition maybeConsumeLegacyHTTPMask :: "bool \<Rightarrow> bufio \<Rightarrow> bytes \<times> (go_error \<times> BufferedConn) option \<times> bufio" where
  "maybeConsumeLegacyHTTPMask disabled r =
    (if disabled then ([], None, r)
     else case Peek 4 r of (peekBytes, e, r1) \<Rightarrow>
       if \<not> LooksLikeHTTPRequestStart peekBytes then ([], None, r1)
       else case ConsumeHeader r1 of
         (consumed, None, r2) \<Rightarrow> (consumed, None, r2)
       | (consumed, Some err, r2) \<Rightarrow>
           (consumed, Some (ErrMsg ''invalid http header'', \<lparr>brd = r2, brecorder = Some consumed\<rparr>), r2))"

section \<open>The wrappers lose nothing\<close>

text \<open>A pre-buffered connection behaves as the connection that delivers the replayed bytes first.\<close>

definition preFeed :: "PreBufferedConn \<Rightarrow> feed" where
  "preFeed p = (if preBuf p = [] then [] else [(preBuf p, None)]) @ (case preConn p of None \<Rightarrow> [] | Some fd \<Rightarrow> fd)"

lemma PreBuffered_Read_refines:
  "PreBuffered_Read n p = (bs, e, p') \<Longrightarrow> conn_read n (preFeed p) = (bs, e, preFeed p')"
  by (cases p; cases "preBuf p"; cases "preConn p")
    (auto simp: PreBuffered_Read_def preFeed_def conn_read_def split: if_splits prod.splits list.splits)

lemma Peek_wire: "Peek n b = (bs, e, b') \<Longrightarrow> wire b' = wire b \<and> (e = None \<longrightarrow> bs = take n (wire b))"
proof (induction n b rule: Peek.induct)
  case (1 n b)
  have w: "wire (bufio_fill b) = wire b" by (auto simp: bufio_fill_def wire_def split: prod.splits dest: conn_read_wire)
  show ?case
  proof (cases "length (buffered b) < n \<and> length (buffered b) < bsize b \<and> berr b = None")
    case True
    then have "Peek n (bufio_fill b) = (bs, e, b')" using 1(2) by (simp add: Peek.simps [of n b])
    from 1(1) [OF True this] show ?thesis using w by simp
  next
    case False
    then show ?thesis using 1(2) by (subst (asm) Peek.simps) (auto simp: wire_def split: if_splits)
  qed
qed

lemma ReadSlice_wire: "ReadSlice d b = (line, None, b') \<Longrightarrow> wire b = line @ wire b'"
proof (induction d b rule: ReadSlice.induct)
  case (1 d b)
  show ?case
  proof (cases "d \<in> set (buffered b)")
    case True
    obtain p q where pq: "buffered b = p @ d # q" "d \<notin> set p" using split_list_first [OF True] by blast
    then have "takeWhile (\<lambda>x. x \<noteq> d) (buffered b) = p" by (auto simp: takeWhile_append)
    then show ?thesis using 1(2) True pq by (auto simp: ReadSlice.simps [of d b] wire_def Let_def)
  next
    case False
    then have s: "berr b = None" "\<not> bsize b \<le> length (buffered b)" "ReadSlice d (bufio_fill b) = (line, None, b')"
      using 1(2) by (auto simp: ReadSlice.simps [of d b] split: option.splits if_splits)
    have "wire (bufio_fill b) = wire b" by (auto simp: bufio_fill_def wire_def split: prod.splits dest: conn_read_wire)
    then show ?thesis using 1(1) [OF False s(1,2,3)] by simp
  qed
qed

lemma consumeLines_wire: "consumeLines c b = (c', None, b') \<Longrightarrow> \<exists>l. c' = c @ l \<and> wire b = l @ wire b'"
proof (induction c b rule: consumeLines.induct)
  case (1 c b)
  obtain line b1 where r: "ReadSlice newline b = (line, None, b1)"
    using 1(2) by (cases "ReadSlice newline b") (auto simp: consumeLines.simps [of c b] split: option.splits)
  note w = ReadSlice_wire [OF r]
  show ?case
  proof (cases "blankLine line")
    case True
    then show ?thesis using 1(2) r w by (auto simp: consumeLines.simps [of c b])
  next
    case False
    then have "consumeLines (c @ line) b1 = (c', None, b')" using 1(2) r by (simp add: consumeLines.simps [of c b])
    from 1(1) [OF r [symmetric] refl refl False this] show ?thesis using w by auto
  qed
qed

lemma ConsumeHeader_wire: "ConsumeHeader b = (c, None, b') \<Longrightarrow> wire b = c @ wire b'"
  by (auto simp: ConsumeHeader_def dest!: ReadSlice_wire consumeLines_wire split: prod.splits option.splits if_splits)

section \<open>Properties\<close>

text \<open>
  Removing the mask loses nothing when it succeeds: the header and what is left to read make up the stream, and without a
  mask nothing is consumed. A pre-buffered connection is the connection that delivers the replayed bytes first.
\<close>

theorem legacy_mask_lossless:
  assumes "maybeConsumeLegacyHTTPMask disabled r = (hdr, None, r')"
  shows "wire r = hdr @ wire r'
    \<and> (PreBuffered_Read n p = (bs, e, p') \<longrightarrow> conn_read n (preFeed p) = (bs, e, preFeed p'))"
  using assms PreBuffered_Read_refines [of n p bs e p']
  by (auto simp: maybeConsumeLegacyHTTPMask_def dest!: Peek_wire ConsumeHeader_wire split: if_splits prod.splits option.splits)

theorem legacy_mask_lossless_witness:
  "wire (NewReaderSize 16 [([1, 2, 3, 4, 5], None)])
    = fst (maybeConsumeLegacyHTTPMask True (NewReaderSize 16 [([1, 2, 3, 4, 5], None)])) @ [1, 2, 3, 4, 5]"
  using legacy_mask_lossless [of True "NewReaderSize 16 [([1, 2, 3, 4, 5], None)]" "[]" "NewReaderSize 16 [([1, 2, 3, 4, 5], None)]"]
  by (simp add: maybeConsumeLegacyHTTPMask_def NewReaderSize_def wire_def)

text \<open>
  A request whose header breaks off loses bytes on the way to the fallback. The connection handed over as suspicious
  replays the complete lines only; the unfinished line was read from the network and is nowhere left.
\<close>

theorem legacy_mask_fallback_loses:
  assumes "no_nl reqline" "validMethod (hdrline reqline)" "newline \<notin> set part" "part \<noteq> []"
    and "LooksLikeHTTPRequestStart (take 4 (hdrline reqline))" "length (hdrline reqline @ part) \<le> n"
  shows "\<exists>bc r'. maybeConsumeLegacyHTTPMask False (NewReaderSize n [(hdrline reqline @ part, Some e)])
      = (hdrline reqline, Some (ErrMsg ''invalid http header'', bc), r')
    \<and> Buffered_GetBufferedAndRecorded (Some bc) @ concat (map fst (feed (brd bc))) = hdrline reqline
    \<and> hdrline reqline \<noteq> hdrline reqline @ part"
proof -
  let ?b = "NewReaderSize n [(hdrline reqline @ part, Some e)]"
  let ?b1 = "\<lparr>buffered = hdrline reqline @ part, berr = Some e, bsize = n, feed = []\<rparr>"
  have l: "4 \<le> length (hdrline reqline)" using assms(5) by (auto simp: LooksLikeHTTPRequestStart_def)
  have "Peek 4 ?b = Peek 4 ?b1"
    using assms(6) l by (subst Peek.simps) (simp add: NewReaderSize_def bufio_fill_def conn_read_def)
  also have "\<dots> = (take 4 (hdrline reqline), None, ?b1)" using l assms(6) by (subst Peek.simps) simp
  finally show ?thesis
    using assms(4,5) ConsumeHeader_drops_line [OF assms(1-3), of e n]
    by (simp add: maybeConsumeLegacyHTTPMask_def Buffered_GetBufferedAndRecorded_def)
qed

theorem legacy_mask_fallback_loses_witness:
  "\<exists>bc r'. maybeConsumeLegacyHTTPMask False (NewReaderSize 4096 [(hdrline ''GET / HTTP/1.1'' @ bytes_of ''Host: a'', Some (ErrMsg ''i/o timeout''))])
      = (hdrline ''GET / HTTP/1.1'', Some (ErrMsg ''invalid http header'', bc), r')
    \<and> Buffered_GetBufferedAndRecorded (Some bc) @ concat (map fst (feed (brd bc))) = hdrline ''GET / HTTP/1.1''"
proof -
  have "LooksLikeHTTPRequestStart (take 4 (hdrline ''GET / HTTP/1.1''))" by code_simp
  moreover have "length (hdrline ''GET / HTTP/1.1'' @ bytes_of ''Host: a'') \<le> 4096" by (simp add: hdrline_def crlf_def)
  moreover have "bytes_of ''Host: a'' \<noteq> []" by (simp add: bytes_of_def)
  ultimately show ?thesis
    using legacy_mask_fallback_loses [of "''GET / HTTP/1.1''" "bytes_of ''Host: a''" 4096 "ErrMsg ''i/o timeout''"]
    by (auto simp: validMethod_def hdrline_def HasPrefix_def newline_bytes)
qed

end
