(* ===== verification/QueuedConn.thy ===== *)
theory QueuedConn
  imports ConnUtil
begin

text \<open>
  The queued connection of the HTTP tunnel modes (\<open>pkg/obfs/httpmask/tunnel_conn_queue.go\<close>). A channel of depth 64 is a list, a
  channel that is only closed is a flag. An operation that can block is split at its \<open>select\<close>: \<open>reading\<close> is the reader waiting with
  its buffer size, \<open>writers\<close> are the payloads of the writers that hold the read lock of \<open>writeGate\<close> and wait for room. The step
  relation \<open>qstep\<close> runs the operations, the transport that delivers and takes payloads, and the choices of \<open>select\<close> in any order; its
  label says what was observed. As in the pull loops of both modes, the transport delivers nothing after it marked the end
  of the input.
\<close>

definition queuedConnPayloadQueueDepth :: nat where
  "queuedConnPayloadQueueDepth = 64"

record queuedConn =
  rxc :: "bytes list"
  qclosed :: bool
  writeCh :: "bytes list"
  writeClosed :: bool
  writeDone :: bool
  writeErr :: "go_error option"
  readEOF :: bool
  qreadBuf :: bytes
  closeErr :: "go_error option"
  reading :: "nat option"
  writers :: "bytes list"

definition newQueuedConn :: queuedConn where
  "newQueuedConn = \<lparr>rxc = [], qclosed = False, writeCh = [], writeClosed = False, writeDone = False, writeErr = None, readEOF = False,
    qreadBuf = [], closeErr = None, reading = None, writers = []\<rparr>"

definition completedWriteErr :: "queuedConn \<Rightarrow> go_error option" where
  "completedWriteErr c = writeErr c"

definition completeWrite :: "go_error option \<Rightarrow> queuedConn \<Rightarrow> queuedConn" where
  "completeWrite err c = c\<lparr>writeErr := (if writeErr c = None then err else writeErr c), writeDone := True\<rparr>"

definition markReadEOF :: "queuedConn \<Rightarrow> queuedConn" where
  "markReadEOF c = c\<lparr>readEOF := True\<rparr>"

definition queued_closeWithError :: "go_error option \<Rightarrow> queuedConn \<Rightarrow> queuedConn" where
  "queued_closeWithError err0 c =
    (if qclosed c then c
     else let err = (case err0 of None \<Rightarrow> ErrClosedPipe | Some e \<Rightarrow> e)
          in c\<lparr>closeErr := (if closeErr c = None then Some err else closeErr c), qclosed := True\<rparr>)"

definition queued_closedErr :: "queuedConn \<Rightarrow> go_error" where
  "queued_closedErr c = (case closeErr c of None \<Rightarrow> ErrClosedPipe | Some e \<Rightarrow> e)"

text \<open>The end of \<open>Read\<close>: what is copied out, and the connection with the rest.\<close>

definition copyOut :: "nat \<Rightarrow> queuedConn \<Rightarrow> bytes \<times> queuedConn" where
  "copyOut n c = (take n (qreadBuf c), c\<lparr>qreadBuf := drop n (qreadBuf c), reading := None\<rparr>)"

text \<open>The first, non-blocking part of \<open>Read\<close>.\<close>

definition readPoll :: "queuedConn \<Rightarrow> queuedConn" where
  "readPoll c = (if qreadBuf c = [] \<and> rxc c \<noteq> [] then c\<lparr>qreadBuf := hd (rxc c), rxc := tl (rxc c)\<rparr> else c)"

datatype qevent = Deliver bytes | EndOfInput | CloseErr "go_error option" | ReadCall nat | ReadOut bytes | ReadFail go_error
  | WriteCall bytes | WriteOk bytes | WriteFail go_error | CloseWriteCall | CloseWriteRet "go_error option"
  | Take bytes | Finish "go_error option"

inductive qstep :: "queuedConn \<Rightarrow> qevent \<Rightarrow> queuedConn \<Rightarrow> bool" where
  deliver: "length (rxc c) < queuedConnPayloadQueueDepth \<Longrightarrow> \<not> readEOF c \<Longrightarrow> qstep c (Deliver x) (c\<lparr>rxc := rxc c @ [x]\<rparr>)"
| input_end: "qstep c EndOfInput (markReadEOF c)"
| close: "qstep c (CloseErr err) (queued_closeWithError err c)"
| take_payload: "writeCh c = x # xs \<Longrightarrow> qstep c (Take x) (c\<lparr>writeCh := xs\<rparr>)"
| finish: "qstep c (Finish err) (completeWrite err c)"
| read_call: "reading c = None \<Longrightarrow> qstep c (ReadCall n) ((readPoll c)\<lparr>reading := Some n\<rparr>)"
| read_out: "reading c = Some n \<Longrightarrow> qreadBuf c \<noteq> [] \<Longrightarrow> copyOut n c = (out, c') \<Longrightarrow> qstep c (ReadOut out) c'"
| read_recv: "reading c = Some n \<Longrightarrow> qreadBuf c = [] \<Longrightarrow> rxc c = x # xs \<Longrightarrow> copyOut n (c\<lparr>qreadBuf := x, rxc := xs\<rparr>) = (out, c')
    \<Longrightarrow> qstep c (ReadOut out) c'"
| read_eof: "reading c = Some n \<Longrightarrow> qreadBuf c = [] \<Longrightarrow> readEOF c \<Longrightarrow> rxc c = [] \<Longrightarrow> qstep c (ReadFail EOF) (c\<lparr>reading := None\<rparr>)"
| read_closed: "reading c = Some n \<Longrightarrow> qreadBuf c = [] \<Longrightarrow> qclosed c \<Longrightarrow> qstep c (ReadFail (queued_closedErr c)) (c\<lparr>reading := None\<rparr>)"
| write_empty: "qstep c (WriteOk []) c"
| write_closed: "qclosed c \<Longrightarrow> qstep c (WriteFail (queued_closedErr c)) c"
| write_refused: "\<not> qclosed c \<Longrightarrow> writeClosed c \<Longrightarrow> qstep c (WriteFail ErrClosedPipe) c"
| write_call: "b \<noteq> [] \<Longrightarrow> \<not> qclosed c \<Longrightarrow> \<not> writeClosed c \<Longrightarrow> qstep c (WriteCall b) (c\<lparr>writers := b # writers c\<rparr>)"
| write_send: "b \<in> set (writers c) \<Longrightarrow> length (writeCh c) < queuedConnPayloadQueueDepth
    \<Longrightarrow> qstep c (WriteOk b) (c\<lparr>writers := remove1 b (writers c), writeCh := writeCh c @ [b]\<rparr>)"
| write_abort: "b \<in> set (writers c) \<Longrightarrow> qclosed c \<Longrightarrow> qstep c (WriteFail (queued_closedErr c)) (c\<lparr>writers := remove1 b (writers c)\<rparr>)"
| close_write: "writers c = [] \<Longrightarrow> qstep c CloseWriteCall (c\<lparr>writeClosed := True\<rparr>)"
| close_write_done: "writeClosed c \<Longrightarrow> writeDone c \<Longrightarrow> qstep c (CloseWriteRet (completedWriteErr c)) c"
| close_write_closed: "writeClosed c \<Longrightarrow> qclosed c \<Longrightarrow> qstep c (CloseWriteRet (Some (queued_closedErr c))) c"

text \<open>Runs, and what a run delivered, read, accepted and took.\<close>

inductive qrun :: "qevent list \<Rightarrow> queuedConn \<Rightarrow> bool" where
  Start: "qrun [] newQueuedConn"
| Step: "qrun evs c \<Longrightarrow> qstep c ev c' \<Longrightarrow> qrun (evs @ [ev]) c'"

fun delivered :: "qevent list \<Rightarrow> bytes" where
  "delivered [] = []"
| "delivered (Deliver x # evs) = x @ delivered evs"
| "delivered (ev # evs) = delivered evs"

fun readOut :: "qevent list \<Rightarrow> bytes" where
  "readOut [] = []"
| "readOut (ReadOut x # evs) = x @ readOut evs"
| "readOut (ev # evs) = readOut evs"

fun writtenOk :: "qevent list \<Rightarrow> bytes" where
  "writtenOk [] = []"
| "writtenOk (WriteOk x # evs) = x @ writtenOk evs"
| "writtenOk (ev # evs) = writtenOk evs"

fun taken :: "qevent list \<Rightarrow> bytes" where
  "taken [] = []"
| "taken (Take x # evs) = x @ taken evs"
| "taken (ev # evs) = taken evs"

lemma trace_append:
  "delivered (xs @ ys) = delivered xs @ delivered ys" "readOut (xs @ ys) = readOut xs @ readOut ys"
  "writtenOk (xs @ ys) = writtenOk xs @ writtenOk ys" "taken (xs @ ys) = taken xs @ taken ys"
  by (induction xs rule: delivered.induct) simp_all

text \<open>The invariant: the bytes of each direction are accounted for, the queues are bounded, a closed connection has its error, and
  the write side is closed only when no writer is inside.\<close>

definition queued_inv :: "qevent list \<Rightarrow> queuedConn \<Rightarrow> bool" where
  "queued_inv evs c \<longleftrightarrow> delivered evs = readOut evs @ qreadBuf c @ concat (rxc c)
    \<and> writtenOk evs = taken evs @ concat (writeCh c)
    \<and> length (rxc c) \<le> queuedConnPayloadQueueDepth \<and> length (writeCh c) \<le> queuedConnPayloadQueueDepth
    \<and> (qclosed c \<longrightarrow> closeErr c \<noteq> None) \<and> (writeClosed c \<longrightarrow> writers c = [])"

lemmas queued_defs = queued_inv_def readPoll_def copyOut_def markReadEOF_def completeWrite_def queued_closeWithError_def trace_append

lemma qstep_inv: "qstep c ev c' \<Longrightarrow> queued_inv evs c \<Longrightarrow> queued_inv (evs @ [ev]) c'"
  by (induction rule: qstep.induct) (auto simp: queued_defs Let_def neq_Nil_conv)

lemma qrun_inv: "qrun evs c \<Longrightarrow> queued_inv evs c"
proof (induction rule: qrun.induct)
  case Start
  then show ?case by (simp add: queued_inv_def newQueuedConn_def)
next
  case (Step evs c ev c')
  then show ?case by (blast intro: qstep_inv)
qed

lemma qstep_mono:
  "qstep c ev c' \<Longrightarrow> (readEOF c \<longrightarrow> readEOF c') \<and> (writeClosed c \<longrightarrow> writeClosed c') \<and> (qclosed c \<longrightarrow> qclosed c')"
  by (induction rule: qstep.induct) (auto simp: queued_defs Let_def)

section \<open>Properties\<close>

text \<open>
  Property C24: the queued connection is reliable under every interleaving. At every moment the bytes delivered by the transport are the
  bytes read so far followed by what is buffered, the accepted writes are what the transport took followed by what is queued, no
  queue exceeds its depth, and no writer is inside once the write side is closed.
\<close>

theorem queued_conn_invariant:
  assumes "qrun evs c"
  shows "delivered evs = readOut evs @ qreadBuf c @ concat (rxc c) \<and> writtenOk evs = taken evs @ concat (writeCh c)
    \<and> length (rxc c) \<le> 64 \<and> length (writeCh c) \<le> 64 \<and> (writeClosed c \<longrightarrow> writers c = [])"
  using qrun_inv [OF assms] by (simp add: queued_inv_def queuedConnPayloadQueueDepth_def)

theorem queued_conn_invariant_witness:
  "delivered [Deliver [1, 2], ReadCall 1, ReadOut [1]] = readOut [Deliver [1, 2], ReadCall 1, ReadOut [1]] @ [2]"
proof -
  let ?c1 = "newQueuedConn\<lparr>rxc := [[1, 2]]\<rparr>"
  let ?c3 = "newQueuedConn\<lparr>qreadBuf := [2]\<rparr>"
  have 1: "qstep newQueuedConn (Deliver [1, 2]) ?c1"
    using qstep.deliver [of newQueuedConn "[1, 2]"] by (simp add: newQueuedConn_def queuedConnPayloadQueueDepth_def)
  have 2: "qstep ?c1 (ReadCall 1) (newQueuedConn\<lparr>qreadBuf := [1, 2], reading := Some 1\<rparr>)"
    using qstep.read_call [of ?c1 1] by (simp add: newQueuedConn_def readPoll_def)
  have 3: "qstep (newQueuedConn\<lparr>qreadBuf := [1, 2], reading := Some 1\<rparr>) (ReadOut [1]) ?c3"
    by (rule qstep.read_out [of _ 1]) (simp_all add: newQueuedConn_def copyOut_def)
  have "qrun ([] @ [Deliver [1, 2]] @ [ReadCall 1] @ [ReadOut [1]]) ?c3"
    using qrun.Step [OF qrun.Step [OF qrun.Step [OF qrun.Start 1] 2] 3] by simp
  from queued_conn_invariant [OF this] show ?thesis by (simp add: newQueuedConn_def)
qed

text \<open>
  An end of file is never premature: when a read reports \<open>io.EOF\<close> on a connection that was not closed with that error,
  every byte delivered before has been read, and nothing can be delivered any more.
\<close>

theorem queued_eof_complete:
  assumes "qrun evs c" "qstep c (ReadFail EOF) c'" "closeErr c \<noteq> Some EOF"
  shows "readOut evs = delivered evs \<and> readEOF c' \<and> \<not> qstep c' (Deliver x) c2"
proof -
  have i: "queued_inv evs c" by (rule qrun_inv [OF assms(1)])
  from assms(2) have "qreadBuf c = [] \<and> rxc c = [] \<and> readEOF c"
  proof (cases rule: qstep.cases)
    case (read_closed n)
    then show ?thesis using i assms(3) by (auto simp: queued_inv_def queued_closedErr_def split: option.splits)
  qed auto
  moreover from this have "readEOF c'" using qstep_mono [OF assms(2)] by blast
  moreover from this have "\<not> qstep c' (Deliver x) c2" by (auto elim: qstep.cases)
  ultimately show ?thesis using i by (simp add: queued_inv_def)
qed

theorem queued_eof_complete_witness:
  "readOut [EndOfInput, ReadCall 4] = delivered [EndOfInput, ReadCall 4]"
proof -
  let ?c2 = "newQueuedConn\<lparr>readEOF := True, reading := Some 4\<rparr>"
  have 1: "qstep newQueuedConn EndOfInput (newQueuedConn\<lparr>readEOF := True\<rparr>)"
    using qstep.input_end [of newQueuedConn] by (simp add: markReadEOF_def)
  have 2: "qstep (newQueuedConn\<lparr>readEOF := True\<rparr>) (ReadCall 4) ?c2"
    using qstep.read_call [of "newQueuedConn\<lparr>readEOF := True\<rparr>" 4] by (simp add: newQueuedConn_def readPoll_def)
  have 3: "qstep ?c2 (ReadFail EOF) (?c2\<lparr>reading := None\<rparr>)"
    by (rule qstep.read_eof [of _ 4]) (simp_all add: newQueuedConn_def)
  have "qrun ([] @ [EndOfInput] @ [ReadCall 4]) ?c2"
    using qrun.Step [OF qrun.Step [OF qrun.Start 1] 2] by simp
  from queued_eof_complete [OF this 3] show ?thesis by (simp add: newQueuedConn_def)
qed

end
