(* ===== verification/MuxStream.thy ===== *)
theory MuxStream
  imports ConnUtil
begin

text \<open>
  One logical stream of a mux session (\<open>internal/tunnel/mux_session.go\<close>): its state and the operations
  that touch nothing but it. The condition variable is not represented: a read that would wait is \<open>None\<close>.
  The operations that send frames or change the session's table are in \<open>MuxSession\<close>.
\<close>

definition muxMaxQueuedBytesPerStream :: int where
  "muxMaxQueuedBytesPerStream = 4 * 1024 * 1024"

definition errMuxReceiveQueueFull :: go_error where
  "errMuxReceiveQueueFull = ErrMsg ''mux receive queue full''"

record muxStream =
  sid :: u32
  sclosed :: bool
  localReadClosed :: bool
  localWriteClosed :: bool
  remoteWriteClosed :: bool
  closeErr :: "go_error option"
  readBuf :: bytes
  queue :: "bytes list"
  queuedBytes :: int

definition newMuxStream :: "u32 \<Rightarrow> muxStream" where
  "newMuxStream n = \<lparr>sid = n, sclosed = False, localReadClosed = False, localWriteClosed = False, remoteWriteClosed = False,
    closeErr = None, readBuf = [], queue = [], queuedBytes = 0\<rparr>"

definition closeNoSend :: "go_error option \<Rightarrow> muxStream \<Rightarrow> muxStream" where
  "closeNoSend err c =
    (let e = (case err of None \<Rightarrow> EOF | Some e \<Rightarrow> e) in
     if sclosed c then c
     else c\<lparr>sclosed := True, closeErr := (case closeErr c of None \<Rightarrow> Some e | Some e0 \<Rightarrow> Some e0)\<rparr>)"

definition closeRemoteWrite :: "muxStream \<Rightarrow> bool \<times> muxStream" where
  "closeRemoteWrite c =
    (if sclosed c then (False, c)
     else let c1 = c\<lparr>remoteWriteClosed := True\<rparr>
          in (localWriteClosed c1 \<and> (remoteWriteClosed c1 \<or> localReadClosed c1), c1))"

definition closedErrLocked :: "muxStream \<Rightarrow> go_error" where
  "closedErrLocked c = (case closeErr c of None \<Rightarrow> ErrClosedPipe | Some e \<Rightarrow> e)"

definition enqueue :: "bytes \<Rightarrow> muxStream \<Rightarrow> go_error option \<times> muxStream" where
  "enqueue payload c =
    (if sclosed c \<or> localReadClosed c \<or> remoteWriteClosed c then (None, c)
     else if muxMaxQueuedBytesPerStream < queuedBytes c + int (length payload) then (Some errMuxReceiveQueueFull, c)
     else
       let c1 = c\<lparr>queuedBytes := queuedBytes c + int (length payload)\<rparr>
       in (None, if readBuf c1 = [] \<and> queue c1 = [] then c1\<lparr>readBuf := payload\<rparr> else c1\<lparr>queue := queue c1 @ [payload]\<rparr>))"

text \<open>The first queued chunk moves to the read buffer when that is used up.\<close>

definition fillReadBuf :: "muxStream \<Rightarrow> muxStream" where
  "fillReadBuf c = (if readBuf c = [] \<and> queue c \<noteq> [] then c\<lparr>readBuf := hd (queue c), queue := tl (queue c)\<rparr> else c)"

definition Stream_Read :: "nat \<Rightarrow> muxStream \<Rightarrow> (bytes result \<times> muxStream) option" where
  "Stream_Read n c =
    (if n = 0 then Some (Inr [], c)
     else if readBuf c = [] \<and> queue c = [] \<and> \<not> sclosed c \<and> \<not> localReadClosed c \<and> \<not> remoteWriteClosed c then None
     else
       let c1 = fillReadBuf c in
       if readBuf c1 = [] \<and> sclosed c1 then Some (Inl (closedErrLocked c1), c1)
       else if readBuf c1 = [] \<and> localReadClosed c1 then Some (Inl ErrClosedPipe, c1)
       else if readBuf c1 = [] \<and> remoteWriteClosed c1 then Some (Inl EOF, c1)
       else
         let out = take n (readBuf c1);
             q = queuedBytes c1 - int (length out)
         in Some (Inr out, c1\<lparr>readBuf := drop n (readBuf c1), queuedBytes := (if q < 0 then 0 else q)\<rparr>))"

section \<open>The queue\<close>

text \<open>
  Any interleaving of puts (\<open>Inl\<close>) and gets (\<open>Inr\<close>): the bytes accepted, the bytes delivered and the queue
  at the end.
\<close>

fun queue_run :: "(bytes \<Rightarrow> 'q \<Rightarrow> go_error option \<times> 'q) \<Rightarrow> (nat \<Rightarrow> 'q \<Rightarrow> (bytes result \<times> 'q) option)
    \<Rightarrow> (bytes + nat) list \<Rightarrow> 'q \<Rightarrow> bytes \<times> bytes \<times> 'q" where
  "queue_run put get [] q = ([], [], q)"
| "queue_run put get (Inl p # ops) q =
    (case put p q of (e, q') \<Rightarrow> case queue_run put get ops q' of (acc, dlv, q'') \<Rightarrow> ((if e = None then p else []) @ acc, dlv, q''))"
| "queue_run put get (Inr n # ops) q =
    (case get n q of
       Some (Inr out, q') \<Rightarrow> (case queue_run put get ops q' of (acc, dlv, q'') \<Rightarrow> (acc, out @ dlv, q''))
     | _ \<Rightarrow> queue_run put get ops q)"

text \<open>
  The interface of a queue that takes chunks and gives bytes: a chunk is refused or appended, and a read
  gives a non-empty prefix of what is queued.
\<close>

locale chunk_queue =
  fixes ok :: "'q \<Rightarrow> bool" and contents :: "'q \<Rightarrow> bytes"
    and put :: "bytes \<Rightarrow> 'q \<Rightarrow> go_error option \<times> 'q" and get :: "nat \<Rightarrow> 'q \<Rightarrow> (bytes result \<times> 'q) option"
  assumes put_ok: "ok q \<Longrightarrow> put p q = (e, q') \<Longrightarrow> p \<noteq> [] \<Longrightarrow> ok q'"
    and put_contents: "ok q \<Longrightarrow> put p q = (e, q') \<Longrightarrow> p \<noteq> [] \<Longrightarrow> contents q' = (if e = None then contents q @ p else contents q)"
    and get_some: "ok q \<Longrightarrow> contents q \<noteq> [] \<Longrightarrow> 0 < n \<Longrightarrow>
        \<exists>out q'. get n q = Some (Inr out, q') \<and> out \<noteq> [] \<and> length out \<le> n \<and> contents q = out @ contents q' \<and> ok q'"
    and get_none: "ok q \<Longrightarrow> contents q = [] \<Longrightarrow> 0 < n \<Longrightarrow> get n q = None"
begin

lemma run_fifo:
  assumes "ok q" "\<forall>op \<in> set ops. case op of Inl p \<Rightarrow> p \<noteq> [] | Inr n \<Rightarrow> 0 < n" "queue_run put get ops q = (acc, dlv, q')"
  shows "ok q' \<and> contents q @ acc = dlv @ contents q'"
  using assms
proof (induction ops arbitrary: q acc dlv q')
  case (Cons op ops)
  show ?case
  proof (cases op)
    case (Inl p)
    obtain e q1 where p: "put p q = (e, q1)" by (metis surj_pair)
    obtain a d q2 where r: "queue_run put get ops q1 = (a, d, q2)" by (metis surj_pair)
    have "ok q1" "contents q1 = (if e = None then contents q @ p else contents q)"
      using put_ok [OF Cons.prems(1) p] put_contents [OF Cons.prems(1) p] Cons.prems(2) Inl by auto
    then show ?thesis using Cons.IH [OF _ _ r] Cons.prems p r Inl by (auto split: if_splits)
  next
    case (Inr n)
    have n: "0 < n" using Cons.prems(2) Inr by simp
    show ?thesis
    proof (cases "contents q = []")
      case True
      then show ?thesis using get_none [OF Cons.prems(1) True n] Cons.IH [OF Cons.prems(1)] Cons.prems Inr by simp
    next
      case False
      obtain out q1 where g: "get n q = Some (Inr out, q1)" "contents q = out @ contents q1" "ok q1"
        using get_some [OF Cons.prems(1) False n] by blast
      obtain a d q2 where r: "queue_run put get ops q1 = (a, d, q2)" by (metis surj_pair)
      show ?thesis using Cons.IH [OF g(3) _ r] Cons.prems g r Inr by auto
    qed
  qed
qed simp

end

text \<open>
  The invariant of a stream: the byte count is that of the read buffer and the queue and stays within the
  limit, and no queued chunk is empty.
\<close>

definition stream_contents :: "muxStream \<Rightarrow> bytes" where
  "stream_contents c = readBuf c @ concat (queue c)"

definition stream_ok :: "muxStream \<Rightarrow> bool" where
  "stream_ok c \<longleftrightarrow> queuedBytes c = int (length (stream_contents c)) \<and> queuedBytes c \<le> muxMaxQueuedBytesPerStream
    \<and> [] \<notin> set (queue c)"

definition stream_open :: "muxStream \<Rightarrow> bool" where
  "stream_open c \<longleftrightarrow> \<not> sclosed c \<and> \<not> localReadClosed c \<and> \<not> remoteWriteClosed c"

lemma enqueue_ok:
  assumes "stream_ok c" "p \<noteq> []" "enqueue p c = (e, c')"
  shows "stream_ok c' \<and> (stream_open c \<longrightarrow> stream_contents c' = (if e = None then stream_contents c @ p else stream_contents c))
    \<and> sid c' = sid c \<and> sclosed c' = sclosed c \<and> localReadClosed c' = localReadClosed c \<and> localWriteClosed c' = localWriteClosed c
    \<and> remoteWriteClosed c' = remoteWriteClosed c \<and> closeErr c' = closeErr c"
  using assms by (cases c) (auto simp: enqueue_def stream_ok_def stream_open_def stream_contents_def Let_def split: if_splits)

lemma fillReadBuf_contents:
  "stream_contents (fillReadBuf c) = stream_contents c" "stream_ok c \<Longrightarrow> stream_ok (fillReadBuf c)"
  "stream_ok c \<Longrightarrow> readBuf (fillReadBuf c) = [] \<longleftrightarrow> stream_contents c = []"
  by (cases "queue c"; auto simp: fillReadBuf_def stream_contents_def stream_ok_def)+

lemma fillReadBuf_flags:
  "sclosed (fillReadBuf c) = sclosed c" "localReadClosed (fillReadBuf c) = localReadClosed c"
  "remoteWriteClosed (fillReadBuf c) = remoteWriteClosed c" "closeErr (fillReadBuf c) = closeErr c"
  by (simp_all add: fillReadBuf_def)

lemma Stream_Read_data:
  assumes "stream_ok c" "stream_contents c \<noteq> []" "0 < n"
  shows "\<exists>out c'. Stream_Read n c = Some (Inr out, c') \<and> out \<noteq> [] \<and> length out \<le> n
    \<and> stream_contents c = out @ stream_contents c' \<and> stream_ok c' \<and> sid c' = sid c \<and> stream_open c' = stream_open c
    \<and> sclosed c' = sclosed c \<and> localWriteClosed c' = localWriteClosed c"
proof -
  let ?c1 = "fillReadBuf c"
  have ne: "readBuf ?c1 \<noteq> []" using fillReadBuf_contents(3) assms by simp
  have wait: "\<not> (readBuf c = [] \<and> queue c = [])" using assms(2) by (auto simp: stream_contents_def)
  let ?c' = "?c1\<lparr>readBuf := drop n (readBuf ?c1), queuedBytes := queuedBytes ?c1 - int (length (take n (readBuf ?c1)))\<rparr>"
  have q: "0 \<le> queuedBytes ?c1 - int (length (take n (readBuf ?c1)))"
    using fillReadBuf_contents(2) [OF assms(1)] by (simp add: stream_ok_def stream_contents_def)
  then have "Stream_Read n c = Some (Inr (take n (readBuf ?c1)), ?c')"
    using assms(3) ne wait by (auto simp: Stream_Read_def Let_def)
  moreover have "stream_contents c = take n (readBuf ?c1) @ stream_contents ?c'"
    unfolding fillReadBuf_contents(1) [of c, symmetric] by (simp add: stream_contents_def)
  moreover have "stream_ok ?c'"
    using fillReadBuf_contents(2) [OF assms(1)] by (auto simp: stream_ok_def stream_contents_def)
  ultimately show ?thesis using ne assms(3)
    by (intro exI [of _ "take n (readBuf ?c1)"] exI [of _ ?c']) (auto simp: stream_open_def fillReadBuf_def)
qed

lemma Stream_Read_empty:
  assumes "stream_ok c" "stream_contents c = []" "0 < n"
  shows "Stream_Read n c =
    (if sclosed c then Some (Inl (closedErrLocked c), c)
     else if localReadClosed c then Some (Inl ErrClosedPipe, c)
     else if remoteWriteClosed c then Some (Inl EOF, c) else None)"
proof -
  have "readBuf c = []" "queue c = []"
    using assms(1,2) by (auto simp: stream_contents_def stream_ok_def) (metis list.set_intros(1) neq_Nil_conv)
  then show ?thesis using assms(3) by (auto simp: Stream_Read_def fillReadBuf_def Let_def)
qed

interpretation mux_queue: chunk_queue "\<lambda>c. stream_ok c \<and> stream_open c" stream_contents enqueue Stream_Read
proof (unfold_locales, goal_cases)
  case (1 q p e q')
  then show ?case using enqueue_ok [of q p e q'] by (simp add: stream_open_def)
next
  case (2 q p e q')
  then show ?case using enqueue_ok [of q p e q'] by auto
next
  case (3 q n)
  then show ?case using Stream_Read_data [of q n] by auto
next
  case (4 q n)
  then show ?case using Stream_Read_empty [of q n] by (auto simp: stream_open_def)
qed

section \<open>Properties\<close>

text \<open>
  Property C15: the receive queue of a stream is a bounded first-in first-out queue: in any interleaving of
  arriving payloads and reads of any positive sizes, the bytes delivered and those still queued are exactly
  the accepted ones, in order, never more than 4 MiB are queued, and the byte count is exact.
\<close>

theorem mux_stream_fifo:
  assumes "\<forall>op \<in> set ops. case op of Inl p \<Rightarrow> p \<noteq> [] | Inr n \<Rightarrow> 0 < n"
    and "queue_run enqueue Stream_Read ops (newMuxStream n) = (accepted, delivered, c)"
  shows "accepted = delivered @ stream_contents c \<and> queuedBytes c = int (length (stream_contents c))
    \<and> queuedBytes c \<le> muxMaxQueuedBytesPerStream"
proof -
  have "stream_ok (newMuxStream n) \<and> stream_open (newMuxStream n)" "stream_contents (newMuxStream n) = []"
    by (simp_all add: newMuxStream_def stream_ok_def stream_open_def stream_contents_def muxMaxQueuedBytesPerStream_def)
  then show ?thesis using mux_queue.run_fifo [OF _ assms] by (simp add: stream_ok_def)
qed

theorem mux_stream_fifo_witness:
  "fst (queue_run enqueue Stream_Read [Inl [1, 2, 3], Inr 2, Inl [4], Inr 9] (newMuxStream 7)) = [1, 2, 3, 4]
   \<and> fst (snd (queue_run enqueue Stream_Read [Inl [1, 2, 3], Inr 2, Inl [4], Inr 9] (newMuxStream 7)))
       @ stream_contents (snd (snd (queue_run enqueue Stream_Read [Inl [1, 2, 3], Inr 2, Inl [4], Inr 9] (newMuxStream 7)))) = [1, 2, 3, 4]"
proof -
  let ?ops = "[Inl [1, 2, 3], Inr 2, Inl [4], Inr 9] :: (bytes + nat) list"
  obtain a d c where r: "queue_run enqueue Stream_Read ?ops (newMuxStream 7) = (a, d, c)" by (metis surj_pair)
  have "fst (queue_run enqueue Stream_Read ?ops (newMuxStream 7)) = [1, 2, 3, 4]"
    by (simp add: enqueue_def Stream_Read_def newMuxStream_def fillReadBuf_def muxMaxQueuedBytesPerStream_def Let_def)
  then show ?thesis using mux_stream_fifo [OF _ r] r by simp
qed

end
