(* ===== verification/MuxSession.thy ===== *)
theory MuxSession
  imports MuxStream Framing Address "HOL-Library.AList"
begin

text \<open>
  A mux session (\<open>internal/tunnel/mux_session.go\<close>) with the client and server built on it
  (\<open>mux_client.go\<close>, \<open>mux_server.go\<close>). Streams live in a heap, a list indexed by their pointers; the session's
  table maps stream ids to pointers. The goroutines an operation starts are queues of work: \<open>spawned\<close> holds
  the calls of \<open>onOpen\<close>, \<open>resets\<close> those of \<open>sendReset\<close>. An operation that runs under the locks of the code is one
  function of the session state; times are nanoseconds.
\<close>

section \<open>Frames\<close>

definition muxFrameOpen :: byte where "muxFrameOpen = 0x01"
definition muxFrameData :: byte where "muxFrameData = 0x02"
definition muxFrameClose :: byte where "muxFrameClose = 0x03"
definition muxFrameReset :: byte where "muxFrameReset = 0x04"
definition muxHeaderSize :: nat where "muxHeaderSize = 1 + 4 + 4"
definition muxMaxFrameSize :: nat where "muxMaxFrameSize = 256 * 1024"
definition muxMaxDataPayload :: nat where "muxMaxDataPayload = 128 * 1024"
definition muxKeepaliveInterval :: int where "muxKeepaliveInterval = 15 * 1000000000"

lemmas mux_consts = muxFrameOpen_def muxFrameData_def muxFrameClose_def muxFrameReset_def muxHeaderSize_def
  muxMaxFrameSize_def muxMaxDataPayload_def

text \<open>\<open>writeFull\<close> of this file: unlike \<open>connutil.WriteFull\<close> it does not stop at a write of nothing.\<close>

function writeFull :: "writer \<Rightarrow> bytes \<Rightarrow> go_error option \<times> writer" where
  "writeFull w b =
    (if b = [] then (None, w)
     else case conn_write w b of (n, err, w') \<Rightarrow>
       (case err of Some e \<Rightarrow> (Some e, w') | None \<Rightarrow> writeFull w' (drop n b)))"
  by pat_completeness auto
termination
  by (relation "measure (\<lambda>(w, b). length (script w) + length b)") (auto simp: conn_write_def split: list.splits)

declare writeFull.simps [simp del]

lemma writeFull_Nil [simp]: "writeFull w [] = (None, w)"
  by (simp add: writeFull.simps)

lemma writeFull_open: "script w = [] \<Longrightarrow> writeFull w b = (None, w\<lparr>sent := sent w @ b\<rparr>)"
  by (cases "b = []") (simp_all add: writeFull.simps [of w b] conn_write_def)

type_synonym mux_frame = "byte \<times> u32 \<times> bytes"

definition muxHeader :: "byte \<Rightarrow> u32 \<Rightarrow> bytes \<Rightarrow> bytes" where
  "muxHeader ty n payload = [ty] @ PutUint32 n @ PutUint32 (of_nat (length payload))"

definition frame_wire :: "mux_frame \<Rightarrow> bytes" where
  "frame_wire f = (case f of (ty, n, payload) \<Rightarrow> muxHeader ty n payload @ payload)"

text \<open>The reading half of the loop: one frame, or the error that ends the session.\<close>

definition readFrame :: "reader \<Rightarrow> mux_frame result \<times> reader" where
  "readFrame r =
    (case ReadFull muxHeaderSize r of
       (Inl e, r1) \<Rightarrow> (Inl e, r1)
     | (Inr header, r1) \<Rightarrow>
       let frameType = header ! 0;
           streamID = Uint32 (drop 1 header);
           payloadLen = Uint32 (drop 5 header)
       in if of_nat muxMaxFrameSize < payloadLen then (Inl (ErrMsg ''invalid mux frame length''), r1)
          else
            let n = unat payloadLen in
            if 0 < n then
              (case ReadFull n r1 of (Inl e, r2) \<Rightarrow> (Inl e, r2) | (Inr payload, r2) \<Rightarrow> (Inr (frameType, streamID, payload), r2))
            else (Inr (frameType, streamID, []), r1))"

section \<open>The session\<close>

record muxSession =
  minput :: reader
  moutput :: writer
  heap :: "muxStream list"
  streams :: "(u32 \<times> nat) list"
  nextID :: u32
  sessClosed :: bool
  sessErr :: "go_error option"
  lastWrite :: int
  hasOnOpen :: bool
  spawned :: "(nat \<times> bytes) list"
  resets :: "(u32 \<times> string) list"

definition newMuxSession :: "reader \<Rightarrow> writer \<Rightarrow> bool \<Rightarrow> int \<Rightarrow> muxSession" where
  "newMuxSession r w onOpen now = \<lparr>minput = r, moutput = w, heap = [], streams = [], nextID = 0, sessClosed = False,
    sessErr = None, lastWrite = now, hasOnOpen = onOpen, spawned = [], resets = []\<rparr>"

definition sess_closedErr :: "muxSession \<Rightarrow> go_error" where
  "sess_closedErr s = (case sessErr s of None \<Rightarrow> ErrClosedPipe | Some e \<Rightarrow> e)"

definition updStream :: "nat \<Rightarrow> (muxStream \<Rightarrow> muxStream) \<Rightarrow> muxSession \<Rightarrow> muxSession" where
  "updStream p f s = s\<lparr>heap := (heap s)[p := f (heap s ! p)]\<rparr>"

definition closeWithError :: "go_error option \<Rightarrow> muxSession \<Rightarrow> muxSession" where
  "closeWithError err s =
    (let e = (case err of None \<Rightarrow> ErrClosedPipe | Some e \<Rightarrow> e) in
     if sessClosed s then s
     else
       let s1 = s\<lparr>sessErr := (case sessErr s of None \<Rightarrow> Some e | Some e0 \<Rightarrow> Some e0), streams := []\<rparr>
       in (foldl (\<lambda>t (n, p). updStream p (closeNoSend (Some e)) t) s1 (streams s))\<lparr>sessClosed := True\<rparr>)"

definition registerStream :: "muxStream \<Rightarrow> muxSession \<Rightarrow> nat \<times> muxSession" where
  "registerStream st s =
    (length (heap s), s\<lparr>heap := heap s @ [st], streams := AList.update (sid st) (length (heap s)) (streams s)\<rparr>)"

definition getStream :: "u32 \<Rightarrow> muxSession \<Rightarrow> nat option" where
  "getStream n s = map_of (streams s) n"

definition removeStream :: "u32 \<Rightarrow> muxSession \<Rightarrow> muxSession" where
  "removeStream n s = s\<lparr>streams := AList.delete n (streams s)\<rparr>"

definition nextStreamID :: "muxSession \<Rightarrow> u32 \<times> muxSession" where
  "nextStreamID s =
    (let n = nextID s + 1 in if n = 0 then (n + 1, s\<lparr>nextID := n + 1\<rparr>) else (n, s\<lparr>nextID := n\<rparr>))"

definition sendFrame :: "int \<Rightarrow> byte \<Rightarrow> u32 \<Rightarrow> bytes \<Rightarrow> muxSession \<Rightarrow> go_error option \<times> muxSession" where
  "sendFrame now ty n payload s =
    (if sessClosed s then (Some (sess_closedErr s), s)
     else if muxMaxFrameSize < length payload then (Some (ErrMsg ''mux payload too large''), s)
     else
       (case writeFull (moutput s) (muxHeader ty n payload) of
          (Some e, w) \<Rightarrow> (Some e, closeWithError (Some e) (s\<lparr>moutput := w\<rparr>))
        | (None, w) \<Rightarrow>
          if payload \<noteq> [] then
            (case writeFull w payload of
               (Some e, w2) \<Rightarrow> (Some e, closeWithError (Some e) (s\<lparr>moutput := w2\<rparr>))
             | (None, w2) \<Rightarrow> (None, s\<lparr>moutput := w2, lastWrite := now\<rparr>))
          else (None, s\<lparr>moutput := w, lastWrite := now\<rparr>)))"

text \<open>One tick of the keep-alive goroutine; the first component says whether it goes on.\<close>

definition keepaliveTick :: "int \<Rightarrow> int \<Rightarrow> muxSession \<Rightarrow> bool \<times> muxSession" where
  "keepaliveTick now interval s =
    (if sessClosed s then (False, s)
     else if now - lastWrite s < interval then (True, s)
     else case sendFrame now muxFrameData 0 [] s of (Some e, s1) \<Rightarrow> (False, s1) | (None, s1) \<Rightarrow> (True, s1))"

definition sendReset :: "int \<Rightarrow> u32 \<Rightarrow> string \<Rightarrow> muxSession \<Rightarrow> muxSession" where
  "sendReset now n msg s =
    (let msg' = (if msg = '''' then ''reset'' else msg);
         s1 = snd (sendFrame now muxFrameReset n (bytes_of msg') s)
     in snd (sendFrame now muxFrameClose n [] s1))"

definition errText :: "go_error \<Rightarrow> string" where
  "errText e = (case e of ErrMsg m \<Rightarrow> m | EOF \<Rightarrow> ''EOF'' | ErrUnexpectedEOF \<Rightarrow> ''unexpected EOF''
     | ErrClosedPipe \<Rightarrow> ''io: read/write on closed pipe'' | ErrShortWrite \<Rightarrow> ''short write''
     | ErrNetClosed \<Rightarrow> ''use of closed network connection'' | _ \<Rightarrow> ''error'')"

text \<open>The dispatch on the frame type; the first component says whether the loop goes on.\<close>

definition handleFrame :: "int \<Rightarrow> mux_frame \<Rightarrow> muxSession \<Rightarrow> bool \<times> muxSession" where
  "handleFrame now f s =
    (case f of (frameType, streamID, payload) \<Rightarrow>
     if frameType = muxFrameOpen then
       (if \<not> hasOnOpen s then (True, sendReset now streamID ''unexpected open'' s)
        else if streamID = 0 then (True, sendReset now streamID ''invalid stream id'' s)
        else if getStream streamID s \<noteq> None then (True, sendReset now streamID ''stream already exists'' s)
        else case registerStream (newMuxStream streamID) s of (p, s1) \<Rightarrow> (True, s1\<lparr>spawned := spawned s1 @ [(p, payload)]\<rparr>))
     else if frameType = muxFrameData then
       (case getStream streamID s of
          None \<Rightarrow> (True, s)
        | Some p \<Rightarrow>
          if payload = [] then (True, s)
          else case enqueue payload (heap s ! p) of
            (None, st) \<Rightarrow> (True, updStream p (\<lambda>_. st) s)
          | (Some e, st) \<Rightarrow>
              (True, (removeStream streamID (updStream p (\<lambda>_. closeNoSend (Some e) st) s))
                       \<lparr>resets := resets s @ [(streamID, errText e)]\<rparr>))
     else if frameType = muxFrameClose then
       (case getStream streamID s of
          None \<Rightarrow> (True, s)
        | Some p \<Rightarrow>
          (case closeRemoteWrite (heap s ! p) of (remove, st) \<Rightarrow>
             let s1 = updStream p (\<lambda>_. st) s in (True, if remove then removeStream streamID s1 else s1)))
     else if frameType = muxFrameReset then
       (case getStream streamID s of
          None \<Rightarrow> (True, s)
        | Some p \<Rightarrow>
          let msg = TrimSpace (string_of payload);
              msg' = (if msg = '''' then ''reset'' else msg)
          in (True, removeStream streamID (updStream p (closeNoSend (Some (ErrMsg msg'))) s)))
     else (False, closeWithError (Some (ErrMsg ''unknown mux frame type'')) s))"

definition readStep :: "int \<Rightarrow> muxSession \<Rightarrow> bool \<times> muxSession" where
  "readStep now s =
    (case readFrame (minput s) of
       (Inl e, r) \<Rightarrow> (False, closeWithError (Some e) (s\<lparr>minput := r\<rparr>))
     | (Inr f, r) \<Rightarrow> handleFrame now f (s\<lparr>minput := r\<rparr>))"

lemma closeNoSends_fields:
  "minput (foldl (\<lambda>t (n, p). updStream p f t) s es) = minput s"
  "length (heap (foldl (\<lambda>t (n, p). updStream p f t) s es)) = length (heap s)"
  "streams (foldl (\<lambda>t (n, p). updStream p f t) s es) = streams s"
  "sessErr (foldl (\<lambda>t (n, p). updStream p f t) s es) = sessErr s"
  by (induction es arbitrary: s) (auto simp: updStream_def)

lemma closeWithError_minput: "minput (closeWithError e s) = minput s"
  by (simp add: closeWithError_def Let_def closeNoSends_fields split: prod.splits)

lemma sendFrame_minput: "minput (snd (sendFrame now ty n p s)) = minput s"
  by (auto simp: sendFrame_def closeWithError_minput split: prod.splits option.splits)

lemma handleFrame_minput: "minput (snd (handleFrame now f s)) = minput s"
  by (auto simp: handleFrame_def closeWithError_minput sendReset_def sendFrame_minput registerStream_def updStream_def
      removeStream_def Let_def split: prod.splits option.splits)

lemma readFrame_shrinks: "readFrame r = (Inr f, r') \<Longrightarrow> length (rdata r') < length (rdata r)"
  by (auto simp: readFrame_def muxHeaderSize_def ReadFull_def Let_def split: if_splits sum.splits)

text \<open>\<open>clock k\<close> is the time at which the \<open>k\<close>-th frame is handled.\<close>

function muxReadLoop :: "(nat \<Rightarrow> int) \<Rightarrow> nat \<Rightarrow> muxSession \<Rightarrow> muxSession" where
  "muxReadLoop clock k s =
    (case readStep (clock k) s of (True, s1) \<Rightarrow> muxReadLoop clock (Suc k) s1 | (False, s1) \<Rightarrow> s1)"
  by pat_completeness auto
termination
proof (relation "measure (\<lambda>(clock, k, s). length (rdata (minput s)))", goal_cases)
  case (2 clock k s b s1)
  then show ?case
    using handleFrame_minput readFrame_shrinks
    by (auto simp: readStep_def split: prod.splits sum.splits) (metis muxSession.select_convs(1) muxSession.surjective muxSession.update_convs(1) snd_conv)
qed simp

declare muxReadLoop.simps [simp del]

section \<open>Stream operations\<close>

function writeData :: "int \<Rightarrow> u32 \<Rightarrow> bytes \<Rightarrow> nat \<Rightarrow> muxSession \<Rightarrow> nat \<times> go_error option \<times> muxSession" where
  "writeData now n p written s =
    (if p = [] then (written, None, s)
     else
       let chunk = (if muxMaxDataPayload < length p then take muxMaxDataPayload p else p) in
       (case sendFrame now muxFrameData n chunk s of
          (Some e, s1) \<Rightarrow> (written, Some e, s1)
        | (None, s1) \<Rightarrow> writeData now n (drop (length chunk) p) (written + length chunk) s1))"
  by pat_completeness auto
termination
  by (relation "measure (\<lambda>(now, n, p, written, s). length p)") (auto simp: muxMaxDataPayload_def)

declare writeData.simps [simp del]

lemma writeData_Nil [simp]: "writeData now n [] k s = (k, None, s)"
  by (simp add: writeData.simps)

definition Stream_Write :: "int \<Rightarrow> nat \<Rightarrow> bytes \<Rightarrow> muxSession \<Rightarrow> nat \<times> go_error option \<times> muxSession" where
  "Stream_Write now p b s =
    (if b = [] then (0, None, s)
     else if sessClosed s then (0, Some (sess_closedErr s), s)
     else if sclosed (heap s ! p) then (0, Some (closedErrLocked (heap s ! p)), s)
     else if localWriteClosed (heap s ! p) then (0, Some ErrClosedPipe, s)
     else writeData now (sid (heap s ! p)) b 0 s)"

definition Stream_readOp :: "nat \<Rightarrow> nat \<Rightarrow> muxSession \<Rightarrow> (bytes result \<times> muxSession) option" where
  "Stream_readOp n p s = map_option (\<lambda>(r, st). (r, updStream p (\<lambda>_. st) s)) (Stream_Read n (heap s ! p))"

definition Stream_Close :: "int \<Rightarrow> nat \<Rightarrow> muxSession \<Rightarrow> go_error option \<times> muxSession" where
  "Stream_Close now p s =
    (let c = heap s ! p in
     if sclosed c then (None, s)
     else
       let c1 = c\<lparr>sclosed := True, localReadClosed := True, localWriteClosed := True,
                  closeErr := (case closeErr c of None \<Rightarrow> Some ErrClosedPipe | Some e \<Rightarrow> Some e),
                  readBuf := [], queue := [], queuedBytes := 0\<rparr>;
           s1 = updStream p (\<lambda>_. c1) s;
           s2 = (if \<not> localWriteClosed c then snd (sendFrame now muxFrameClose (sid c) [] s1) else s1)
       in (None, removeStream (sid c) s2))"

definition Stream_CloseWrite :: "int \<Rightarrow> nat \<Rightarrow> muxSession \<Rightarrow> go_error option \<times> muxSession" where
  "Stream_CloseWrite now p s =
    (let c = heap s ! p in
     if sclosed c \<or> localWriteClosed c then (None, s)
     else
       let remove = (remoteWriteClosed c \<or> localReadClosed c);
           s1 = updStream p (\<lambda>_. c\<lparr>localWriteClosed := True\<rparr>) s;
           (err, s2) = sendFrame now muxFrameClose (sid c) [] s1
       in (err, if remove then removeStream (sid c) s2 else s2))"

definition Stream_CloseRead :: "nat \<Rightarrow> muxSession \<Rightarrow> go_error option \<times> muxSession" where
  "Stream_CloseRead p s =
    (let c = heap s ! p in
     if sclosed c \<or> localReadClosed c then (None, s)
     else
       let s1 = updStream p (\<lambda>_. c\<lparr>localReadClosed := True, readBuf := [], queue := [], queuedBytes := 0\<rparr>) s
       in (None, if localWriteClosed c then removeStream (sid c) s1 else s1))"

section \<open>Client and server\<close>

definition NewMuxClient :: "reader \<Rightarrow> writer \<Rightarrow> int \<Rightarrow> muxSession" where
  "NewMuxClient r w now = newMuxSession r w False now"

definition MuxClient_Dial :: "int \<Rightarrow> string \<Rightarrow> muxSession \<Rightarrow> nat result \<times> muxSession" where
  "MuxClient_Dial now addr s =
    (if sessClosed s then (Inl (sess_closedErr s), s)
     else case WriteAddress \<lparr>sent = [], script = []\<rparr> addr of
       (Some e, _) \<Rightarrow> (Inl (ErrMsg ''encode address failed''), s)
     | (None, b) \<Rightarrow>
       let (n, s1) = nextStreamID s;
           (p, s2) = registerStream (newMuxStream n) s1
       in (case sendFrame now muxFrameOpen n (sent b) s2 of
             (Some e, s3) \<Rightarrow> (Inl (ErrMsg ''mux open failed''), removeStream n (updStream p (closeNoSend (Some e)) s3))
           | (None, s3) \<Rightarrow> (Inr p, s3)))"

definition MuxClient_Close :: "muxSession \<Rightarrow> go_error option \<times> muxSession" where
  "MuxClient_Close s = (None, closeWithError (Some ErrClosedPipe) s)"

definition decodeMuxOpenTarget :: "bytes \<Rightarrow> string result" where
  "decodeMuxOpenTarget payload =
    (case ReadAddress (reader_of payload) of
       (Inl e, _) \<Rightarrow> Inl e
     | (Inr (addr, _, _), _) \<Rightarrow> if addr = '''' then Inl (ErrMsg ''empty address'') else Inr addr)"

text \<open>
  The \<open>onOpen\<close> callback of the server, for the oldest call that was started: the target it then pipes the
  stream to, or the error that made it refuse. \<open>dialTarget\<close> answers the error of the dial or nil.
\<close>

definition muxOnOpen :: "(string \<Rightarrow> go_error option) \<Rightarrow> int \<Rightarrow> nat \<Rightarrow> bytes \<Rightarrow> muxSession \<Rightarrow> string result \<times> muxSession" where
  "muxOnOpen dialTarget now p payload s =
    (let refuse = (\<lambda>msg e. (Inl e, removeStream (sid (heap s ! p)) (updStream p (closeNoSend (Some e))
           (sendReset now (sid (heap s ! p)) msg s))))
     in case decodeMuxOpenTarget payload of
          Inl e \<Rightarrow> refuse ''bad address'' e
        | Inr addr \<Rightarrow> (case dialTarget addr of Some e \<Rightarrow> refuse (errText e) e | None \<Rightarrow> (Inr addr, s)))"

fun Contains :: "string \<Rightarrow> string \<Rightarrow> bool" where
  "Contains [] sub \<longleftrightarrow> sub = []"
| "Contains (c # s) sub \<longleftrightarrow> HasPrefix (c # s) sub \<or> Contains s sub"

definition isExpectedMuxSessionClose :: "go_error option \<Rightarrow> bool" where
  "isExpectedMuxSessionClose err =
    (case err of None \<Rightarrow> False
     | Some e \<Rightarrow>
       e = EOF \<or> e = ErrClosedPipe \<or> e = ErrNetClosed
       \<or> (let msg = ToLower (errText e) in
          Contains msg ''connection reset by peer'' \<or> Contains msg ''forcibly closed by the remote host''))"

text \<open>What \<open>HandleMuxWithDialer\<close> returns once the session has closed.\<close>

definition muxServerResult :: "muxSession \<Rightarrow> go_error option" where
  "muxServerResult s = (let err = sess_closedErr s in if isExpectedMuxSessionClose (Some err) then None else Some err)"

section \<open>Steps\<close>

text \<open>
  The session with its goroutines: the demultiplexing loop, the started callbacks and resets, the keep-alive
  and the operations of the streams' users, in any order. A step on a stream takes a pointer that exists.
\<close>

inductive mux_step :: "muxSession \<Rightarrow> muxSession \<Rightarrow> bool" where
  Demux: "\<not> sessClosed s \<Longrightarrow> readStep now s = (b, s') \<Longrightarrow> mux_step s s'"
| OnOpen: "spawned s = (p, payload) # rest \<Longrightarrow> muxOnOpen dial now p payload (s\<lparr>spawned := rest\<rparr>) = (r, s') \<Longrightarrow> mux_step s s'"
| AsyncReset: "resets s = (n, msg) # rest \<Longrightarrow> mux_step s (sendReset now n msg (s\<lparr>resets := rest\<rparr>))"
| Keepalive: "keepaliveTick now interval s = (b, s') \<Longrightarrow> mux_step s s'"
| ReadS: "p < length (heap s) \<Longrightarrow> Stream_readOp n p s = Some (r, s') \<Longrightarrow> mux_step s s'"
| WriteS: "p < length (heap s) \<Longrightarrow> Stream_Write now p b s = (k, e, s') \<Longrightarrow> mux_step s s'"
| CloseS: "p < length (heap s) \<Longrightarrow> Stream_Close now p s = (e, s') \<Longrightarrow> mux_step s s'"
| CloseWriteS: "p < length (heap s) \<Longrightarrow> Stream_CloseWrite now p s = (e, s') \<Longrightarrow> mux_step s s'"
| CloseReadS: "p < length (heap s) \<Longrightarrow> Stream_CloseRead p s = (e, s') \<Longrightarrow> mux_step s s'"
| Dial: "MuxClient_Dial now addr s = (d, s') \<Longrightarrow> mux_step s s'"
| CloseSession: "MuxClient_Close s = (e, s') \<Longrightarrow> mux_step s s'"

inductive reachable :: "muxSession \<Rightarrow> muxSession \<Rightarrow> bool" for s0 where
  Start: "reachable s0 s0"
| Step: "reachable s0 s \<Longrightarrow> mux_step s s' \<Longrightarrow> reachable s0 s'"

end
