(* ===== verification/MuxInv.thy ===== *)
theory MuxInv
  imports MuxSession
begin

text \<open>
  The invariant of a mux session: the table is consistent with the streams it names, every receive queue
  is accounted for and bounded, and no finished stream stays registered. It holds in every state the
  session and its goroutines reach.
\<close>

section \<open>The invariant\<close>

definition live :: "muxStream \<Rightarrow> bool" where
  "live c \<longleftrightarrow> \<not> sclosed c \<and> \<not> (localWriteClosed c \<and> (remoteWriteClosed c \<or> localReadClosed c))"

text \<open>
  Streams in \<open>X\<close> may be registered although they are finished: the state between closing a stream and
  removing it.
\<close>

definition mux_ok_except :: "u32 set \<Rightarrow> muxSession \<Rightarrow> bool" where
  "mux_ok_except X s \<longleftrightarrow> distinct (map fst (streams s)) \<and> list_all stream_ok (heap s)
    \<and> (sessClosed s \<longrightarrow> streams s = [])
    \<and> list_all (\<lambda>(p, payload). p < length (heap s)) (spawned s)
    \<and> (\<forall>n p. (n, p) \<in> set (streams s) \<longrightarrow>
         p < length (heap s) \<and> sid (heap s ! p) = n \<and> n \<noteq> 0 \<and> (n \<notin> X \<longrightarrow> live (heap s ! p)))"

definition mux_ok :: "muxSession \<Rightarrow> bool" where
  "mux_ok s \<longleftrightarrow> mux_ok_except {} s"

lemma mux_ok_weaken: "mux_ok_except X s \<Longrightarrow> X \<subseteq> Y \<Longrightarrow> mux_ok_except Y s"
  by (auto simp: mux_ok_except_def)

lemma upd_except:
  assumes "mux_ok_except X s" "p < length (heap s)" "stream_ok (f (heap s ! p))" "sid (f (heap s ! p)) = sid (heap s ! p)"
  shows "mux_ok_except (insert (sid (heap s ! p)) X) (updStream p f s)"
  using assms by (auto simp: mux_ok_except_def updStream_def list_all_length nth_list_update)

lemma upd_live:
  assumes "mux_ok_except X s" "p < length (heap s)" "stream_ok (f (heap s ! p))" "sid (f (heap s ! p)) = sid (heap s ! p)"
    and "live (heap s ! p) \<Longrightarrow> live (f (heap s ! p))"
  shows "mux_ok_except X (updStream p f s)"
  using assms by (auto simp: mux_ok_except_def updStream_def list_all_length nth_list_update)

lemma remove_ok: "mux_ok_except (insert n X) s \<Longrightarrow> mux_ok_except X (removeStream n s)"
  by (auto simp: mux_ok_except_def removeStream_def AList.delete_eq distinct_map_filter)

lemma closeNoSend_ok:
  "stream_ok c \<Longrightarrow> stream_ok (closeNoSend e c)" "sid (closeNoSend e c) = sid c"
  by (simp_all add: closeNoSend_def stream_ok_def stream_contents_def Let_def)

lemma stream_at: "mux_ok_except X s \<Longrightarrow> p < length (heap s) \<Longrightarrow> stream_ok (heap s ! p)"
  by (simp add: mux_ok_except_def list_all_length)

lemma fold_closeNoSend_ok:
  "list_all stream_ok (heap s) \<Longrightarrow> list_all (\<lambda>(n, p). p < length (heap s)) es \<Longrightarrow>
    list_all stream_ok (heap (foldl (\<lambda>t (n, p). updStream p (closeNoSend e) t) s es))
    \<and> map sid (heap (foldl (\<lambda>t (n, p). updStream p (closeNoSend e) t) s es)) = map sid (heap s)
    \<and> spawned (foldl (\<lambda>t (n, p). updStream p (closeNoSend e) t) s es) = spawned s"
proof (induction es arbitrary: s)
  case (Cons x es)
  obtain n p where x: "x = (n, p)" by (metis surj_pair)
  have p: "p < length (heap s)" using Cons.prems(2) x by simp
  have ok: "list_all stream_ok (heap (updStream p (closeNoSend e) s))"
    using Cons.prems(1) closeNoSend_ok(1) p by (auto simp: updStream_def list_all_length nth_list_update)
  have ids: "map sid (heap (updStream p (closeNoSend e) s)) = map sid (heap s)"
    using p by (simp add: updStream_def map_update closeNoSend_ok(2)) (metis list_update_id map_update nth_map)
  have "list_all (\<lambda>(n, p). p < length (heap (updStream p (closeNoSend e) s))) es" if "list_all (\<lambda>(n, p). p < length (heap s)) es"
    using that by (simp add: updStream_def)
  then show ?case using Cons.IH [OF ok] Cons.prems(2) ids x by (simp add: updStream_def)
qed simp

lemma closeWithError_ok:
  assumes "mux_ok_except X s"
  shows "mux_ok_except X (closeWithError e s) \<and> map sid (heap (closeWithError e s)) = map sid (heap s)"
proof (cases "sessClosed s")
  case True
  then show ?thesis using assms by (simp add: closeWithError_def)
next
  case False
  define s1 where "s1 = s\<lparr>sessErr := (case sessErr s of None \<Rightarrow> Some (case e of None \<Rightarrow> ErrClosedPipe | Some e \<Rightarrow> e) | Some e0 \<Rightarrow> Some e0), streams := []\<rparr>"
  let ?t = "foldl (\<lambda>t (n, p). updStream p (closeNoSend (Some (case e of None \<Rightarrow> ErrClosedPipe | Some e \<Rightarrow> e))) t) s1 (streams s)"
  have c: "closeWithError e s = ?t\<lparr>sessClosed := True\<rparr>" using False by (simp add: closeWithError_def s1_def Let_def)
  have "list_all stream_ok (heap s1)" "list_all (\<lambda>(n, p). p < length (heap s1)) (streams s)"
    using assms by (auto simp: mux_ok_except_def s1_def list_all_iff)
  note f = fold_closeNoSend_ok [OF this, of "Some (case e of None \<Rightarrow> ErrClosedPipe | Some e \<Rightarrow> e)"]
  have "streams ?t = []" "length (heap ?t) = length (heap s)" by (simp_all add: closeNoSends_fields s1_def)
  then show ?thesis using f c assms by (simp add: mux_ok_except_def s1_def)
qed

lemma sendFrame_ok:
  assumes "mux_ok_except X s"
  shows "mux_ok_except X (snd (sendFrame now ty n p s)) \<and> map sid (heap (snd (sendFrame now ty n p s))) = map sid (heap s)"
proof -
  have io: "mux_ok_except X (s\<lparr>moutput := w\<rparr>)" "mux_ok_except X (s\<lparr>moutput := w, lastWrite := t\<rparr>)" for w t
    using assms by (simp_all add: mux_ok_except_def)
  show ?thesis
    using assms io closeWithError_ok [OF io(1)]
    by (auto simp: sendFrame_def split: prod.splits option.splits)
qed

lemma sendReset_ok:
  assumes "mux_ok_except X s"
  shows "mux_ok_except X (sendReset now n msg s) \<and> map sid (heap (sendReset now n msg s)) = map sid (heap s)"
  using sendFrame_ok [OF assms] sendFrame_ok [OF conjunct1 [OF sendFrame_ok [OF assms]]] by (simp add: sendReset_def Let_def)

lemma same_sid: "map sid (heap s') = map sid (heap s) \<Longrightarrow> p < length (heap s) \<Longrightarrow> p < length (heap s') \<and> sid (heap s' ! p) = sid (heap s ! p)"
  by (metis length_map nth_map)

lemma update_cases: "(k, v) \<in> set (AList.update a b al) \<Longrightarrow> (k, v) = (a, b) \<or> (k, v) \<in> set al"
  by (induction al) (auto split: if_splits)

lemma register_ok:
  assumes "mux_ok_except X s" "stream_ok st" "live st" "sid st \<noteq> 0" "\<not> sessClosed s"
  shows "mux_ok_except X (snd (registerStream st s)) \<and> fst (registerStream st s) < length (heap (snd (registerStream st s)))"
  using assms
  by (auto simp: mux_ok_except_def registerStream_def distinct_update nth_append list_all_iff dest!: update_cases)

lemma newMuxStream_ok: "stream_ok (newMuxStream n)" "live (newMuxStream n)" "sid (newMuxStream n) = n"
  by (simp_all add: newMuxStream_def stream_ok_def stream_contents_def live_def muxMaxQueuedBytesPerStream_def)

section \<open>Every operation keeps it\<close>

lemma getStream_entry:
  assumes "mux_ok_except X s" "getStream n s = Some p"
  shows "p < length (heap s) \<and> sid (heap s ! p) = n \<and> stream_ok (heap s ! p)"
proof -
  have "(n, p) \<in> set (streams s)" using assms(2) by (simp add: getStream_def map_of_SomeD)
  then show ?thesis using assms(1) stream_at [OF assms(1)] by (auto simp: mux_ok_except_def)
qed

text \<open>Closing a stream and taking it out of the table.\<close>

lemma close_remove_ok:
  assumes "mux_ok_except X s" "p < length (heap s)" "stream_ok (f (heap s ! p))" "sid (f (heap s ! p)) = sid (heap s ! p)"
  shows "mux_ok_except X (removeStream (sid (heap s ! p)) (updStream p f s))"
  using upd_except [of X s p f] remove_ok assms by blast

lemma closeRemoteWrite_ok:
  assumes "closeRemoteWrite c = (r, c')" "stream_ok c"
  shows "stream_ok c' \<and> sid c' = sid c \<and> (\<not> r \<longrightarrow> live c \<longrightarrow> live c')"
  using assms by (auto simp: closeRemoteWrite_def stream_ok_def stream_contents_def live_def Let_def split: if_splits)

lemma mux_ok_minor:
  assumes "mux_ok_except X s"
  shows "mux_ok_except X (s\<lparr>minput := r\<rparr>)" "mux_ok_except X (s\<lparr>resets := rs\<rparr>)"
    "list_all (\<lambda>(p, payload). p < length (heap s)) sp \<Longrightarrow> mux_ok_except X (s\<lparr>spawned := sp\<rparr>)"
  using assms by (simp_all add: mux_ok_except_def)

lemma handleFrame_ok:
  assumes ok: "mux_ok_except {} s" and op: "\<not> sessClosed s" and h: "handleFrame now f s = (b, s')"
  shows "mux_ok_except {} s'"
proof -
  obtain ty n payload where f: "f = (ty, n, payload)" by (metis surj_pair)
  consider (opn) "ty = muxFrameOpen" | (dat) "ty = muxFrameData" | (cls) "ty = muxFrameClose" | (rst) "ty = muxFrameReset"
    | (oth) "ty \<noteq> muxFrameOpen" "ty \<noteq> muxFrameData" "ty \<noteq> muxFrameClose" "ty \<noteq> muxFrameReset" by blast
  then show ?thesis
  proof cases
    case opn
    show ?thesis
    proof (cases "\<not> hasOnOpen s \<or> n = 0 \<or> getStream n s \<noteq> None")
      case True
      then show ?thesis using h f opn sendReset_ok [OF ok] by (auto simp: handleFrame_def split: if_splits)
    next
      case False
      obtain q t where r: "registerStream (newMuxStream n) s = (q, t)" by (metis surj_pair)
      have t: "mux_ok_except {} t" "q < length (heap t)"
        using register_ok [OF ok newMuxStream_ok(1,2) [of n]] False op newMuxStream_ok(3) [of n] r by auto
      have "s' = t\<lparr>spawned := spawned t @ [(q, payload)]\<rparr>"
        using h f opn False r by (simp add: handleFrame_def)
      moreover have "list_all (\<lambda>(p, payload). p < length (heap t)) (spawned t @ [(q, payload)])"
        using t by (simp add: mux_ok_except_def)
      ultimately show ?thesis using mux_ok_minor(3) [OF t(1)] by blast
    qed
  next
    case dat
    show ?thesis
    proof (cases "getStream n s = None \<or> payload = []")
      case True
      then show ?thesis using h f dat ok by (auto simp: handleFrame_def mux_consts split: option.splits)
    next
      case False
      then obtain p where p: "getStream n s = Some p" "payload \<noteq> []" by auto
      note e = getStream_entry [OF ok p(1)]
      obtain err st where q: "enqueue payload (heap s ! p) = (err, st)" by (metis surj_pair)
      have st: "stream_ok st" "sid st = n" "live (heap s ! p) \<Longrightarrow> live st"
        using enqueue_ok [OF _ p(2) q] e by (auto simp: live_def)
      show ?thesis
      proof (cases err)
        case None
        then show ?thesis using h f dat p q upd_live [OF ok, of p "\<lambda>_. st"] st e by (auto simp: handleFrame_def mux_consts)
      next
        case (Some x)
        have "mux_ok_except {} (removeStream n (updStream p (\<lambda>_. closeNoSend (Some x) st) s))"
          using close_remove_ok [OF ok, of p "\<lambda>_. closeNoSend (Some x) st"] closeNoSend_ok st e by simp
        then show ?thesis using h f dat p q Some mux_ok_minor(2) by (auto simp: handleFrame_def mux_consts)
      qed
    qed
  next
    case cls
    show ?thesis
    proof (cases "getStream n s")
      case None
      then show ?thesis using h f cls ok by (simp add: handleFrame_def mux_consts)
    next
      case (Some p)
      note e = getStream_entry [OF ok Some]
      obtain r st where q: "closeRemoteWrite (heap s ! p) = (r, st)" by (metis surj_pair)
      note c = closeRemoteWrite_ok [OF q conjunct2 [OF conjunct2 [OF e]]]
      show ?thesis
        using h f cls Some q c e upd_live [OF ok, of p "\<lambda>_. st"] close_remove_ok [OF ok, of p "\<lambda>_. st"]
        by (auto simp: handleFrame_def mux_consts Let_def split: if_splits)
    qed
  next
    case rst
    show ?thesis
    proof (cases "getStream n s")
      case None
      then show ?thesis using h f rst ok by (simp add: handleFrame_def mux_consts)
    next
      case (Some p)
      note e = getStream_entry [OF ok Some]
      show ?thesis
        using h f rst Some e close_remove_ok [OF ok, of p "closeNoSend _"] closeNoSend_ok
        by (auto simp: handleFrame_def mux_consts Let_def)
    qed
  next
    case oth
    then show ?thesis using h f closeWithError_ok [OF ok] by (auto simp: handleFrame_def)
  qed
qed

lemma readStep_ok:
  assumes "mux_ok_except {} s" "\<not> sessClosed s" "readStep now s = (b, s')"
  shows "mux_ok_except {} s'"
proof -
  obtain fr r where f: "readFrame (minput s) = (fr, r)" by (metis surj_pair)
  have m: "mux_ok_except {} (s\<lparr>minput := r\<rparr>)" by (rule mux_ok_minor(1) [OF assms(1)])
  show ?thesis
  proof (cases fr)
    case (Inl e)
    then show ?thesis using assms(3) f closeWithError_ok [OF m] by (auto simp: readStep_def)
  next
    case (Inr g)
    then have "handleFrame now g (s\<lparr>minput := r\<rparr>) = (b, s')" using assms(3) f by (simp add: readStep_def)
    then show ?thesis using handleFrame_ok [OF m] assms(2) by simp
  qed
qed

lemma writeData_ok: "mux_ok_except X s \<Longrightarrow> writeData now n p k s = (m, e, s') \<Longrightarrow> mux_ok_except X s'"
proof (induction now n p k s rule: writeData.induct)
  case (1 now n p k s)
  let ?c = "if muxMaxDataPayload < length p then take muxMaxDataPayload p else p"
  obtain e1 s1 where sf: "sendFrame now muxFrameData n ?c s = (e1, s1)" by (metis surj_pair)
  have s1: "mux_ok_except X s1" using sendFrame_ok [OF "1.prems"(1), of now muxFrameData n ?c] sf by simp
  show ?case
  proof (cases "p = [] \<or> e1 \<noteq> None")
    case True
    then show ?thesis using "1.prems" s1 sf by (cases "p = []") (auto simp: writeData.simps)
  next
    case False
    then show ?thesis using "1.IH" [OF _ refl sf [symmetric]] s1 "1.prems"(2) sf by (auto simp: writeData.simps [of now n p] Let_def)
  qed
qed

lemma Stream_Read_ok:
  assumes "Stream_Read n c = Some (r, c')" "stream_ok c"
  shows "stream_ok c' \<and> sid c' = sid c \<and> (live c \<longrightarrow> live c')"
proof (cases "n = 0 \<or> stream_contents c = []")
  case True
  then show ?thesis using assms Stream_Read_empty [OF assms(2), of n] by (cases "n = 0") (auto simp: Stream_Read_def split: if_splits)
next
  case False
  then obtain out d where d: "Stream_Read n c = Some (Inr out, d)" "stream_ok d" "sid d = sid c"
    using Stream_Read_data [OF assms(2)] by blast
  moreover have "localWriteClosed c' = localWriteClosed c \<and> remoteWriteClosed c' = remoteWriteClosed c
      \<and> localReadClosed c' = localReadClosed c \<and> sclosed c' = sclosed c"
    using assms(1) by (auto simp: Stream_Read_def fillReadBuf_def Let_def split: if_splits)
  ultimately show ?thesis using assms(1) by (auto simp: live_def)
qed

lemma cleared_ok:
  "stream_ok (c\<lparr>sclosed := a, localReadClosed := b, localWriteClosed := d, closeErr := e, readBuf := [], queue := [], queuedBytes := 0\<rparr>)"
  "stream_ok (c\<lparr>localReadClosed := b, readBuf := [], queue := [], queuedBytes := 0\<rparr>)"
  "stream_ok c \<Longrightarrow> stream_ok (c\<lparr>localWriteClosed := d\<rparr>)"
  by (simp_all add: stream_ok_def stream_contents_def muxMaxQueuedBytesPerStream_def)

lemma Stream_Close_ok:
  assumes "mux_ok_except {} s" "p < length (heap s)" "Stream_Close now p s = (e, s')"
  shows "mux_ok_except {} s'"
proof (cases "sclosed (heap s ! p)")
  case True
  then show ?thesis using assms(1,3) by (simp add: Stream_Close_def)
next
  case False
  let ?c = "heap s ! p"
  define c1 where "c1 = ?c\<lparr>sclosed := True, localReadClosed := True, localWriteClosed := True,
      closeErr := (case closeErr ?c of None \<Rightarrow> Some ErrClosedPipe | Some e \<Rightarrow> Some e), readBuf := [], queue := [], queuedBytes := 0\<rparr>"
  have u: "mux_ok_except (insert (sid ?c) {}) (updStream p (\<lambda>_. c1) s)"
    by (rule upd_except [OF assms(1,2)]) (simp_all add: c1_def cleared_ok)
  then show ?thesis
    using assms(3) False remove_ok [OF u] remove_ok [OF conjunct1 [OF sendFrame_ok [OF u]]]
    by (auto simp: Stream_Close_def Let_def c1_def [symmetric] split: if_splits)
qed

lemma Stream_CloseWrite_ok:
  assumes "mux_ok_except {} s" "p < length (heap s)" "Stream_CloseWrite now p s = (e, s')"
  shows "mux_ok_except {} s'"
proof (cases "sclosed (heap s ! p) \<or> localWriteClosed (heap s ! p)")
  case True
  then show ?thesis using assms(1,3) by (auto simp: Stream_CloseWrite_def)
next
  case False
  let ?c = "heap s ! p"
  let ?s1 = "updStream p (\<lambda>_. ?c\<lparr>localWriteClosed := True\<rparr>) s"
  obtain err s2 where sf: "sendFrame now muxFrameClose (sid ?c) [] ?s1 = (err, s2)" by (metis surj_pair)
  have ok: "stream_ok (?c\<lparr>localWriteClosed := True\<rparr>)" using cleared_ok(3) stream_at [OF assms(1,2)] by simp
  have s': "s' = (if remoteWriteClosed ?c \<or> localReadClosed ?c then removeStream (sid ?c) s2 else s2)"
    using assms(3) False sf by (simp add: Stream_CloseWrite_def Let_def split: if_splits)
  show ?thesis
  proof (cases "remoteWriteClosed ?c \<or> localReadClosed ?c")
    case True
    have "mux_ok_except (insert (sid ?c) {}) ?s1" by (rule upd_except [OF assms(1,2)]) (simp_all add: ok)
    then show ?thesis using remove_ok sendFrame_ok sf s' True by (metis snd_conv)
  next
    case F: False
    have "mux_ok_except {} ?s1" by (rule upd_live [OF assms(1,2)]) (use ok F in \<open>simp_all add: live_def\<close>)
    then show ?thesis using sendFrame_ok sf s' F by (metis snd_conv)
  qed
qed

lemma Stream_CloseRead_ok:
  assumes "mux_ok_except {} s" "p < length (heap s)" "Stream_CloseRead p s = (e, s')"
  shows "mux_ok_except {} s'"
proof (cases "sclosed (heap s ! p) \<or> localReadClosed (heap s ! p)")
  case True
  then show ?thesis using assms(1,3) by (auto simp: Stream_CloseRead_def)
next
  case False
  let ?c = "heap s ! p" and ?f = "\<lambda>_. (heap s ! p)\<lparr>localReadClosed := True, readBuf := [], queue := [], queuedBytes := 0\<rparr>"
  have s': "s' = (if localWriteClosed ?c then removeStream (sid ?c) (updStream p ?f s) else updStream p ?f s)"
    using assms(3) False by (simp add: Stream_CloseRead_def Let_def split: if_splits)
  show ?thesis
  proof (cases "localWriteClosed ?c")
    case True
    then show ?thesis using s' close_remove_ok [OF assms(1,2), of ?f] cleared_ok by simp
  next
    case F: False
    have "mux_ok_except {} (updStream p ?f s)"
      by (rule upd_live [OF assms(1,2)]) (use F in \<open>simp_all add: live_def cleared_ok\<close>)
    then show ?thesis using s' F by simp
  qed
qed

lemma nextStreamID_ok:
  assumes "mux_ok_except X s" "nextStreamID s = (n, s1)"
  shows "mux_ok_except X s1 \<and> n \<noteq> 0 \<and> heap s1 = heap s \<and> sessClosed s1 = sessClosed s"
proof -
  have "mux_ok_except X (s\<lparr>nextID := k\<rparr>)" for k using assms(1) by (simp add: mux_ok_except_def)
  then show ?thesis using assms(2) by (auto simp: nextStreamID_def Let_def split: if_splits)
qed

lemma Dial_ok:
  assumes "mux_ok_except {} s" "MuxClient_Dial now addr s = (d, s')"
  shows "mux_ok_except {} s'"
proof (cases "sessClosed s \<or> fst (WriteAddress \<lparr>sent = [], script = []\<rparr> addr) \<noteq> None")
  case True
  then show ?thesis using assms by (auto simp: MuxClient_Dial_def split: prod.splits option.splits if_splits)
next
  case False
  obtain b where w: "WriteAddress \<lparr>sent = [], script = []\<rparr> addr = (None, b)" using False by (metis prod.collapse)
  obtain n s1 where n: "nextStreamID s = (n, s1)" by (metis surj_pair)
  obtain p s2 where r: "registerStream (newMuxStream n) s1 = (p, s2)" by (metis surj_pair)
  obtain e s3 where sf: "sendFrame now muxFrameOpen n (sent b) s2 = (e, s3)" by (metis surj_pair)
  note n1 = nextStreamID_ok [OF assms(1) n]
  have s2: "mux_ok_except {} s2" "p < length (heap s2)" "sid (heap s2 ! p) = n"
    using register_ok [of "{}" s1 "newMuxStream n"] n1 newMuxStream_ok [of n] r False
    by (auto simp: registerStream_def nth_append)
  have s3: "mux_ok_except {} s3" "map sid (heap s3) = map sid (heap s2)" using sendFrame_ok [OF s2(1)] sf by (metis snd_conv)+
  note p3 = same_sid [OF s3(2) s2(2)]
  show ?thesis
  proof (cases e)
    case None
    then show ?thesis using assms(2) False w n r sf s3 by (simp add: MuxClient_Dial_def)
  next
    case (Some x)
    have "mux_ok_except {} (removeStream n (updStream p (closeNoSend (Some x)) s3))"
      using close_remove_ok [OF s3(1), of p "closeNoSend (Some x)"] p3 s2(3) closeNoSend_ok stream_at [OF s3(1)] by simp
    then show ?thesis using assms(2) False w n r sf Some by (simp add: MuxClient_Dial_def)
  qed
qed

lemma muxOnOpen_ok:
  assumes "mux_ok_except {} s" "p < length (heap s)" "muxOnOpen dial now p payload s = (r, s')"
  shows "mux_ok_except {} s'"
proof -
  have refuse: "mux_ok_except {} (removeStream (sid (heap s ! p)) (updStream p (closeNoSend (Some e)) (sendReset now (sid (heap s ! p)) msg s)))" for msg e
  proof -
    let ?t = "sendReset now (sid (heap s ! p)) msg s"
    have t: "mux_ok_except {} ?t" "p < length (heap ?t)" "sid (heap ?t ! p) = sid (heap s ! p)"
      using sendReset_ok [OF assms(1)] same_sid [of ?t s p] assms(2) by auto
    show ?thesis using close_remove_ok [OF t(1,2), of "closeNoSend (Some e)"] closeNoSend_ok stream_at [OF t(1,2)] t(3) by simp
  qed
  show ?thesis using assms(1,3) refuse by (auto simp: muxOnOpen_def Let_def split: sum.splits option.splits)
qed

lemma mux_step_ok: "mux_step s s' \<Longrightarrow> mux_ok s \<Longrightarrow> mux_ok s'"
  unfolding mux_ok_def
proof (induction rule: mux_step.induct)
  case (Demux s now b s') then show ?case using readStep_ok by blast
next
  case (OnOpen s p payload rest dial now r s')
  have "mux_ok_except {} (s\<lparr>spawned := rest\<rparr>)" "p < length (heap s)" using OnOpen by (auto simp: mux_ok_except_def)
  then show ?case using muxOnOpen_ok [OF _ _ OnOpen(2)] by simp
next
  case (AsyncReset s n msg rest now)
  then show ?case using sendReset_ok mux_ok_minor(2) by blast
next
  case (Keepalive now interval s b s')
  then show ?case using sendFrame_ok [OF Keepalive(2), of now muxFrameData 0 "[]"]
    by (auto simp: keepaliveTick_def split: if_splits prod.splits option.splits)
next
  case (ReadS p s n r s')
  then obtain st where "Stream_Read n (heap s ! p) = Some (r, st)" "s' = updStream p (\<lambda>_. st) s"
    by (auto simp: Stream_readOp_def)
  then show ?case using Stream_Read_ok [of n "heap s ! p" r st] stream_at [OF ReadS(3,1)] upd_live [OF ReadS(3,1), of "\<lambda>_. st"] by simp
next
  case (WriteS p s now b k e s')
  then show ?case using writeData_ok [OF WriteS(3)] by (auto simp: Stream_Write_def split: if_splits)
next
  case (CloseS p s now e s') then show ?case using Stream_Close_ok by blast
next
  case (CloseWriteS p s now e s') then show ?case using Stream_CloseWrite_ok by blast
next
  case (CloseReadS p s e s') then show ?case using Stream_CloseRead_ok by blast
next
  case (Dial now addr s d s') then show ?case using Dial_ok by blast
next
  case (CloseSession s e s') then show ?case using closeWithError_ok by (auto simp: MuxClient_Close_def)
qed

lemma mux_ok_new: "mux_ok (newMuxSession r w onOpen now)"
  by (simp add: mux_ok_def mux_ok_except_def newMuxSession_def)

lemma reachable_ok: "reachable s0 s \<Longrightarrow> mux_ok s0 \<Longrightarrow> mux_ok s"
  by (induction rule: reachable.induct) (auto intro: mux_step_ok)

end
