(* ===== verification/MuxDelivery.thy ===== *)
theory MuxDelivery
  imports MuxInv
begin

text \<open>
  Delivery over a mux session: the frame format, the frames a stream's write sends, and what the
  demultiplexing loop of the peer makes of them.
\<close>

section \<open>The frame format\<close>

definition frame_valid :: "mux_frame \<Rightarrow> bool" where
  "frame_valid f \<longleftrightarrow> length (snd (snd f)) \<le> muxMaxFrameSize"

lemma muxHeader_parts:
  "length (muxHeader ty n p) = 9" "muxHeader ty n p ! 0 = ty" "Uint32 (drop (Suc 0) (muxHeader ty n p)) = n"
  "drop 5 (muxHeader ty n p) = PutUint32 (of_nat (length p))"
  by (simp_all add: muxHeader_def)

lemma readFrame_wire:
  assumes "frame_valid f"
  shows "readFrame (r\<lparr>rdata := frame_wire f @ rest\<rparr>) = (Inr f, r\<lparr>rdata := rest\<rparr>)"
proof -
  obtain ty n p where f: "f = (ty, n, p)" by (metis surj_pair)
  have l: "length p \<le> 262144" using assms f by (simp add: frame_valid_def mux_consts)
  have u: "unat (of_nat (length p) :: u32) = length p" using l by simp
  have h: "ReadFull 9 (r\<lparr>rdata := muxHeader ty n p @ p @ rest\<rparr>) = (Inr (muxHeader ty n p), r\<lparr>rdata := p @ rest\<rparr>)"
    by (rule ReadFull_append) (simp add: muxHeader_parts)
  have d: "ReadFull (length p) (r\<lparr>rdata := p @ rest\<rparr>) = (Inr p, r\<lparr>rdata := rest\<rparr>)" by (rule ReadFull_append) simp
  have "\<not> (262144 :: u32) < of_nat (length p)" using l u by (simp add: word_less_nat_alt)
  then show ?thesis using f h d u l by (simp add: readFrame_def frame_wire_def muxHeader_parts mux_consts Let_def)
qed

interpretation mux_frames: framing frame_wire frame_valid readFrame
  by unfold_locales (simp_all add: readFrame_wire, simp add: readFrame_def ReadFull_def mux_consts)

section \<open>What a write sends\<close>

lemma sendFrame_open:
  assumes "\<not> sessClosed s" "script (moutput s) = []" "length p \<le> muxMaxFrameSize"
  shows "sendFrame now ty n p s =
    (None, s\<lparr>moutput := (moutput s)\<lparr>sent := sent (moutput s) @ frame_wire (ty, n, p)\<rparr>, lastWrite := now\<rparr>)"
  using assms by (simp add: sendFrame_def writeFull_open frame_wire_def)

lemma writeData_frames:
  assumes "\<not> sessClosed s" "script (moutput s) = []"
  shows "\<exists>chunks s'. writeData now n b k s = (k + length b, None, s') \<and> concat chunks = b
    \<and> list_all (\<lambda>c. c \<noteq> [] \<and> length c \<le> muxMaxDataPayload) chunks
    \<and> sent (moutput s') = sent (moutput s) @ concat (map (\<lambda>c. frame_wire (muxFrameData, n, c)) chunks)"
  using assms
proof (induction "length b" arbitrary: b k s rule: less_induct)
  case less
  show ?case
  proof (cases "b = []")
    case True
    then show ?thesis by (intro exI [of _ "[]"]) (simp add: writeData.simps)
  next
    case False
    define c where "c = take muxMaxDataPayload b"
    have c: "c \<noteq> []" "length c \<le> muxMaxDataPayload" "(if muxMaxDataPayload < length b then take muxMaxDataPayload b else b) = c"
      "drop (length c) b = drop muxMaxDataPayload b" "length c + length (drop muxMaxDataPayload b) = length b" "c @ drop muxMaxDataPayload b = b"
      using False by (auto simp: c_def mux_consts min_def)
    let ?s = "s\<lparr>moutput := (moutput s)\<lparr>sent := sent (moutput s) @ frame_wire (muxFrameData, n, c)\<rparr>, lastWrite := now\<rparr>"
    have "sendFrame now muxFrameData n c s = (None, ?s)"
      using sendFrame_open [OF less.prems, of c] c(2) by (simp add: mux_consts)
    then have w: "writeData now n b k s = writeData now n (drop muxMaxDataPayload b) (k + length c) ?s"
      using False c(3,4) by (simp add: writeData.simps [of now n b] Let_def)
    have "length (drop muxMaxDataPayload b) < length b" using False by (simp add: mux_consts)
    from less.hyps [OF this, of ?s "k + length c"] less.prems obtain chunks s' where
      "writeData now n (drop muxMaxDataPayload b) (k + length c) ?s = (k + length c + length (drop muxMaxDataPayload b), None, s')"
      "concat chunks = drop muxMaxDataPayload b" "list_all (\<lambda>c. c \<noteq> [] \<and> length c \<le> muxMaxDataPayload) chunks"
      "sent (moutput s') = sent (moutput ?s) @ concat (map (\<lambda>c. frame_wire (muxFrameData, n, c)) chunks)" by auto
    then show ?thesis using w c by (intro exI [of _ "c # chunks"] exI [of _ s']) (simp add: add.assoc)
  qed
qed

section \<open>What the demultiplexing loop delivers\<close>

text \<open>A frame of another stream, of a known type, touches neither the stream nor its entry.\<close>

lemma handleFrame_isolated:
  assumes ok: "mux_ok s" and op: "\<not> sessClosed s" "script (moutput s) = []" and p: "getStream n s = Some p"
    and f: "f = (ty, m, b)" "m \<noteq> n" "ty \<in> {muxFrameOpen, muxFrameData, muxFrameClose, muxFrameReset}"
  shows "\<exists>s'. handleFrame now f s = (True, s') \<and> \<not> sessClosed s' \<and> script (moutput s') = [] \<and> getStream n s' = Some p
    \<and> heap s' ! p = heap s ! p"
proof -
  note e = getStream_entry [OF ok [unfolded mux_ok_def] p]
  have other: "q \<noteq> p" if "getStream m s = Some q" for q
    using getStream_entry [OF ok [unfolded mux_ok_def] that] e f(2) by auto
  have rst: "\<exists>s'. sendReset now m msg s = s' \<and> \<not> sessClosed s' \<and> script (moutput s') = [] \<and> getStream n s' = Some p \<and> heap s' ! p = heap s ! p"
    if "length msg \<le> 100" for msg
    using that op p by (simp add: sendReset_def sendFrame_open mux_consts getStream_def Let_def)
  show ?thesis
    using f(3)
  proof (elim insertE)
    assume "ty = muxFrameOpen"
    then show ?thesis
      using f e op p f(2) rst [of "''unexpected open''"] rst [of "''invalid stream id''"] rst [of "''stream already exists''"]
      by (auto simp: handleFrame_def registerStream_def newMuxStream_def getStream_def nth_append update_conv')
  next
    assume "ty = muxFrameData"
    then show ?thesis
      using f e op p other
      by (auto simp: handleFrame_def mux_consts getStream_def updStream_def removeStream_def delete_conv' split: option.splits prod.splits)
  next
    assume "ty = muxFrameClose"
    then show ?thesis
      using f e op p other
      by (auto simp: handleFrame_def mux_consts getStream_def updStream_def removeStream_def delete_conv' Let_def split: option.splits prod.splits)
  next
    assume "ty = muxFrameReset"
    then show ?thesis
      using f e op p other
      by (auto simp: handleFrame_def mux_consts getStream_def updStream_def removeStream_def delete_conv' Let_def split: option.splits prod.splits)
  qed simp
qed

lemma handleFrame_data:
  assumes ok: "mux_ok s" and p: "getStream n s = Some p" and st: "stream_open (heap s ! p)" "b \<noteq> []"
    and room: "queuedBytes (heap s ! p) + int (length b) \<le> muxMaxQueuedBytesPerStream"
  shows "\<exists>s'. handleFrame now (muxFrameData, n, b) s = (True, s') \<and> sessClosed s' = sessClosed s \<and> moutput s' = moutput s
    \<and> getStream n s' = Some p \<and> stream_open (heap s' ! p) \<and> closeErr (heap s' ! p) = closeErr (heap s ! p)
    \<and> stream_contents (heap s' ! p) = stream_contents (heap s ! p) @ b
    \<and> queuedBytes (heap s' ! p) = queuedBytes (heap s ! p) + int (length b)"
proof -
  note e = getStream_entry [OF ok [unfolded mux_ok_def] p]
  obtain err c where q: "enqueue b (heap s ! p) = (err, c)" by (metis surj_pair)
  have "err = None" "queuedBytes c = queuedBytes (heap s ! p) + int (length b)"
    using q st room by (auto simp: enqueue_def stream_open_def Let_def split: if_splits)
  then show ?thesis
    using enqueue_ok [OF _ st(2) q] q p st e
    by (auto simp: handleFrame_def mux_consts updStream_def getStream_def stream_open_def)
qed

lemma fold_closeNoSend_at:
  "p < length (heap s) \<Longrightarrow> heap (foldl (\<lambda>t (n, p). updStream p (closeNoSend e) t) s es) ! p =
    (if p \<in> snd ` set es then closeNoSend e (heap s ! p) else heap s ! p)"
proof (induction es arbitrary: s)
  case (Cons x es)
  have idem: "closeNoSend e (closeNoSend e c) = closeNoSend e c" for c by (simp add: closeNoSend_def Let_def)
  obtain n q where x: "x = (n, q)" by (metis surj_pair)
  have "p < length (heap (updStream q (closeNoSend e) s))" using Cons.prems by (simp add: updStream_def)
  note ih = Cons.IH [OF this]
  have at: "heap (updStream q (closeNoSend e) s) ! p = (if p = q then closeNoSend e (heap s ! p) else heap s ! p)"
    using Cons.prems by (simp add: updStream_def)
  show ?case using ih [unfolded at] idem by (cases "p = q") (simp_all add: x)
qed simp

lemma closeWithError_at:
  assumes "mux_ok s" "getStream n s = Some p" "\<not> sessClosed s"
  shows "heap (closeWithError (Some e) s) ! p = closeNoSend (Some e) (heap s ! p)"
proof -
  have "(n, p) \<in> set (streams s)" using assms(2) by (simp add: getStream_def map_of_SomeD)
  then have "p \<in> snd ` set (streams s)" by force
  then show ?thesis
    using getStream_entry [OF assms(1) [unfolded mux_ok_def] assms(2)] assms(3)
    by (simp add: closeWithError_def fold_closeNoSend_at Let_def)
qed

text \<open>The payloads addressed to a stream.\<close>

definition payloads_of :: "u32 \<Rightarrow> mux_frame list \<Rightarrow> bytes list" where
  "payloads_of n fs = map (\<lambda>(ty, m, b). b) (filter (\<lambda>(ty, m, b). m = n) fs)"

definition deliverable :: "u32 \<Rightarrow> mux_frame \<Rightarrow> bool" where
  "deliverable n f \<longleftrightarrow> frame_valid f \<and> fst f \<in> {muxFrameOpen, muxFrameData, muxFrameClose, muxFrameReset}
    \<and> (fst (snd f) = n \<longrightarrow> fst f = muxFrameData \<and> snd (snd f) \<noteq> [])"

lemma muxReadLoop_delivers:
  assumes "mux_ok s" "\<not> sessClosed s" "script (moutput s) = []" "getStream n s = Some p" "stream_open (heap s ! p)"
    and "closeErr (heap s ! p) = None" "list_all (deliverable n) fs"
    and "queuedBytes (heap s ! p) + int (length (concat (payloads_of n fs))) \<le> muxMaxQueuedBytesPerStream"
    and "minput s = reader_of (concat (map frame_wire fs))"
  shows "stream_contents (heap (muxReadLoop clock k s) ! p) = stream_contents (heap s ! p) @ concat (payloads_of n fs)
    \<and> sclosed (heap (muxReadLoop clock k s) ! p) \<and> closeErr (heap (muxReadLoop clock k s) ! p) = Some EOF"
  using assms
proof (induction fs arbitrary: s k)
  case Nil
  have "readFrame (minput s) = (Inl EOF, minput s)"
    using Nil.prems(9) by (simp add: readFrame_def reader_of_def ReadFull_def mux_consts)
  then have "muxReadLoop clock k s = closeWithError (Some EOF) s"
    by (cases s) (simp add: muxReadLoop.simps [of clock k s] readStep_def muxReadLoop.simps)
  moreover have "\<not> sclosed (heap s ! p)" using Nil.prems(5) by (simp add: stream_open_def)
  ultimately show ?case using closeWithError_at [OF Nil.prems(1,4,2)] Nil.prems(6)
    by (simp add: closeNoSend_def payloads_of_def stream_contents_def)
next
  case (Cons f fs)
  obtain ty m b where f: "f = (ty, m, b)" by (metis surj_pair)
  let ?s = "s\<lparr>minput := reader_of (concat (map frame_wire fs))\<rparr>"
  have rf: "readFrame (minput s) = (Inr f, reader_of (concat (map frame_wire fs)))"
    using readFrame_wire [of f "concat (map frame_wire fs)" "reader_of []"] Cons.prems(7,9) by (simp add: deliverable_def reader_of_def)
  have ok: "mux_ok ?s" using Cons.prems(1) mux_ok_minor(1) by (simp add: mux_ok_def)
  have fields: "\<not> sessClosed ?s" "script (moutput ?s) = []" "getStream n ?s = Some p" "heap ?s = heap s"
    using Cons.prems by (simp_all add: getStream_def)
  have known: "ty \<in> {muxFrameOpen, muxFrameData, muxFrameClose, muxFrameReset}" using Cons.prems(7) f by (simp add: deliverable_def)
  have "\<exists>s'. handleFrame (clock k) f ?s = (True, s') \<and> \<not> sessClosed s' \<and> script (moutput s') = [] \<and> getStream n s' = Some p
      \<and> stream_open (heap s' ! p) \<and> closeErr (heap s' ! p) = None
      \<and> stream_contents (heap s' ! p) = stream_contents (heap s ! p) @ (if m = n then b else [])
      \<and> queuedBytes (heap s' ! p) = queuedBytes (heap s ! p) + (if m = n then int (length b) else 0)"
  proof (cases "m = n")
    case True
    have d: "ty = muxFrameData" "b \<noteq> []" using Cons.prems(7) f True by (simp_all add: deliverable_def)
    have "queuedBytes (heap ?s ! p) + int (length b) \<le> muxMaxQueuedBytesPerStream"
      using Cons.prems(8) f True by (simp add: payloads_of_def)
    from handleFrame_data [OF ok fields(3) _ d(2) this, of "clock k"] show ?thesis
      using Cons.prems(2,3,5,6) f d(1) True by auto
  next
    case False
    from handleFrame_isolated [OF ok fields(1,2,3) f False known, of "clock k"] show ?thesis
      using Cons.prems(5,6) False by auto
  qed
  then obtain s' where s': "handleFrame (clock k) f ?s = (True, s')" "\<not> sessClosed s'" "script (moutput s') = []" "getStream n s' = Some p"
      "stream_open (heap s' ! p)" "closeErr (heap s' ! p) = None"
      "stream_contents (heap s' ! p) = stream_contents (heap s ! p) @ (if m = n then b else [])"
      "queuedBytes (heap s' ! p) = queuedBytes (heap s ! p) + (if m = n then int (length b) else 0)" by blast
  have "readStep (clock k) s = (True, s')" using rf s'(1) by (simp add: readStep_def)
  then have loop: "muxReadLoop clock k s = muxReadLoop clock (Suc k) s'" by (simp add: muxReadLoop.simps [of clock k s])
  have ok': "mux_ok s'" using handleFrame_ok ok fields(1) s'(1) by (auto simp: mux_ok_def)
  have inp: "minput s' = reader_of (concat (map frame_wire fs))" using handleFrame_minput [of "clock k" f ?s] s'(1) by simp
  have room: "queuedBytes (heap s' ! p) + int (length (concat (payloads_of n fs))) \<le> muxMaxQueuedBytesPerStream"
    using Cons.prems(8) s'(8) f by (simp add: payloads_of_def split: if_splits)
  have "list_all (deliverable n) fs" using Cons.prems(7) by simp
  from Cons.IH [OF ok' s'(2,3,4,5,6) this room inp] show ?case
    unfolding loop using s'(7) f by (simp add: payloads_of_def)
qed

section \<open>Properties\<close>



text \<open>
  Property C13: delivery. The bytes written to a stream travel in data frames of at most 128 KiB; when the
  peer's loop receives them in this order, interleaved with frames of any other streams (opens, data, closes
  and resets), its stream of that id ends up with exactly these bytes appended, as long as they fit the
  queue, and then reports the end of the connection.
\<close>

theorem mux_delivery:
  assumes "\<not> sessClosed a" "script (moutput a) = []" "sid (heap a ! q) = n" "live (heap a ! q)" "\<not> localWriteClosed (heap a ! q)"
    and "mux_ok s" "\<not> sessClosed s" "script (moutput s) = []" "getStream n s = Some p" "stream_open (heap s ! p)" "closeErr (heap s ! p) = None"
    and "queuedBytes (heap s ! p) + int (length b) \<le> muxMaxQueuedBytesPerStream"
  shows "\<exists>chunks a'. Stream_Write now q b a = (length b, None, a')
    \<and> sent (moutput a') = sent (moutput a) @ concat (map (\<lambda>c. frame_wire (muxFrameData, n, c)) chunks)
    \<and> list_all (\<lambda>c. length c \<le> muxMaxDataPayload) chunks
    \<and> (\<forall>fs. list_all (deliverable n) fs \<longrightarrow> payloads_of n fs = chunks \<longrightarrow> minput s = reader_of (concat (map frame_wire fs)) \<longrightarrow>
         stream_contents (heap (muxReadLoop clock k s) ! p) = stream_contents (heap s ! p) @ b
         \<and> closeErr (heap (muxReadLoop clock k s) ! p) = Some EOF)"
proof -
  obtain chunks a' where c: "writeData now n b 0 a = (0 + length b, None, a')" "concat chunks = b"
    "list_all (\<lambda>c. c \<noteq> [] \<and> length c \<le> muxMaxDataPayload) chunks"
    "sent (moutput a') = sent (moutput a) @ concat (map (\<lambda>c. frame_wire (muxFrameData, n, c)) chunks)"
    using writeData_frames [OF assms(1,2)] by blast
  have "Stream_Write now q b a = (length b, None, a')"
    using c(1) assms(1,3,4,5) by (auto simp: Stream_Write_def live_def split: if_splits)
  moreover have "stream_contents (heap (muxReadLoop clock k s) ! p) = stream_contents (heap s ! p) @ b
      \<and> closeErr (heap (muxReadLoop clock k s) ! p) = Some EOF"
    if "list_all (deliverable n) fs" "payloads_of n fs = chunks" "minput s = reader_of (concat (map frame_wire fs))" for fs
    using muxReadLoop_delivers [OF assms(6-11) that(1) _ that(3), of clock k] assms(12) c(2) that(2) by simp
  ultimately show ?thesis using c(3,4)
    by (intro exI [of _ chunks] exI [of _ a']) (auto simp: list_all_iff)
qed

definition demo_session :: muxSession where
  "demo_session = snd (registerStream (newMuxStream 5) (newMuxSession (reader_of []) \<lparr>sent = [], script = []\<rparr> True 0))"

lemma demo_session_fields:
  "\<not> sessClosed demo_session" "script (moutput demo_session) = []" "heap demo_session = [newMuxStream 5]" "getStream 5 demo_session = Some 0"
  "mux_ok demo_session"
proof -
  show "mux_ok demo_session"
    unfolding demo_session_def mux_ok_def
    by (rule conjunct1 [OF register_ok]) (use mux_ok_new newMuxStream_ok in \<open>simp_all add: mux_ok_def newMuxSession_def\<close>)
qed (simp_all add: demo_session_def registerStream_def newMuxSession_def getStream_def newMuxStream_def)

theorem mux_delivery_witness:
  "\<exists>chunks a'. Stream_Write 0 0 [1, 2, 3] demo_session = (3, None, a')
    \<and> sent (moutput a') = concat (map (\<lambda>c. frame_wire (muxFrameData, 5, c)) chunks)"
proof -
  have "sid (newMuxStream 5) = 5" "live (newMuxStream 5)" "\<not> localWriteClosed (newMuxStream 5)" "stream_open (newMuxStream 5)"
    "closeErr (newMuxStream 5) = None" "queuedBytes (newMuxStream 5) = 0" "sent (moutput demo_session) = []"
    by (simp_all add: newMuxStream_def live_def stream_open_def demo_session_def registerStream_def newMuxSession_def)
  then show ?thesis
    using mux_delivery [of demo_session 0 5 demo_session 0 "[1, 2, 3]" 0 "\<lambda>_. 0" 0] demo_session_fields
    by (auto simp: muxMaxQueuedBytesPerStream_def)
qed

end
