(* ===== verification/GeoRanges.thy ===== *)
theory GeoRanges
  imports GoNet
begin

text \<open>
  Address ranges of the rule sets (\<open>pkg/geodata/manager.go\<close>): merging sorted ranges and looking an address up with
  \<open>sort.Search\<close>, for IPv4 (32-bit words) and IPv6 (16 bytes). What both share is the locale \<open>range_merge\<close>. The order
  \<open>sort.Slice\<close> leaves among equal starts is not specified, so the sort is a parameter.
\<close>

section \<open>Binary search\<close>

text \<open>The loop of \<open>sort.Search\<close>: the least index of \<open>[i, j)\<close> where a monotone predicate holds, or \<open>j\<close>.\<close>

function searchLoop :: "(nat \<Rightarrow> bool) \<Rightarrow> nat \<Rightarrow> nat \<Rightarrow> nat" where
  "searchLoop f i j =
    (if i < j then
       let h = (i + j) div 2
       in if \<not> f h then searchLoop f (h + 1) j else searchLoop f i h
     else i)"
  by pat_completeness auto
termination by (relation "measure (\<lambda>(f, i, j). j - i)") auto

declare searchLoop.simps [simp del]

definition Search :: "nat \<Rightarrow> (nat \<Rightarrow> bool) \<Rightarrow> nat" where
  "Search n f = searchLoop f 0 n"

lemma searchLoop_least:
  assumes "i \<le> j" "\<And>k l. k \<le> l \<Longrightarrow> l < j \<Longrightarrow> f k \<Longrightarrow> f l" "\<And>k. k < i \<Longrightarrow> \<not> f k"
  shows "searchLoop f i j \<le> j \<and> (\<forall>k < searchLoop f i j. \<not> f k) \<and> (searchLoop f i j < j \<longrightarrow> f (searchLoop f i j))"
  using assms
proof (induction f i j rule: searchLoop.induct)
  case (1 f i j)
  define h where "h = (i + j) div 2"
  show ?case
  proof (cases "i < j")
    case True
    then have h: "i \<le> h" "h < j" by (auto simp: h_def)
    show ?thesis
    proof (cases "f h")
      case False
      have "searchLoop f (h + 1) j \<le> j \<and> (\<forall>k < searchLoop f (h + 1) j. \<not> f k) \<and> (searchLoop f (h + 1) j < j \<longrightarrow> f (searchLoop f (h + 1) j))"
      proof (rule 1(1) [OF True h_def False])
        show "h + 1 \<le> j" using h(2) by simp
        show "f k \<Longrightarrow> f l" if "k \<le> l" "l < j" for k l using 1(4) [OF that] .
        show "\<not> f k" if "k < h + 1" for k using 1(4) [of k h] False h(2) that by linarith
      qed
      moreover have "searchLoop f i j = searchLoop f (h + 1) j"
        using True False by (simp add: searchLoop.simps [of f i j] Let_def h_def)
      ultimately show ?thesis by simp
    next
      case fh: True
      have "searchLoop f i h \<le> h \<and> (\<forall>k < searchLoop f i h. \<not> f k) \<and> (searchLoop f i h < h \<longrightarrow> f (searchLoop f i h))"
      proof (rule 1(2) [OF True h_def _ h(1)])
        show "\<not> \<not> f h" using fh by simp
        show "f k \<Longrightarrow> f l" if "k \<le> l" "l < h" for k l using 1(4) [OF that(1)] that(2) h(2) by simp
        show "\<not> f k" if "k < i" for k using 1(5) that .
      qed
      moreover have "searchLoop f i j = searchLoop f i h"
        using True fh by (simp add: searchLoop.simps [of f i j] Let_def h_def)
      ultimately show ?thesis using h fh by (metis le_neq_implies_less less_imp_le order_le_less_trans)
    qed
  next
    case False
    then have "searchLoop f i j = i" "i = j" using 1(3) searchLoop.simps [of f i j] by simp_all
    then show ?thesis using 1(5) by auto
  qed
qed

lemma Search_least:
  assumes "\<And>k l. k \<le> l \<Longrightarrow> l < n \<Longrightarrow> f k \<Longrightarrow> f l"
  shows "Search n f \<le> n" "k < Search n f \<Longrightarrow> \<not> f k" "Search n f < n \<Longrightarrow> f (Search n f)"
  using searchLoop_least [of 0 n f, OF _ assms] by (auto simp: Search_def)

section \<open>Merging and looking up\<close>

text \<open>
  What a merge relies on: the bounds of a range as numbers, when two ranges are joined, what the joined range is, and for which
  pairs the test of the code is right. The lookup needs only that starts and ends ascend together.
\<close>

locale range_merge =
  fixes lo hi :: "'r \<Rightarrow> nat"
    and valid :: "'r \<Rightarrow> bool"
    and compat joins :: "'r \<Rightarrow> 'r \<Rightarrow> bool"
    and extend :: "'r \<Rightarrow> 'r \<Rightarrow> 'r"
    and mergeLoop :: "'r \<Rightarrow> 'r list \<Rightarrow> 'r list"
  assumes merge_nil: "mergeLoop c [] = [c]"
    and merge_cons: "mergeLoop c (n # ns) = (if joins c n then mergeLoop (extend c n) ns else c # mergeLoop n ns)"
    and valid_le: "valid r \<Longrightarrow> lo r \<le> hi r"
    and extend_ok: "joins c n \<Longrightarrow> valid c \<Longrightarrow> valid n \<Longrightarrow> lo c \<le> lo n
      \<Longrightarrow> valid (extend c n) \<and> lo (extend c n) = lo c \<and> hi (extend c n) = max (hi c) (hi n)"
    and joins_touch: "joins c n \<Longrightarrow> valid c \<Longrightarrow> valid n \<Longrightarrow> lo c \<le> lo n \<Longrightarrow> lo n \<le> Suc (hi c)"
    and apart: "\<not> joins c n \<Longrightarrow> valid c \<Longrightarrow> valid n \<Longrightarrow> lo c \<le> lo n \<Longrightarrow> compat c n \<Longrightarrow> hi c \<le> hi n"
    and compat_extend: "joins c n \<Longrightarrow> valid c \<Longrightarrow> valid n \<Longrightarrow> lo c \<le> lo n \<Longrightarrow> lo n \<le> lo m \<Longrightarrow> compat c m \<Longrightarrow> compat n m
      \<Longrightarrow> compat (extend c n) m"
begin

definition covers :: "'r list \<Rightarrow> nat \<Rightarrow> bool" where
  "covers rs k \<longleftrightarrow> (\<exists>r \<in> set rs. lo r \<le> k \<and> k \<le> hi r)"

definition ascending :: "'r list \<Rightarrow> bool" where
  "ascending rs \<longleftrightarrow> sorted_wrt (\<lambda>a b. lo a \<le> lo b \<and> hi a \<le> hi b) rs"

lemma mergeLoop_correct:
  assumes "sorted_wrt (\<lambda>a b. lo a \<le> lo b \<and> compat a b) (c # ns)" "\<forall>r \<in> set (c # ns). valid r"
  shows "ascending (mergeLoop c ns) \<and> (\<forall>k. covers (mergeLoop c ns) k = covers (c # ns) k)
    \<and> (\<forall>r \<in> set (mergeLoop c ns). lo c \<le> lo r \<and> hi c \<le> hi r)"
  using assms
proof (induction ns arbitrary: c)
  case Nil then show ?case by (simp add: merge_nil ascending_def covers_def)
next
  case (Cons n ns)
  have v: "valid c" "valid n" "lo c \<le> lo n" "compat c n" using Cons.prems by auto
  show ?case
  proof (cases "joins c n")
    case True
    note e = extend_ok [OF True v(1-3)]
    have "\<forall>m \<in> set ns. compat (extend c n) m" using compat_extend [OF True v(1-3)] Cons.prems(1) by auto
    then have "sorted_wrt (\<lambda>a b. lo a \<le> lo b \<and> compat a b) (extend c n # ns)" using Cons.prems(1) e by auto
    note IH = Cons.IH [OF this]
    have "lo n \<le> Suc (hi c)" by (rule joins_touch [OF True v(1-3)])
    then have "covers (extend c n # ns) k = covers (c # n # ns) k" for k
      using e v(3) valid_le [OF v(1)] by (auto simp: covers_def le_max_iff_disj)
    then show ?thesis using IH e Cons.prems(2) True by (simp add: merge_cons)
  next
    case False
    have le: "hi c \<le> hi n" by (rule apart [OF False v])
    have IH: "ascending (mergeLoop n ns)" "covers (mergeLoop n ns) k = covers (n # ns) k"
      "\<forall>r \<in> set (mergeLoop n ns). lo n \<le> lo r \<and> hi n \<le> hi r" for k
      using Cons.IH [of n] Cons.prems by auto
    have "\<forall>r \<in> set (mergeLoop n ns). lo c \<le> lo r \<and> hi c \<le> hi r" using IH(3) v(3) le by fastforce
    then show ?thesis using IH False by (auto simp: merge_cons ascending_def covers_def)
  qed
qed

lemma lookup_correct:
  assumes "ascending rs"
  shows "(Search (length rs) (\<lambda>i. k \<le> hi (rs ! i)) < length rs \<and> lo (rs ! Search (length rs) (\<lambda>i. k \<le> hi (rs ! i))) \<le> k) \<longleftrightarrow> covers rs k"
proof -
  define s where "s = Search (length rs) (\<lambda>i. k \<le> hi (rs ! i))"
  have mono: "k \<le> hi (rs ! l)" if "i \<le> l" "l < length rs" "k \<le> hi (rs ! i)" for i l
    using assms that unfolding ascending_def sorted_wrt_iff_nth_less by (metis le_neq_implies_less le_trans)
  have S: "i < s \<Longrightarrow> \<not> k \<le> hi (rs ! i)" "s < length rs \<Longrightarrow> k \<le> hi (rs ! s)" for i
    using Search_least(2,3) [of "length rs" "\<lambda>i. k \<le> hi (rs ! i)"] mono unfolding s_def by blast+
  have "s < length rs \<and> lo (rs ! s) \<le> k" if c: "covers rs k"
  proof -
    obtain j where j: "j < length rs" "lo (rs ! j) \<le> k" "k \<le> hi (rs ! j)" using c unfolding covers_def Bex_def in_set_conv_nth by blast
    then have "s \<le> j" using S(1) by (metis linorder_not_less)
    moreover have "lo (rs ! s) \<le> lo (rs ! j)" if "s < j"
      using assms that j(1) unfolding ascending_def sorted_wrt_iff_nth_less by blast
    ultimately show ?thesis using j by (metis le_neq_implies_less le_trans order_le_less_trans)
  qed
  moreover have "covers rs k" if "s < length rs" "lo (rs ! s) \<le> k"
    using S(2) that nth_mem unfolding covers_def by blast
  ultimately show ?thesis unfolding s_def by blast
qed

lemma merged_lookup:
  assumes "sorted_wrt (\<lambda>a b. lo a \<le> lo b \<and> compat a b) (c # ns)" "\<forall>r \<in> set (c # ns). valid r"
  shows "(Search (length (mergeLoop c ns)) (\<lambda>i. k \<le> hi (mergeLoop c ns ! i)) < length (mergeLoop c ns)
      \<and> lo (mergeLoop c ns ! Search (length (mergeLoop c ns)) (\<lambda>i. k \<le> hi (mergeLoop c ns ! i))) \<le> k)
    \<longleftrightarrow> (\<exists>r \<in> set (c # ns). lo r \<le> k \<and> k \<le> hi r)"
  using mergeLoop_correct [OF assms] lookup_correct covers_def [of "c # ns" k] by metis

end

section \<open>IPv4 ranges\<close>

record IPRange =
  Start :: u32
  End :: u32

definition ipToUint32 :: "bytes \<Rightarrow> u32" where
  "ipToUint32 ip = (if length ip = 16 then Uint32 (drop 12 ip) else Uint32 ip)"

fun mergeLoop4 :: "IPRange \<Rightarrow> IPRange list \<Rightarrow> IPRange list" where
  "mergeLoop4 current [] = [current]"
| "mergeLoop4 current (next # rs) =
    (if Start next - 1 \<le> End current then
       mergeLoop4 (if End current < End next then current\<lparr>End := End next\<rparr> else current) rs
     else current # mergeLoop4 next rs)"

definition mergeRanges :: "(IPRange list \<Rightarrow> IPRange list) \<Rightarrow> IPRange list \<Rightarrow> IPRange list" where
  "mergeRanges srt ranges = (case srt ranges of [] \<Rightarrow> [] | current # rs \<Rightarrow> mergeLoop4 current rs)"

definition matchIPv4Range :: "IPRange list \<Rightarrow> bytes \<Rightarrow> bool" where
  "matchIPv4Range ranges ip =
    (case To4 ip of
       None \<Rightarrow> False
     | Some ip4 \<Rightarrow>
       let val = ipToUint32 ip4;
           idx = Search (length ranges) (\<lambda>i. val \<le> End (ranges ! i))
       in idx < length ranges \<and> Start (ranges ! idx) \<le> val)"

text \<open>The test of the code wraps around for a range that starts at address 0; it is right unless two of them have different ends.\<close>

definition compat4 :: "IPRange \<Rightarrow> IPRange \<Rightarrow> bool" where
  "compat4 c n \<longleftrightarrow> Start n = 0 \<longrightarrow> End c = End n"

lemma unat_minus_one: "n \<noteq> 0 \<Longrightarrow> unat (n - 1) = unat n - 1" for n :: u32
  by (metis unat_minus_one)

interpretation v4: range_merge "\<lambda>r. unat (Start r)" "\<lambda>r. unat (End r)" "\<lambda>r. Start r \<le> End r" compat4
  "\<lambda>c n. Start n - 1 \<le> End c" "\<lambda>c n. if End c < End n then c\<lparr>End := End n\<rparr> else c" mergeLoop4
proof (unfold_locales, goal_cases)
  case (4 c n) then show ?case by (auto simp: word_le_nat_alt word_less_nat_alt max_def)
next
  case (5 c n)
  show ?case
  proof (cases "Start n = 0")
    case False
    then show ?thesis using 5(1) unat_minus_one [of "Start n"] by (simp add: word_le_nat_alt)
  qed simp
next
  case (6 c n)
  show ?case
  proof (cases "Start n = 0")
    case False
    then have "unat (End c) < unat (Start n)" using 6(1) unat_minus_one [of "Start n"] by (simp add: word_le_nat_alt)
    then show ?thesis using 6(3) by (simp add: word_le_nat_alt)
  qed (use 6 in \<open>simp add: compat4_def\<close>)
next
  case (7 c n m) then show ?case by (auto simp: compat4_def word_le_nat_alt)
qed (auto simp: word_le_nat_alt)

section \<open>IPv6 ranges\<close>

record IPv6Range =
  Start6 :: bytes
  End6 :: bytes

fun bytesCompare :: "bytes \<Rightarrow> bytes \<Rightarrow> int" where
  "bytesCompare [] [] = 0"
| "bytesCompare [] b = - 1"
| "bytesCompare a [] = 1"
| "bytesCompare (x # a) (y # b) = (if x < y then - 1 else if y < x then 1 else bytesCompare a b)"

definition compareIPv6 :: "bytes \<Rightarrow> bytes \<Rightarrow> int" where
  "compareIPv6 a b = bytesCompare a b"

fun mergeLoop6 :: "IPv6Range \<Rightarrow> IPv6Range list \<Rightarrow> IPv6Range list" where
  "mergeLoop6 current [] = [current]"
| "mergeLoop6 current (next # rs) =
    (if 0 \<le> compareIPv6 (End6 current) (Start6 next) then
       mergeLoop6 (if 0 < compareIPv6 (End6 next) (End6 current) then current\<lparr>End6 := End6 next\<rparr> else current) rs
     else current # mergeLoop6 next rs)"

definition mergeIPv6Ranges :: "(IPv6Range list \<Rightarrow> IPv6Range list) \<Rightarrow> IPv6Range list \<Rightarrow> IPv6Range list" where
  "mergeIPv6Ranges srt ranges = (case srt ranges of [] \<Rightarrow> [] | current # rs \<Rightarrow> mergeLoop6 current rs)"

definition matchIPv6Range :: "IPv6Range list \<Rightarrow> bytes \<Rightarrow> bool" where
  "matchIPv6Range ranges ip =
    (case To16 ip of
       None \<Rightarrow> False
     | Some key \<Rightarrow>
       let idx = Search (length ranges) (\<lambda>i. 0 \<le> compareIPv6 (End6 (ranges ! i)) key)
       in idx < length ranges \<and> compareIPv6 (Start6 (ranges ! idx)) key \<le> 0)"

text \<open>Addresses of one length compare as big-endian numbers.\<close>

fun beNat :: "bytes \<Rightarrow> nat" where
  "beNat [] = 0"
| "beNat (b # bs) = unat b * 256 ^ length bs + beNat bs"

lemma beNat_less: "beNat bs < 256 ^ length bs"
proof (induction bs)
  case (Cons b bs)
  have "unat b * 256 ^ length bs + 256 ^ length bs \<le> 256 * 256 ^ length bs"
    using unat_byte_less [of b] mult_le_mono1 [of "unat b + 1" 256 "256 ^ length bs"] by (simp only: add_mult_distrib) simp
  then show ?case using Cons.IH by (simp only: beNat.simps list.size power_Suc add_0_right add_Suc_right)
qed simp

lemma beNat_first: "x < y \<Longrightarrow> length a = length b \<Longrightarrow> beNat (x # a) < beNat (y # b)"
proof -
  assume xy: "x < y" and l: "length a = length b"
  have "beNat (x # a) < (unat x + 1) * 256 ^ length a" using beNat_less [of a] by simp
  also have "\<dots> \<le> unat y * 256 ^ length a" using xy mult_le_mono1 [of "unat x + 1" "unat y"] by (simp only: word_less_nat_alt Suc_le_eq [symmetric] Suc_eq_plus1)
  finally show ?thesis using l by simp
qed

lemma bytesCompare_beNat:
  "length a = length b \<Longrightarrow> (bytesCompare a b < 0 \<longleftrightarrow> beNat a < beNat b) \<and> (0 < bytesCompare a b \<longleftrightarrow> beNat b < beNat a)"
proof (induction a b rule: list_induct2)
  case (Cons x a y b)
  consider "x < y" | "y < x" | "x = y" by force
  then show ?case
    by cases (use Cons beNat_first [of x y a b] beNat_first [of y x b a] in \<open>auto simp del: beNat.simps\<close>, simp_all)
qed simp

lemma compareIPv6_le: "length a = length b \<Longrightarrow> 0 \<le> compareIPv6 a b \<longleftrightarrow> beNat b \<le> beNat a"
  "length a = length b \<Longrightarrow> compareIPv6 a b \<le> 0 \<longleftrightarrow> beNat a \<le> beNat b"
  "length a = length b \<Longrightarrow> 0 < compareIPv6 a b \<longleftrightarrow> beNat b < beNat a"
  using bytesCompare_beNat [of a b] by (auto simp: compareIPv6_def)

definition valid6 :: "IPv6Range \<Rightarrow> bool" where
  "valid6 r \<longleftrightarrow> length (Start6 r) = 16 \<and> length (End6 r) = 16 \<and> beNat (Start6 r) \<le> beNat (End6 r)"

interpretation v6: range_merge "\<lambda>r. beNat (Start6 r)" "\<lambda>r. beNat (End6 r)" valid6 "\<lambda>c n. True"
  "\<lambda>c n. 0 \<le> compareIPv6 (End6 c) (Start6 n)" "\<lambda>c n. if 0 < compareIPv6 (End6 n) (End6 c) then c\<lparr>End6 := End6 n\<rparr> else c" mergeLoop6
  by unfold_locales (auto simp: valid6_def compareIPv6_le max_def)

section \<open>Lookup after merging\<close>

text \<open>What \<open>sort.Slice\<close> promises for an order by a key: a sorted permutation, in no particular order of equal keys.\<close>

definition sorts_by :: "('r \<Rightarrow> nat) \<Rightarrow> ('r list \<Rightarrow> 'r list) \<Rightarrow> bool" where
  "sorts_by f srt \<longleftrightarrow> (\<forall>xs. mset (srt xs) = mset xs \<and> sorted (map f (srt xs)))"

lemma sorts_by_set: "sorts_by f srt \<Longrightarrow> set (srt xs) = set xs"
  unfolding sorts_by_def by (metis set_mset_mset)

lemma sorted_pairs: "sorts_by f srt \<Longrightarrow> (\<forall>a \<in> set xs. \<forall>b \<in> set xs. P a b) \<Longrightarrow> sorted_wrt (\<lambda>a b. f a \<le> f b \<and> P a b) (srt xs)"
proof -
  assume s: "sorts_by f srt" and p: "\<forall>a \<in> set xs. \<forall>b \<in> set xs. P a b"
  have "sorted_wrt (\<lambda>a b. f a \<le> f b) (srt xs)" using s by (simp add: sorts_by_def sorted_map)
  then show ?thesis using p sorts_by_set [OF s, of xs] by (auto intro: sorted_wrt_mono_rel)
qed

definition zero_ok :: "IPRange list \<Rightarrow> bool" where
  "zero_ok rs \<longleftrightarrow> (\<forall>a \<in> set rs. \<forall>b \<in> set rs. Start a = 0 \<and> Start b = 0 \<longrightarrow> End a = End b)"

lemma merged4_lookup:
  assumes s: "sorts_by (\<lambda>r. unat (Start r)) srt" and v: "\<forall>r \<in> set rs. Start r \<le> End r" and z: "zero_ok rs" and ip: "To4 ip = Some ip4"
  shows "matchIPv4Range (mergeRanges srt rs) ip \<longleftrightarrow> (\<exists>r \<in> set rs. Start r \<le> ipToUint32 ip4 \<and> ipToUint32 ip4 \<le> End r)"
proof (cases "srt rs")
  case Nil
  then have "rs = []" using sorts_by_set [OF s, of rs] by simp
  then show ?thesis using Nil ip by (simp add: mergeRanges_def matchIPv4Range_def Search_def searchLoop.simps [of _ 0 0])
next
  case (Cons c ns)
  have e: "set (c # ns) = set rs" using sorts_by_set [OF s, of rs] Cons by simp
  have "sorted_wrt (\<lambda>a b. unat (Start a) \<le> unat (Start b) \<and> (Start a = 0 \<and> Start b = 0 \<longrightarrow> End a = End b)) (c # ns)"
    using sorted_pairs [OF s z [unfolded zero_ok_def]] unfolding Cons .
  then have "sorted_wrt (\<lambda>a b. unat (Start a) \<le> unat (Start b) \<and> compat4 a b) (c # ns)"
  proof (rule sorted_wrt_mono_rel [rotated])
    fix a b :: IPRange assume "unat (Start a) \<le> unat (Start b) \<and> (Start a = 0 \<and> Start b = 0 \<longrightarrow> End a = End b)"
    then show "unat (Start a) \<le> unat (Start b) \<and> compat4 a b"
      unfolding compat4_def by (metis le_zero_eq unat_0 unat_eq_0)
  qed
  from v4.merged_lookup [OF this, of "unat (ipToUint32 ip4)", unfolded e, OF v] show ?thesis
    using ip Cons by (simp add: mergeRanges_def matchIPv4Range_def Let_def word_le_nat_alt)
qed

definition len6 :: "IPv6Range \<Rightarrow> bool" where
  "len6 r \<longleftrightarrow> length (Start6 r) = 16 \<and> length (End6 r) = 16"

lemma merged6_len: "list_all len6 (c # ns) \<Longrightarrow> list_all len6 (mergeLoop6 c ns)"
proof (induction ns arbitrary: c)
  case (Cons n ns)
  have "len6 (if 0 < compareIPv6 (End6 n) (End6 c) then c\<lparr>End6 := End6 n\<rparr> else c)" using Cons.prems by (simp add: len6_def)
  then show ?case using Cons.IH Cons.prems by simp
qed simp

lemma Search_cong: "(\<And>i. i < n \<Longrightarrow> f i = g i) \<Longrightarrow> Search n f = Search n g"
proof -
  have "(\<And>i. i < n \<Longrightarrow> f i = g i) \<Longrightarrow> searchLoop f j n = searchLoop g j n" for j n
  proof (induction f j n rule: searchLoop.induct)
    case (1 f i j)
    have "(i + j) div 2 < j" if "i < j" using that by linarith
    then show ?case using 1 searchLoop.simps [of f i j] searchLoop.simps [of g i j] by (simp add: Let_def)
  qed
  then show "(\<And>i. i < n \<Longrightarrow> f i = g i) \<Longrightarrow> Search n f = Search n g" by (simp add: Search_def)
qed

lemma merged6_lookup:
  assumes s: "sorts_by (\<lambda>r. beNat (Start6 r)) srt" and v: "\<forall>r \<in> set rs. valid6 r" and ip: "To16 ip = Some key" "length key = 16"
  shows "matchIPv6Range (mergeIPv6Ranges srt rs) ip \<longleftrightarrow> (\<exists>r \<in> set rs. beNat (Start6 r) \<le> beNat key \<and> beNat key \<le> beNat (End6 r))"
proof (cases "srt rs")
  case Nil
  then have "rs = []" using sorts_by_set [OF s, of rs] by simp
  then show ?thesis using Nil ip by (simp add: mergeIPv6Ranges_def matchIPv6Range_def Search_def searchLoop.simps [of _ 0 0])
next
  case (Cons c ns)
  define ms where "ms = mergeLoop6 c ns"
  have e: "set (c # ns) = set rs" using sorts_by_set [OF s, of rs] Cons by simp
  have w: "\<forall>r \<in> set ms. length (Start6 r) = 16 \<and> length (End6 r) = 16" using merged6_len [of c ns] v unfolding e ms_def list_all_iff len6_def valid6_def by blast
  have "Search (length ms) (\<lambda>i. 0 \<le> compareIPv6 (End6 (ms ! i)) key) = Search (length ms) (\<lambda>i. beNat key \<le> beNat (End6 (ms ! i)))"
    by (rule Search_cong) (use w ip nth_mem in \<open>simp add: compareIPv6_le\<close>)
  then have m: "matchIPv6Range ms ip \<longleftrightarrow> (let s = Search (length ms) (\<lambda>i. beNat key \<le> beNat (End6 (ms ! i))) in s < length ms \<and> beNat (Start6 (ms ! s)) \<le> beNat key)"
    using w ip nth_mem by (auto simp: matchIPv6Range_def Let_def compareIPv6_le)
  have "sorted_wrt (\<lambda>a b. beNat (Start6 a) \<le> beNat (Start6 b) \<and> True) (c # ns)"
    using sorted_pairs [OF s, of rs "\<lambda>a b. True"] Cons by simp
  from v6.merged_lookup [OF this, of "beNat key", unfolded e, OF v] show ?thesis
    using m Cons by (simp add: mergeIPv6Ranges_def ms_def Let_def)
qed

end
