(* ===== verification/Balanced.thy ===== *)
theory Balanced
  imports GeoRanges HttpAuth "HOL-Library.Signed_Division"
begin

text \<open>
  The load balancer over several upstream nodes (\<open>internal/tunnel/balanced_dialer.go\<close>): rendezvous hashing for sticky keys, round robin
  otherwise. The dialers of the nodes and SHA-256 are parameters, and so is the sort, whose order of equal elements is not
  specified. An index out of range is a panic.
\<close>

record 'd BalancedNode =
  ID :: string
  Dialer :: "'d option"

record 'd BalancedDialer =
  nodes :: "'d BalancedNode list"
  rr :: u64

text \<open>The counts of the identifiers seen so far are a function; the index of a node is counted from \<open>i\<close>.\<close>

fun cloneNodes :: "nat \<Rightarrow> (string \<Rightarrow> nat) \<Rightarrow> 'd BalancedNode list \<Rightarrow> 'd BalancedNode list result" where
  "cloneNodes i used [] = Inr []"
| "cloneNodes i used (n # ns) =
    (if Dialer n = None then Inl (ErrMsg ''load balancer node has nil dialer'')
     else
       let id0 = TrimSpace (ID n);
           id1 = (if id0 = '''' then ''node-'' @ Itoa (i + 1) else id0);
           used1 = used(id1 := used id1 + 1);
           id2 = (if 1 < used1 id1 then id1 @ ''#'' @ Itoa (used1 id1) else id1)
       in case cloneNodes (Suc i) used1 ns of
            Inl e \<Rightarrow> Inl e
          | Inr out \<Rightarrow> Inr (\<lparr>ID = id2, Dialer = Dialer n\<rparr> # out))"

definition NewBalancedDialer :: "'d BalancedNode list \<Rightarrow> 'd BalancedDialer result" where
  "NewBalancedDialer ns =
    (if ns = [] then Inl (ErrMsg ''load balancer requires at least one node'')
     else case cloneNodes 0 (\<lambda>id. 0) ns of
       Inl e \<Rightarrow> Inl e
     | Inr cloned \<Rightarrow> Inr \<lparr>nodes = cloned, rr = 0\<rparr>)"

definition rendezvousScore :: "(bytes \<Rightarrow> bytes) \<Rightarrow> string \<Rightarrow> string \<Rightarrow> u64" where
  "rendezvousScore sha256 stickyKey nodeID = Uint64 (take 8 (sha256 (bytes_of (stickyKey @ [CHR 0x00] @ nodeID))))"

record candidate =
  idx :: nat
  score :: u64
  cid :: string

definition candidate_less :: "candidate \<Rightarrow> candidate \<Rightarrow> bool" where
  "candidate_less a b \<longleftrightarrow>
    (if score a = score b then bytesCompare (bytes_of (cid a)) (bytes_of (cid b)) < 0 else score b < score a)"

definition candidatesOf :: "(bytes \<Rightarrow> bytes) \<Rightarrow> string \<Rightarrow> 'd BalancedNode list \<Rightarrow> candidate list" where
  "candidatesOf sha256 stickyKey ns =
    map (\<lambda>(i, n). \<lparr>idx = i, score = rendezvousScore sha256 stickyKey (ID n), cid = ID n\<rparr>) (enumerate 0 ns)"

text \<open>The counter is read before the increment and converted to a signed integer, whose remainder takes its sign.\<close>

definition pickRoundRobinOrder :: "'d BalancedDialer \<Rightarrow> int list \<times> 'd BalancedDialer" where
  "pickRoundRobinOrder d =
    (if nodes d = [] then ([], d)
     else
       let l = int (length (nodes d)); start = sint (rr d) smod l
       in (map (\<lambda>i. (start + int i) smod l) [0..<length (nodes d)], d\<lparr>rr := rr d + 1\<rparr>))"

definition pickOrder :: "(bytes \<Rightarrow> bytes) \<Rightarrow> (candidate list \<Rightarrow> candidate list) \<Rightarrow> string \<Rightarrow> 'd BalancedDialer \<Rightarrow> int list \<times> 'd BalancedDialer" where
  "pickOrder sha256 srt stickyKey d =
    (if TrimSpace stickyKey = '''' \<or> length (nodes d) = 1 then pickRoundRobinOrder d
     else (map (\<lambda>c. int (idx c)) (srt (candidatesOf sha256 stickyKey (nodes d))), d))"

fun dialOrder :: "('d \<Rightarrow> 'c result) \<Rightarrow> 'd BalancedNode list \<Rightarrow> int list \<Rightarrow> 'c result" where
  "dialOrder dial ns [] = Inl (ErrMsg ''all upstream nodes failed'')"
| "dialOrder dial ns (i # is) =
    (if i < 0 \<or> int (length ns) \<le> i then Inl RuntimePanic
     else case Dialer (ns ! nat i) of
       None \<Rightarrow> Inl RuntimePanic
     | Some d \<Rightarrow> (case dial d of Inr c \<Rightarrow> Inr c | Inl e \<Rightarrow> dialOrder dial ns is))"

definition DialWithStickyKey :: "(bytes \<Rightarrow> bytes) \<Rightarrow> (candidate list \<Rightarrow> candidate list) \<Rightarrow> ('d \<Rightarrow> string \<Rightarrow> 'c result) \<Rightarrow> string \<Rightarrow> string
    \<Rightarrow> 'd BalancedDialer \<Rightarrow> 'c result \<times> 'd BalancedDialer" where
  "DialWithStickyKey sha256 srt dial destAddrStr stickyKey d =
    (if nodes d = [] then (Inl (ErrMsg ''load balancer has no nodes''), d)
     else case pickOrder sha256 srt stickyKey d of (order, d1) \<Rightarrow> (dialOrder (\<lambda>x. dial x destAddrStr) (nodes d) order, d1))"

text \<open>A node without UDP support is skipped, like one that fails.\<close>

definition DialUDPOverTCP :: "('d \<Rightarrow> 'c result option) \<Rightarrow> 'd BalancedDialer \<Rightarrow> 'c result \<times> 'd BalancedDialer" where
  "DialUDPOverTCP uot d =
    (if nodes d = [] then (Inl (ErrMsg ''load balancer has no nodes''), d)
     else case pickRoundRobinOrder d of (order, d1) \<Rightarrow>
       (dialOrder (\<lambda>x. case uot x of None \<Rightarrow> Inl (ErrMsg ''udp over tcp unsupported'') | Some r \<Rightarrow> r) (nodes d) order, d1))"

definition normalizeStickyIP :: "bytes option \<Rightarrow> bytes option" where
  "normalizeStickyIP ip = (case ip of None \<Rightarrow> None | Some p \<Rightarrow> (case To4 p of Some ip4 \<Rightarrow> Some ip4 | None \<Rightarrow> To16 p))"

definition TrimBrackets :: "string \<Rightarrow> string" where
  "TrimBrackets s = (let b = (\<lambda>c. c = CHR ''['' \<or> c = CHR '']'') in rev (dropWhile b (rev (dropWhile b s))))"

definition StickyKeyForAddress :: "string \<Rightarrow> bytes option \<Rightarrow> string" where
  "StickyKeyForAddress destAddrStr destIP =
    (case normalizeStickyIP destIP of
       Some ip \<Rightarrow> IP_String ip
     | None \<Rightarrow>
       let dest = TrimSpace destAddrStr
       in if dest = '''' then ''''
          else case SplitHostPort dest of
            Inl e \<Rightarrow> ToLower dest
          | Inr (h, p) \<Rightarrow>
            let host = TrimBrackets (TrimSpace h)
            in if host = '''' then ToLower dest
               else case ParseIP host of Some ip \<Rightarrow> IP_String ip | None \<Rightarrow> ToLower host)"

definition Balanced_Dial :: "(bytes \<Rightarrow> bytes) \<Rightarrow> (candidate list \<Rightarrow> candidate list) \<Rightarrow> ('d \<Rightarrow> string \<Rightarrow> 'c result) \<Rightarrow> string
    \<Rightarrow> 'd BalancedDialer \<Rightarrow> 'c result \<times> 'd BalancedDialer" where
  "Balanced_Dial sha256 srt dial destAddrStr d = DialWithStickyKey sha256 srt dial destAddrStr (StickyKeyForAddress destAddrStr None) d"

definition sorts_candidates :: "(candidate list \<Rightarrow> candidate list) \<Rightarrow> bool" where
  "sorts_candidates srt \<longleftrightarrow> (\<forall>cs. mset (srt cs) = mset cs \<and> sorted_wrt (\<lambda>a b. \<not> candidate_less b a) (srt cs))"

definition orderIDs :: "(bytes \<Rightarrow> bytes) \<Rightarrow> (candidate list \<Rightarrow> candidate list) \<Rightarrow> string \<Rightarrow> 'd BalancedDialer \<Rightarrow> string list" where
  "orderIDs sha256 srt stickyKey d = map (\<lambda>i. ID (nodes d ! nat i)) (fst (pickOrder sha256 srt stickyKey d))"

subsection \<open>The order of the candidates\<close>

lemma bytesCompare_swap: "bytesCompare a b < 0 \<longleftrightarrow> 0 < bytesCompare b a"
  by (induction a b rule: bytesCompare.induct) auto

lemma bytesCompare_eq: "bytesCompare a b = 0 \<longleftrightarrow> a = b"
  by (induction a b rule: bytesCompare.induct) auto

lemma bytesCompare_trans: "bytesCompare a b < 0 \<Longrightarrow> bytesCompare b c < 0 \<Longrightarrow> bytesCompare a c < 0"
proof (induction a b arbitrary: c rule: bytesCompare.induct)
  case (4 x a y b)
  then show ?case by (cases c) (auto split: if_splits)
next
  case (2 x b)
  then show ?case by (cases c) auto
qed auto

text \<open>The rank of an identifier for a key decides every comparison.\<close>

definition ranks :: "(bytes \<Rightarrow> bytes) \<Rightarrow> string \<Rightarrow> string \<Rightarrow> string \<Rightarrow> bool" where
  "ranks sha256 k a b \<longleftrightarrow>
    (let sa = rendezvousScore sha256 k a; sb = rendezvousScore sha256 k b
     in if sa = sb then bytesCompare (bytes_of a) (bytes_of b) < 0 else sb < sa)"

lemma ranks_trans: "ranks f k a b \<Longrightarrow> ranks f k b c \<Longrightarrow> ranks f k a c"
  unfolding ranks_def Let_def by (auto split: if_splits intro: bytesCompare_trans)

lemma ranks_irrefl: "\<not> ranks f k a a"
  using bytesCompare_eq [of "bytes_of a" "bytes_of a"] by (simp add: ranks_def Let_def)

lemma ranks_total: "a \<noteq> b \<Longrightarrow> ranks f k a b \<or> ranks f k b a"
  unfolding ranks_def Let_def
  by (metis bytesCompare_eq bytesCompare_swap string_of_bytes_of linorder_neqE_linordered_idom linorder_less_linear)

lemma sorted_unique:
  assumes "sorted_wrt R xs" "sorted_wrt R ys" "set xs = set ys" "\<And>a b. R a b \<Longrightarrow> \<not> R b a"
  shows "xs = ys"
  using assms(1-3)
proof (induction xs arbitrary: ys)
  case (Cons x xs)
  then obtain y ys' where ys: "ys = y # ys'" by (cases ys) auto
  have "x = y" using Cons.prems assms(4) ys by (metis list.set_intros(1) set_ConsD sorted_wrt.simps(2))
  moreover have "x \<notin> set xs" "y \<notin> set ys'" using Cons.prems ys assms(4) by auto blast+
  ultimately show ?case using Cons ys by (metis insert_ident list.set(2) sorted_wrt.simps(2))
qed simp

lemma candidatesOf_ranks:
  assumes "a \<in> set (candidatesOf f k ns)" "b \<in> set (candidatesOf f k ns)"
  shows "candidate_less a b \<longleftrightarrow> ranks f k (cid a) (cid b)"
  using assms unfolding candidatesOf_def candidate_less_def ranks_def Let_def by (auto simp: in_set_enumerate_eq)

lemma candidatesOf_idx: "map idx (candidatesOf f k ns) = [0..<length ns]"
  by (simp add: candidatesOf_def comp_def case_prod_unfold enumerate_eq_zip)

lemma candidatesOf_cid: "c \<in> set (candidatesOf f k ns) \<Longrightarrow> idx c < length ns \<and> cid c = ID (ns ! idx c)"
  by (auto simp: candidatesOf_def in_set_enumerate_eq)

lemma sorts_set: "sorts_candidates srt \<Longrightarrow> set (srt cs) = set cs"
  unfolding sorts_candidates_def by (metis mset_eq_setD)

lemma candidatesOf_map_cid: "map cid (candidatesOf f k ns) = map ID ns"
  by (simp add: candidatesOf_def comp_def case_prod_unfold enumerate_eq_zip) (simp flip: map_map [unfolded comp_def])

lemma sorted_candidates_rank:
  assumes srt: "sorts_candidates srt" and d: "distinct (map ID ns)"
  shows "sorted_wrt (ranks f k) (map cid (srt (candidatesOf f k ns)))" "set (map cid (srt (candidatesOf f k ns))) = set (map ID ns)"
proof -
  let ?cs = "candidatesOf f k ns"
  have m: "mset (srt ?cs) = mset ?cs" and s: "sorted_wrt (\<lambda>a b. \<not> candidate_less b a) (srt ?cs)"
    using srt by (auto simp: sorts_candidates_def)
  have "mset (map cid (srt ?cs)) = mset (map ID ns)" using m by (metis candidatesOf_map_cid mset_map)
  then have dst: "distinct (map cid (srt ?cs))" and st: "set (map cid (srt ?cs)) = set (map ID ns)"
    using d by (metis mset_eq_imp_distinct_iff, metis mset_eq_setD)
  show "set (map cid (srt ?cs)) = set (map ID ns)" by (rule st)
  have "sorted_wrt (\<lambda>a b. cid a \<noteq> cid b) (srt ?cs)" using dst by (simp add: distinct_map sorted_wrt_iff_nth_less inj_on_def nth_eq_iff_index_eq) (metis less_imp_neq nth_eq_iff_index_eq nth_mem order_less_trans)
  then have "sorted_wrt (\<lambda>a b. cid a \<noteq> cid b \<and> \<not> candidate_less b a) (srt ?cs)"
    using s by (auto simp: sorted_wrt_iff_nth_less)
  then have "sorted_wrt (\<lambda>a b. ranks f k (cid a) (cid b)) (srt ?cs)"
    by (rule sorted_wrt_mono_rel [rotated]) (metis candidatesOf_ranks ranks_total sorts_set srt)
  then show "sorted_wrt (ranks f k) (map cid (srt ?cs))" by (simp add: sorted_wrt_map)
qed

lemma orderIDs_sticky:
  assumes srt: "sorts_candidates srt" and k: "TrimSpace k \<noteq> []" and n: "length (nodes d) \<noteq> 1"
  shows "orderIDs f srt k d = map cid (srt (candidatesOf f k (nodes d)))"
  using k n by (auto simp: orderIDs_def pickOrder_def sorts_set [OF srt] candidatesOf_cid)

lemma orderIDs_single: "length (nodes d) = 1 \<Longrightarrow> orderIDs f srt k d = map ID (nodes d)"
  by (cases "nodes d") (auto simp: orderIDs_def pickOrder_def pickRoundRobinOrder_def Let_def smod_int_alt_def)

lemma orderIDs_ranked:
  assumes "sorts_candidates srt" "TrimSpace k \<noteq> []" "distinct (map ID (nodes d))"
  shows "sorted_wrt (ranks f k) (orderIDs f srt k d) \<and> set (orderIDs f srt k d) = set (map ID (nodes d))"
proof (cases "length (nodes d) = 1")
  case True
  then show ?thesis by (cases "nodes d") (auto simp: orderIDs_single)
qed (metis assms orderIDs_sticky sorted_candidates_rank)

text \<open>Rendezvous hashing is stable. With distinct identifiers the order in which a sticky key tries the nodes depends on the
  identifiers alone: when nodes leave the pool, the others keep their order, whatever the counter and the sort.\<close>

theorem rendezvous_stable:
  assumes "sorts_candidates srt" "sorts_candidates srt'" "TrimSpace stickyKey \<noteq> []" "distinct (map ID (nodes d))"
    "map ID (nodes d') = filter P (map ID (nodes d))"
  shows "orderIDs sha256 srt' stickyKey d' = filter P (orderIDs sha256 srt stickyKey d)"
proof (rule sorted_unique [where R = "ranks sha256 stickyKey"])
  have d': "distinct (map ID (nodes d'))" using assms(4,5) by simp
  note o = orderIDs_ranked [OF assms(1,3,4), of sha256] and o' = orderIDs_ranked [OF assms(2,3) d', of sha256]
  show "sorted_wrt (ranks sha256 stickyKey) (orderIDs sha256 srt' stickyKey d')" using o' by simp
  show "sorted_wrt (ranks sha256 stickyKey) (filter P (orderIDs sha256 srt stickyKey d))" using o by (simp add: sorted_wrt_filter)
  show "set (orderIDs sha256 srt' stickyKey d') = set (filter P (orderIDs sha256 srt stickyKey d))" using o o' assms(5) by simp
qed (use ranks_trans ranks_irrefl in blast)

text \<open>An insertion sort is one of the admissible sorts.\<close>

fun insertCandidate :: "candidate \<Rightarrow> candidate list \<Rightarrow> candidate list" where
  "insertCandidate c [] = [c]"
| "insertCandidate c (x # xs) = (if candidate_less x c then x # insertCandidate c xs else c # x # xs)"

lemma candidate_order: "\<not> candidate_less b a \<longleftrightarrow> candidate_less a b \<or> (score a = score b \<and> cid a = cid b)"
  unfolding candidate_less_def
  by (smt (verit) bytesCompare_eq bytesCompare_swap linorder_less_linear string_of_bytes_of order_less_asym)

lemma candidate_less_trans: "candidate_less a b \<Longrightarrow> candidate_less b c \<Longrightarrow> candidate_less a c"
  unfolding candidate_less_def by (auto split: if_splits intro: bytesCompare_trans)

lemma candidate_le_trans: "\<not> candidate_less b a \<Longrightarrow> \<not> candidate_less c b \<Longrightarrow> \<not> candidate_less c a"
  unfolding candidate_order [of b a] candidate_order [of c b] candidate_order [of c a]
  by (auto simp: candidate_less_def split: if_splits intro: bytesCompare_trans)

lemma insertCandidate_sorted:
  "sorted_wrt (\<lambda>a b. \<not> candidate_less b a) xs \<Longrightarrow> sorted_wrt (\<lambda>a b. \<not> candidate_less b a) (insertCandidate c xs) \<and>
    mset (insertCandidate c xs) = add_mset c (mset xs)"
proof (induction xs)
  case (Cons x xs)
  have "set (insertCandidate c xs) = insert c (set xs)" if "mset (insertCandidate c xs) = add_mset c (mset xs)"
    using that by (metis set_mset_add_mset_insert set_mset_mset)
  moreover have "\<not> candidate_less c x" if "candidate_less x c" using that candidate_order by blast
  moreover have "\<forall>y \<in> set xs. \<not> candidate_less y c" if "\<not> candidate_less x c" using that Cons.prems candidate_le_trans by auto
  ultimately show ?case using Cons by auto
qed simp

lemma insertion_sorts: "sorts_candidates (\<lambda>cs. foldr insertCandidate cs [])"
proof -
  have "mset (foldr insertCandidate cs []) = mset cs \<and> sorted_wrt (\<lambda>a b. \<not> candidate_less b a) (foldr insertCandidate cs [])" for cs
    by (induction cs) (use insertCandidate_sorted in \<open>auto\<close>)
  then show ?thesis by (simp add: sorts_candidates_def)
qed

theorem rendezvous_stable_witness:
  "let srt = (\<lambda>cs. foldr insertCandidate cs []); sha = (\<lambda>b. replicate 8 (last b));
       node = (\<lambda>i. \<lparr>ID = i, Dialer = Some ()\<rparr>);
       d = \<lparr>nodes = [node ''a'', node ''b'', node ''c''], rr = 7\<rparr>; d' = \<lparr>nodes = [node ''a'', node ''c''], rr = 0\<rparr>
   in TrimSpace ''k'' \<noteq> [] \<and> map ID (nodes d') = filter (\<lambda>i. i \<noteq> ''b'') (map ID (nodes d)) \<and>
      orderIDs sha srt ''k'' d' = filter (\<lambda>i. i \<noteq> ''b'') (orderIDs sha srt ''k'' d) \<and> orderIDs sha srt ''k'' d = [''c'', ''b'', ''a'']"
proof -
  let ?node = "\<lambda>i. \<lparr>ID = i, Dialer = Some ()\<rparr>"
  let ?d = "\<lparr>nodes = [?node ''a'', ?node ''b'', ?node ''c''], rr = 7\<rparr>" and ?d' = "\<lparr>nodes = [?node ''a'', ?node ''c''], rr = 0\<rparr>"
  let ?srt = "\<lambda>cs. foldr insertCandidate cs []" and ?sha = "\<lambda>b. replicate 8 (last b)"
  have k: "TrimSpace ''k'' \<noteq> []" by code_simp
  have m: "distinct (map ID (nodes ?d))" "map ID (nodes ?d') = filter (\<lambda>i. i \<noteq> ''b'') (map ID (nodes ?d))" by simp_all
  have v: "orderIDs ?sha ?srt ''k'' ?d = [''c'', ''b'', ''a'']" by code_simp
  from rendezvous_stable [OF insertion_sorts insertion_sorts k m, of ?sha] show ?thesis using k m v by (simp only: Let_def) blast
qed

subsection \<open>Every node is tried\<close>

lemma rr_order:
  assumes "nodes d \<noteq> []" "rr d < 2 ^ 63"
  shows "fst (pickRoundRobinOrder d) = map (\<lambda>i. int ((unat (rr d) + i) mod length (nodes d))) [0..<length (nodes d)]"
proof -
  let ?n = "length (nodes d)"
  have "uint (rr d) < 2 ^ 63" using assms(2) by (simp add: word_less_alt)
  moreover have "0 \<le> uint (rr d)" by simp
  ultimately have "- (2 ^ 63) \<le> uint (rr d) \<and> uint (rr d) < 2 ^ 63" by linarith
  then have r: "sint (rr d) = int (unat (rr d))"
    by (simp add: sint_uint signed_take_bit_int_eq_self_iff)
  have sm: "int a smod int ?n = int (a mod ?n)" for a :: nat by (simp add: smod_int_alt_def zmod_int sgn_if)
  have st: "(sint (rr d) smod int ?n + int i) smod int ?n = int ((unat (rr d) + i) mod ?n)" for i
    unfolding r sm of_nat_add [symmetric] by (simp only: mod_add_left_eq)
  show ?thesis using assms(1) by (simp add: pickRoundRobinOrder_def Let_def st del: of_nat_mod)
qed

lemma rr_rotate:
  assumes "nodes d \<noteq> []" "rr d < 2 ^ 63"
  shows "map (\<lambda>i. nodes d ! nat i) (fst (pickRoundRobinOrder d)) = rotate (unat (rr d)) (nodes d)"
  unfolding rr_order [OF assms] by (rule nth_equalityI) (auto simp: nth_rotate)

lemma sticky_perm:
  assumes "sorts_candidates srt"
  shows "mset (map (\<lambda>c. ns ! idx c) (srt (candidatesOf f k ns))) = mset ns"
proof -
  have "mset (map (\<lambda>c. ns ! idx c) (srt (candidatesOf f k ns))) = mset (map (\<lambda>i. ns ! i) (map idx (candidatesOf f k ns)))"
    using assms by (simp add: sorts_candidates_def image_mset.compositionality comp_def)
  then show ?thesis by (simp add: candidatesOf_idx map_nth)
qed

lemma rotate_perm: "mset (rotate n xs) = mset xs"
  by (simp add: rotate_drop_take) (metis append_take_drop_id mset_append union_commute)

lemma pickOrder_perm:
  assumes "sorts_candidates srt" "nodes d \<noteq> []" "rr d < 2 ^ 63"
  shows "mset (map (\<lambda>i. nodes d ! nat i) (fst (pickOrder f srt k d))) = mset (nodes d)"
    "\<forall>i \<in> set (fst (pickOrder f srt k d)). 0 \<le> i \<and> i < int (length (nodes d))"
proof -
  show "mset (map (\<lambda>i. nodes d ! nat i) (fst (pickOrder f srt k d))) = mset (nodes d)"
    unfolding pickOrder_def using sticky_perm [OF assms(1), of "nodes d" f k]
    by (simp add: rr_rotate [OF assms(2,3)] rotate_perm comp_def del: mset_map)
  show "\<forall>i \<in> set (fst (pickOrder f srt k d)). 0 \<le> i \<and> i < int (length (nodes d))"
    using assms(2) rr_order [OF assms(2,3)] candidatesOf_cid by (auto simp: pickOrder_def sorts_set [OF assms(1)])
qed

lemma dialOrder_find:
  assumes "\<forall>i \<in> set js. 0 \<le> i \<and> i < int (length ns)" "\<forall>n \<in> set ns. Dialer n \<noteq> None"
  shows "dialOrder dial ns js =
    (case find (\<lambda>n. \<not> isl (dial (the (Dialer n)))) (map (\<lambda>i. ns ! nat i) js) of
       None \<Rightarrow> Inl (ErrMsg ''all upstream nodes failed'') | Some n \<Rightarrow> dial (the (Dialer n)))"
  using assms(1)
proof (induction js)
  case (Cons i js)
  then have "nat i < length ns" by auto
  then have "ns ! nat i \<in> set ns" by simp
  then obtain x where "Dialer (ns ! nat i) = Some x" using assms(2) by blast
  then show ?case using Cons by (auto split: sum.splits)
qed simp

text \<open>A balanced dial tries every node until one succeeds, never panics in its first 2^63 calls, and fails only when
  every node has failed; without a sticky key it starts with the node after the one before.\<close>

theorem balanced_dial_complete:
  assumes "sorts_candidates srt" "nodes d \<noteq> []" "rr d < 2 ^ 63" "\<forall>n \<in> set (nodes d). Dialer n \<noteq> None"
  shows "\<exists>ns. mset ns = mset (nodes d) \<and> (TrimSpace stickyKey = [] \<longrightarrow> ns = rotate (unat (rr d)) (nodes d)) \<and>
    fst (DialWithStickyKey sha256 srt dial dest stickyKey d) =
      (case find (\<lambda>n. \<not> isl (dial (the (Dialer n)) dest)) ns of
         None \<Rightarrow> Inl (ErrMsg ''all upstream nodes failed'') | Some n \<Rightarrow> dial (the (Dialer n)) dest)"
proof -
  let ?o = "fst (pickOrder sha256 srt stickyKey d)"
  note p = pickOrder_perm [OF assms(1-3), of sha256 stickyKey]
  have "fst (DialWithStickyKey sha256 srt dial dest stickyKey d) = dialOrder (\<lambda>x. dial x dest) (nodes d) ?o"
    using assms(2) by (simp add: DialWithStickyKey_def split: prod.splits)
  moreover have "TrimSpace stickyKey = [] \<longrightarrow> map (\<lambda>i. nodes d ! nat i) ?o = rotate (unat (rr d)) (nodes d)"
    using rr_rotate [OF assms(2,3)] by (simp add: pickOrder_def)
  ultimately show ?thesis using p(1) by (intro exI [of _ "map (\<lambda>i. nodes d ! nat i) ?o"]) (simp add: dialOrder_find [OF p(2) assms(4)])
qed

theorem balanced_dial_complete_witness:
  "let srt = (\<lambda>cs. foldr insertCandidate cs []);
       d = \<lparr>nodes = [\<lparr>ID = ''a'', Dialer = Some (0::nat)\<rparr>, \<lparr>ID = ''b'', Dialer = Some 1\<rparr>], rr = 3\<rparr>;
       dial = (\<lambda>n dest. if n = 0 then Inr n else Inl ErrClosedPipe)
   in \<exists>ns. mset ns = mset (nodes d) \<and>
      fst (DialWithStickyKey (\<lambda>b. b) srt dial ''x:1'' '''' d) =
        (case find (\<lambda>n. \<not> isl (dial (the (Dialer n)) ''x:1'')) ns of
           None \<Rightarrow> Inl (ErrMsg ''all upstream nodes failed'') | Some n \<Rightarrow> dial (the (Dialer n)) ''x:1'')"
proof -
  let ?d = "\<lparr>nodes = [\<lparr>ID = ''a'', Dialer = Some (0::nat)\<rparr>, \<lparr>ID = ''b'', Dialer = Some 1\<rparr>], rr = 3\<rparr>"
  have h: "nodes ?d \<noteq> []" "rr ?d < 2 ^ 63" "\<forall>n \<in> set (nodes ?d). Dialer n \<noteq> None" by simp_all
  from balanced_dial_complete [OF insertion_sorts h, of "''''" "\<lambda>b. b" "\<lambda>n dest. if n = 0 then Inr n else Inl ErrClosedPipe" "''x:1''"]
  show ?thesis unfolding Let_def by blast
qed

subsection \<open>Limits of the code\<close>

text \<open>After 2^63 calls the counter converts to a negative number, and the first index of the order is negative.\<close>

lemma round_robin_panics:
  assumes "length (nodes d) = 3" "rr d = 2 ^ 63"
  shows "fst (DialUDPOverTCP uot d) = Inl RuntimePanic"
proof -
  have "sint (rr d) smod 3 = - 2" using assms(2) by (simp add: smod_int_alt_def)
  then show ?thesis using assms(1) by (auto simp: DialUDPOverTCP_def pickRoundRobinOrder_def Let_def upt_rec smod_int_alt_def)
qed

text \<open>The suffix that tells equal identifiers apart can itself be an identifier, so that the identifiers of a dialer need not be distinct.\<close>

lemma node_ids_collide:
  "map_sum id (\<lambda>d. map ID (nodes d)) (NewBalancedDialer (map (\<lambda>i. \<lparr>ID = i, Dialer = Some ()\<rparr>) [''a'', ''a'', ''a#2''])) =
    Inr [''a'', ''a#2'', ''a#2'']"
  by code_simp

text \<open>The address and the port of a destination do not change its key: one host goes to one node, also when its address is resolved.\<close>

lemma sticky_key_ip:
  assumes "To4 p = Some p4" "To4 p4 = Some p4"
  shows "StickyKeyForAddress dest (Some p) = StickyKeyForAddress dest' (Some p4)"
  using assms by (simp add: StickyKeyForAddress_def normalizeStickyIP_def)

end
