(* ===== verification/Config.thy ===== *)
theory Config
  imports Modes HttpAuth
begin

text \<open>
  The configuration (\<open>internal/config\<close>): its completion and validation (\<open>finalize.go\<close>), the rule sources (\<open>rules.go\<close>, \<open>defaults.go\<close>) and the
  short links (\<open>shortlink.go\<close>). JSON is a parameter of the short links. A configuration that \<open>Finalize\<close> rejects is discarded by its
  callers, so that the partial changes are not part of the result. Strings are ASCII where they are trimmed or folded.
\<close>

record HTTPMaskConfig =
  Disable :: bool
  MaskMode :: string
  TLS :: bool
  MaskHost :: string
  PathRoot :: string
  MaskMultiplex :: string

record ReverseRoute =
  routePath :: string
  Target :: string
  StripPrefix :: "bool option"
  HostHeader :: string

record ReverseConfig =
  Listen :: string
  ClientID :: string
  Routes :: "ReverseRoute list"

record ProxyConfig =
  proxyAddress :: string
  Username :: string
  Password :: string

record Config =
  Mode :: string
  Transport :: string
  LocalPort :: int
  ServerAddress :: string
  FallbackAddr :: string
  Key :: string
  AEAD :: string
  SuspiciousAction :: string
  PaddingMin :: int
  PaddingMax :: int
  RuleURLs :: "string list"
  ProxyMode :: string
  ASCII :: string
  CustomTable :: string
  CustomTables :: "string list"
  EnablePureDownlink :: bool
  Multiplex :: string
  HTTPMask :: HTTPMaskConfig
  Reverse :: "ReverseConfig option"
  Proxy :: "ProxyConfig option"

section \<open>Normal forms of the fields\<close>

definition normalizeLower :: "string \<Rightarrow> string" where
  "normalizeLower s = ToLower (TrimSpace s)"

definition normalizeHTTPMaskMode :: "string \<Rightarrow> string" where
  "normalizeHTTPMaskMode mode =
    (let m = normalizeLower mode
     in if m = '''' \<or> m = ''legacy'' then ''legacy''
        else if m = ''stream'' then ''stream'' else if m = ''poll'' then ''poll''
        else if m = ''auto'' then ''auto'' else if m = ''ws'' then ''ws'' else ''legacy'')"

definition normalizeMultiplex :: "string \<Rightarrow> string" where
  "normalizeMultiplex mode =
    (let m = normalizeLower mode in if m = ''auto'' then ''auto'' else if m = ''on'' then ''on'' else ''off'')"

fun firstMultiplexMode :: "string list \<Rightarrow> string" where
  "firstMultiplexMode [] = ''off''"
| "firstMultiplexMode (v # vs) = (if TrimSpace v \<noteq> '''' then normalizeMultiplex v else firstMultiplexMode vs)"

definition normalizeSuspiciousAction :: "string \<Rightarrow> string" where
  "normalizeSuspiciousAction action =
    (let m = normalizeLower action
     in if m = '''' \<or> m = ''fallback'' then ''fallback'' else if m = ''silent'' then ''silent'' else ''fallback'')"

definition normalizeProxyMode :: "string \<Rightarrow> string" where
  "normalizeProxyMode mode =
    (let m = normalizeLower mode
     in if m = '''' \<or> m = ''global'' then ''global'' else if m = ''direct'' then ''direct'' else if m = ''pac'' then ''pac'' else ''global'')"

section \<open>Rule sources\<close>

definition RejectRulePrefix :: string where "RejectRulePrefix = ''!''"
definition rejectRulePrefixFullWidth :: string where "rejectRulePrefixFullWidth = [CHR 0xEF, CHR 0xBC, CHR 0x81]"
definition ProxyRulePrefixDash :: string where "ProxyRulePrefixDash = ''-''"
definition ProxyRulePrefixUnderscore :: string where "ProxyRulePrefixUnderscore = ''_''"
definition reservedRulePrefixQuestion :: string where "reservedRulePrefixQuestion = ''?''"

fun trimFirstPrefix :: "string \<Rightarrow> string list \<Rightarrow> string \<times> bool" where
  "trimFirstPrefix raw [] = ('''', False)"
| "trimFirstPrefix raw (p # ps) =
    (if HasPrefix raw p then (let r = TrimSpace (TrimPrefix raw p) in (r, r \<noteq> '''')) else trimFirstPrefix raw ps)"

definition trimRulePrefix :: "string \<Rightarrow> string list \<Rightarrow> string \<times> bool" where
  "trimRulePrefix raw prefixes = trimFirstPrefix (TrimSpace raw) prefixes"

definition trimRejectRulePrefix :: "string \<Rightarrow> string \<times> bool" where
  "trimRejectRulePrefix raw = trimRulePrefix raw [RejectRulePrefix, rejectRulePrefixFullWidth]"

definition trimProxyRulePrefix :: "string \<Rightarrow> string \<times> bool" where
  "trimProxyRulePrefix raw = trimRulePrefix raw [ProxyRulePrefixDash, ProxyRulePrefixUnderscore]"

definition isReservedRuleURL :: "string \<Rightarrow> bool" where
  "isReservedRuleURL raw = HasPrefix (TrimSpace raw) reservedRulePrefixQuestion"

definition splitRuleURL :: "string \<Rightarrow> string list \<times> string list \<times> string list \<Rightarrow> string list \<times> string list \<times> string list" where
  "splitRuleURL raw0 acc =
    (let raw = TrimSpace raw0; (direct, proxy, reject) = acc
     in if raw = '''' then acc
        else if isReservedRuleURL raw then acc
        else case trimRejectRulePrefix raw of
          (url, True) \<Rightarrow> (direct, proxy, reject @ [url])
        | (_, False) \<Rightarrow>
          (case trimProxyRulePrefix raw of
             (url, True) \<Rightarrow> (direct, proxy @ [url], reject)
           | (_, False) \<Rightarrow> (direct @ [raw], proxy, reject)))"

definition splitRuleURLs :: "string list \<Rightarrow> string list \<times> string list \<times> string list" where
  "splitRuleURLs ruleURLs = fold splitRuleURL ruleURLs ([], [], [])"

definition DefaultPACRejectRuleURL :: string where
  "DefaultPACRejectRuleURL = ''https://gcore.jsdelivr.net/gh/TG-Twilight/AWAvenue-Ads-Rule@main/Filters/AWAvenue-Ads-Rule-Clash.yaml''"

definition DefaultImplicitRejectRuleURL :: string where
  "DefaultImplicitRejectRuleURL = ''https://fastly.jsdelivr.net/gh/TG-Twilight/AWAvenue-Ads-Rule@main/Filters/AWAvenue-Ads-Rule-Clash.yaml''"

definition DefaultPACRuleURLs :: "string list" where
  "DefaultPACRuleURLs =
    [''https://fastly.jsdelivr.net/gh/blackmatrix7/ios_rule_script@master/rule/Clash/ChinaMaxNoIP/ChinaMaxNoIP.list'',
     ''https://fastly.jsdelivr.net/gh/fernvenue/chn-cidr-list@master/ipv4.yaml'',
     ''https://fastly.jsdelivr.net/gh/fernvenue/chn-cidr-list@master/ipv6.yaml'',
     RejectRulePrefix @ DefaultPACRejectRuleURL]"

definition appendImplicitRejectRule :: "string list \<Rightarrow> string list" where
  "appendImplicitRejectRule reject = (if reject = [] then reject @ [DefaultImplicitRejectRuleURL] else reject)"

definition RuntimeRuleURLs :: "string \<Rightarrow> string list \<Rightarrow> string list \<times> string list \<times> string list" where
  "RuntimeRuleURLs proxyMode ruleURLs =
    (case splitRuleURLs ruleURLs of (direct, proxy, reject) \<Rightarrow>
       (direct, proxy, if normalizeProxyMode proxyMode \<in> {''direct'', ''global''} then appendImplicitRejectRule reject else reject))"

definition hasActionableRuleURLs :: "string list \<Rightarrow> bool" where
  "hasActionableRuleURLs ruleURLs =
    (case splitRuleURLs ruleURLs of (direct, proxy, reject) \<Rightarrow> 0 < length direct \<or> 0 < length proxy \<or> 0 < length reject)"

section \<open>Finalize\<close>

text \<open>\<open>path.Clean\<close> on a rooted path: empty and \<open>.\<close> elements are dropped, \<open>..\<close> removes the element before it.\<close>

fun splitSlash :: "string \<Rightarrow> string list" where
  "splitSlash [] = [[]]"
| "splitSlash (c # cs) =
    (if c = CHR ''/'' then [] # splitSlash cs else (case splitSlash cs of [] \<Rightarrow> [[c]] | l # ls \<Rightarrow> (c # l) # ls))"

definition cleanElem :: "string \<Rightarrow> string list \<Rightarrow> string list" where
  "cleanElem e out = (if e = '''' \<or> e = ''.'' then out else if e = ''..'' then butlast out else out @ [e])"

definition cleanPath :: "string \<Rightarrow> string" where
  "cleanPath p =
    (let es = fold cleanElem (splitSlash p) [] in if es = [] then ''/'' else concat (map (\<lambda>e. CHR ''/'' # e) es))"

definition TrimRightSlash :: "string \<Rightarrow> string" where
  "TrimRightSlash s = rev (dropWhile (\<lambda>c. c = CHR ''/'') (rev s))"

definition normalizeRoute :: "ReverseRoute \<Rightarrow> ReverseRoute" where
  "normalizeRoute r0 =
    (let p = TrimSpace (routePath r0);
         p1 = (if p = '''' then ''''
               else let q = cleanPath (if HasPrefix p ''/'' then p else ''/'' @ p) in if q \<noteq> ''/'' then TrimRightSlash q else q)
     in r0\<lparr>routePath := p1, Target := TrimSpace (Target r0), HostHeader := TrimSpace (HostHeader r0)\<rparr>)"

text \<open>The loop over the routes; \<open>seen\<close> are the paths so far, \<open>seenTCP\<close> whether there was a TCP route.\<close>

fun finalizeRoutes :: "string list \<Rightarrow> bool \<Rightarrow> ReverseRoute list \<Rightarrow> ReverseRoute list result" where
  "finalizeRoutes seen seenTCP [] = Inr []"
| "finalizeRoutes seen seenTCP (r0 # rs) =
    (let r = normalizeRoute r0 in
     if routePath r = '''' \<and> Target r = '''' then finalizeRoutes seen seenTCP rs
     else if Target r = '''' then Inl (ErrMsg ''reverse route: missing target'')
     else case SplitHostPort (Target r) of
       Inl e \<Rightarrow> Inl (ErrMsg ''reverse route: invalid target'')
     | Inr _ \<Rightarrow>
       if routePath r = '''' then
         if seenTCP then Inl (ErrMsg ''reverse route duplicate tcp mapping'')
         else map_sum id ((#) r) (finalizeRoutes seen True rs)
       else if routePath r \<in> set seen then Inl (ErrMsg ''reverse route duplicate path'')
       else map_sum id ((#) r) (finalizeRoutes (routePath r # seen) seenTCP rs))"

definition finalizeReverse :: "ReverseConfig option \<Rightarrow> ReverseConfig option result" where
  "finalizeReverse rev0 =
    (case rev0 of
       None \<Rightarrow> Inr None
     | Some rv \<Rightarrow>
       (case finalizeRoutes [] False (Routes rv) of
          Inl e \<Rightarrow> Inl e
        | Inr rs \<Rightarrow>
          let rv' = rv\<lparr>Listen := TrimSpace (Listen rv), ClientID := TrimSpace (ClientID rv), Routes := rs\<rparr>
          in Inr (if Listen rv' = '''' \<and> ClientID rv' = '''' \<and> Routes rv' = [] then None else Some rv')))"

definition MultiplexMode :: "Config \<Rightarrow> string" where
  "MultiplexMode c = firstMultiplexMode [MaskMultiplex (HTTPMask c), Multiplex c]"

definition trimList :: "string list \<Rightarrow> string list" where
  "trimList xs = filter (\<lambda>v. v \<noteq> '''') (map TrimSpace xs)"

text \<open>The proxy mode and the rule sources it leaves: a single keyword overrides the mode.\<close>

definition finalizeProxyMode :: "string list \<Rightarrow> string \<Rightarrow> string list \<times> string" where
  "finalizeProxyMode urls pm =
    (let kw = (if length urls = 1 then normalizeLower (hd urls) else '''');
         (urls1, pm1) = (if kw = ''global'' then ([], ''global'') else if kw = ''direct'' then ([], ''direct'') else (urls, pm))
     in (urls1, if urls1 \<noteq> [] \<and> hasActionableRuleURLs urls1 then ''pac'' else normalizeProxyMode pm1))"

definition finalizeASCII :: "string \<Rightarrow> string" where
  "finalizeASCII s =
    (if TrimSpace s = '''' then ''prefer_entropy''
     else case NormalizeASCIIMode s of Inr n \<Rightarrow> n | Inl e \<Rightarrow> normalizeLower s)"

text \<open>The fields once the routes, the rule sources and the proxy mode are settled.\<close>

definition finalFields :: "Config \<Rightarrow> ReverseConfig option \<Rightarrow> string list \<Rightarrow> string \<Rightarrow> Config" where
  "finalFields c rv urls pm =
    c\<lparr>Mode := normalizeLower (Mode c), ServerAddress := TrimSpace (ServerAddress c), FallbackAddr := TrimSpace (FallbackAddr c),
      Key := TrimSpace (Key c), AEAD := normalizeLower (AEAD c), CustomTable := TrimSpace (CustomTable c),
      CustomTables := trimList (CustomTables c), RuleURLs := urls, ProxyMode := pm,
      Transport := (if TrimSpace (Transport c) = '''' then ''tcp'' else normalizeLower (Transport c)),
      ASCII := finalizeASCII (ASCII c), Multiplex := MultiplexMode c, SuspiciousAction := normalizeSuspiciousAction (SuspiciousAction c),
      HTTPMask := (HTTPMask c)\<lparr>MaskMode := normalizeHTTPMaskMode (MaskMode (HTTPMask c)), MaskMultiplex := MultiplexMode c,
        MaskHost := TrimSpace (MaskHost (HTTPMask c)), PathRoot := TrimSpace (PathRoot (HTTPMask c))\<rparr>,
      Reverse := rv,
      Proxy := map_option (\<lambda>p. p\<lparr>proxyAddress := TrimSpace (proxyAddress p), Username := TrimSpace (Username p),
        Password := TrimSpace (Password p)\<rparr>) (Proxy c)\<rparr>"

definition Finalize :: "Config \<Rightarrow> Config result" where
  "Finalize c =
    (case finalizeReverse (Reverse c) of
       Inl e \<Rightarrow> Inl e
     | Inr rv \<Rightarrow>
       (case finalizeProxyMode (trimList (RuleURLs c)) (ProxyMode c) of (urls, pm) \<Rightarrow> Inr (finalFields c rv urls pm)))"

definition HTTPMaskTunnelEnabled :: "Config \<Rightarrow> bool" where
  "HTTPMaskTunnelEnabled c \<longleftrightarrow> \<not> Disable (HTTPMask c) \<and> MaskMode (HTTPMask c) \<in> {''stream'', ''poll'', ''auto'', ''ws''}"

definition SessionMuxEnabled :: "Config \<Rightarrow> bool" where
  "SessionMuxEnabled c \<longleftrightarrow> MultiplexMode c = ''on''"

definition HTTPMaskSessionMuxEnabled :: "Config \<Rightarrow> bool" where
  "HTTPMaskSessionMuxEnabled c \<longleftrightarrow> SessionMuxEnabled c"

section \<open>Short links\<close>

record shortLinkPayload =
  slHost :: string
  slPort :: int
  slKey :: string
  slASCII :: string
  slAEAD :: string
  slMixPort :: int
  slPackedDownlink :: bool
  slCustomTable :: string
  slCustomTables :: "string list"
  slDisableHTTPMask :: bool
  slHTTPMaskMode :: string
  slHTTPMaskTLS :: bool
  slHTTPMaskHost :: string
  slHTTPMaskMux :: string
  slHTTPMaskPath :: string

definition ItoaInt :: "int \<Rightarrow> string" where
  "ItoaInt i = (if i < 0 then ''-'' @ Itoa (nat (- i)) else Itoa (nat i))"

definition encodeASCII :: "string \<Rightarrow> string" where
  "encodeASCII mode =
    (let normalized = (case NormalizeASCIIMode mode of Inr n \<Rightarrow> n | Inl e \<Rightarrow> ToLower (TrimSpace mode))
     in if normalized = ''prefer_ascii'' \<or> normalized = ''ascii'' then ''ascii''
        else if normalized = '''' \<or> normalized = ''prefer_entropy'' \<or> normalized = ''entropy'' then ''entropy''
        else normalized)"

definition decodeASCII :: "string \<Rightarrow> string" where
  "decodeASCII val =
    (case NormalizeASCIIMode val of
       Inr n \<Rightarrow> n
     | Inl e \<Rightarrow> if ToLower (TrimSpace val) \<in> {''ascii'', ''prefer_ascii''} then ''prefer_ascii'' else ''prefer_entropy'')"

definition deriveAdvertiseAddress :: "Config \<Rightarrow> string \<Rightarrow> (string \<times> int) result" where
  "deriveAdvertiseAddress cfg advertiseHost =
    (let last_resort =
       (if Mode cfg = ''server'' \<and> advertiseHost = '''' \<and> 0 < LocalPort cfg \<and> FallbackAddr cfg \<noteq> '''' then
          (case SplitHostPort (FallbackAddr cfg) of
             Inr (h, p) \<Rightarrow> if h \<noteq> '''' then Inr (h, LocalPort cfg) else Inl (ErrMsg ''cannot derive server address'')
           | Inl e \<Rightarrow> Inl (ErrMsg ''cannot derive server address''))
        else Inl (ErrMsg ''cannot derive server address''))
     in if ServerAddress cfg \<noteq> '''' then
          (case SplitHostPort (ServerAddress cfg) of
             Inl e \<Rightarrow> Inl (ErrMsg ''invalid server_address'')
           | Inr (host, portStr) \<Rightarrow>
             (case Atoi portStr of None \<Rightarrow> Inl (ErrMsg ''invalid port in server_address'') | Some port \<Rightarrow> Inr (host, port)))
        else if advertiseHost \<noteq> '''' then
          (case SplitHostPort advertiseHost of
             Inr (h, p) \<Rightarrow>
               if h \<noteq> '''' \<and> p \<noteq> '''' then
                 (case Atoi p of None \<Rightarrow> Inl (ErrMsg ''invalid port in advertise host'') | Some port \<Rightarrow> Inr (h, port))
               else if 0 < LocalPort cfg then Inr (advertiseHost, LocalPort cfg) else last_resort
           | Inl e \<Rightarrow> if 0 < LocalPort cfg then Inr (advertiseHost, LocalPort cfg) else last_resort)
        else last_resort)"

definition payloadOf :: "Config \<Rightarrow> string \<Rightarrow> int \<Rightarrow> shortLinkPayload" where
  "payloadOf cfg host port =
    (let mixPort = (if Mode cfg = ''client'' \<and> 0 < LocalPort cfg then LocalPort cfg else 0);
         mode = ToLower (TrimSpace (MaskMode (HTTPMask cfg)));
         muxMode = MultiplexMode cfg
     in \<lparr>slHost = host, slPort = port, slKey = Key cfg, slASCII = encodeASCII (ASCII cfg),
         slAEAD = (if AEAD cfg = '''' then ''chacha20-poly1305'' else AEAD cfg), slMixPort = (if mixPort = 0 then 1080 else mixPort),
         slPackedDownlink = (\<not> EnablePureDownlink cfg), slCustomTable = CustomTable cfg, slCustomTables = CustomTables cfg,
         slDisableHTTPMask = Disable (HTTPMask cfg), slHTTPMaskMode = (if mode \<noteq> '''' \<and> mode \<noteq> ''legacy'' then mode else ''''),
         slHTTPMaskTLS = TLS (HTTPMask cfg), slHTTPMaskHost = TrimSpace (MaskHost (HTTPMask cfg)),
         slHTTPMaskMux = (if muxMode \<noteq> '''' \<and> muxMode \<noteq> ''off'' then muxMode else ''''), slHTTPMaskPath = TrimSpace (PathRoot (HTTPMask cfg))\<rparr>)"

definition BuildShortLinkFromConfig :: "(shortLinkPayload \<Rightarrow> bytes result) \<Rightarrow> Config \<Rightarrow> string \<Rightarrow> string result" where
  "BuildShortLinkFromConfig marshal cfg advertiseHost =
    (case deriveAdvertiseAddress cfg advertiseHost of
       Inl e \<Rightarrow> Inl e
     | Inr (host, port) \<Rightarrow>
       (case marshal (payloadOf cfg host port) of
          Inl e \<Rightarrow> Inl e
        | Inr data \<Rightarrow> Inr (''sudoku://'' @ b64Encode data)))"

definition configOf :: "shortLinkPayload \<Rightarrow> Config" where
  "configOf p =
    \<lparr>Mode = ''client'', Transport = ''tcp'', LocalPort = (if slMixPort p = 0 then 1080 else slMixPort p),
     ServerAddress = JoinHostPort (slHost p) (ItoaInt (slPort p)), FallbackAddr = '''', Key = slKey p,
     AEAD = (if slAEAD p = '''' then ''none'' else slAEAD p), SuspiciousAction = '''', PaddingMin = 5, PaddingMax = 15,
     RuleURLs = DefaultPACRuleURLs, ProxyMode = ''pac'', ASCII = decodeASCII (slASCII p), CustomTable = slCustomTable p,
     CustomTables = slCustomTables p, EnablePureDownlink = (\<not> slPackedDownlink p), Multiplex = '''',
     HTTPMask = \<lparr>Disable = slDisableHTTPMask p, MaskMode = slHTTPMaskMode p, TLS = slHTTPMaskTLS p, MaskHost = slHTTPMaskHost p,
       PathRoot = TrimSpace (slHTTPMaskPath p), MaskMultiplex = TrimSpace (slHTTPMaskMux p)\<rparr>, Reverse = None, Proxy = None\<rparr>"

definition BuildConfigFromShortLink :: "(bytes \<Rightarrow> shortLinkPayload result) \<Rightarrow> string \<Rightarrow> Config result" where
  "BuildConfigFromShortLink unmarshal link =
    (if \<not> HasPrefix link ''sudoku://'' then Inl (ErrMsg ''invalid scheme'')
     else case b64Decode (TrimPrefix link ''sudoku://'') of
       None \<Rightarrow> Inl (ErrMsg ''decode short link failed'')
     | Some raw \<Rightarrow>
       (case unmarshal raw of
          Inl e \<Rightarrow> Inl (ErrMsg ''invalid short link payload'')
        | Inr payload \<Rightarrow>
          if slHost payload = '''' \<or> slPort payload = 0 \<or> slKey payload = '''' then Inl (ErrMsg ''short link missing required fields'')
          else Finalize (configOf payload)))"

section \<open>Normal forms are stable\<close>

lemma TrimSpace_hd_last: "TrimSpace s \<noteq> [] \<Longrightarrow> \<not> is_space (hd (TrimSpace s)) \<and> \<not> is_space (last (TrimSpace s))"
proof -
  assume ne: "TrimSpace s \<noteq> []"
  define t where "t = dropWhile is_space s"
  have t: "TrimSpace s = rev (dropWhile is_space (rev t))" by (simp add: TrimSpace_def t_def)
  have d: "dropWhile is_space (rev t) \<noteq> []" using ne t by simp
  have "\<not> is_space (last (TrimSpace s))" using hd_dropWhile [OF d] by (simp add: t last_rev)
  moreover have "hd (TrimSpace s) = hd t"
  proof -
    obtain u where "rev t = u @ dropWhile is_space (rev t)" by (metis takeWhile_dropWhile_id)
    then have "t = rev (dropWhile is_space (rev t)) @ rev u" by (metis rev_append rev_rev_ident)
    then show ?thesis using d t by (metis hd_append2 rev_is_Nil_conv)
  qed
  moreover have "t \<noteq> []" using d by auto
  then have "\<not> is_space (hd t)" unfolding t_def by (rule hd_dropWhile)
  ultimately show ?thesis by simp
qed

lemma TrimSpace_idem [simp]: "TrimSpace (TrimSpace s) = TrimSpace s"
  using TrimSpace_hd_last [of s] TrimSpace_ends [of "TrimSpace s"] by (cases "TrimSpace s = []") (auto simp: TrimSpace_def [of "[]"])

lemma lower_char_range: "of_char (lower_char c) = (if 65 \<le> (of_char c :: nat) \<and> (of_char c :: nat) \<le> 90 then of_char c + 32 else (of_char c :: nat))"
  by (simp add: lower_char_def of_char_of Let_def)

lemma is_space_nat: "is_space c \<longleftrightarrow> (of_char c :: nat) \<in> {32, 9, 10, 11, 12, 13}"
proof -
  have "c = d \<longleftrightarrow> (of_char c :: nat) = of_char d" for d :: char by simp
  moreover have "(of_char (CHR '' '') :: nat) = 32" "(of_char (CHR 0x09) :: nat) = 9" "(of_char (CHR 0x0A) :: nat) = 10"
    "(of_char (CHR 0x0B) :: nat) = 11" "(of_char (CHR 0x0C) :: nat) = 12" "(of_char (CHR 0x0D) :: nat) = 13"
    by code_simp+
  ultimately show ?thesis unfolding is_space_def by (metis insert_iff empty_iff)
qed

lemma lower_char_is_space [simp]: "is_space (lower_char c) \<longleftrightarrow> is_space c"
  by (auto simp: is_space_nat lower_char_range)

lemma lower_char_idem [simp]: "lower_char (lower_char c) = lower_char c"
  by (simp add: lower_char_def of_char_of Let_def)

lemma ToLower_idem [simp]: "ToLower (ToLower s) = ToLower s"
  by (simp add: ToLower_def comp_def)

lemma TrimSpace_ToLower: "TrimSpace (ToLower s) = ToLower (TrimSpace s)"
  by (simp add: TrimSpace_def ToLower_def dropWhile_map comp_def rev_map)

lemma normalizeLower_idem [simp]: "normalizeLower (normalizeLower s) = normalizeLower s"
  by (simp add: normalizeLower_def TrimSpace_ToLower)

lemma normalizeLower_empty: "normalizeLower s = '''' \<longleftrightarrow> TrimSpace s = ''''" "TrimSpace (normalizeLower s) = '''' \<longleftrightarrow> TrimSpace s = ''''"
  by (simp_all add: normalizeLower_def TrimSpace_ToLower) (simp_all add: ToLower_def)

text \<open>The keywords are their own normal forms.\<close>

lemma keyword_normal:
  "list_all (\<lambda>k. normalizeLower k = k) [''legacy'', ''stream'', ''poll'', ''auto'', ''ws'', ''on'', ''off'', ''fallback'', ''silent'', ''global'', ''direct'', ''pac'', ''tcp'']"
  by code_simp

lemmas keyword_lower = keyword_normal [unfolded list_all_iff, simplified]

lemma normalize_values:
  "normalizeHTTPMaskMode s \<in> {''legacy'', ''stream'', ''poll'', ''auto'', ''ws''}" "normalizeMultiplex s \<in> {''auto'', ''on'', ''off''}"
  "firstMultiplexMode vs \<in> {''auto'', ''on'', ''off''}"
  "normalizeSuspiciousAction s \<in> {''fallback'', ''silent''}" "normalizeProxyMode s \<in> {''global'', ''direct'', ''pac''}"
proof -
  show m: "normalizeMultiplex s \<in> {''auto'', ''on'', ''off''}" for s by (simp add: normalizeMultiplex_def Let_def)
  show "firstMultiplexMode vs \<in> {''auto'', ''on'', ''off''}" by (induction vs) (use m in auto)
qed (simp_all add: normalizeHTTPMaskMode_def normalizeSuspiciousAction_def normalizeProxyMode_def Let_def)

lemma normalize_fixpoint:
  "m \<in> {''legacy'', ''stream'', ''poll'', ''auto'', ''ws''} \<Longrightarrow> normalizeHTTPMaskMode m = m"
  "m \<in> {''auto'', ''on'', ''off''} \<Longrightarrow> normalizeMultiplex m = m"
  "m \<in> {''fallback'', ''silent''} \<Longrightarrow> normalizeSuspiciousAction m = m"
  "m \<in> {''global'', ''direct'', ''pac''} \<Longrightarrow> normalizeProxyMode m = m"
  by (auto simp: normalizeHTTPMaskMode_def normalizeMultiplex_def normalizeSuspiciousAction_def normalizeProxyMode_def keyword_lower)

lemma trimList_idem [simp]: "trimList (trimList xs) = trimList xs"
proof -
  have "map TrimSpace (filter (\<lambda>v. v \<noteq> '''') (map TrimSpace xs)) = filter (\<lambda>v. v \<noteq> '''') (map TrimSpace xs)"
    by (rule map_idI) auto
  then show ?thesis by (simp add: trimList_def)
qed

lemma finalizeProxyMode_idem:
  "finalizeProxyMode urls pm = (urls1, pm1) \<Longrightarrow> finalizeProxyMode urls1 pm1 = (urls1, pm1)"
  using normalize_values(5) [of pm] normalize_fixpoint(4) [of "normalizeProxyMode pm"] normalize_fixpoint(4) [of "''global''"] normalize_fixpoint(4) [of "''direct''"]
  by (auto simp: finalizeProxyMode_def Let_def split: if_splits)

lemma finalizeProxyMode_values: "finalizeProxyMode urls pm = (urls1, pm1) \<Longrightarrow> pm1 \<in> {''global'', ''direct'', ''pac''} \<and> set urls1 \<subseteq> set urls"
  using normalize_values(5) by (fastforce simp: finalizeProxyMode_def Let_def split: if_splits)

lemma Parse_normalizeLower: "ParseASCIIMode (normalizeLower s) = ParseASCIIMode s"
  by (simp add: ParseASCIIMode_def normalizeLower_def TrimSpace_ToLower)

lemma Canonical_nonblank: "mode_ok m \<Longrightarrow> TrimSpace (Canonical m) \<noteq> ''''"
  by (erule mode_ok_cases; simp; code_simp)

lemma finalizeASCII_idem [simp]: "finalizeASCII (finalizeASCII s) = finalizeASCII s"
proof -
  have e: "finalizeASCII ''prefer_entropy'' = ''prefer_entropy''" by code_simp
  show ?thesis
  proof (cases "NormalizeASCIIMode s")
    case (Inl x)
    then have "NormalizeASCIIMode (normalizeLower s) = Inl x" by (simp add: NormalizeASCIIMode_def Parse_normalizeLower)
    then show ?thesis using Inl e by (auto simp: finalizeASCII_def normalizeLower_empty)
  next
    case (Inr n)
    then obtain m where "ParseASCIIMode s = Inr m" "n = Canonical m" by (auto simp: NormalizeASCIIMode_def split: sum.splits)
    then have "TrimSpace n \<noteq> ''''" using Canonical_nonblank ParseASCIIMode_ok by blast
    then have "finalizeASCII n = n" using NormalizeASCIIMode_fixpoint [OF Inr] by (simp add: finalizeASCII_def)
    then show ?thesis using Inr e by (auto simp: finalizeASCII_def [of s])
  qed
qed

section \<open>Routes\<close>

definition elem_ok :: "string \<Rightarrow> bool" where
  "elem_ok e \<longleftrightarrow> e \<noteq> '''' \<and> e \<noteq> ''.'' \<and> e \<noteq> ''..'' \<and> CHR ''/'' \<notin> set e"

lemma splitSlash_elems: "e \<in> set (splitSlash s) \<Longrightarrow> CHR ''/'' \<notin> set e \<and> set e \<subseteq> set s"
proof (induction s arbitrary: e)
  case (Cons c cs)
  show ?case
  proof (cases "c = CHR ''/''")
    case True
    then show ?thesis using Cons.prems Cons.IH [of e] by auto
  next
    case False
    obtain l ls where l: "splitSlash cs = l # ls" by (cases "splitSlash cs") (cases cs, auto split: if_splits list.splits)
    then have "e = c # l \<or> e \<in> set ls" using Cons.prems False by simp
    then show ?thesis using Cons.IH [of l] Cons.IH [of e] l False by auto
  qed
qed simp

lemma splitSlash_app: "CHR ''/'' \<notin> set e \<Longrightarrow> splitSlash (e @ CHR ''/'' # s) = e # splitSlash s" "CHR ''/'' \<notin> set e \<Longrightarrow> splitSlash e = [e]"
  by (induction e) auto

lemma cleanElem_ok: "CHR ''/'' \<notin> set e \<Longrightarrow> list_all elem_ok out \<Longrightarrow> list_all elem_ok (cleanElem e out)"
proof -
  assume a: "CHR ''/'' \<notin> set e" "list_all elem_ok out"
  have "list_all elem_ok (butlast out)" using a(2) by (metis in_set_butlastD list_all_iff)
  moreover have "elem_ok e" if "\<not> (e = '''' \<or> e = ''.'')" "e \<noteq> ''..''" using that a(1) unfolding elem_ok_def by blast
  ultimately show ?thesis using a(2) unfolding cleanElem_def by simp
qed

lemma fold_cleanElem_ok:
  "list_all (\<lambda>e. CHR ''/'' \<notin> set e) es \<Longrightarrow> list_all elem_ok out \<Longrightarrow> list_all elem_ok (fold cleanElem es out)"
  by (induction es arbitrary: out) (simp_all add: cleanElem_ok)

lemma fold_cleanElem_id: "list_all elem_ok es \<Longrightarrow> fold cleanElem es out = out @ es"
  by (induction es arbitrary: out) (auto simp: cleanElem_def elem_ok_def)

definition joinSlash :: "string list \<Rightarrow> string" where
  "joinSlash es = concat (map (\<lambda>e. CHR ''/'' # e) es)"

lemma splitSlash_join: "list_all elem_ok es \<Longrightarrow> es \<noteq> [] \<Longrightarrow> splitSlash (joinSlash es) = [] # es"
proof -
  assume a: "list_all elem_ok es" "es \<noteq> []"
  have "splitSlash (e @ joinSlash es) = e # es" if "list_all elem_ok (e # es)" for e es using that
  proof (induction es arbitrary: e)
    case Nil then show ?case by (simp add: joinSlash_def splitSlash_app elem_ok_def)
  next
    case (Cons d ds)
    then show ?case using splitSlash_app(1) [of e "d @ joinSlash ds"] by (simp add: joinSlash_def elem_ok_def)
  qed
  then show ?thesis using a by (cases es) (simp_all add: joinSlash_def)
qed

text \<open>The normal form of a path: the root, or elements each preceded by a slash.\<close>

definition path_ok :: "string \<Rightarrow> bool" where
  "path_ok p \<longleftrightarrow> p = ''/'' \<or> (\<exists>es. es \<noteq> [] \<and> list_all elem_ok es \<and> p = joinSlash es)"

lemma cleanPath_ok: "path_ok (cleanPath p)"
proof -
  have "list_all elem_ok (fold cleanElem (splitSlash p) [])"
    by (rule fold_cleanElem_ok) (use splitSlash_elems in \<open>auto simp: list_all_iff\<close>)
  then show ?thesis by (auto simp: cleanPath_def path_ok_def joinSlash_def Let_def)
qed

lemma joinSlash_last: "list_all elem_ok es \<Longrightarrow> es \<noteq> [] \<Longrightarrow> joinSlash es \<noteq> [] \<and> last (joinSlash es) \<noteq> CHR ''/'' \<and> hd (joinSlash es) = CHR ''/'' \<and> joinSlash es \<noteq> ''/''"
proof (induction es)
  case (Cons e es)
  have e: "e \<noteq> []" "last e \<noteq> CHR ''/''" using Cons.prems by (auto simp: elem_ok_def) (metis last_in_set)
  show ?case
  proof (cases es)
    case Nil
    then show ?thesis using e by (simp add: joinSlash_def)
  next
    case (Cons d ds)
    then show ?thesis using Cons.IH Cons.prems e by (auto simp: joinSlash_def)
  qed
qed simp

lemma path_ok_facts:
  assumes "path_ok p"
  shows "cleanPath p = p" "HasPrefix p ''/''" "p \<noteq> ''/'' \<Longrightarrow> TrimRightSlash p = p" "p \<noteq> ''''"
proof -
  have "cleanPath p = p \<and> HasPrefix p ''/'' \<and> (p \<noteq> ''/'' \<longrightarrow> TrimRightSlash p = p) \<and> p \<noteq> ''''"
  proof (cases "p = ''/''")
    case True
    then show ?thesis by (simp add: cleanPath_def cleanElem_def HasPrefix_def)
  next
    case False
    then obtain es where es: "es \<noteq> []" "list_all elem_ok es" "p = joinSlash es" using assms by (auto simp: path_ok_def)
    note l = joinSlash_last [OF es(2,1)]
    have "fold cleanElem ([] # es) [] = es" using fold_cleanElem_id [OF es(2), of "[]"] by (simp add: cleanElem_def)
    then have "cleanPath p = p" using splitSlash_join [OF es(2,1)] es by (simp add: cleanPath_def joinSlash_def Let_def)
    moreover have "TrimRightSlash p = p"
    proof -
      have "rev p \<noteq> []" "hd (rev p) \<noteq> CHR ''/''" using l es(3) by (simp_all add: hd_rev)
      then have "dropWhile (\<lambda>c. c = CHR ''/'') (rev p) = rev p" by (cases "rev p") auto
      then show ?thesis by (simp add: TrimRightSlash_def)
    qed
    moreover have "take 1 q = [hd q]" if "q \<noteq> []" for q :: string using that by (cases q) auto
    then have "HasPrefix p ''/''" using l es(3) by (simp add: HasPrefix_def)
    ultimately show ?thesis using l es(3) by simp
  qed
  then show "cleanPath p = p" "HasPrefix p ''/''" "p \<noteq> ''/'' \<Longrightarrow> TrimRightSlash p = p" "p \<noteq> ''''" by blast+
qed

lemma normalizeRoute_path: "routePath (normalizeRoute r) = '''' \<or> path_ok (routePath (normalizeRoute r))"
  using cleanPath_ok path_ok_facts(3) by (auto simp: normalizeRoute_def Let_def) (auto simp: path_ok_def)

definition route_ok :: "ReverseRoute \<Rightarrow> bool" where
  "route_ok r \<longleftrightarrow> (routePath r = '''' \<or> path_ok (routePath r)) \<and> Target r \<noteq> '''' \<and> TrimSpace (Target r) = Target r
    \<and> TrimSpace (HostHeader r) = HostHeader r \<and> (\<exists>hp. SplitHostPort (Target r) = Inr hp)"

lemma normalizeRoute_trimmed: "TrimSpace (Target (normalizeRoute r)) = Target (normalizeRoute r)" "TrimSpace (HostHeader (normalizeRoute r)) = HostHeader (normalizeRoute r)"
  by (simp_all add: normalizeRoute_def Let_def)

lemma normalizeRoute_fixpoint: "route_ok r \<Longrightarrow> TrimSpace (routePath r) = routePath r \<Longrightarrow> normalizeRoute r = r"
  using path_ok_facts [of "routePath r"] by (cases r) (auto simp: route_ok_def normalizeRoute_def Let_def)

lemma finalizeRoutes_ok:
  assumes "finalizeRoutes seen tcp rs = Inr out"
  shows "list_all route_ok out \<and> distinct (map routePath out) \<and> (\<forall>r \<in> set out. routePath r \<noteq> '''' \<longrightarrow> routePath r \<notin> set seen)
    \<and> (tcp \<longrightarrow> '''' \<notin> routePath ` set out)"
  using assms
proof (induction seen tcp rs arbitrary: out rule: finalizeRoutes.induct)
  case (2 seen tcp r0 rs)
  define r where "r = normalizeRoute r0"
  show ?case
  proof (cases "routePath r = '''' \<and> Target r = ''''")
    case True
    then show ?thesis using 2 by (simp add: r_def)
  next
    case False
    then obtain hp where t: "Target r \<noteq> ''''" "SplitHostPort (Target r) = Inr hp"
      using "2.prems" by (auto simp: r_def [symmetric] Let_def split: if_splits sum.splits)
    have ok: "route_ok r" using t normalizeRoute_path [of r0] normalizeRoute_trimmed [of r0] by (simp add: route_ok_def r_def)
    show ?thesis
    proof (cases "routePath r = ''''")
      case True
      then obtain out' where o: "\<not> tcp" "finalizeRoutes seen True rs = Inr out'" "out = r # out'"
        using "2.prems" t by (auto simp: r_def [symmetric] Let_def split: if_splits sum.splits) (cases "finalizeRoutes seen True rs", auto)
      have "list_all route_ok out' \<and> distinct (map routePath out') \<and> (\<forall>r \<in> set out'. routePath r \<noteq> '''' \<longrightarrow> routePath r \<notin> set seen)
          \<and> '''' \<notin> routePath ` set out'"
        using "2.IH"(2) [OF refl, folded r_def, of hp out'] False t True o by auto
      then show ?thesis using o ok True by auto
    next
      case p: False
      then obtain out' where o: "routePath r \<notin> set seen" "finalizeRoutes (routePath r # seen) tcp rs = Inr out'" "out = r # out'"
        using "2.prems" t by (auto simp: r_def [symmetric] Let_def split: if_splits sum.splits) (cases "finalizeRoutes (routePath r # seen) tcp rs", auto)
      have "list_all route_ok out' \<and> distinct (map routePath out')
          \<and> (\<forall>q \<in> set out'. routePath q \<noteq> '''' \<longrightarrow> routePath q \<notin> set (routePath r # seen)) \<and> (tcp \<longrightarrow> '''' \<notin> routePath ` set out')"
        using "2.IH"(3) [OF refl, folded r_def, of hp out'] False t p o by auto
      then show ?thesis using o ok p by auto
    qed
  qed
qed simp

lemma finalizeRoutes_fixpoint:
  assumes "list_all route_ok out" "distinct (map routePath out)" "\<forall>r \<in> set out. TrimSpace (routePath r) = routePath r"
    and "\<forall>r \<in> set out. routePath r \<noteq> '''' \<longrightarrow> routePath r \<notin> set seen" "tcp \<longrightarrow> '''' \<notin> routePath ` set out"
  shows "finalizeRoutes seen tcp out = Inr out"
  using assms
proof (induction out arbitrary: seen tcp)
  case (Cons r out)
  have n: "normalizeRoute r = r" using Cons.prems by (simp add: normalizeRoute_fixpoint)
  obtain hp where t: "Target r \<noteq> ''''" "SplitHostPort (Target r) = Inr hp" using Cons.prems(1) by (auto simp: route_ok_def)
  show ?case
  proof (cases "routePath r = ''''")
    case True
    then have "finalizeRoutes seen True out = Inr out" using Cons.IH [of seen True] Cons.prems by auto
    then show ?thesis using n t True Cons.prems(5) by (simp add: Let_def)
  next
    case False
    have "finalizeRoutes (routePath r # seen) tcp out = Inr out"
      by (rule Cons.IH) (use Cons.prems in \<open>auto simp: image_iff\<close>)
    then show ?thesis using n t False Cons.prems(4) by (simp add: Let_def)
  qed
qed simp

lemma finalizeReverse_ok:
  assumes "finalizeReverse rv = Inr (Some r)"
  shows "list_all route_ok (Routes r) \<and> distinct (map routePath (Routes r)) \<and> \<not> (Listen r = '''' \<and> ClientID r = '''' \<and> Routes r = [])
    \<and> TrimSpace (Listen r) = Listen r \<and> TrimSpace (ClientID r) = ClientID r"
  using assms by (auto simp: finalizeReverse_def Let_def dest: finalizeRoutes_ok split: option.splits sum.splits if_splits)

lemma finalizeReverse_fixpoint:
  assumes "finalizeReverse rv0 = Inr rv" "\<forall>r. rv = Some r \<longrightarrow> (\<forall>q \<in> set (Routes r). TrimSpace (routePath q) = routePath q)"
  shows "finalizeReverse rv = Inr rv"
proof (cases rv)
  case None then show ?thesis by (simp add: finalizeReverse_def)
next
  case (Some r)
  note o = finalizeReverse_ok [OF assms(1) [unfolded Some]]
  have "finalizeRoutes [] False (Routes r) = Inr (Routes r)"
    by (rule finalizeRoutes_fixpoint) (use o assms(2) Some in auto)
  then show ?thesis using o Some by (cases r) (auto simp: finalizeReverse_def Let_def)
qed

lemma MultiplexMode_values:
  "MultiplexMode c \<in> {''auto'', ''on'', ''off''}" "TrimSpace (MultiplexMode c) \<noteq> ''''" "normalizeMultiplex (MultiplexMode c) = MultiplexMode c"
proof -
  show m: "MultiplexMode c \<in> {''auto'', ''on'', ''off''}" unfolding MultiplexMode_def by (rule normalize_values(3))
  then show "normalizeMultiplex (MultiplexMode c) = MultiplexMode c" by (rule normalize_fixpoint(2))
  show "TrimSpace (MultiplexMode c) \<noteq> ''''" using m keyword_lower normalizeLower_empty(1) [of "MultiplexMode c"] by auto
qed

lemma finalizeASCII_ne: "finalizeASCII s \<noteq> ''''"
proof
  assume "finalizeASCII s = ''''"
  then have "finalizeASCII '''' = ''''" using finalizeASCII_idem [of s] by simp
  moreover have "finalizeASCII '''' \<noteq> ''''" by code_simp
  ultimately show False by blast
qed

lemma finalFields_sel [simp]:
  "Mode (finalFields c rv urls pm) = normalizeLower (Mode c)" "ServerAddress (finalFields c rv urls pm) = TrimSpace (ServerAddress c)"
  "FallbackAddr (finalFields c rv urls pm) = TrimSpace (FallbackAddr c)" "Key (finalFields c rv urls pm) = TrimSpace (Key c)"
  "AEAD (finalFields c rv urls pm) = normalizeLower (AEAD c)" "CustomTable (finalFields c rv urls pm) = TrimSpace (CustomTable c)"
  "CustomTables (finalFields c rv urls pm) = trimList (CustomTables c)" "RuleURLs (finalFields c rv urls pm) = urls"
  "ProxyMode (finalFields c rv urls pm) = pm" "Reverse (finalFields c rv urls pm) = rv" "LocalPort (finalFields c rv urls pm) = LocalPort c"
  "PaddingMin (finalFields c rv urls pm) = PaddingMin c" "PaddingMax (finalFields c rv urls pm) = PaddingMax c"
  "EnablePureDownlink (finalFields c rv urls pm) = EnablePureDownlink c"
  "Transport (finalFields c rv urls pm) = (if TrimSpace (Transport c) = '''' then ''tcp'' else normalizeLower (Transport c))"
  "ASCII (finalFields c rv urls pm) = finalizeASCII (ASCII c)" "Multiplex (finalFields c rv urls pm) = MultiplexMode c"
  "SuspiciousAction (finalFields c rv urls pm) = normalizeSuspiciousAction (SuspiciousAction c)"
  "HTTPMask (finalFields c rv urls pm) = (HTTPMask c)\<lparr>MaskMode := normalizeHTTPMaskMode (MaskMode (HTTPMask c)), MaskMultiplex := MultiplexMode c,
        MaskHost := TrimSpace (MaskHost (HTTPMask c)), PathRoot := TrimSpace (PathRoot (HTTPMask c))\<rparr>"
  "Proxy (finalFields c rv urls pm) = map_option (\<lambda>p. p\<lparr>proxyAddress := TrimSpace (proxyAddress p), Username := TrimSpace (Username p),
        Password := TrimSpace (Password p)\<rparr>) (Proxy c)"
  by (simp_all add: finalFields_def)

lemma finalFields_mux [simp]: "MultiplexMode (finalFields c rv urls pm) = MultiplexMode c"
  using MultiplexMode_values [of c] by (simp add: MultiplexMode_def [of "finalFields c rv urls pm"])

lemma Finalize_cases:
  assumes "Finalize c = Inr c'"
  obtains rv urls pm where "finalizeReverse (Reverse c) = Inr rv" "finalizeProxyMode (trimList (RuleURLs c)) (ProxyMode c) = (urls, pm)"
    "c' = finalFields c rv urls pm"
  using assms by (auto simp: Finalize_def split: sum.splits prod.splits)

lemma finalFields_idem: "finalFields (finalFields c rv urls pm) rv urls pm = finalFields c rv urls pm"
proof -
  have n: "normalizeHTTPMaskMode (normalizeHTTPMaskMode s) = normalizeHTTPMaskMode s" "normalizeSuspiciousAction (normalizeSuspiciousAction s) = normalizeSuspiciousAction s" for s
    using normalize_values normalize_fixpoint by blast+
  have t: "TrimSpace ''tcp'' = ''tcp''" "normalizeLower ''tcp'' = ''tcp''" by code_simp+
  show ?thesis
    by (intro Config.Config.equality) (simp_all add: n t normalizeLower_empty option.map_comp comp_def)
qed

lemma trimList_urls:
  "finalizeProxyMode (trimList xs) pm = (urls, pm1) \<Longrightarrow> trimList urls = urls"
  by (auto simp: finalizeProxyMode_def Let_def trimList_def [of "[]"] split: if_splits)

section \<open>Properties\<close>

text \<open>The values a finalized configuration takes.\<close>

definition config_ok :: "Config \<Rightarrow> bool" where
  "config_ok c \<longleftrightarrow> Transport c \<noteq> '''' \<and> ASCII c \<noteq> '''' \<and> MaskMode (HTTPMask c) \<in> {''legacy'', ''stream'', ''poll'', ''auto'', ''ws''}
    \<and> Multiplex c \<in> {''auto'', ''on'', ''off''} \<and> MaskMultiplex (HTTPMask c) = Multiplex c \<and> MultiplexMode c = Multiplex c
    \<and> SuspiciousAction c \<in> {''fallback'', ''silent''} \<and> ProxyMode c \<in> {''global'', ''direct'', ''pac''}
    \<and> '''' \<notin> set (CustomTables c) \<and> '''' \<notin> set (RuleURLs c)
    \<and> (\<forall>r. Reverse c = Some r \<longrightarrow> list_all route_ok (Routes r) \<and> distinct (map routePath (Routes r)))"


definition sampleConfig :: Config where
  "sampleConfig = \<lparr>Mode = '' Client'', Transport = '''', LocalPort = 1080, ServerAddress = ''a.io:443 '', FallbackAddr = '''', Key = ''k'', AEAD = ''NONE'',
    SuspiciousAction = ''x'', PaddingMin = 5, PaddingMax = 15, RuleURLs = ['' Global ''], ProxyMode = '''', ASCII = '''', CustomTable = '''',
    CustomTables = [], EnablePureDownlink = True, Multiplex = ''ON'',
    HTTPMask = \<lparr>Disable = False, MaskMode = ''WS'', TLS = True, MaskHost = '''', PathRoot = '''', MaskMultiplex = ''''\<rparr>, Reverse = None, Proxy = None\<rparr>"

lemma sampleConfig_finalizes: "\<exists>c. Finalize sampleConfig = Inr c \<and> Reverse c = None"
  by (auto simp: Finalize_def finalizeReverse_def sampleConfig_def split: prod.splits)


text \<open>
  Finalizing twice is finalizing once: a saved and reloaded configuration means the same, as long as no cleaned route path
  starts or ends in a space.
\<close>

theorem Finalize_idempotent:
  assumes "Finalize c = Inr c'" "\<forall>r. Reverse c' = Some r \<longrightarrow> (\<forall>q \<in> set (Routes r). TrimSpace (routePath q) = routePath q)"
  shows "Finalize c' = Inr c'"
proof -
  obtain rv urls pm where r: "finalizeReverse (Reverse c) = Inr rv" and u: "finalizeProxyMode (trimList (RuleURLs c)) (ProxyMode c) = (urls, pm)"
    and c': "c' = finalFields c rv urls pm"
    using Finalize_cases [OF assms(1)] .
  have "finalizeReverse rv = Inr rv" using finalizeReverse_fixpoint [OF r] assms(2) c' by simp
  then show ?thesis
    using finalizeProxyMode_idem [OF u] trimList_urls [OF u] finalFields_idem [of c rv urls pm] by (simp add: Finalize_def c')
qed

theorem Finalize_idempotent_witness: "\<exists>c. Finalize sampleConfig = Inr c \<and> Finalize c = Inr c"
  using sampleConfig_finalizes Finalize_idempotent by (metis option.distinct(1))

section \<open>Short links carry the configuration\<close>

lemma ascii_link_roundtrip: "NormalizeASCIIMode (ASCII c) = Inr m \<Longrightarrow> finalizeASCII (ASCII c) = ASCII c \<Longrightarrow> finalizeASCII (decodeASCII (encodeASCII (ASCII c))) = ASCII c"
proof -
  assume n: "NormalizeASCIIMode (ASCII c) = Inr m" and f: "finalizeASCII (ASCII c) = ASCII c"
  obtain k where k: "ParseASCIIMode (ASCII c) = Inr k" "m = Canonical k" using n by (auto simp: NormalizeASCIIMode_def split: sum.splits)
  have "TrimSpace (ASCII c) \<noteq> ''''"
  proof
    assume "TrimSpace (ASCII c) = ''''"
    then have "ASCII c = ''prefer_entropy''" using f by (simp add: finalizeASCII_def)
    moreover have "TrimSpace ''prefer_entropy'' \<noteq> ''''" by code_simp
    ultimately show False using \<open>TrimSpace (ASCII c) = ''''\<close> by simp
  qed
  then have m: "ASCII c = m" using f n by (simp add: finalizeASCII_def)
  have "decodeASCII (encodeASCII (Canonical k)) = Canonical k"
    using ParseASCIIMode_ok [OF k(1)] by (rule mode_ok_cases; simp; code_simp)
  then show ?thesis using f m k(2) by simp
qed

lemma deriveAdvertise_own:
  assumes "ServerAddress c = JoinHostPort h (Itoa p)" "set h \<inter> {CHR ''['', CHR '']''} = {}" "p < 2 ^ 63"
  shows "deriveAdvertiseAddress c adv = Inr (h, int p)"
  using assms by (simp add: deriveAdvertiseAddress_def Let_def SplitHostPort_canonical Atoi_Itoa) (simp add: JoinHostPort_def)

lemma Finalize_no_reverse: "Reverse c = None \<Longrightarrow> \<exists>urls pm. Finalize c = Inr (finalFields c None urls pm)"
  by (auto simp: Finalize_def finalizeReverse_def split: prod.splits)

lemma Mask_link: "m \<in> {''legacy'', ''stream'', ''poll'', ''auto'', ''ws''} \<Longrightarrow>
    normalizeHTTPMaskMode (if ToLower (TrimSpace m) \<noteq> '''' \<and> ToLower (TrimSpace m) \<noteq> ''legacy'' then ToLower (TrimSpace m) else '''') = m"
  by (elim insertE emptyE; simp; code_simp)

lemma Mux_link: "m \<in> {''auto'', ''on'', ''off''} \<Longrightarrow> firstMultiplexMode [TrimSpace (if m \<noteq> '''' \<and> m \<noteq> ''off'' then m else ''''), ''''] = m"
  by (elim insertE emptyE; simp; code_simp)

text \<open>What a link keeps of a configuration.\<close>

definition same_link_fields :: "Config \<Rightarrow> Config \<Rightarrow> bool" where
  "same_link_fields c c' \<longleftrightarrow> Key c' = Key c \<and> ServerAddress c' = ServerAddress c \<and> ASCII c' = ASCII c
    \<and> CustomTable c' = CustomTable c \<and> CustomTables c' = CustomTables c \<and> EnablePureDownlink c' = EnablePureDownlink c
    \<and> Multiplex c' = Multiplex c \<and> HTTPMask c' = HTTPMask c \<and> AEAD c' = (if AEAD c = '''' then ''chacha20-poly1305'' else AEAD c)
    \<and> LocalPort c' = (if Mode c = ''client'' \<and> 0 < LocalPort c then LocalPort c else 1080)"

definition json_inverse :: "(shortLinkPayload \<Rightarrow> bytes result) \<Rightarrow> (bytes \<Rightarrow> shortLinkPayload result) \<Rightarrow> shortLinkPayload \<Rightarrow> bool" where
  "json_inverse marshal unmarshal x \<longleftrightarrow> (\<exists>d. marshal x = Inr d \<and> unmarshal d = Inr x)"

lemma Finalize_payload:
  assumes "Finalize c0 = Inr c" "ServerAddress c = JoinHostPort h (Itoa p)" "NormalizeASCIIMode (ASCII c) = Inr m"
  shows "\<exists>c'. Finalize (configOf (payloadOf c h (int p))) = Inr c' \<and> same_link_fields c c' \<and> Mode c' = ''client''"
proof -
  obtain rv urls pm where c: "c = finalFields c0 rv urls pm" using Finalize_cases [OF assms(1)] by metis
  define q where "q = configOf (payloadOf c h (int p))"
  obtain us pn where f: "Finalize q = Inr (finalFields q None us pn)"
    using Finalize_no_reverse [of q] by (auto simp: q_def configOf_def)
  have sp: "TrimSpace (ServerAddress c) = ServerAddress c" "TrimSpace (Key c) = Key c" "TrimSpace (CustomTable c) = CustomTable c"
    "trimList (CustomTables c) = CustomTables c" "finalizeASCII (ASCII c) = ASCII c" "TrimSpace (MaskHost (HTTPMask c)) = MaskHost (HTTPMask c)"
    "TrimSpace (PathRoot (HTTPMask c)) = PathRoot (HTTPMask c)" "normalizeLower (AEAD c) = AEAD c" "Multiplex c = MultiplexMode c"
    "MaskMultiplex (HTTPMask c) = MultiplexMode c" "MaskMode (HTTPMask c) \<in> {''legacy'', ''stream'', ''poll'', ''auto'', ''ws''}"
    using normalize_values(1) [of "MaskMode (HTTPMask c0)"] by (simp_all add: c)
  note sel = q_def configOf_def payloadOf_def Let_def Config.Config.simps HTTPMaskConfig.simps shortLinkPayload.simps
  have mq: "HTTPMask q = \<lparr>Disable = Disable (HTTPMask c),
      MaskMode = (if ToLower (TrimSpace (MaskMode (HTTPMask c))) \<noteq> [] \<and> ToLower (TrimSpace (MaskMode (HTTPMask c))) \<noteq> ''legacy''
        then ToLower (TrimSpace (MaskMode (HTTPMask c))) else []),
      TLS = TLS (HTTPMask c), MaskHost = TrimSpace (MaskHost (HTTPMask c)), PathRoot = TrimSpace (TrimSpace (PathRoot (HTTPMask c))),
      MaskMultiplex = TrimSpace (if MultiplexMode c \<noteq> [] \<and> MultiplexMode c \<noteq> ''off'' then MultiplexMode c else [])\<rparr>" "Multiplex q = []"
    by (simp_all only: sel)
  have mux: "MultiplexMode q = MultiplexMode c"
    using Mux_link [OF MultiplexMode_values(1) [of c]] by (simp only: MultiplexMode_def [of q] mq HTTPMaskConfig.simps)
  have k: "normalizeLower ''client'' = ''client''" "normalizeLower ''chacha20-poly1305'' = ''chacha20-poly1305''" by code_simp+
  have m: "HTTPMask (finalFields q None us pn) = HTTPMask c"
    using Mask_link [OF sp(11)] sp(6,7,10) by (intro HTTPMaskConfig.equality) (simp_all only: finalFields_sel mux mq HTTPMaskConfig.simps TrimSpace_idem, simp_all)
  have "same_link_fields c (finalFields q None us pn)"
    unfolding same_link_fields_def m using sp(1-5,8,9) mux k(2) ascii_link_roundtrip [OF assms(3) sp(5)] assms(2)
    by (simp add: q_def configOf_def payloadOf_def Let_def ItoaInt_def)
  moreover have "Mode (finalFields q None us pn) = ''client''" using k(1) by (simp add: q_def configOf_def)
  ultimately show ?thesis using f q_def by blast
qed


definition linkConfig :: Config where
  "linkConfig = finalFields (sampleConfig\<lparr>ServerAddress := ''a.io:443'', ASCII := ''up_ascii_down_entropy''\<rparr>) None [] ''global''"


end
