(* ===== verification/MuxDialer.thy ===== *)
theory MuxDialer
  imports MuxSession Kip Config
begin

text \<open>
  The mux dialer (\<open>internal/tunnel/mux_dialer.go\<close>): one session shared by all callers, created by the first who needs it while the
  others wait. Sessions and done channels are lists, pointers their indices; a channel is the flag that it is closed. Every section
  under the lock is a function of the world, and the goroutines of the callers are a step relation at the granularity of
  the lock. The connection of a new session, the readiness of the HTTP transport and the contexts are arguments; times are milliseconds
  for the backoff and nanoseconds for a session.
\<close>

section \<open>Dialers without multiplexing\<close>

text \<open>
  The table of a new connection and the commands that follow the handshake (\<open>internal/tunnel/dialer.go\<close>). The random byte is an argument;
  so is the base connection, as the writer that the handshake left. The flag of a failed dial says whether it closed the connection.
\<close>

definition pickTable :: "('t \<Rightarrow> u32) \<Rightarrow> go_error option \<times> byte \<Rightarrow> 't list \<Rightarrow> ('t \<times> u32 \<times> bool) result" where
  "pickTable Hint rnd Tables =
    (if Tables = [] then Inl (ErrMsg ''no table configured'')
     else if length Tables = 1 then Inr (Tables ! 0, Hint (Tables ! 0), False)
     else case rnd of
       (Some e, b) \<Rightarrow> Inl (ErrMsg ''random table pick failed'')
     | (None, b) \<Rightarrow> let idx = unat b mod length Tables in Inr (Tables ! idx, Hint (Tables ! idx), True))"

definition dialTarget :: "writer result \<Rightarrow> string \<Rightarrow> (go_error \<times> bool) + writer" where
  "dialTarget base destAddrStr =
    (if TrimSpace destAddrStr = '''' then Inl (ErrMsg ''empty target address'', False)
     else case base of Inl e \<Rightarrow> Inl (e, False)
     | Inr cConn \<Rightarrow>
       (case writeKIPOpenTCP cConn destAddrStr of
          (Some e, w) \<Rightarrow> Inl (ErrMsg ''write address failed'', True)
        | (None, w) \<Rightarrow> Inr w))"

definition dialUoT :: "writer result \<Rightarrow> (go_error \<times> bool) + writer" where
  "dialUoT base =
    (case base of Inl e \<Rightarrow> Inl (e, False)
     | Inr conn \<Rightarrow>
       (case WriteKIPMessage conn KIPTypeStartUoT [] of
          (Some e, w) \<Rightarrow> Inl (ErrMsg ''uot preface failed'', True)
        | (None, w) \<Rightarrow> Inr w))"

text \<open>A picked table is one of the configured ones and comes with its own hint, which is sent exactly when there is a choice.\<close>

lemma pickTable_member:
  "pickTable Hint rnd ts = Inr (t, h, b) \<Longrightarrow> t \<in> set ts \<and> h = Hint t \<and> (b \<longleftrightarrow> 1 < length ts)"
proof -
  assume a: "pickTable Hint rnd ts = Inr (t, h, b)"
  have "unat x mod length ts < length ts" if "ts \<noteq> []" for x :: byte using that by simp
  moreover have "1 < length ts" if "ts \<noteq> []" "length ts \<noteq> 1" using that by (cases ts) auto
  ultimately show ?thesis using a by (auto simp: pickTable_def Let_def split: if_splits option.splits prod.splits)
qed

text \<open>The first message after a dial is the open command with the encoded target.\<close>

lemma dialTarget_message:
  assumes "dialTarget (Inr w) addr = Inr w'" "script w = []"
  shows "\<exists>buf. encodeAddress addr = Inr buf \<and> sent w' = sent w @ kip_wire \<lparr>msgType = KIPTypeOpenTCP, Payload = buf\<rparr>"
proof -
  obtain buf where b: "encodeAddress addr = Inr buf"
    using assms(1) by (auto simp: dialTarget_def writeKIPOpenTCP_def WriteAddress_def split: if_splits sum.splits prod.splits option.splits)
  have "length buf \<le> kipMaxPayload" using encodeAddress_length [OF b] by (simp add: kipMaxPayload_def)
  from WriteKIPMessage_open [OF assms(2) this]
  have "sent w' = sent w @ kip_wire \<lparr>msgType = KIPTypeOpenTCP, Payload = buf\<rparr>"
    using assms(1) b by (auto simp: dialTarget_def writeKIPOpenTCP_def WriteAddress_def conn_write_def split: if_splits)
  then show ?thesis using b by blast
qed

section \<open>Operations\<close>

record MuxDialer =
  creating :: bool
  createDone :: "nat option"
  createStop :: "nat option"
  session :: "nat option"
  dclosed :: bool

text \<open>A Dial knows its payload and the attempts it has left, Maintain its backoff.\<close>

datatype role = RDial bytes nat | RWarm | RMaintain nat

text \<open>Where a caller stands: before the lock of \<open>getOrCreateSession\<close>, waiting for a done channel (for ever, on a nil channel), before the second lock, in
  \<open>createSession\<close>, before the third lock, with a session, before \<open>discardSession\<close>, before a retry, after the lock of Close,
  and returned.\<close>

datatype phase = Idle | Asking role | Waiting role "nat option" | Starting role | Creating role | Made role "nat result"
  | Having role nat | Discarding role nat go_error | Sleeping role | Closing "nat option" "nat option" | Returned "go_error option"

record world =
  dialer :: MuxDialer
  sessions :: "muxSession list"
  chans :: "bool list"
  ctxDone :: "nat \<Rightarrow> bool"
  stopped :: "nat \<Rightarrow> bool"
  pc :: "nat \<Rightarrow> phase"

definition minBackoff :: nat where "minBackoff = 250"
definition maxBackoff :: nat where "maxBackoff = 5000"

definition sessionAt :: "nat \<Rightarrow> (muxSession \<Rightarrow> muxSession) \<Rightarrow> world \<Rightarrow> world" where
  "sessionAt p f w = w\<lparr>sessions := (sessions w)[p := f (sessions w ! p)]\<rparr>"

definition openMuxStream :: "int \<Rightarrow> bytes \<Rightarrow> muxSession \<Rightarrow> nat result \<times> muxSession" where
  "openMuxStream now payload s =
    (let (n, s1) = nextStreamID s;
         (p, s2) = registerStream (newMuxStream n) s1
     in (case sendFrame now muxFrameOpen n payload s2 of
           (Some e, s3) \<Rightarrow> (Inl e, removeStream n (updStream p (closeNoSend (Some e)) s3))
         | (None, s3) \<Rightarrow> (Inr p, s3)))"

text \<open>The new session, and whether the base connection was closed again.\<close>

definition createSession :: "Config option \<Rightarrow> (reader \<times> writer) result \<Rightarrow> go_error option \<Rightarrow> go_error option \<Rightarrow> bool \<Rightarrow> int \<Rightarrow> muxSession result \<times> bool" where
  "createSession cfg base ready ctxErr cancelled now =
    (case cfg of None \<Rightarrow> (Inl (ErrMsg ''missing config''), False)
     | Some c \<Rightarrow>
       if \<not> SessionMuxEnabled c then (Inl (ErrMsg ''mux requires multiplex=on''), False)
       else case base of Inl e \<Rightarrow> (Inl e, False)
       | Inr (r, w) \<Rightarrow>
         (case WriteKIPMessage w KIPTypeStartMux [] of
            (Some e, w1) \<Rightarrow> (Inl (ErrMsg ''mux start failed''), True)
          | (None, w1) \<Rightarrow>
            (case ready of Some e \<Rightarrow> (Inl (ErrMsg ''mux warmup failed''), True)
             | None \<Rightarrow>
               if cancelled then (Inl (case ctxErr of Some e \<Rightarrow> e | None \<Rightarrow> ErrNetClosed), True)
               else (Inr (newMuxSession r w1 False now), False))))"

text \<open>The loop body of \<open>getOrCreateSession\<close> under the lock.\<close>

datatype asked = AskErr go_error | AskHave nat | AskWait "nat option" | AskCreate

definition askSession :: "world \<Rightarrow> asked \<times> world" where
  "askSession w =
    (let d = dialer w in
     if dclosed d then (AskErr ErrNetClosed, w)
     else case (case session d of Some s \<Rightarrow> if \<not> sessClosed (sessions w ! s) then Some s else None | None \<Rightarrow> None) of
       Some s \<Rightarrow> (AskHave s, w)
     | None \<Rightarrow>
       if creating d then (AskWait (createDone d), w)
       else (AskCreate, w\<lparr>dialer := d\<lparr>creating := True, createDone := Some (length (chans w))\<rparr>, chans := chans w @ [False]\<rparr>))"

text \<open>Closing a nil or closed channel panics.\<close>

definition closeDone :: "world \<Rightarrow> world option" where
  "closeDone w =
    (case createDone (dialer w) of None \<Rightarrow> None
     | Some c \<Rightarrow> if chans w ! c then None
        else Some (w\<lparr>chans := (chans w)[c := True], dialer := (dialer w)\<lparr>creating := False, createDone := None\<rparr>\<rparr>))"

definition startCreate :: "nat \<Rightarrow> world \<Rightarrow> go_error option \<times> world" where
  "startCreate i w =
    (if dclosed (dialer w) then
       (case closeDone w of None \<Rightarrow> (Some RuntimePanic, w) | Some w' \<Rightarrow> (Some ErrNetClosed, w'\<lparr>stopped := (stopped w')(i := True)\<rparr>))
     else (None, w\<lparr>dialer := (dialer w)\<lparr>createStop := Some i\<rparr>\<rparr>))"

definition finishCreate :: "nat result \<Rightarrow> world \<Rightarrow> nat result \<times> world" where
  "finishCreate res w =
    (let d = (dialer w)\<lparr>createStop := None\<rparr>;
         w1 = (case res of
                 Inr s \<Rightarrow> if \<not> dclosed d then w\<lparr>dialer := d\<lparr>session := Some s\<rparr>\<rparr>
                          else sessionAt s (closeWithError (Some ErrNetClosed)) (w\<lparr>dialer := d\<rparr>)
               | Inl e \<Rightarrow> w\<lparr>dialer := d\<rparr>)
     in case closeDone w1 of None \<Rightarrow> (Inl RuntimePanic, w1)
        | Some w2 \<Rightarrow> (case res of Inl e \<Rightarrow> (Inl e, w2) | Inr s \<Rightarrow> (if dclosed d then Inl ErrNetClosed else Inr s, w2)))"

definition discardSession :: "nat \<Rightarrow> world \<Rightarrow> world" where
  "discardSession s w = (if session (dialer w) = Some s then w\<lparr>dialer := (dialer w)\<lparr>session := None\<rparr>\<rparr> else w)"

text \<open>Close under the lock, with what it has to stop and to close afterwards.\<close>

definition closeLocked :: "world \<Rightarrow> phase \<times> world" where
  "closeLocked w =
    (let d = dialer w in
     if dclosed d then (Returned None, w)
     else (Closing (createStop d) (session d), w\<lparr>dialer := d\<lparr>dclosed := True, session := None\<rparr>\<rparr>))"

definition closeRest :: "nat option \<Rightarrow> nat option \<Rightarrow> world \<Rightarrow> world" where
  "closeRest stop sess w =
    (let w1 = (case stop of None \<Rightarrow> w | Some i \<Rightarrow> w\<lparr>stopped := (stopped w)(i := True)\<rparr>)
     in case sess of None \<Rightarrow> w1 | Some s \<Rightarrow> sessionAt s (closeWithError (Some ErrClosedPipe)) w1)"

section \<open>Callers\<close>

text \<open>What a caller does with the error or the session that \<open>getOrCreateSession\<close> returns: Dial and Warm return the error, Maintain
  sleeps and doubles its backoff unless its context is done.\<close>

definition sessionFailed :: "bool \<Rightarrow> role \<Rightarrow> go_error \<Rightarrow> phase" where
  "sessionFailed ctx r e =
    (case r of RMaintain b \<Rightarrow> if ctx then Returned None else Sleeping (RMaintain (if maxBackoff < b * 2 then maxBackoff else b * 2))
     | _ \<Rightarrow> Returned (Some e))"

definition sessionReady :: "role \<Rightarrow> nat \<Rightarrow> phase" where
  "sessionReady r s = (case r of RWarm \<Rightarrow> Returned None | RDial p k \<Rightarrow> Having r s | RMaintain b \<Rightarrow> Having (RMaintain minBackoff) s)"

definition afterAsk :: "bool \<Rightarrow> role \<Rightarrow> asked \<Rightarrow> phase" where
  "afterAsk ctx r a =
    (case a of AskErr e \<Rightarrow> sessionFailed ctx r e | AskHave s \<Rightarrow> sessionReady r s | AskWait c \<Rightarrow> Waiting r c | AskCreate \<Rightarrow> Starting r)"

text \<open>After \<open>discardSession\<close>: Dial tries again while it has attempts, Maintain sleeps unless its context is done.\<close>

definition afterDiscard :: "bool \<Rightarrow> role \<Rightarrow> phase" where
  "afterDiscard ctx r =
    (case r of RDial p k \<Rightarrow> if k \<le> 1 then Returned (Some (ErrMsg ''mux open failed'')) else Asking (RDial p (k - 1))
     | RMaintain b \<Rightarrow> if ctx then Returned None else Sleeping r
     | RWarm \<Rightarrow> Returned None)"

definition goto :: "nat \<Rightarrow> phase \<Rightarrow> world \<Rightarrow> world" where
  "goto i p w = w\<lparr>pc := (pc w)(i := p)\<rparr>"

definition startDial :: "string \<Rightarrow> phase" where
  "startDial addr =
    (case WriteAddress \<lparr>sent = [], script = []\<rparr> addr of
       (Some e, b) \<Rightarrow> Returned (Some (ErrMsg ''encode address failed'')) | (None, b) \<Rightarrow> Asking (RDial (sent b) 2))"

inductive dstep :: "world \<Rightarrow> world \<Rightarrow> bool" where
  CallDial: "pc w i = Idle \<Longrightarrow> dstep w (goto i (startDial addr) w)"
| CallWarm: "pc w i = Idle \<Longrightarrow> dstep w (goto i (Asking RWarm) w)"
| CallMaintain: "pc w i = Idle \<Longrightarrow> dstep w (goto i (Asking (RMaintain minBackoff)) w)"
| CallClose: "pc w i = Idle \<Longrightarrow> closeLocked w = (p, w') \<Longrightarrow> dstep w (goto i p w')"
| Ask: "pc w i = Asking r \<Longrightarrow> askSession w = (a, w') \<Longrightarrow> dstep w (goto i (afterAsk (ctxDone w i) r a) w')"
| Wake: "pc w i = Waiting r (Some c) \<Longrightarrow> chans w ! c \<Longrightarrow> dstep w (goto i (Asking r) w)"
| GiveUp: "pc w i = Waiting r c \<Longrightarrow> ctxDone w i \<Longrightarrow> dstep w (goto i (sessionFailed True r (ErrMsg ''context canceled'')) w)"
| StartCreate: "pc w i = Starting r \<Longrightarrow> startCreate i w = (None, w') \<Longrightarrow> dstep w (goto i (Creating r) w')"
| StartClosed: "pc w i = Starting r \<Longrightarrow> startCreate i w = (Some e, w') \<Longrightarrow> dstep w (goto i (sessionFailed (ctxDone w i) r e) w')"
| CreateOk: "pc w i = Creating r \<Longrightarrow> createSession cfg base ready ctxErr (ctxDone w i \<or> stopped w i) now = (Inr s, b) \<Longrightarrow>
    dstep w (goto i (Made r (Inr (length (sessions w)))) (w\<lparr>sessions := sessions w @ [s]\<rparr>))"
| CreateFail: "pc w i = Creating r \<Longrightarrow> createSession cfg base ready ctxErr (ctxDone w i \<or> stopped w i) now = (Inl e, b) \<Longrightarrow>
    e \<noteq> RuntimePanic \<Longrightarrow> dstep w (goto i (Made r (Inl e)) w)"
| FinishOk: "pc w i = Made r res \<Longrightarrow> finishCreate res w = (Inr s, w') \<Longrightarrow> dstep w (goto i (sessionReady r s) w')"
| FinishFail: "pc w i = Made r res \<Longrightarrow> finishCreate res w = (Inl e, w') \<Longrightarrow> dstep w (goto i (sessionFailed (ctxDone w i) r e) w')"
| OpenOk: "pc w i = Having (RDial p k) s \<Longrightarrow> openMuxStream now p (sessions w ! s) = (Inr q, s') \<Longrightarrow>
    dstep w (goto i (Returned None) (w\<lparr>sessions := (sessions w)[s := s']\<rparr>))"
| OpenFail: "pc w i = Having (RDial p k) s \<Longrightarrow> openMuxStream now p (sessions w ! s) = (Inl e, s') \<Longrightarrow>
    dstep w (goto i (Discarding (RDial p k) s e) (w\<lparr>sessions := (sessions w)[s := s']\<rparr>))"
| Ended: "pc w i = Having (RMaintain b) s \<Longrightarrow> sessClosed (sessions w ! s) \<Longrightarrow>
    dstep w (goto i (Discarding (RMaintain b) s (sess_closedErr (sessions w ! s))) w)"
| Cancelled: "pc w i = Having (RMaintain b) s \<Longrightarrow> ctxDone w i \<Longrightarrow> dstep w (goto i (Returned None) w)"
| Discard: "pc w i = Discarding r s e \<Longrightarrow> dstep w (goto i (afterDiscard (ctxDone w i) r) (discardSession s w))"
| Retry: "pc w i = Sleeping r \<Longrightarrow> dstep w (goto i (if ctxDone w i then Returned None else Asking r) w)"
| CloseRest: "pc w i = Closing stop s \<Longrightarrow> dstep w (goto i (Returned None) (closeRest stop s w))"
| Cancel: "dstep w (w\<lparr>ctxDone := (ctxDone w)(i := True)\<rparr>)"
| Session: "p < length (sessions w) \<Longrightarrow> mux_step (sessions w ! p) s' \<Longrightarrow> dstep w (w\<lparr>sessions := (sessions w)[p := s']\<rparr>)"

definition newDialer :: world where
  "newDialer = \<lparr>dialer = \<lparr>creating = False, createDone = None, createStop = None, session = None, dclosed = False\<rparr>,
    sessions = [], chans = [], ctxDone = (\<lambda>i. False), stopped = (\<lambda>i. False), pc = (\<lambda>i. Idle)\<rparr>"

inductive dreach :: "world \<Rightarrow> bool" where
  Start: "dreach newDialer"
| Step: "dreach w \<Longrightarrow> dstep w w' \<Longrightarrow> dreach w'"

section \<open>Sessions stay closed\<close>

lemma closed_fields [simp]:
  "sessClosed (updStream p f s) = sessClosed s" "sessClosed (removeStream n s) = sessClosed s"
  "sessClosed (snd (registerStream st s)) = sessClosed s" "sessClosed (snd (nextStreamID s)) = sessClosed s"
  "sessClosed (closeWithError e s)"
  by (simp_all add: updStream_def removeStream_def registerStream_def nextStreamID_def Let_def closeWithError_def)

lemma sendFrame_keeps: "sendFrame now ty n b s = (e, s') \<Longrightarrow> sessClosed s \<Longrightarrow> sessClosed s'"
  by (simp add: sendFrame_def)

lemma sendFrame_error: "sendFrame now ty n b s = (Some e, s') \<Longrightarrow> length b \<le> muxMaxFrameSize \<Longrightarrow> sessClosed s'"
  by (auto simp: sendFrame_def split: if_splits prod.splits option.splits)

lemma sendReset_keeps [simp]: "sessClosed s \<Longrightarrow> sessClosed (sendReset now n msg s)"
  by (auto simp: sendReset_def sendFrame_def Let_def split: option.splits prod.splits)

lemma mux_step_keeps: "mux_step s s' \<Longrightarrow> sessClosed s \<Longrightarrow> sessClosed s'"
proof (induction rule: mux_step.induct)
  case (OnOpen s p payload rest dial now r s')
  then show ?case by (auto simp: muxOnOpen_def Let_def split: option.splits sum.splits)
next
  case (Keepalive now interval s b s')
  then show ?case by (auto simp: keepaliveTick_def)
next
  case (Dial now addr s d s')
  then show ?case by (auto simp: MuxClient_Dial_def)
next
  case (CloseSession s e s')
  then show ?case by (auto simp: MuxClient_Close_def)
qed (auto simp: Stream_readOp_def Stream_Write_def Stream_Close_def Stream_CloseWrite_def Stream_CloseRead_def sendFrame_def Let_def
  split: if_splits)

section \<open>One creation at a time\<close>

fun busy :: "phase \<Rightarrow> bool" where
  "busy (Starting r) = True" | "busy (Creating r) = True" | "busy (Made r res) = True" | "busy p = False"

text \<open>A waiter holds a channel that is closed or that the caller at work will close; no caller has panicked.\<close>

fun calm :: "bool list \<Rightarrow> nat option \<Rightarrow> phase \<Rightarrow> bool" where
  "calm ch dn (Waiting r c) = (\<exists>k < length ch. c = Some k \<and> (ch ! k \<or> dn = c))"
| "calm ch dn (Returned e) = (e \<noteq> Some RuntimePanic)"
| "calm ch dn (Made r res) = (res \<noteq> Inl RuntimePanic)"
| "calm ch dn p = True"

definition flight_ok :: "world \<Rightarrow> bool" where
  "flight_ok w \<longleftrightarrow>
    (creating (dialer w) \<longleftrightarrow> createDone (dialer w) \<noteq> None) \<and>
    (\<forall>c. createDone (dialer w) = Some c \<longrightarrow> c < length (chans w) \<and> \<not> chans w ! c) \<and>
    (creating (dialer w) \<longleftrightarrow> (\<exists>i. busy (pc w i))) \<and>
    (\<forall>i j. busy (pc w i) \<and> busy (pc w j) \<longrightarrow> i = j) \<and>
    (\<forall>i. calm (chans w) (createDone (dialer w)) (pc w i))"

lemma flight_cong:
  assumes "flight_ok w" "creating (dialer w') = creating (dialer w)" "createDone (dialer w') = createDone (dialer w)"
    "chans w' = chans w" "pc w' = pc w"
  shows "flight_ok w'"
  using assms(1) unfolding flight_ok_def assms(2-5) .

text \<open>A move that does not begin or end a creation.\<close>

lemma flight_goto:
  assumes "flight_ok w" "busy p = busy (pc w i)" "calm (chans w) (createDone (dialer w)) p"
  shows "flight_ok (goto i p w)"
proof -
  have b: "busy (pc (goto i p w) j) = busy (pc w j)" for j using assms(2) by (simp add: goto_def)
  have d: "dialer (goto i p w) = dialer w" "chans (goto i p w) = chans w" by (simp_all add: goto_def)
  have c: "calm (chans w) (createDone (dialer w)) (pc (goto i p w) j)" for j
    using assms by (simp add: goto_def flight_ok_def)
  show ?thesis using assms(1) c unfolding flight_ok_def b d by blast
qed

text \<open>The begin of a creation.\<close>

lemma calm_begin: "calm ch None p \<Longrightarrow> calm (ch @ [b]) dn p"
  by (cases p) (auto simp: nth_append)

lemma flight_begin:
  assumes "flight_ok w" "\<not> creating (dialer w)" "askSession w = (AskCreate, w')" "\<not> busy (pc w i)"
  shows "flight_ok (goto i (Starting r) w')"
proof -
  have w': "w' = w\<lparr>dialer := (dialer w)\<lparr>creating := True, createDone := Some (length (chans w))\<rparr>, chans := chans w @ [False]\<rparr>"
    using assms(3) by (auto simp: askSession_def Let_def split: if_splits option.splits)
  have "\<not> busy (pc w j)" "calm (chans w @ [False]) (Some (length (chans w))) (pc w j)" for j
    using assms(1,2) calm_begin unfolding flight_ok_def by auto
  then show ?thesis by (auto simp: flight_ok_def w' goto_def nth_append)
qed

text \<open>The end of a creation wakes every waiter.\<close>

lemma calm_end: "calm ch (Some c) p \<Longrightarrow> c < length ch \<Longrightarrow> calm (ch[c := True]) None p"
  by (cases p) (auto simp: nth_list_update)

lemma flight_close:
  assumes "flight_ok w" "busy (pc w i)"
  obtains w' where "closeDone w = Some w'" "\<And>p w''. \<not> busy p \<Longrightarrow> calm (chans w') None p \<Longrightarrow>
    dialer w'' = dialer w' \<Longrightarrow> chans w'' = chans w' \<Longrightarrow> pc w'' = pc w' \<Longrightarrow> flight_ok (goto i p w'')"
    "pc w' = pc w" "sessions w' = sessions w" "session (dialer w') = session (dialer w)" "dclosed (dialer w') = dclosed (dialer w)"
proof -
  obtain c where c: "createDone (dialer w) = Some c" "c < length (chans w)" "\<not> chans w ! c"
    using assms unfolding flight_ok_def by blast
  have alone: "\<not> busy (pc w j)" if "j \<noteq> i" for j using assms that unfolding flight_ok_def by blast
  let ?w = "w\<lparr>chans := (chans w)[c := True], dialer := (dialer w)\<lparr>creating := False, createDone := None\<rparr>\<rparr>"
  have cl: "calm ((chans w)[c := True]) None (pc w j)" for j
    using assms(1) c calm_end [of "chans w" c "pc w j"] unfolding flight_ok_def by simp
  show thesis
  proof (rule that [of ?w])
    show "closeDone w = Some ?w" using c by (simp add: closeDone_def)
    show "flight_ok (goto i p w'')" if "\<not> busy p" "calm (chans ?w) None p" "dialer w'' = dialer ?w" "chans w'' = chans ?w" "pc w'' = pc ?w" for p w''
      using that alone cl by (auto simp: flight_ok_def goto_def)
  qed simp_all
qed

lemma settled_phases [simp]:
  "\<not> busy (sessionFailed x r e)" "\<not> busy (sessionReady r s)" "\<not> busy (afterDiscard x r)" "\<not> busy (startDial addr)"
  "e \<noteq> RuntimePanic \<Longrightarrow> calm ch dn (sessionFailed x r e)" "calm ch dn (sessionReady r s)" "calm ch dn (afterDiscard x r)" "calm ch dn (startDial addr)"
  by (auto simp: sessionFailed_def sessionReady_def afterDiscard_def startDial_def split: role.splits prod.splits option.splits)

lemma flight_ask:
  assumes "flight_ok w" "pc w i = Asking r" "askSession w = (a, w')"
  shows "flight_ok (goto i (afterAsk x r a) w')"
proof (cases "a = AskCreate")
  case True
  then have "\<not> creating (dialer w)" using assms(3) by (auto simp: askSession_def Let_def split: if_splits option.splits)
  then show ?thesis using flight_begin [OF assms(1)] assms True by (simp add: afterAsk_def)
next
  case False
  then have w: "w' = w" and a: "\<And>c. a = AskWait c \<Longrightarrow> creating (dialer w) \<and> c = createDone (dialer w)" "a \<noteq> AskErr RuntimePanic"
    using assms(3) by (auto simp: askSession_def Let_def split: if_splits option.splits)
  have "\<not> busy (afterAsk x r a)" using False by (cases a) (auto simp: afterAsk_def)
  moreover have "calm (chans w) (createDone (dialer w)) (afterAsk x r a)"
    using False a assms(1) by (cases a) (auto simp: afterAsk_def flight_ok_def)
  ultimately show ?thesis using flight_goto [OF assms(1)] assms(2) w by simp
qed

lemma flight_start:
  assumes "flight_ok w" "pc w i = Starting r" "startCreate i w = (e, w')"
  shows "flight_ok (goto i (case e of None \<Rightarrow> Creating r | Some e \<Rightarrow> sessionFailed x r e) w')"
proof (cases "dclosed (dialer w)")
  case True
  obtain w1 where c: "closeDone w = Some w1" and f: "\<And>p w''. \<not> busy p \<Longrightarrow> calm (chans w1) None p \<Longrightarrow>
      dialer w'' = dialer w1 \<Longrightarrow> chans w'' = chans w1 \<Longrightarrow> pc w'' = pc w1 \<Longrightarrow> flight_ok (goto i p w'')"
    using flight_close [OF assms(1), of i] assms(2) by (metis busy.simps(1))
  then show ?thesis using assms(3) True by (auto simp: startCreate_def)
next
  case False
  then have "e = None" "w' = w\<lparr>dialer := (dialer w)\<lparr>createStop := Some i\<rparr>\<rparr>" using assms(3) by (auto simp: startCreate_def)
  then show ?thesis using assms(2) by (simp add: flight_goto flight_cong [OF assms(1)])
qed

lemma flight_finish:
  assumes "flight_ok w" "pc w i = Made r res" "finishCreate res w = (out, w')"
  shows "flight_ok (goto i (case out of Inr s \<Rightarrow> sessionReady r s | Inl e \<Rightarrow> sessionFailed x r e) w')"
proof -
  define d where "d = (dialer w)\<lparr>createStop := None\<rparr>"
  define w1 where "w1 = (case res of
                 Inr s \<Rightarrow> if \<not> dclosed d then w\<lparr>dialer := d\<lparr>session := Some s\<rparr>\<rparr>
                          else sessionAt s (closeWithError (Some ErrNetClosed)) (w\<lparr>dialer := d\<rparr>)
               | Inl e \<Rightarrow> w\<lparr>dialer := d\<rparr>)"
  have "flight_ok w1" "pc w1 = pc w"
    by (rule flight_cong [OF assms(1)]; simp add: w1_def d_def sessionAt_def split: sum.splits) (simp add: w1_def sessionAt_def split: sum.splits)
  then obtain w2 where c: "closeDone w1 = Some w2" and f: "\<And>p. \<not> busy p \<Longrightarrow> calm (chans w2) None p \<Longrightarrow> flight_ok (goto i p w2)"
    using flight_close [of w1 i] assms(2) by (metis busy.simps(3))
  have "calm (chans w) (createDone (dialer w)) (pc w i)" using assms(1) unfolding flight_ok_def by blast
  then have "res \<noteq> Inl RuntimePanic" using assms(2) by simp
  moreover have "(out, w') = (case res of Inl e \<Rightarrow> Inl e | Inr s \<Rightarrow> if dclosed d then Inl ErrNetClosed else Inr s, w2)"
    using assms(3) c unfolding finishCreate_def Let_def w1_def d_def by (auto split: sum.splits)
  ultimately show ?thesis using f by (auto split: sum.splits)
qed

lemma flight_step: "dstep w w' \<Longrightarrow> flight_ok w \<Longrightarrow> flight_ok w'"
proof (induction rule: dstep.induct)
  case (CallClose w i p w')
  then have "flight_ok w'" "pc w' = pc w" "\<not> busy p" "calm (chans w') (createDone (dialer w')) p"
    by (auto simp: closeLocked_def Let_def intro: flight_cong split: if_splits)
  then show ?case using CallClose by (simp add: flight_goto)
next
  case (Ask w i r a w')
  then show ?case by (simp add: flight_ask)
next
  case (StartCreate w i r w')
  then show ?case using flight_start [of w i r None w'] by simp
next
  case (StartClosed w i r e w')
  then show ?case using flight_start [of w i r "Some e" w'] by simp
next
  case (FinishOk w i r res s w')
  then show ?case using flight_finish [of w i r res "Inr s" w'] by simp
next
  case (FinishFail w i r res e w')
  then show ?case using flight_finish [of w i r res "Inl e" w'] by simp
next
  case (Discard w i r s e)
  have "flight_ok (discardSession s w)" "pc (discardSession s w) = pc w"
    using flight_cong [OF Discard.prems] by (simp_all add: discardSession_def)
  then show ?case using Discard by (simp add: flight_goto)
next
  case (CloseRest w i stop s)
  have "flight_ok (closeRest stop s w)" "pc (closeRest stop s w) = pc w"
    by (rule flight_cong [OF CloseRest.prems]; simp add: closeRest_def sessionAt_def Let_def split: option.splits)
      (simp add: closeRest_def sessionAt_def Let_def split: option.splits)
  then show ?case using CloseRest by (simp add: flight_goto)
qed (simp_all add: flight_goto flight_cong)

section \<open>No session is lost\<close>

fun role_ok :: "role \<Rightarrow> bool" where
  "role_ok (RDial p k) = (length p \<le> 259 \<and> 1 \<le> k \<and> k \<le> 2)"
| "role_ok RWarm = True"
| "role_ok (RMaintain b) = (minBackoff \<le> b \<and> b \<le> maxBackoff)"

text \<open>A session is discarded only when it has ended.\<close>

fun phase_ok :: "muxSession list \<Rightarrow> phase \<Rightarrow> bool" where
  "phase_ok ss (Asking r) = role_ok r"
| "phase_ok ss (Waiting r c) = role_ok r"
| "phase_ok ss (Starting r) = role_ok r"
| "phase_ok ss (Creating r) = role_ok r"
| "phase_ok ss (Made r res) = (role_ok r \<and> (\<forall>s. res = Inr s \<longrightarrow> s < length ss))"
| "phase_ok ss (Having r s) = (role_ok r \<and> s < length ss)"
| "phase_ok ss (Discarding r s e) = (role_ok r \<and> s < length ss \<and> sessClosed (ss ! s))"
| "phase_ok ss (Sleeping r) = role_ok r"
| "phase_ok ss (Closing st sess) = (\<forall>s. sess = Some s \<longrightarrow> s < length ss)"
| "phase_ok ss p = True"

text \<open>The sessions that a caller has to hand over or to close.\<close>

fun holds :: "phase \<Rightarrow> nat \<Rightarrow> bool" where
  "holds (Made r res) s = (res = Inr s)" | "holds (Closing st sess) s = (sess = Some s)" | "holds p s = False"

definition sess_ok :: "world \<Rightarrow> bool" where
  "sess_ok w \<longleftrightarrow>
    (\<forall>s. session (dialer w) = Some s \<longrightarrow> s < length (sessions w)) \<and>
    (dclosed (dialer w) \<longrightarrow> session (dialer w) = None) \<and>
    (\<forall>s. creating (dialer w) \<and> session (dialer w) = Some s \<longrightarrow> sessClosed (sessions w ! s)) \<and>
    (\<forall>i. phase_ok (sessions w) (pc w i)) \<and>
    (\<forall>s < length (sessions w). sessClosed (sessions w ! s) \<or> session (dialer w) = Some s \<or> (\<exists>i. holds (pc w i) s))"

definition ages :: "muxSession list \<Rightarrow> muxSession list \<Rightarrow> bool" where
  "ages ss ss' \<longleftrightarrow> length ss' = length ss \<and> (\<forall>s < length ss. sessClosed (ss ! s) \<longrightarrow> sessClosed (ss' ! s))"

lemma ages_update: "(sessClosed (ss ! p) \<Longrightarrow> sessClosed t) \<Longrightarrow> ages ss (ss[p := t])"
  by (cases "p < length ss") (auto simp: ages_def nth_list_update)

lemma phase_ok_ages: "phase_ok ss p \<Longrightarrow> ages ss ss' \<Longrightarrow> phase_ok ss' p"
  by (cases p) (auto simp: ages_def)

lemma sess_ages:
  assumes "sess_ok w" "ages (sessions w) (sessions w')" "dialer w' = dialer w" "pc w' = pc w"
  shows "sess_ok w'"
proof -
  have l: "length (sessions w') = length (sessions w)"
    and c: "\<And>s. s < length (sessions w) \<Longrightarrow> sessClosed (sessions w ! s) \<Longrightarrow> sessClosed (sessions w' ! s)"
    using assms(2) by (auto simp: ages_def)
  have p: "\<forall>i. phase_ok (sessions w') (pc w i)" using assms(1) phase_ok_ages [OF _ assms(2)] unfolding sess_ok_def by blast
  show ?thesis using assms(1) c p unfolding sess_ok_def assms(3,4) l by blast
qed

lemma sess_goto:
  assumes "sess_ok w" "phase_ok (sessions w) p"
    "\<And>s. holds (pc w i) s \<Longrightarrow> s < length (sessions w) \<Longrightarrow> sessClosed (sessions w ! s) \<or> session (dialer w) = Some s \<or> holds p s"
  shows "sess_ok (goto i p w)"
proof -
  have d: "dialer (goto i p w) = dialer w" "sessions (goto i p w) = sessions w" by (simp_all add: goto_def)
  have a: "\<forall>j. phase_ok (sessions w) (pc (goto i p w) j)" using assms(1,2) unfolding sess_ok_def by (simp add: goto_def)
  have "sessClosed (sessions w ! s) \<or> session (dialer w) = Some s \<or> (\<exists>j. holds (pc (goto i p w) j) s)" if "s < length (sessions w)" for s
  proof (cases "\<exists>j. holds (pc w j) s")
    case True
    then obtain j where j: "holds (pc w j) s" by blast
    show ?thesis
    proof (cases "j = i")
      case True
      then have "sessClosed (sessions w ! s) \<or> session (dialer w) = Some s \<or> holds (pc (goto i p w) i) s"
        using assms(3) j that by (simp add: goto_def)
      then show ?thesis by blast
    next
      case False
      then have "holds (pc (goto i p w) j) s" using j by (simp add: goto_def)
      then show ?thesis by blast
    qed
  qed (use assms(1) that in \<open>auto simp: sess_ok_def\<close>)
  then show ?thesis using assms(1) a unfolding sess_ok_def d by blast
qed

lemma sess_move: "sess_ok w \<Longrightarrow> phase_ok (sessions w) p \<Longrightarrow> \<forall>s. \<not> holds (pc w i) s \<Longrightarrow> sess_ok (goto i p w)"
  by (rule sess_goto) simp_all

lemma sess_phase: "sess_ok w \<Longrightarrow> pc w i = p \<Longrightarrow> phase_ok (sessions w) p"
  unfolding sess_ok_def by blast

lemma sessionAt_ages [simp]: "ages (sessions w) (sessions (sessionAt s (closeWithError e) w))"
  by (simp add: sessionAt_def ages_update)

lemma phase_results [simp]:
  "role_ok r \<Longrightarrow> phase_ok ss (sessionFailed x r e)" "role_ok r \<Longrightarrow> s < length ss \<Longrightarrow> phase_ok ss (sessionReady r s)"
  "role_ok r \<Longrightarrow> phase_ok ss (afterDiscard x r)" "\<not> holds (sessionFailed x r e) s" "\<not> holds (sessionReady r t) s" "\<not> holds (afterDiscard x r) s"
  by (auto simp: sessionFailed_def sessionReady_def afterDiscard_def minBackoff_def maxBackoff_def split: role.splits)

lemma startDial_ok [simp]: "phase_ok ss (startDial addr)"
proof (cases "encodeAddress addr")
  case (Inr b)
  then show ?thesis using encodeAddress_length [OF Inr]
    by (auto simp: startDial_def WriteAddress_def conn_write_def)
qed (auto simp: startDial_def WriteAddress_def split: prod.splits option.splits)

lemma openMuxStream_keeps: "openMuxStream now p s = (r, s') \<Longrightarrow> sessClosed s \<Longrightarrow> sessClosed s'"
  unfolding openMuxStream_def Let_def
  by (auto split: prod.splits option.splits simp: sendFrame_def registerStream_def nextStreamID_def Let_def split: if_splits)

lemma openMuxStream_fails: "openMuxStream now p s = (Inl e, s') \<Longrightarrow> length p \<le> 259 \<Longrightarrow> sessClosed s'"
  unfolding openMuxStream_def Let_def
  by (auto split: prod.splits option.splits dest!: sendFrame_error simp: muxMaxFrameSize_def)

lemma sess_ask:
  assumes "sess_ok w" "pc w i = Asking r" "askSession w = (a, w')"
  shows "sess_ok (goto i (afterAsk x r a) w')"
proof -
  have r: "role_ok r" using assms(1,2) unfolding sess_ok_def by (metis phase_ok.simps(1))
  have w: "w' = w \<or> (a = AskCreate \<and> w' = w\<lparr>dialer := (dialer w)\<lparr>creating := True, createDone := Some (length (chans w))\<rparr>, chans := chans w @ [False]\<rparr>
      \<and> (\<forall>s. session (dialer w) = Some s \<longrightarrow> sessClosed (sessions w ! s)))"
    and h: "\<And>s. a = AskHave s \<Longrightarrow> session (dialer w) = Some s"
    using assms(3) by (auto simp: askSession_def Let_def split: if_splits option.splits)
  have "sess_ok w'" "pc w' = pc w" using w assms(1) by (auto simp: sess_ok_def)
  moreover have "phase_ok (sessions w') (afterAsk x r a)"
    using r h w assms(1) by (cases a) (auto simp: afterAsk_def sess_ok_def)
  ultimately show ?thesis using assms(2) by (simp add: sess_move)
qed

lemma sess_cong:
  assumes "sess_ok w" "session (dialer w') = session (dialer w)" "dclosed (dialer w') = dclosed (dialer w)"
    "creating (dialer w') \<Longrightarrow> creating (dialer w)" "sessions w' = sessions w" "pc w' = pc w"
  shows "sess_ok w'"
  using assms(1,4) unfolding sess_ok_def assms(2,3,5,6) by blast

lemma closeDone_fields:
  "closeDone w = Some w' \<Longrightarrow> session (dialer w') = session (dialer w) \<and> dclosed (dialer w') = dclosed (dialer w) \<and>
    \<not> creating (dialer w') \<and> sessions w' = sessions w \<and> pc w' = pc w"
  by (auto simp: closeDone_def split: option.splits if_splits)

lemma sess_start:
  assumes "sess_ok w" "pc w i = Starting r" "startCreate i w = (e, w')" "phase_ok (sessions w) p"
  shows "sess_ok (goto i p w')"
proof -
  have "sess_ok w' \<and> sessions w' = sessions w \<and> pc w' = pc w"
    using assms(3) closeDone_fields
    by (auto simp: startCreate_def intro: sess_cong [OF assms(1)] split: if_splits option.splits)
  then show ?thesis using assms by (simp add: sess_move)
qed

lemma phase_ok_append: "phase_ok ss p \<Longrightarrow> phase_ok (ss @ [t]) p"
  by (cases p) (auto simp: nth_append)

lemma sess_made:
  assumes "sess_ok w" "role_ok r" "\<forall>s. \<not> holds (pc w i) s"
  shows "sess_ok (goto i (Made r (Inr (length (sessions w)))) (w\<lparr>sessions := sessions w @ [t]\<rparr>))"
proof -
  let ?w = "goto i (Made r (Inr (length (sessions w)))) (w\<lparr>sessions := sessions w @ [t]\<rparr>)"
  have "phase_ok (sessions w @ [t]) (pc ?w j)" for j
    using assms(1,2) phase_ok_append unfolding sess_ok_def by (simp add: goto_def)
  moreover have "holds (pc ?w i) (length (sessions w))" "\<And>j s. holds (pc w j) s \<Longrightarrow> holds (pc ?w j) s"
    using assms(3) by (auto simp: goto_def)
  moreover have "sessClosed (sessions ?w ! s) \<or> session (dialer w) = Some s \<or> (\<exists>j. holds (pc ?w j) s)" if "s < Suc (length (sessions w))" for s
  proof (cases "s = length (sessions w)")
    case False
    then have "s < length (sessions w)" using that by simp
    then have "sessions ?w ! s = sessions w ! s"
      and "sessClosed (sessions w ! s) \<or> session (dialer w) = Some s \<or> (\<exists>j. holds (pc w j) s)"
      using assms(1) unfolding sess_ok_def by (simp add: goto_def nth_append, blast)
    then show ?thesis using calculation(3) by metis
  qed (use calculation(2) in blast)
  moreover have "dialer ?w = dialer w" "sessions ?w = sessions w @ [t]" by (simp_all add: goto_def)
  ultimately show ?thesis using assms(1) unfolding sess_ok_def by (auto simp: nth_append)
qed

lemma sess_finish:
  assumes "sess_ok w" "flight_ok w" "pc w i = Made r res" "finishCreate res w = (out, w')"
  shows "sess_ok (goto i (case out of Inr s \<Rightarrow> sessionReady r s | Inl e \<Rightarrow> sessionFailed x r e) w')"
proof -
  define d where "d = (dialer w)\<lparr>createStop := None\<rparr>"
  define w1 where "w1 = (case res of
                 Inr s \<Rightarrow> if \<not> dclosed d then w\<lparr>dialer := d\<lparr>session := Some s\<rparr>\<rparr>
                          else sessionAt s (closeWithError (Some ErrNetClosed)) (w\<lparr>dialer := d\<rparr>)
               | Inl e \<Rightarrow> w\<lparr>dialer := d\<rparr>)"
  have r: "role_ok r" and s: "\<And>s. res = Inr s \<Longrightarrow> s < length (sessions w)"
    using assms(1,3) unfolding sess_ok_def by (metis phase_ok.simps(5))+
  obtain c where c: "creating (dialer w)" "createDone (dialer w) = Some c" "\<not> chans w ! c"
    using assms(2,3) unfolding flight_ok_def by (metis busy.simps(3) not_None_eq)
  have "createDone (dialer w1) = Some c" "chans w1 = chans w" using c by (auto simp: w1_def d_def sessionAt_def split: sum.splits)
  then obtain w2 where w2: "closeDone w1 = Some w2" using c by (simp add: closeDone_def)
  have eq: "out = (case res of Inl e \<Rightarrow> Inl e | Inr s \<Rightarrow> if dclosed d then Inl ErrNetClosed else Inr s)" "w' = w2"
    using assms(4) w2 unfolding finishCreate_def Let_def w1_def d_def by (auto split: sum.splits)
  note f = closeDone_fields [OF w2]
  show ?thesis
  proof (cases "\<exists>s. res = Inr s \<and> \<not> dclosed d")
    case True
    then obtain s where res: "res = Inr s" "\<not> dclosed d" by blast
    have w1': "w1 = w\<lparr>dialer := d\<lparr>session := Some s\<rparr>\<rparr>" using res by (simp add: w1_def)
    have "\<And>t. t \<noteq> s \<Longrightarrow> holds (pc w j) t \<Longrightarrow> holds (pc (goto i p w2) j) t" for j p
      using f assms(3) res w1' by (auto simp: goto_def)
    moreover have "phase_ok (sessions w) (sessionReady r s)" using r s res by simp
    ultimately show ?thesis using assms(1) f res eq s c(1) w1' unfolding sess_ok_def
      by (simp add: d_def goto_def) (metis option.inject)
  next
    case False
    have "ages (sessions w) (sessions w1)" by (auto simp: w1_def sessionAt_def ages_def intro!: ages_update [unfolded ages_def, THEN conjunct2, rule_format] split: sum.splits)
    then have "sess_ok (w\<lparr>sessions := sessions w1\<rparr>)" using sess_ages [OF assms(1), of "w\<lparr>sessions := sessions w1\<rparr>"] by simp
    then have "sess_ok w2" by (rule sess_cong) (use f False in \<open>auto simp: w1_def d_def sessionAt_def split: sum.splits\<close>)
    moreover have "sessClosed (sessions w2 ! s)" if "holds (pc w2 i) s" for s
      using that f False assms(3) s by (auto simp: w1_def d_def sessionAt_def split: if_splits sum.splits)
    moreover have "\<exists>e. out = Inl e" using eq False by (auto split: sum.splits)
    ultimately show ?thesis using eq r by (auto intro!: sess_goto)
  qed
qed

lemma createSession_fresh: "createSession cfg base ready ctxErr c now = (Inr s, b) \<Longrightarrow> \<not> sessClosed s"
  by (auto simp: createSession_def newMuxSession_def split: option.splits if_splits sum.splits prod.splits)

lemma sess_update:
  assumes "sess_ok w" "sessClosed (sessions w ! p) \<Longrightarrow> sessClosed t" "phase_ok ((sessions w)[p := t]) q" "\<forall>s. \<not> holds (pc w i) s"
  shows "sess_ok (goto i q (w\<lparr>sessions := (sessions w)[p := t]\<rparr>))"
proof -
  have "sess_ok (w\<lparr>sessions := (sessions w)[p := t]\<rparr>)"
    using sess_ages [OF assms(1), of "w\<lparr>sessions := (sessions w)[p := t]\<rparr>"] ages_update [OF assms(2)] by simp
  then show ?thesis using assms(3,4) by (simp add: sess_move)
qed

lemma sess_step: "dstep w w' \<Longrightarrow> flight_ok w \<Longrightarrow> sess_ok w \<Longrightarrow> sess_ok w'"
proof (induction rule: dstep.induct)
  case (CallClose w i p w')
  show ?case
  proof (cases "dclosed (dialer w)")
    case True
    then show ?thesis using CallClose by (auto simp: closeLocked_def intro: sess_move)
  next
    case False
    then have eq: "p = Closing (createStop (dialer w)) (session (dialer w))" "w' = w\<lparr>dialer := (dialer w)\<lparr>dclosed := True, session := None\<rparr>\<rparr>"
      using CallClose by (auto simp: closeLocked_def Let_def)
    let ?g = "goto i p w'"
    have h: "\<And>s j. holds (pc w j) s \<or> (j = i \<and> session (dialer w) = Some s) \<Longrightarrow> holds (pc ?g j) s"
      using CallClose.hyps(1) eq by (auto simp: goto_def)
    have "\<forall>j. phase_ok (sessions w) (pc ?g j)" using CallClose.prems(2) eq by (simp add: goto_def sess_ok_def)
    moreover have "sessClosed (sessions w ! s) \<or> (\<exists>j. holds (pc ?g j) s)" if "s < length (sessions w)" for s
      using that h CallClose.prems(2) unfolding sess_ok_def by blast
    moreover have "sessions ?g = sessions w" "session (dialer ?g) = None" by (simp_all add: eq goto_def)
    ultimately show ?thesis unfolding sess_ok_def by simp
  qed
next
  case (Ask w i r a w')
  then show ?case by (simp add: sess_ask)
next
  case (StartCreate w i r w')
  then have "role_ok r" unfolding sess_ok_def by (metis phase_ok.simps(3))
  then show ?case using sess_start [OF StartCreate.prems(2) StartCreate.hyps] by simp
next
  case (StartClosed w i r e w')
  then have "role_ok r" unfolding sess_ok_def by (metis phase_ok.simps(3))
  then show ?case using sess_start [OF StartClosed.prems(2) StartClosed.hyps] by simp
next
  case (CreateOk w i r cfg base ready ctxErr now s b)
  then have "role_ok r" unfolding sess_ok_def by (metis phase_ok.simps(4))
  then show ?case using sess_made CreateOk by simp
next
  case (FinishOk w i r res s w')
  then show ?case using sess_finish [OF FinishOk.prems(2,1) FinishOk.hyps] by simp
next
  case (FinishFail w i r res e w')
  then show ?case using sess_finish [OF FinishFail.prems(2,1) FinishFail.hyps] by simp
next
  case (OpenOk w i p k s now q s')
  then show ?case by (intro sess_update) (auto dest: openMuxStream_keeps)
next
  case (OpenFail w i p k s now e s')
  then have "role_ok (RDial p k)" "s < length (sessions w)" unfolding sess_ok_def by (metis phase_ok.simps(6))+
  then show ?case using OpenFail openMuxStream_fails by (intro sess_update) (auto dest: openMuxStream_keeps)
next
  case (Discard w i r s e)
  then have h: "role_ok r" "sessClosed (sessions w ! s)" unfolding sess_ok_def by (metis phase_ok.simps(7))+
  have f: "pc (discardSession s w) = pc w" "sessions (discardSession s w) = sessions w" by (simp_all add: discardSession_def)
  have "sess_ok (discardSession s w)"
  proof (cases "session (dialer w) = Some s")
    case True
    then have "dialer (discardSession s w) = (dialer w)\<lparr>session := None\<rparr>" by (simp add: discardSession_def)
    moreover have "sessClosed (sessions w ! t) \<or> (\<exists>j. holds (pc w j) t)" if "t < length (sessions w)" for t
      using True that h(2) Discard.prems(2) unfolding sess_ok_def by (metis option.inject)
    ultimately show ?thesis using Discard.prems(2) unfolding sess_ok_def f by simp
  qed (use Discard.prems(2) in \<open>simp add: discardSession_def\<close>)
  then show ?case using h Discard f by (simp add: sess_move)
next
  case (CloseRest w i stop s)
  let ?w = "closeRest stop s w"
  have f: "dialer ?w = dialer w" "pc ?w = pc w" by (simp_all add: closeRest_def sessionAt_def Let_def split: option.splits)
  have a: "ages (sessions w) (sessions ?w)"
    by (auto simp: closeRest_def sessionAt_def Let_def ages_def intro!: ages_update [unfolded ages_def, THEN conjunct2, rule_format] split: option.splits)
  have "sess_ok ?w" by (rule sess_ages [OF CloseRest.prems(2) a f])
  moreover have "s = Some t \<Longrightarrow> t < length (sessions ?w) \<Longrightarrow> sessClosed (sessions ?w ! t)" for t
    by (auto simp: closeRest_def sessionAt_def Let_def split: option.splits)
  ultimately show ?case using CloseRest.hyps f by (intro sess_goto) auto
next
  case (Cancel w i)
  then show ?case by (simp add: sess_ok_def)
next
  case (Session p w s')
  then show ?case using sess_ages [OF Session.prems(2), of "w\<lparr>sessions := (sessions w)[p := s']\<rparr>"] ages_update mux_step_keeps by simp
next
  case (Ended w i b s)
  then have "role_ok (RMaintain b)" "s < length (sessions w)" unfolding sess_ok_def by (metis phase_ok.simps(6))+
  then show ?case using Ended by (intro sess_move) auto
qed (frule (1) sess_phase; simp add: sess_move minBackoff_def maxBackoff_def)+

lemma dreach_ok: "dreach w \<Longrightarrow> flight_ok w \<and> sess_ok w"
proof (induction rule: dreach.induct)
  case Start
  show ?case by (simp add: flight_ok_def sess_ok_def newDialer_def)
next
  case (Step w w')
  then show ?case using flight_step sess_step by blast
qed

section \<open>Properties\<close>

text \<open>Property C28: under every interleaving of dials, warm-ups, maintenance, cancellations and Close at most one caller creates a session,
  exactly while the dialer says so; no channel is closed twice; a closed dialer offers no session; every session that is
  still open is the one on offer or in the hands of a caller that will publish or close it; backoffs stay in their bounds.\<close>

theorem mux_dialer_invariant:
  assumes "dreach w"
  shows "(\<forall>i j. busy (pc w i) \<and> busy (pc w j) \<longrightarrow> i = j) \<and> (creating (dialer w) \<longleftrightarrow> (\<exists>i. busy (pc w i))) \<and>
    (\<forall>i. pc w i \<noteq> Returned (Some RuntimePanic)) \<and> (dclosed (dialer w) \<longrightarrow> session (dialer w) = None) \<and>
    (\<forall>s < length (sessions w). sessClosed (sessions w ! s) \<or> session (dialer w) = Some s \<or> (\<exists>i. holds (pc w i) s)) \<and>
    (\<forall>i b. pc w i = Sleeping (RMaintain b) \<longrightarrow> minBackoff \<le> b \<and> b \<le> maxBackoff)"
proof -
  have f: "flight_ok w" and s: "sess_ok w" using dreach_ok [OF assms] by auto
  have "pc w i \<noteq> Returned (Some RuntimePanic)" for i using f unfolding flight_ok_def by (metis calm.simps(2))
  moreover have "minBackoff \<le> b \<and> b \<le> maxBackoff" if "pc w i = Sleeping (RMaintain b)" for i b
    using s that unfolding sess_ok_def by (metis phase_ok.simps(8) role_ok.simps(3))
  ultimately show ?thesis using f s unfolding flight_ok_def sess_ok_def by blast
qed


lemma finish_closes:
  assumes "flight_ok w" "createDone (dialer w) = Some k" "pc w j = Made r res" "i \<noteq> j"
  shows "\<exists>w'. dstep w w' \<and> chans w' ! k \<and> pc w' i = pc w i"
proof -
  have k: "k < length (chans w)" "\<not> chans w ! k" using assms(1,2) unfolding flight_ok_def by auto
  obtain out w' where o: "finishCreate res w = (out, w')" by fastforce
  then have "chans w' ! k" "pc w' = pc w"
    using assms(2) k by (auto simp: finishCreate_def closeDone_def sessionAt_def Let_def split: sum.splits if_splits)
  then show ?thesis using assms(3,4) o FinishOk FinishFail
    by (cases out) (metis fun_upd_other goto_def select_convs(3,6) surjective update_convs(6))+
qed

inductive dsteps :: "world \<Rightarrow> world \<Rightarrow> bool" where
  Refl: "dsteps w w"
| Trans: "dsteps w w1 \<Longrightarrow> dstep w1 w2 \<Longrightarrow> dsteps w w2"

lemma dsteps_reach: "dsteps w w' \<Longrightarrow> dreach w \<Longrightarrow> dreach w'"
  by (induction rule: dsteps.induct) (auto intro: dreach.Step)

lemma creating_fails:
  assumes "pc w j = Creating r"
  shows "dstep w (goto j (Made r (Inl (ErrMsg ''missing config''))) w)"
  using CreateFail [OF assms, of None _ _ _ _ "ErrMsg ''missing config''" False] by (simp add: createSession_def)

lemma busy_finishes:
  assumes "dreach w" "createDone (dialer w) = Some k" "busy (pc w j)" "i \<noteq> j"
  shows "\<exists>w'. dsteps w w' \<and> chans w' ! k \<and> pc w' i = pc w i"
proof -
  have made: "\<exists>w'. dsteps w w' \<and> chans w' ! k \<and> pc w' i = pc v i"
    if "dsteps w v" "createDone (dialer v) = Some k" "pc v j = Made r res" for v r res
    using finish_closes [OF _ that(2,3) assms(4)] dreach_ok [OF dsteps_reach [OF that(1) assms(1)]] that(1) Trans by metis
  have creating: "\<exists>w'. dsteps w w' \<and> chans w' ! k \<and> pc w' i = pc v i"
    if "dsteps w v" "createDone (dialer v) = Some k" "pc v j = Creating r" for v r
    using made [OF Trans [OF that(1) creating_fails [OF that(3)]]] that(2) assms(4) by (simp add: goto_def)
  show ?thesis
  proof (cases "pc w j")
    case (Starting r)
    have k: "k < length (chans w)" "\<not> chans w ! k" using dreach_ok [OF assms(1)] assms(2) unfolding flight_ok_def by auto
    show ?thesis
    proof (cases "dclosed (dialer w)")
      case True
      then obtain e w' where s: "startCreate j w = (Some e, w')" and c: "chans w' ! k" "pc w' = pc w"
        using k assms(2) by (auto simp: startCreate_def closeDone_def)
      show ?thesis using Trans [OF Refl StartClosed [OF Starting s]] c assms(4) by (auto simp: goto_def intro!: exI)
    next
      case False
      then obtain w' where s: "startCreate j w = (None, w')" and c: "createDone (dialer w') = Some k" "pc w' = pc w"
        using assms(2) by (auto simp: startCreate_def)
      show ?thesis using creating [OF Trans [OF Refl StartCreate [OF Starting s]], of r] c assms(4) by (simp add: goto_def)
    qed
  qed (use assms(2,3) made [OF Refl] creating [OF Refl] in auto)
qed

text \<open>No wake-up is lost. A caller that waits for the creation of another one is woken by it: its channel is not nil, and it
  is closed already or the creating caller can go on until it is closed, also when the creation fails or the dialer is closed meanwhile.\<close>

theorem mux_dialer_waiters_wake:
  assumes "dreach w" "pc w i = Waiting r c"
  shows "\<exists>w'. dsteps w w' \<and> pc w' i = Asking r"
proof -
  have "calm (chans w) (createDone (dialer w)) (Waiting r c)"
    using dreach_ok [OF assms(1)] assms(2) unfolding flight_ok_def by metis
  then obtain k where k: "c = Some k" "chans w ! k \<or> createDone (dialer w) = Some k" by auto
  obtain w1 where w1: "dsteps w w1" "chans w1 ! k" "pc w1 i = Waiting r (Some k)"
  proof (cases "chans w ! k")
    case False
    then have "\<exists>j. busy (pc w j)" using k dreach_ok [OF assms(1)] unfolding flight_ok_def by auto
    moreover have "\<not> busy (pc w i)" using assms(2) by simp
    ultimately obtain j where "busy (pc w j)" "i \<noteq> j" by metis
    then show thesis using busy_finishes [OF assms(1)] k False assms(2) that by metis
  qed (use that Refl assms(2) k in blast)
  show ?thesis using Trans [OF w1(1) Wake [OF w1(3,2)]] by (auto simp: goto_def intro!: exI)
qed

text \<open>Concrete runs: a caller creates a session while another waits, and a dialer that has made a session is closed.\<close>

lemma goto_fields [simp]:
  "dialer (goto i p w) = dialer w" "sessions (goto i p w) = sessions w" "chans (goto i p w) = chans w" "pc (goto i p w) = (pc w)(i := p)"
  "ctxDone (goto i p w) = ctxDone w" "stopped (goto i p w) = stopped w"
  by (simp_all add: goto_def)

lemma newDialer_fields [simp]:
  "dialer newDialer = \<lparr>creating = False, createDone = None, createStop = None, session = None, dclosed = False\<rparr>"
  "sessions newDialer = []" "chans newDialer = []" "ctxDone newDialer = (\<lambda>i. False)" "stopped newDialer = (\<lambda>i. False)" "pc newDialer = (\<lambda>i. Idle)"
  by (simp_all add: newDialer_def)

lemma run_starting:
  obtains w where "dreach w" "pc w = (\<lambda>i. Idle)(0 := Starting RWarm, 1 := Asking RWarm)" "chans w = [False]" "sessions w = []"
    "dialer w = \<lparr>creating = True, createDone = Some 0, createStop = None, session = None, dclosed = False\<rparr>" "ctxDone w = (\<lambda>i. False)" "stopped w = (\<lambda>i. False)"
proof -
  let ?w = "goto 1 (Asking RWarm) (goto 0 (Asking RWarm) newDialer)"
  have "dreach (goto 0 (Asking RWarm) newDialer)" by (rule dreach.Step [OF dreach.Start dstep.CallWarm]) simp
  then have "dreach ?w" by (rule dreach.Step [OF _ dstep.CallWarm]) simp
  moreover obtain w' where a: "askSession ?w = (AskCreate, w')" and w': "w' = ?w\<lparr>dialer := (dialer ?w)\<lparr>creating := True, createDone := Some 0\<rparr>, chans := [False]\<rparr>"
    by (simp add: askSession_def)
  ultimately have "dreach (goto 0 (Starting RWarm) w')"
    using dreach.Step [OF _ dstep.Ask [OF _ a, of 0 RWarm]] by (simp add: afterAsk_def)
  then show thesis by (rule that) (simp_all add: w' fun_upd_twist)
qed

lemma run_waiting: "\<exists>w. dreach w \<and> pc w 0 = Starting RWarm \<and> pc w 1 = Waiting RWarm (Some 0)"
proof -
  obtain w where w: "dreach w" "pc w = (\<lambda>i. Idle)(0 := Starting RWarm, 1 := Asking RWarm)"
    "dialer w = \<lparr>creating = True, createDone = Some 0, createStop = None, session = None, dclosed = False\<rparr>" by (rule run_starting)
  then have "askSession w = (AskWait (Some 0), w)" by (simp add: askSession_def)
  then have "dreach (goto 1 (Waiting RWarm (Some 0)) w)"
    using dreach.Step [OF w(1) dstep.Ask [of w 1 RWarm]] w(2) by (simp add: afterAsk_def)
  then show ?thesis using w(2) by (intro exI) auto
qed

theorem mux_dialer_waiters_wake_witness:
  "\<exists>w. dreach w \<and> pc w 1 = Waiting RWarm (Some 0) \<and> (\<exists>w'. dsteps w w' \<and> pc w' 1 = Asking RWarm)"
  using run_waiting mux_dialer_waiters_wake by blast

theorem mux_dialer_invariant_witness:
  "\<exists>w. dreach w \<and> busy (pc w 0) \<and> creating (dialer w) \<and> \<not> busy (pc w 1)"
  using run_waiting mux_dialer_invariant by (metis One_nat_def busy.simps(1) zero_neq_one)

lemma mux_config: "\<exists>c. SessionMuxEnabled c"
proof -
  have "firstMultiplexMode [''on'', m] = ''on''" for m by code_simp
  then have "SessionMuxEnabled (c\<lparr>HTTPMask := (HTTPMask c)\<lparr>MaskMultiplex := ''on''\<rparr>\<rparr>)" for c by (simp add: SessionMuxEnabled_def MultiplexMode_def)
  then show ?thesis by blast
qed

lemma run_closed: "\<exists>w. dreach w \<and> dclosed (dialer w) \<and> (\<forall>i s. \<not> holds (pc w i) s) \<and> sessions w \<noteq> []"
proof -
  obtain w where w: "dreach w" "pc w = (\<lambda>i. Idle)(0 := Starting RWarm, 1 := Asking RWarm)" "chans w = [False]" "sessions w = []"
    "dialer w = \<lparr>creating = True, createDone = Some 0, createStop = None, session = None, dclosed = False\<rparr>" "ctxDone w = (\<lambda>i. False)" "stopped w = (\<lambda>i. False)"
    by (rule run_starting)
  obtain c where c: "SessionMuxEnabled c" using mux_config by blast
  let ?d = "\<lparr>creating = False, createDone = None, createStop = None, session = Some 0, dclosed = False\<rparr>"
  let ?w1 = "goto 0 (Creating RWarm) (w\<lparr>dialer := (dialer w)\<lparr>createStop := Some 0\<rparr>\<rparr>)"
  have 1: "dreach ?w1" by (rule dreach.Step [OF w(1) dstep.StartCreate]) (simp_all add: w startCreate_def)
  obtain w0 where w0: "WriteKIPMessage \<lparr>sent = [], script = []\<rparr> KIPTypeStartMux [] = (None, w0)"
    by (simp add: WriteKIPMessage_def writeKIP_def WriteFull_open)
  let ?s = "newMuxSession (reader_of []) w0 False 0"
  let ?w2 = "goto 0 (Made RWarm (Inr 0)) (?w1\<lparr>sessions := [?s]\<rparr>)"
  have "createSession (Some c) (Inr (reader_of [], \<lparr>sent = [], script = []\<rparr>)) None None (ctxDone ?w1 0 \<or> stopped ?w1 0) 0 = (Inr ?s, False)"
    by (simp add: createSession_def c w0 w)
  from dstep.CreateOk [OF _ this, of RWarm] have 2: "dreach ?w2" using dreach.Step [OF 1] by (simp add: w)
  have "finishCreate (Inr 0) ?w2 = (Inr 0, ?w2\<lparr>dialer := ?d, chans := [True]\<rparr>)" by (simp add: finishCreate_def closeDone_def w)
  from dstep.FinishOk [OF _ this, of 0 RWarm]
  have 3: "dreach (goto 0 (Returned None) (?w2\<lparr>dialer := ?d, chans := [True]\<rparr>))" using dreach.Step [OF 2] by (simp add: sessionReady_def)
  let ?w3 = "goto 0 (Returned None) (?w2\<lparr>dialer := ?d, chans := [True]\<rparr>)"
  have "closeLocked ?w3 = (Closing None (Some 0), ?w3\<lparr>dialer := ?d\<lparr>dclosed := True, session := None\<rparr>\<rparr>)" by (simp add: closeLocked_def)
  from dreach.Step [OF 3 dstep.CallClose [OF _ this, of 2]]
  have 4: "dreach (goto 2 (Closing None (Some 0)) (?w3\<lparr>dialer := ?d\<lparr>dclosed := True, session := None\<rparr>\<rparr>))" (is "dreach ?w4") by (simp add: w)
  have 5: "dreach (goto 2 (Returned None) (closeRest None (Some 0) ?w4))" (is "dreach ?w5")
    by (rule dreach.Step [OF 4 dstep.CloseRest]) simp
  have "dclosed (dialer ?w5)" "sessions ?w5 \<noteq> []" "\<forall>i s. \<not> holds (pc ?w5 i) s" by (simp_all add: closeRest_def sessionAt_def w)
  then show ?thesis using 5 by blast
qed


end
