(* ===== verification/Geo.thy ===== *)
theory Geo
  imports GeoRanges HttpAuth
begin

text \<open>
  The rule sets that route connections (\<open>pkg/geodata/manager.go\<close>): parsing of rule lines, download and cache of the sources, and
  matching of a host and an address. The HTTP client, YAML, SHA-256 and the writes to the disk are parameters; the cache
  directory is a map from paths to contents. The maps of the code that serve as sets are lists here, and the order in
  which Go iterates over the keywords is a parameter. Strings are ASCII.
\<close>

section \<open>Strings\<close>

fun SplitByte :: "char \<Rightarrow> string \<Rightarrow> string list" where
  "SplitByte c [] = [[]]"
| "SplitByte c (d # s) =
    (if d = c then [] # SplitByte c s
     else case SplitByte c s of [] \<Rightarrow> [[d]] | w # ws \<Rightarrow> (d # w) # ws)"

fun JoinByte :: "char \<Rightarrow> string list \<Rightarrow> string" where
  "JoinByte c [] = []"
| "JoinByte c [w] = w"
| "JoinByte c (w # v # ws) = w @ c # JoinByte c (v # ws)"

text \<open>The results of \<open>ReadString\<close> up to the end of the data: every line with its newline, and what follows the last one.\<close>

fun splitAfterNL :: "string \<Rightarrow> string list" where
  "splitAfterNL [] = [[]]"
| "splitAfterNL (c # s) =
    (if c = CHR 0x0A then [c] # splitAfterNL s
     else case splitAfterNL s of [] \<Rightarrow> [[c]] | w # ws \<Rightarrow> (c # w) # ws)"

definition is_quote :: "char \<Rightarrow> bool" where
  "is_quote c \<longleftrightarrow> c = CHR 0x27 \<or> c = CHR 0x22"

definition TrimQuotes :: "string \<Rightarrow> string" where
  "TrimQuotes s = rev (dropWhile is_quote (rev (dropWhile is_quote s)))"

definition HasSuffix :: "string \<Rightarrow> string \<Rightarrow> bool" where
  "HasSuffix s p \<longleftrightarrow> HasPrefix (rev s) (rev p)"

definition TrimSuffix :: "string \<Rightarrow> string \<Rightarrow> string" where
  "TrimSuffix s p = (if HasSuffix s p then take (length s - length p) s else s)"

fun Contains :: "string \<Rightarrow> string \<Rightarrow> bool" where
  "Contains [] t \<longleftrightarrow> t = []"
| "Contains (c # s) t \<longleftrightarrow> HasPrefix (c # s) t \<or> Contains s t"

definition is_letter :: "char \<Rightarrow> bool" where
  "is_letter c \<longleftrightarrow> (let n = of_char c :: nat in 65 \<le> n \<and> n \<le> 90 \<or> 97 \<le> n \<and> n \<le> 122)"

section \<open>Prefixes in CIDR notation\<close>

text \<open>\<open>net.CIDRMask\<close> and \<open>net.ParseCIDR\<close>; the latter returns the network address and the mask of its result.\<close>

fun CIDRMask :: "nat \<Rightarrow> nat \<Rightarrow> bytes" where
  "CIDRMask n 0 = []"
| "CIDRMask n (Suc l) = (if 8 \<le> n then 255 # CIDRMask (n - 8) l else NOT (drop_bit n 255) # CIDRMask 0 l)"

fun addrBytes :: "string \<Rightarrow> nat" where
  "addrBytes [] = 0"
| "addrBytes (c # cs) = (if c = CHR ''.'' then 4 else if c = CHR '':'' then 16 else addrBytes cs)"

definition IP_Mask :: "bytes \<Rightarrow> bytes \<Rightarrow> bytes" where
  "IP_Mask ip m =
    (let p = (if length m = 4 \<and> length ip = 16 \<and> take 12 ip = v4InV6Prefix then drop 12 ip else ip)
     in map2 (AND) p m)"

definition ParseCIDR :: "string \<Rightarrow> (bytes \<times> bytes) option" where
  "ParseCIDR s =
    (case IndexByte s (CHR ''/'') of
       None \<Rightarrow> None
     | Some i \<Rightarrow>
       let addr = take i s; ds = drop (Suc i) s
       in case ParseIP addr of
            None \<Rightarrow> None
          | Some ip \<Rightarrow>
            if ds = [] \<or> \<not> list_all is_digit ds \<or> 8 * addrBytes addr < digits_val ds then None
            else let m = CIDRMask (digits_val ds) (addrBytes addr) in Some (IP_Mask ip m, m))"

section \<open>Rules\<close>

record ruleBuildState =
  ipv4 :: "IPRange list"
  ipv6 :: "IPv6Range list"
  exact :: "string list"
  keyword :: "string list"
  suffix :: "string list"

definition newRuleBuildState :: ruleBuildState where
  "newRuleBuildState = \<lparr>ipv4 = [], ipv6 = [], exact = [], keyword = [], suffix = []\<rparr>"

definition normalizeRuleDomain :: "string \<Rightarrow> string" where
  "normalizeRuleDomain v = TrimPrefix (TrimSuffix (TrimSpace (ToLower (TrimQuotes v))) ''.'') ''.''"

definition normalizeRuleKeyword :: "string \<Rightarrow> string" where
  "normalizeRuleKeyword v = TrimSpace (ToLower (TrimQuotes v))"

definition looksLikeDomainRule :: "string \<Rightarrow> bool" where
  "looksLikeDomainRule v \<longleftrightarrow>
    \<not> (v = '''' \<or> ParseIP v \<noteq> None \<or> list_ex (\<lambda>c. c \<in> set ''/:,_ '') v)
    \<and> list_all (\<lambda>label. label \<noteq> '''' \<and> list_all (\<lambda>r. is_letter r \<or> is_digit r \<or> r = CHR ''-'') label) (SplitByte (CHR ''.'') v)"

text \<open>The range a line denotes: a prefix or a single address.\<close>

definition ipLineRange :: "string \<Rightarrow> (IPRange + IPv6Range) option" where
  "ipLineRange line =
    (case ParseCIDR line of
       Some (ip, m) \<Rightarrow>
         (case To4 ip of
            Some ip4 \<Rightarrow> let start = ipToUint32 ip4 in Some (Inl \<lparr>Start = start, End = start OR NOT (Uint32 m)\<rparr>)
          | None \<Rightarrow>
            (case To16 ip of
               None \<Rightarrow> None
             | Some ip16 \<Rightarrow>
               Some (Inr \<lparr>Start6 = ip16, End6 = map (\<lambda>i. ip16 ! i OR NOT (if i < length m then m ! i else 0)) [0..<16]\<rparr>)))
     | None \<Rightarrow>
       (case ParseIP line of
          None \<Rightarrow> None
        | Some ip \<Rightarrow>
          (case To4 ip of
             Some ip4 \<Rightarrow> let val = ipToUint32 ip4 in Some (Inl \<lparr>Start = val, End = val\<rparr>)
           | None \<Rightarrow> map_option (\<lambda>v6. Inr \<lparr>Start6 = v6, End6 = v6\<rparr>) (To16 ip))))"

definition addRange :: "(IPRange + IPv6Range) \<Rightarrow> ruleBuildState \<Rightarrow> ruleBuildState" where
  "addRange r st = (case r of Inl r4 \<Rightarrow> st\<lparr>ipv4 := ipv4 st @ [r4]\<rparr> | Inr r6 \<Rightarrow> st\<lparr>ipv6 := ipv6 st @ [r6]\<rparr>)"

definition parseIPLine :: "string \<Rightarrow> ruleBuildState \<Rightarrow> bool \<times> ruleBuildState" where
  "parseIPLine line st =
    (let l = TrimSpace (TrimQuotes line)
     in if l = '''' then (False, st)
        else case ipLineRange l of None \<Rightarrow> (False, st) | Some r \<Rightarrow> (True, addRange r st))"

definition parseBareDomainLine :: "string \<Rightarrow> ruleBuildState \<Rightarrow> bool \<times> ruleBuildState" where
  "parseBareDomainLine line st =
    (let raw = TrimSpace (TrimQuotes line);
         (rest, isSuffix) = (if HasPrefix raw ''+.'' then (TrimPrefix raw ''+.'', True)
           else if HasPrefix raw ''.'' then (TrimPrefix raw ''.'', True) else (raw, False));
         domain = normalizeRuleDomain rest
     in if raw = '''' then (False, st)
        else if \<not> looksLikeDomainRule domain then (False, st)
        else if isSuffix then (True, st\<lparr>suffix := List.insert domain (suffix st)\<rparr>)
        else (True, st\<lparr>exact := List.insert domain (exact st)\<rparr>))"

definition parseRule :: "string \<Rightarrow> ruleBuildState \<Rightarrow> bool \<times> ruleBuildState" where
  "parseRule line0 st =
    (let line = TrimSpace line0
     in if line = '''' \<or> HasPrefix line ''#'' \<or> HasPrefix line ''//'' then (False, st)
        else
          let parts = SplitByte (CHR '','') line
          in if 2 \<le> length parts then
               let ruleType = TrimSpace (ToUpper (parts ! 0)); ruleValue = TrimSpace (parts ! 1)
               in if ruleType = ''DOMAIN'' then
                    (let v = normalizeRuleDomain ruleValue in if v \<noteq> '''' then (True, st\<lparr>exact := List.insert v (exact st)\<rparr>) else (False, st))
                  else if ruleType = ''DOMAIN-KEYWORD'' then
                    (let v = normalizeRuleKeyword ruleValue in if v \<noteq> '''' then (True, st\<lparr>keyword := List.insert v (keyword st)\<rparr>) else (False, st))
                  else if ruleType = ''DOMAIN-SUFFIX'' then
                    (let v = normalizeRuleDomain ruleValue in if v \<noteq> '''' then (True, st\<lparr>suffix := List.insert v (suffix st)\<rparr>) else (False, st))
                  else if ruleType = ''IP-CIDR'' \<or> ruleType = ''IP-CIDR6'' then parseIPLine ruleValue st
                  else (False, st)
             else
               (case parseIPLine line st of
                  (True, st1) \<Rightarrow> (True, st1)
                | (False, st1) \<Rightarrow> parseBareDomainLine line st1))"

fun parseRules :: "string list \<Rightarrow> bool \<Rightarrow> ruleBuildState \<Rightarrow> bool \<times> ruleBuildState" where
  "parseRules [] parsed st = (parsed, st)"
| "parseRules (l # ls) parsed st = (case parseRule l st of (ok, st1) \<Rightarrow> parseRules ls (parsed \<or> ok) st1)"

definition ruleLines :: "(bytes \<Rightarrow> string list result) \<Rightarrow> bytes \<Rightarrow> string list" where
  "ruleLines yaml body =
    (case yaml body of
       Inr payload \<Rightarrow> if payload \<noteq> [] then payload else splitAfterNL (string_of body)
     | Inl e \<Rightarrow> splitAfterNL (string_of body))"

definition parseRuleSource :: "(bytes \<Rightarrow> string list result) \<Rightarrow> bytes \<Rightarrow> ruleBuildState \<Rightarrow> bool \<times> ruleBuildState" where
  "parseRuleSource yaml body st = parseRules (ruleLines yaml body) False st"

section \<open>The manager\<close>

record Manager =
  ipRanges :: "IPRange list"
  ipv6Ranges :: "IPv6Range list"
  domainExact :: "string list"
  domainKeyword :: "string list"
  domainSuffix :: "string list"
  urls :: "string list"
  cacheDir :: string

record Match =
  Kind :: string
  Value :: string

text \<open>The cache directory is resolved from the environment; it is empty if that fails.\<close>

definition NewManager :: "string result \<Rightarrow> string list \<Rightarrow> Manager" where
  "NewManager dir us =
    \<lparr>ipRanges = [], ipv6Ranges = [], domainExact = [], domainKeyword = [], domainSuffix = [], urls = us,
     cacheDir = (case dir of Inr d \<Rightarrow> d | Inl e \<Rightarrow> '''')\<rparr>"

definition applyRuleState ::
  "(IPRange list \<Rightarrow> IPRange list) \<Rightarrow> (IPv6Range list \<Rightarrow> IPv6Range list) \<Rightarrow> ruleBuildState \<Rightarrow> Manager \<Rightarrow> Manager" where
  "applyRuleState srt4 srt6 st m =
    m\<lparr>ipRanges := mergeRanges srt4 (ipv4 st), ipv6Ranges := mergeIPv6Ranges srt6 (ipv6 st),
      domainExact := exact st, domainKeyword := keyword st, domainSuffix := suffix st\<rparr>"

text \<open>\<open>get\<close> is the HTTP client: an error, or the status and the body, which may fail to be read.\<close>

definition downloadRuleSource :: "(string \<Rightarrow> (nat \<times> bytes result) result) \<Rightarrow> string \<Rightarrow> bytes result" where
  "downloadRuleSource get url =
    (case get url of
       Inl e \<Rightarrow> Inl e
     | Inr (status, body) \<Rightarrow>
       if status < 200 \<or> 300 \<le> status then Inl (ErrMsg ''unexpected HTTP status'')
       else case body of
         Inl e \<Rightarrow> Inl e
       | Inr b \<Rightarrow> if TrimSpace (string_of b) = '''' then Inl (ErrMsg ''empty response'') else Inr b)"

definition hex2 :: "byte \<Rightarrow> string" where
  "hex2 b = [hex_char (unat b div 16), hex_char (unat b mod 16)]"

definition ruleCachePath :: "(bytes \<Rightarrow> bytes) \<Rightarrow> Manager \<Rightarrow> string \<Rightarrow> string result" where
  "ruleCachePath sha256 m url =
    (if TrimSpace (cacheDir m) = '''' then Inl (ErrMsg ''rule cache directory is unavailable'')
     else Inr (cacheDir m @ (if HasSuffix (cacheDir m) ''/'' then '''' else ''/'') @ concat (map hex2 (sha256 (bytes_of url))) @ ''.rules''))"

definition readRuleCache :: "(bytes \<Rightarrow> bytes) \<Rightarrow> (string \<rightharpoonup> bytes) \<Rightarrow> Manager \<Rightarrow> string \<Rightarrow> bytes result" where
  "readRuleCache sha256 files m url =
    (case ruleCachePath sha256 m url of
       Inl e \<Rightarrow> Inl e
     | Inr path \<Rightarrow> (case files path of None \<Rightarrow> Inl (ErrMsg ''no such file'') | Some body \<Rightarrow> Inr body))"

text \<open>The body is written to a temporary file and renamed: \<open>disk\<close> is the error of these steps, and with one the cache is unchanged.\<close>

definition writeRuleCache :: "(bytes \<Rightarrow> bytes) \<Rightarrow> (string \<Rightarrow> go_error option) \<Rightarrow> Manager \<Rightarrow> string \<Rightarrow> bytes
    \<Rightarrow> (string \<rightharpoonup> bytes) \<Rightarrow> go_error option \<times> (string \<rightharpoonup> bytes)" where
  "writeRuleCache sha256 disk m url body files =
    (case ruleCachePath sha256 m url of
       Inl e \<Rightarrow> (Some e, files)
     | Inr path \<Rightarrow> (case disk path of Some e \<Rightarrow> (Some e, files) | None \<Rightarrow> (None, files(path \<mapsto> body))))"

record geo_env =
  get :: "string \<Rightarrow> (nat \<times> bytes result) result"
  yaml :: "bytes \<Rightarrow> string list result"
  digest :: "bytes \<Rightarrow> bytes"
  disk :: "string \<Rightarrow> go_error option"
  srt4 :: "IPRange list \<Rightarrow> IPRange list"
  srt6 :: "IPv6Range list \<Rightarrow> IPv6Range list"

definition downloadAndParse :: "geo_env \<Rightarrow> Manager \<Rightarrow> string \<Rightarrow> ruleBuildState \<Rightarrow> (string \<rightharpoonup> bytes)
    \<Rightarrow> bool \<times> ruleBuildState \<times> (string \<rightharpoonup> bytes)" where
  "downloadAndParse env m url st files =
    (let cached = (\<lambda>st1.
           case readRuleCache (digest env) files m url of
             Inl e \<Rightarrow> (False, st1, files)
           | Inr body \<Rightarrow> (case parseRuleSource (yaml env) body st1 of (ok, st2) \<Rightarrow> (ok, st2, files)))
     in case downloadRuleSource (get env) url of
          Inl e \<Rightarrow> cached st
        | Inr body \<Rightarrow>
          (case parseRuleSource (yaml env) body st of
             (True, st1) \<Rightarrow>
               (True, st1, if cacheDir m \<noteq> '''' then snd (writeRuleCache (digest env) (disk env) m url body files) else files)
           | (False, st1) \<Rightarrow> cached st1))"

fun updateLoop :: "geo_env \<Rightarrow> string list \<Rightarrow> Manager \<Rightarrow> ruleBuildState \<Rightarrow> (string \<rightharpoonup> bytes) \<Rightarrow> Manager \<times> (string \<rightharpoonup> bytes)" where
  "updateLoop env [] m st files = (m, files)"
| "updateLoop env (u # us) m st files =
    (case downloadAndParse env m u st files of
       (False, st1, files1) \<Rightarrow> updateLoop env us m st1 files1
     | (True, st1, files1) \<Rightarrow> updateLoop env us (applyRuleState (srt4 env) (srt6 env) st1 m) st1 files1)"

definition Update :: "geo_env \<Rightarrow> Manager \<Rightarrow> (string \<rightharpoonup> bytes) \<Rightarrow> Manager \<times> (string \<rightharpoonup> bytes)" where
  "Update env m files =
    updateLoop env (urls m) (applyRuleState (srt4 env) (srt6 env) newRuleBuildState m) newRuleBuildState files"

section \<open>Matching\<close>

definition normalizeLookupHost :: "string \<Rightarrow> string" where
  "normalizeLookupHost host0 =
    (let host = TrimSpace host0
     in if host = '''' then ''''
        else
          let h = (case SplitHostPort host of Inr (h, p) \<Rightarrow> h | Inl e \<Rightarrow> host)
          in ToLower (TrimSuffix (TrimSuffix (TrimPrefix h ''['') '']'') ''.''))"

definition IP_Equal :: "bytes \<Rightarrow> bytes \<Rightarrow> bool" where
  "IP_Equal a b \<longleftrightarrow> (if length a = length b then a = b else To16 a \<noteq> None \<and> To16 b \<noteq> None \<and> To16 a = To16 b)"

definition IsLoopback :: "bytes \<Rightarrow> bool" where
  "IsLoopback ip = (case To4 ip of Some ip4 \<Rightarrow> ip4 ! 0 = 127 | None \<Rightarrow> ip = replicate 15 0 @ [1])"

definition IsLinkLocalUnicast :: "bytes \<Rightarrow> bool" where
  "IsLinkLocalUnicast ip =
    (case To4 ip of
       Some ip4 \<Rightarrow> ip4 ! 0 = 169 \<and> ip4 ! 1 = 254
     | None \<Rightarrow> length ip = 16 \<and> ip ! 0 = 0xFE \<and> (ip ! 1) AND 0xC0 = 0x80)"

definition isLocalNetwork :: "bytes option \<Rightarrow> bool" where
  "isLocalNetwork ipo =
    (case ipo of
       None \<Rightarrow> False
     | Some ip \<Rightarrow>
       (case To4 ip of
          None \<Rightarrow> IsLoopback ip \<or> IsLinkLocalUnicast ip
        | Some ip4 \<Rightarrow>
          let val = ipToUint32 ip4
          in 167772160 \<le> val \<and> val \<le> 184549375 \<or> 2886729728 \<le> val \<and> val \<le> 2887778303
             \<or> 3232235520 \<le> val \<and> val \<le> 3232301055 \<or> 2130706432 \<le> val \<and> val \<le> 2147483647 \<or> IsLoopback ip))"

text \<open>The first suffix of the labels that is a rule.\<close>

fun findSuffix :: "string list \<Rightarrow> string list \<Rightarrow> string option" where
  "findSuffix sufs [] = None"
| "findSuffix sufs (p # ps) =
    (let s = JoinByte (CHR ''.'') (p # ps) in if s \<in> set sufs then Some s else findSuffix sufs ps)"

definition domainMatch :: "(string list \<Rightarrow> string list) \<Rightarrow> Manager \<Rightarrow> string \<Rightarrow> Match option" where
  "domainMatch iter m domain =
    (if domain \<in> set (domainExact m) then Some \<lparr>Kind = ''DOMAIN'', Value = domain\<rparr>
     else case find (Contains domain) (iter (domainKeyword m)) of
       Some k \<Rightarrow> Some \<lparr>Kind = ''DOMAIN-KEYWORD'', Value = k\<rparr>
     | None \<Rightarrow> map_option (\<lambda>s. \<lparr>Kind = ''DOMAIN-SUFFIX'', Value = s\<rparr>) (findSuffix (domainSuffix m) (SplitByte (CHR ''.'') domain)))"

definition ipMatch :: "Manager \<Rightarrow> bytes \<Rightarrow> bool \<times> Match" where
  "ipMatch m ip =
    (if (if To4 ip \<noteq> None then matchIPv4Range (ipRanges m) ip else matchIPv6Range (ipv6Ranges m) ip)
     then (True, \<lparr>Kind = ''IP'', Value = IP_String ip\<rparr>) else (False, \<lparr>Kind = '''', Value = ''''\<rparr>))"

definition match_rules :: "(string list \<Rightarrow> string list) \<Rightarrow> Manager \<Rightarrow> string \<Rightarrow> bytes option \<Rightarrow> bool \<Rightarrow> bool \<times> Match" where
  "match_rules iter m host0 ipo includeLocal =
    (if includeLocal \<and> isLocalNetwork ipo then (True, \<lparr>Kind = ''LOCAL'', Value = ''''\<rparr>)
     else
       let host = normalizeLookupHost host0;
           dm = (if host \<noteq> '''' \<and> (case ParseIP host of None \<Rightarrow> True | Some hostIP \<Rightarrow> (case ipo of None \<Rightarrow> True | Some ip \<Rightarrow> \<not> IP_Equal hostIP ip))
                 then domainMatch iter m host else None)
       in case dm of
            Some r \<Rightarrow> (True, r)
          | None \<Rightarrow> (case ipo of None \<Rightarrow> (False, \<lparr>Kind = '''', Value = ''''\<rparr>) | Some ip \<Rightarrow> ipMatch m ip))"

definition MatchCN :: "(string list \<Rightarrow> string list) \<Rightarrow> Manager \<Rightarrow> string \<Rightarrow> bytes option \<Rightarrow> bool \<times> Match" where
  "MatchCN iter m host ip = match_rules iter m host ip True"

definition MatchRule :: "(string list \<Rightarrow> string list) \<Rightarrow> Manager \<Rightarrow> string \<Rightarrow> bytes option \<Rightarrow> bool \<times> Match" where
  "MatchRule iter m host ip = match_rules iter m host ip False"

definition Match_String :: "Match \<Rightarrow> string" where
  "Match_String mt = (if TrimSpace (Value mt) = '''' then Kind mt else Kind mt @ ''('' @ Value mt @ '')'')"

definition cacheKeyForURLs :: "string list \<Rightarrow> string" where
  "cacheKeyForURLs us = JoinByte (CHR 0x00) us"

text \<open>One manager per list of sources; the last component says whether its update is started.\<close>

definition GetInstance :: "string result \<Rightarrow> string list \<Rightarrow> (string \<rightharpoonup> Manager) \<Rightarrow> Manager \<times> (string \<rightharpoonup> Manager) \<times> bool" where
  "GetInstance dir us instances =
    (case instances (cacheKeyForURLs us) of
       Some m \<Rightarrow> (m, instances, False)
     | None \<Rightarrow> let m = NewManager dir us in (m, instances(cacheKeyForURLs us \<mapsto> m), True))"

section \<open>Rules are independent of each other\<close>

definition lineRule :: "string \<Rightarrow> ruleBuildState" where
  "lineRule l = snd (parseRule l newRuleBuildState)"

definition extends :: "ruleBuildState \<Rightarrow> ruleBuildState \<Rightarrow> ruleBuildState \<Rightarrow> bool" where
  "extends st d st' \<longleftrightarrow> ipv4 st' = ipv4 st @ ipv4 d \<and> ipv6 st' = ipv6 st @ ipv6 d \<and> set (exact st') = set (exact st) \<union> set (exact d)
    \<and> set (keyword st') = set (keyword st) \<union> set (keyword d) \<and> set (suffix st') = set (suffix st) \<union> set (suffix d)"

lemma new_sel [simp]: "ipv4 newRuleBuildState = []" "ipv6 newRuleBuildState = []" "exact newRuleBuildState = []"
  "keyword newRuleBuildState = []" "suffix newRuleBuildState = []"
  by (simp_all add: newRuleBuildState_def)

lemma extends_refl [simp]: "extends st newRuleBuildState st"
  by (simp add: extends_def)

lemma extends_upd [simp]:
  "extends st (newRuleBuildState\<lparr>exact := [v]\<rparr>) (st\<lparr>exact := List.insert v (exact st)\<rparr>)"
  "extends st (newRuleBuildState\<lparr>keyword := [v]\<rparr>) (st\<lparr>keyword := List.insert v (keyword st)\<rparr>)"
  "extends st (newRuleBuildState\<lparr>suffix := [v]\<rparr>) (st\<lparr>suffix := List.insert v (suffix st)\<rparr>)"
  "extends st (addRange r newRuleBuildState) (addRange r st)"
  by (auto simp: extends_def addRange_def List.insert_def split: sum.splits)

lemma insert_Nil [simp]: "List.insert v [] = [v]" by (simp add: List.insert_def)

text \<open>What a parser of lines does to any state is what it does to the empty one, and a refused line changes nothing.\<close>

definition indep :: "(ruleBuildState \<Rightarrow> bool \<times> ruleBuildState) \<Rightarrow> bool" where
  "indep p \<longleftrightarrow> (\<forall>st. fst (p st) = fst (p newRuleBuildState) \<and> extends st (snd (p newRuleBuildState)) (snd (p st)) \<and> (\<not> fst (p st) \<longrightarrow> snd (p st) = st))"

lemma indep_parse: "indep (parseIPLine l)" "indep (parseBareDomainLine l)"
  by (auto simp: indep_def parseIPLine_def parseBareDomainLine_def Let_def split: option.splits prod.splits)

lemma indep_const: "indep (\<lambda>st. (False, st))" "indep (\<lambda>st. (True, st\<lparr>exact := List.insert v (exact st)\<rparr>))"
  "indep (\<lambda>st. (True, st\<lparr>keyword := List.insert v (keyword st)\<rparr>))" "indep (\<lambda>st. (True, st\<lparr>suffix := List.insert v (suffix st)\<rparr>))"
  by (simp_all add: indep_def)

lemma indep_if: "indep p \<Longrightarrow> indep q \<Longrightarrow> indep (\<lambda>st. if b then p st else q st)"
  by (simp add: indep_def)

lemma indep_orelse: "indep p \<Longrightarrow> indep q \<Longrightarrow> indep (\<lambda>st. case p st of (True, st1) \<Rightarrow> (True, st1) | (False, st1) \<Rightarrow> q st1)"
  unfolding indep_def by (clarsimp simp: split_beta split: bool.splits prod.splits) (metis extends_refl fst_conv snd_conv)

lemma indep_parseRule: "indep (parseRule l)"
  unfolding parseRule_def Let_def by (intro indep_if indep_orelse indep_parse indep_const)

lemma parseRules_lines:
  "parseRules ls b st0 = (ok, st') \<Longrightarrow>
    ipv4 st' = ipv4 st0 @ concat (map (\<lambda>l. ipv4 (lineRule l)) ls) \<and> ipv6 st' = ipv6 st0 @ concat (map (\<lambda>l. ipv6 (lineRule l)) ls)
    \<and> set (exact st') = set (exact st0) \<union> (\<Union>l \<in> set ls. set (exact (lineRule l)))
    \<and> set (keyword st') = set (keyword st0) \<union> (\<Union>l \<in> set ls. set (keyword (lineRule l)))
    \<and> set (suffix st') = set (suffix st0) \<union> (\<Union>l \<in> set ls. set (suffix (lineRule l)))"
proof (induction ls arbitrary: st0 b)
  case (Cons l ls)
  obtain ok1 st1 where p: "parseRule l st0 = (ok1, st1)" by force
  have e: "extends st0 (lineRule l) st1" using indep_parseRule [of l] p unfolding indep_def lineRule_def by (metis snd_conv)
  show ?case using Cons.IH [of "b \<or> ok1" st1] Cons.prems p e by (auto simp: extends_def)
qed simp

lemma parseRules_refused: "parseRules ls b st = (False, st') \<Longrightarrow> \<not> b \<and> st' = st"
proof (induction ls arbitrary: b st)
  case (Cons l ls)
  then show ?case using indep_parseRule [of l] unfolding indep_def
    by (auto split: prod.splits) (metis fst_conv snd_conv)+
qed simp

section \<open>The ranges of a rule\<close>

lemma word_le_or: "x \<le> x OR y" for x y :: "'a::len word"
  unfolding word_le_def unsigned_or_eq by (rule or_greater_eq) simp

lemma beNat_mono: "list_all2 (\<le>) a b \<Longrightarrow> beNat a \<le> beNat b"
proof (induction a b rule: list_all2_induct)
  case (Cons x xs y ys)
  then have "unat x * 256 ^ length xs \<le> unat y * 256 ^ length ys"
    using list_all2_lengthD [OF Cons(2)] by (simp add: word_le_nat_alt)
  then show ?case using Cons by simp
qed simp

lemma To16_length: "To16 ip = Some ip16 \<Longrightarrow> length ip16 = 16"
  by (auto simp: To16_def v4InV6Prefix_def split: if_splits)

lemma ipLineRange_valid:
  "ipLineRange l = Some (Inl r4) \<Longrightarrow> Start r4 \<le> End r4"
  "ipLineRange l = Some (Inr r6) \<Longrightarrow> valid6 r6"
proof -
  have m: "list_all2 (\<le>) ip (map (\<lambda>i. ip ! i OR NOT (if i < length m then m ! i else 0)) [0..<16])" if "length ip = 16" for ip m :: bytes
    using that by (auto simp: list_all2_conv_all_nth word_le_or)
  show "ipLineRange l = Some (Inl r4) \<Longrightarrow> Start r4 \<le> End r4"
    by (auto simp: ipLineRange_def Let_def word_le_or split: option.splits prod.splits)
  show "ipLineRange l = Some (Inr r6) \<Longrightarrow> valid6 r6"
    using beNat_mono [OF m] by (auto simp: ipLineRange_def Let_def valid6_def To16_length split: option.splits prod.splits)
qed

definition ranges_ok :: "ruleBuildState \<Rightarrow> bool" where
  "ranges_ok st \<longleftrightarrow> (\<forall>r \<in> set (ipv4 st). Start r \<le> End r) \<and> (\<forall>r \<in> set (ipv6 st). valid6 r)"

definition keeps :: "(ruleBuildState \<Rightarrow> bool \<times> ruleBuildState) \<Rightarrow> bool" where
  "keeps p \<longleftrightarrow> (\<forall>st. ranges_ok st \<longrightarrow> ranges_ok (snd (p st)))"

lemma keeps_parse: "keeps (parseIPLine l)" "keeps (parseBareDomainLine l)"
  by (auto simp: keeps_def ranges_ok_def parseIPLine_def addRange_def Let_def dest: ipLineRange_valid split: option.splits sum.splits)
     (auto simp: parseBareDomainLine_def Let_def split: prod.splits if_splits)

lemma keeps_const: "keeps (\<lambda>st. (False, st))" "keeps (\<lambda>st. (True, st\<lparr>exact := List.insert v (exact st)\<rparr>))"
  "keeps (\<lambda>st. (True, st\<lparr>keyword := List.insert v (keyword st)\<rparr>))" "keeps (\<lambda>st. (True, st\<lparr>suffix := List.insert v (suffix st)\<rparr>))"
  by (simp_all add: keeps_def ranges_ok_def)

lemma keeps_comb: "keeps p \<Longrightarrow> keeps q \<Longrightarrow> keeps (\<lambda>st. if b then p st else q st)"
  "keeps p \<Longrightarrow> keeps q \<Longrightarrow> keeps (\<lambda>st. case p st of (True, st1) \<Rightarrow> (True, st1) | (False, st1) \<Rightarrow> q st1)"
  unfolding keeps_def by (simp, auto split: prod.splits bool.splits)

lemma ranges_ok_line: "ranges_ok (lineRule l)"
proof -
  have "keeps (parseRule l)" unfolding parseRule_def Let_def by (intro keeps_comb keeps_parse keeps_const)
  moreover have "ranges_ok newRuleBuildState" by (simp add: ranges_ok_def)
  ultimately show ?thesis by (simp add: keeps_def lineRule_def)
qed

section \<open>Domains\<close>

lemma SplitByte_ne [simp]: "SplitByte c s \<noteq> []"
  by (induction s) (auto split: list.splits)

lemma Join_Split [simp]: "JoinByte c (SplitByte c s) = s"
proof (induction s)
  case (Cons d s)
  obtain w ws where "SplitByte c s = w # ws" using SplitByte_ne by (metis list.exhaust)
  then show ?case using Cons by (cases ws) auto
qed simp

lemma ex_less_Suc: "(\<exists>i < Suc n. P i) \<longleftrightarrow> P 0 \<or> (\<exists>i < n. P (Suc i))"
  using Ex_less_Suc2 by blast

lemma Split_tl: "(\<exists>i < length (tl (SplitByte c s)). JoinByte c (drop i (tl (SplitByte c s))) = t) \<longleftrightarrow> (\<exists>p. s = p @ c # t)"
proof (induction s)
  case (Cons d s)
  obtain w ws where w: "SplitByte c s = w # ws" using SplitByte_ne by (metis list.exhaust)
  have s: "JoinByte c (w # ws) = s" using Join_Split [of c s] w by simp
  show ?case
  proof (cases "d = c")
    case True
    then have "(\<exists>i < length (tl (SplitByte c (d # s))). JoinByte c (drop i (tl (SplitByte c (d # s)))) = t) \<longleftrightarrow> s = t \<or> (\<exists>p. s = p @ c # t)"
      using Cons.IH s by (simp add: w ex_less_Suc)
    then show ?thesis using True by (auto simp: Cons_eq_append_conv)
  qed (use Cons.IH in \<open>auto simp: w Cons_eq_append_conv\<close>)
qed simp

lemma Split_drop:
  "(\<exists>i < length (SplitByte c s). JoinByte c (drop i (SplitByte c s)) = t) \<longleftrightarrow> s = t \<or> (\<exists>p. s = p @ c # t)"
proof -
  obtain w ws where w: "SplitByte c s = w # ws" using SplitByte_ne by (metis list.exhaust)
  then show ?thesis using Split_tl [of c s t] Join_Split [of c s] by (simp add: ex_less_Suc)
qed

lemma findSuffix_iff: "findSuffix sufs ps \<noteq> None \<longleftrightarrow> (\<exists>i < length ps. JoinByte (CHR ''.'') (drop i ps) \<in> set sufs)"
proof (induction ps)
  case (Cons p ps)
  then show ?case using Ex_less_Suc2 [of "length ps" "\<lambda>i. JoinByte (CHR ''.'') (drop i (p # ps)) \<in> set sufs"] by (simp add: Let_def)
qed simp

lemma Contains_iff: "Contains s t \<longleftrightarrow> (\<exists>a b. s = a @ t @ b)"
proof (induction s)
  case (Cons c s)
  have "HasPrefix (c # s) t \<longleftrightarrow> (\<exists>b. c # s = t @ b)" unfolding HasPrefix_def by (metis append_eq_conv_conj append_take_drop_id)
  then show ?case using Cons by (auto simp: Cons_eq_append_conv)
qed auto

section \<open>Matching against all rules is matching against some rule\<close>

definition covers_ip :: "ruleBuildState \<Rightarrow> bytes \<Rightarrow> bool" where
  "covers_ip d ip =
    (case To4 ip of
       Some ip4 \<Rightarrow> (\<exists>r \<in> set (ipv4 d). Start r \<le> Uint32 ip4 \<and> Uint32 ip4 \<le> End r)
     | None \<Rightarrow> (\<exists>r \<in> set (ipv6 d). beNat (Start6 r) \<le> beNat ip \<and> beNat ip \<le> beNat (End6 r)))"

definition covers_domain :: "ruleBuildState \<Rightarrow> string \<Rightarrow> bool" where
  "covers_domain d domain \<longleftrightarrow> domain \<in> set (exact d) \<or> (\<exists>k \<in> set (keyword d). \<exists>a b. domain = a @ k @ b)
    \<or> (\<exists>s \<in> set (suffix d). domain = s \<or> (\<exists>p. domain = p @ CHR ''.'' # s))"

text \<open>A host that is the text of the address itself is not looked up as a name.\<close>

definition named_host :: "string \<Rightarrow> bytes option \<Rightarrow> bool" where
  "named_host host ipo \<longleftrightarrow> host \<noteq> '''' \<and> (\<forall>hostIP ip. ParseIP host = Some hostIP \<and> ipo = Some ip \<longrightarrow> \<not> IP_Equal hostIP ip)"

definition line_matches :: "string \<Rightarrow> string \<Rightarrow> bytes option \<Rightarrow> bool" where
  "line_matches l host ipo \<longleftrightarrow>
    named_host (normalizeLookupHost host) ipo \<and> covers_domain (lineRule l) (normalizeLookupHost host)
    \<or> (\<exists>ip. ipo = Some ip \<and> covers_ip (lineRule l) ip)"

lemma domainMatch_iff:
  assumes "\<And>xs. set (iter xs) = set xs"
  shows "domainMatch iter (applyRuleState s4 s6 st m) domain \<noteq> None \<longleftrightarrow> covers_domain st domain"
proof -
  have k: "find (Contains domain) (iter ks) \<noteq> None \<longleftrightarrow> (\<exists>k \<in> set ks. \<exists>a b. domain = a @ k @ b)" for ks
    using assms [of ks] by (auto simp: find_None_iff Contains_iff)
  have s: "findSuffix sufs (SplitByte (CHR ''.'') domain) \<noteq> None \<longleftrightarrow> (\<exists>s \<in> set sufs. domain = s \<or> (\<exists>p. domain = p @ CHR ''.'' # s))" for sufs
  proof -
    have "(\<exists>i < length (SplitByte (CHR ''.'') domain). JoinByte (CHR ''.'') (drop i (SplitByte (CHR ''.'') domain)) \<in> set sufs)
        \<longleftrightarrow> (\<exists>s \<in> set sufs. \<exists>i < length (SplitByte (CHR ''.'') domain). JoinByte (CHR ''.'') (drop i (SplitByte (CHR ''.'') domain)) = s)" by blast
    then show ?thesis by (simp only: findSuffix_iff Split_drop)
  qed
  show ?thesis using k [of "keyword st"] s [of "suffix st"] by (auto simp: domainMatch_def applyRuleState_def covers_domain_def split: option.splits)
qed

lemma ipMatch_iff:
  assumes "sorts_by (\<lambda>r. unat (Start r)) s4" "sorts_by (\<lambda>r. beNat (Start6 r)) s6" "ranges_ok st" "zero_ok (ipv4 st)"
    and ip: "length ip = 4 \<or> length ip = 16"
  shows "fst (ipMatch (applyRuleState s4 s6 st m) ip) \<longleftrightarrow> covers_ip st ip"
proof (cases "To4 ip")
  case (Some ip4)
  then have "ipToUint32 ip4 = Uint32 ip4" by (auto simp: To4_def ipToUint32_def split: if_splits)
  then show ?thesis
    using merged4_lookup [OF assms(1) _ assms(4) Some] assms(3) Some by (auto simp: ipMatch_def covers_ip_def applyRuleState_def ranges_ok_def)
next
  case None
  then have k: "To16 ip = Some ip" "length ip = 16" using ip by (auto simp: To4_def To16_def split: if_splits)
  show ?thesis
    using merged6_lookup [OF assms(2) _ k] assms(3) None by (auto simp: ipMatch_def covers_ip_def applyRuleState_def ranges_ok_def)
qed

lemma match_rules_iff:
  assumes "sorts_by (\<lambda>r. unat (Start r)) s4" "sorts_by (\<lambda>r. beNat (Start6 r)) s6" "ranges_ok st" "zero_ok (ipv4 st)"
    and "\<And>xs. set (iter xs) = set xs" "\<And>ip. ipo = Some ip \<Longrightarrow> length ip = 4 \<or> length ip = 16"
  shows "fst (MatchRule iter (applyRuleState s4 s6 st m) host ipo) \<longleftrightarrow>
    named_host (normalizeLookupHost host) ipo \<and> covers_domain st (normalizeLookupHost host) \<or> (\<exists>ip. ipo = Some ip \<and> covers_ip st ip)"
proof -
  have n: "(normalizeLookupHost host \<noteq> '''' \<and> (case ParseIP (normalizeLookupHost host) of None \<Rightarrow> True
      | Some hostIP \<Rightarrow> (case ipo of None \<Rightarrow> True | Some ip \<Rightarrow> \<not> IP_Equal hostIP ip))) \<longleftrightarrow> named_host (normalizeLookupHost host) ipo"
    by (auto simp: named_host_def split: option.splits)
  note d = domainMatch_iff [OF assms(5), of s4 s6 st m "normalizeLookupHost host"]
  show ?thesis
  proof (cases ipo)
    case None
    then show ?thesis unfolding MatchRule_def match_rules_def Let_def n using d by (auto split: option.splits)
  next
    case (Some ip)
    then show ?thesis
      using ipMatch_iff [OF assms(1-4) assms(6) [OF Some], of m] unfolding MatchRule_def match_rules_def Let_def n using d by (auto split: option.splits)
  qed
qed

lemma parsed_state:
  assumes "parseRules ls b newRuleBuildState = (ok, st)"
  shows "ranges_ok st" "covers_ip st ip \<longleftrightarrow> (\<exists>l \<in> set ls. covers_ip (lineRule l) ip)"
    "covers_domain st domain \<longleftrightarrow> (\<exists>l \<in> set ls. covers_domain (lineRule l) domain)"
    "ipv4 st = concat (map (\<lambda>l. ipv4 (lineRule l)) ls)"
proof -
  note p = parseRules_lines [OF assms]
  show "ranges_ok st" using p ranges_ok_line by (auto simp: ranges_ok_def)
  show "covers_ip st ip \<longleftrightarrow> (\<exists>l \<in> set ls. covers_ip (lineRule l) ip)"
    using p by (auto simp: covers_ip_def split: option.splits)
  show "covers_domain st domain \<longleftrightarrow> (\<exists>l \<in> set ls. covers_domain (lineRule l) domain)"
  proof -
    have u: "(domain \<in> (\<Union>l \<in> L. E l) \<or> (\<exists>k \<in> (\<Union>l \<in> L. K l). A k) \<or> (\<exists>s \<in> (\<Union>l \<in> L. F l). B s))
        \<longleftrightarrow> (\<exists>l \<in> L. domain \<in> E l \<or> (\<exists>k \<in> K l. A k) \<or> (\<exists>s \<in> F l. B s))" for L :: "string set" and E K F A B by blast
    have "set (exact st) = (\<Union>l \<in> set ls. set (exact (lineRule l)))" "set (keyword st) = (\<Union>l \<in> set ls. set (keyword (lineRule l)))"
      "set (suffix st) = (\<Union>l \<in> set ls. set (suffix (lineRule l)))" using p by simp_all
    then show ?thesis unfolding covers_domain_def by (simp only: u)
  qed
  show "ipv4 st = concat (map (\<lambda>l. ipv4 (lineRule l)) ls)" using p by simp
qed

section \<open>Updates\<close>

lemma apply_sel [simp]: "cacheDir (applyRuleState s4 s6 st m) = cacheDir m" "urls (applyRuleState s4 s6 st m) = urls m"
  "applyRuleState s4 s6 st (applyRuleState s4 s6 st0 m) = applyRuleState s4 s6 st m"
  by (simp_all add: applyRuleState_def)

lemma ruleCachePath_dir: "cacheDir m = cacheDir m' \<Longrightarrow> ruleCachePath sha m url = ruleCachePath sha m' url"
  by (simp add: ruleCachePath_def)

lemma downloadAndParse_dir: "cacheDir m = cacheDir m' \<Longrightarrow> downloadAndParse env m u st files = downloadAndParse env m' u st files"
proof -
  assume c: "cacheDir m = cacheDir m'"
  have "readRuleCache sha files m url = readRuleCache sha files m' url" "writeRuleCache sha dk m url b files = writeRuleCache sha dk m' url b files" for sha url dk b
    using ruleCachePath_dir [OF c] by (simp_all add: readRuleCache_def writeRuleCache_def)
  then show ?thesis by (simp only: downloadAndParse_def c)
qed

lemma parseRules_append: "parseRules (xs @ ys) b st = (case parseRules xs b st of (b1, st1) \<Rightarrow> parseRules ys b1 st1)"
  by (induction xs arbitrary: b st) (auto split: prod.splits)

lemma parseRules_flag: "snd (parseRules ls b st) = snd (parseRules ls b' st)"
  by (induction ls arbitrary: b b' st) (auto split: prod.splits)

lemma parseRules_fst: "fst (parseRules ls b st) = fst (parseRules ls b st')"
proof (induction ls arbitrary: b st st')
  case (Cons l ls)
  have "fst (parseRule l st) = fst (parseRule l st')" using indep_parseRule [of l] unfolding indep_def by metis
  then show ?case using Cons.IH [of _ "snd (parseRule l st)" "snd (parseRule l st')"] by (simp add: split_beta)
qed simp

text \<open>The lines an update takes from a source: those of the download if it has a rule, those of the cache otherwise.\<close>

definition cachedLines :: "geo_env \<Rightarrow> Manager \<Rightarrow> string \<Rightarrow> (string \<rightharpoonup> bytes) \<Rightarrow> string list" where
  "cachedLines env m u files = (case readRuleCache (digest env) files m u of Inl e \<Rightarrow> [] | Inr body \<Rightarrow> ruleLines (yaml env) body)"

definition sourceLines :: "geo_env \<Rightarrow> Manager \<Rightarrow> string \<Rightarrow> (string \<rightharpoonup> bytes) \<Rightarrow> string list" where
  "sourceLines env m u files =
    (case downloadRuleSource (get env) u of
       Inl e \<Rightarrow> cachedLines env m u files
     | Inr body \<Rightarrow> if fst (parseRuleSource (yaml env) body newRuleBuildState) then ruleLines (yaml env) body else cachedLines env m u files)"

fun loadedLines :: "geo_env \<Rightarrow> Manager \<Rightarrow> string list \<Rightarrow> (string \<rightharpoonup> bytes) \<Rightarrow> string list" where
  "loadedLines env m [] files = []"
| "loadedLines env m (u # us) files =
    sourceLines env m u files @ loadedLines env m us (snd (snd (downloadAndParse env m u newRuleBuildState files)))"

lemma downloadAndParse_lines:
  "downloadAndParse env m u st files =
    (fst (parseRules (sourceLines env m u files) False st), snd (parseRules (sourceLines env m u files) False st),
     snd (snd (downloadAndParse env m u newRuleBuildState files)))"
proof -
  have c: "(case readRuleCache (digest env) files m u of Inl e \<Rightarrow> (False, st, files)
      | Inr body \<Rightarrow> (case parseRuleSource (yaml env) body st of (ok, st2) \<Rightarrow> (ok, st2, files)))
      = (fst (parseRules (cachedLines env m u files) False st), snd (parseRules (cachedLines env m u files) False st), files)" for st
    by (auto simp: cachedLines_def parseRuleSource_def split: sum.splits prod.splits)
  show ?thesis
  proof (cases "downloadRuleSource (get env) u")
    case (Inl e)
    then show ?thesis using c by (simp add: downloadAndParse_def sourceLines_def Let_def)
  next
    case (Inr body)
    obtain ok st1 where p: "parseRuleSource (yaml env) body st = (ok, st1)" by force
    obtain ok0 st0 where p0: "parseRuleSource (yaml env) body newRuleBuildState = (ok0, st0)" by force
    have ok: "ok0 = ok" using p p0 parseRules_fst by (metis fst_conv parseRuleSource_def)
    show ?thesis
    proof (cases ok)
      case True
      then show ?thesis using Inr p p0 ok by (simp add: downloadAndParse_def sourceLines_def Let_def) (simp add: parseRuleSource_def)
    next
      case False
      then have "st1 = st" "st0 = newRuleBuildState" using p p0 ok parseRules_refused by (auto simp: parseRuleSource_def)
      then show ?thesis using Inr p p0 ok False c by (simp add: downloadAndParse_def sourceLines_def Let_def)
    qed
  qed
qed

lemma updateLoop_lines:
  assumes "m = applyRuleState (srt4 env) (srt6 env) st m0"
  shows "fst (updateLoop env us m st files) = applyRuleState (srt4 env) (srt6 env) (snd (parseRules (loadedLines env m0 us files) False st)) m0"
  using assms
proof (induction us arbitrary: m st files)
  case (Cons u us)
  define files1 where "files1 = snd (snd (downloadAndParse env m0 u newRuleBuildState files))"
  obtain ok st1 where p: "parseRules (sourceLines env m0 u files) False st = (ok, st1)" by force
  have d: "downloadAndParse env m u st files = (ok, st1, files1)"
    using downloadAndParse_lines [of env m0 u st files] downloadAndParse_dir [of m m0 env u st files] Cons.prems p by (simp add: files1_def)
  have "snd (parseRules (loadedLines env m0 (u # us) files) False st) = snd (parseRules (loadedLines env m0 us files1) False st1)"
    using p parseRules_flag by (simp add: parseRules_append files1_def)
  moreover have "st1 = st" if "\<not> ok" using parseRules_refused p that by simp
  ultimately show ?case using Cons.IH [of _ st1 files1] Cons.prems d by (cases ok) simp_all
qed simp

text \<open>
  Property C27: after an update a host and an address match the merged, sorted rules exactly if they match one of the loaded rules on
  its own: an equal name, a contained keyword, a suffix on a label boundary, or an address of one of its ranges. It needs that no
  two loaded ranges start at address zero with different ends.
\<close>

theorem geo_update_matches:
  assumes "sorts_by (\<lambda>r. unat (Start r)) (srt4 env)" "sorts_by (\<lambda>r. beNat (Start6 r)) (srt6 env)" "\<And>xs. set (iter xs) = set xs"
    and "\<And>ip. ipo = Some ip \<Longrightarrow> length ip = 4 \<or> length ip = 16"
    and "zero_ok (concat (map (\<lambda>l. ipv4 (lineRule l)) (loadedLines env m (urls m) files)))"
  shows "fst (MatchRule iter (fst (Update env m files)) host ipo) \<longleftrightarrow> (\<exists>l \<in> set (loadedLines env m (urls m) files). line_matches l host ipo)"
proof -
  obtain ok st where p: "parseRules (loadedLines env m (urls m) files) False newRuleBuildState = (ok, st)" by force
  have u: "fst (Update env m files) = applyRuleState (srt4 env) (srt6 env) st m"
    using updateLoop_lines [OF refl] p by (simp add: Update_def)
  note s = parsed_state [OF p]
  have "fst (MatchRule iter (fst (Update env m files)) host ipo) \<longleftrightarrow>
      named_host (normalizeLookupHost host) ipo \<and> covers_domain st (normalizeLookupHost host) \<or> (\<exists>ip. ipo = Some ip \<and> covers_ip st ip)"
    unfolding u by (rule match_rules_iff) (use assms s in auto)
  then show ?thesis unfolding s line_matches_def by blast
qed

text \<open>
  A source whose rules were loaded and cached keeps them when it cannot be downloaded any more.
\<close>

theorem geo_cache_fallback:
  assumes "downloadAndParse env m u st files = (True, st1, files1)" "TrimSpace (cacheDir m) \<noteq> ''''" "\<And>path. disk env path = None"
    and "downloadRuleSource g u = Inl e"
  shows "downloadAndParse (env\<lparr>get := g\<rparr>) m u st files1 = (True, st1, files1)"
proof -
  have d: "cacheDir m \<noteq> ''''" using assms(2) by (auto simp: TrimSpace_def)
  obtain path where path: "ruleCachePath (digest env) m u = Inr path" using assms(2) by (simp add: ruleCachePath_def)
  show ?thesis
  proof (cases "\<exists>body. downloadRuleSource (get env) u = Inr body \<and> fst (parseRuleSource (yaml env) body st)")
    case True
    then obtain body where b: "downloadRuleSource (get env) u = Inr body" "fst (parseRuleSource (yaml env) body st)" by blast
    then have "parseRuleSource (yaml env) body st = (True, st1)" "files1 = files(path \<mapsto> body)"
      using assms(1,3) path d by (auto simp: downloadAndParse_def writeRuleCache_def Let_def split: prod.splits bool.splits)
    then show ?thesis using assms(4) path by (simp add: downloadAndParse_def readRuleCache_def Let_def)
  next
    case False
    have r: "parseRuleSource (yaml env) body st = (False, st)" if "downloadRuleSource (get env) u = Inr body" for body
      using that False parseRules_refused [of _ False st] by (cases "parseRuleSource (yaml env) body st") (auto simp: parseRuleSource_def)
    have "downloadAndParse env m u st files = (case readRuleCache (digest env) files m u of Inl e \<Rightarrow> (False, st, files)
        | Inr body \<Rightarrow> (case parseRuleSource (yaml env) body st of (ok, st2) \<Rightarrow> (ok, st2, files)))"
      by (cases "downloadRuleSource (get env) u") (simp_all add: r downloadAndParse_def Let_def)
    then show ?thesis using assms(1,4) by (auto simp: downloadAndParse_def Let_def split: sum.splits prod.splits)
  qed
qed

section \<open>The ranges of prefixes\<close>

lemma block_div:
  fixes q d X S E :: nat
  assumes "S = q * d" "Suc E = q * d + d" "0 < d"
  shows "S \<le> X \<and> X \<le> E \<longleftrightarrow> X div d = q"
proof
  assume "S \<le> X \<and> X \<le> E"
  then show "X div d = q" using assms by (intro div_nat_eqI) (auto simp: mult.commute [of d])
next
  assume q: "X div d = q"
  have "X = q * d + X mod d" using q div_mult_mod_eq [of X d] by simp
  moreover have "X mod d < d" using assms(3) by simp
  ultimately show "S \<le> X \<and> X \<le> E" using assms(1,2) by linarith
qed

lemma unat_high_bits:
  fixes x :: "'a::len word"
  assumes "k \<le> LENGTH('a)"
  shows "unat (x AND NOT (mask k)) = unat x div 2 ^ k * 2 ^ k"
    "unat (x AND NOT (mask k) OR mask k) = unat x div 2 ^ k * 2 ^ k + (2 ^ k - 1)"
proof -
  have lt: "unat x div 2 ^ k * 2 ^ k + (2 ^ k - 1) < 2 ^ LENGTH('a)"
  proof -
    have "unat x div 2 ^ k < 2 ^ (LENGTH('a) - k)"
      using unsigned_less [of x] assms by (simp add: less_mult_imp_div_less flip: power_add)
    then have "(unat x div 2 ^ k + 1) * 2 ^ k \<le> 2 ^ (LENGTH('a) - k) * (2 ^ k :: nat)" by (intro mult_le_mono1) simp
    also have "\<dots> = 2 ^ LENGTH('a)" using assms by (simp flip: power_add)
    finally show ?thesis by (simp add: algebra_simps) (use one_le_power [of "2::nat" k] in linarith)
  qed
  have h: "x AND NOT (mask k) = push_bit k (drop_bit k x)" by (rule bit_word_eqI) (auto simp: bit_simps)
  have "unat (push_bit k (drop_bit k x)) = take_bit LENGTH('a) (unat x div 2 ^ k * 2 ^ k)"
    unfolding unsigned_push_bit_eq unat_drop_bit_div by (simp add: push_bit_eq_mult)
  also have "\<dots> = unat x div 2 ^ k * 2 ^ k" using lt by (intro take_bit_nat_eq_self) linarith
  finally show u: "unat (x AND NOT (mask k)) = unat x div 2 ^ k * 2 ^ k" using h by simp
  have m: "unat (mask k :: 'a word) = 2 ^ k - 1" 
    using assms uint_mask_eq [of k, where 'a = 'a] by (simp only: unat_eq_nat_uint min_absorb2 nat_mask_eq) (simp add: mask_eq_exp_minus_1)
  have "x AND NOT (mask k) OR mask k = (x AND NOT (mask k)) + mask k"
    by (rule disjunctive_add [symmetric]) (auto simp: bit_simps)
  then show "unat (x AND NOT (mask k) OR mask k) = unat x div 2 ^ k * 2 ^ k + (2 ^ k - 1)"
    using u m lt by (simp add: unat_word_ariths)
qed

lemma length_CIDRMask [simp]: "length (CIDRMask n l) = l"
  by (induction n l rule: CIDRMask.induct) auto

lemma CIDRMask_byte: "n < 8 \<Longrightarrow> NOT (drop_bit n (255 :: byte)) = NOT (mask (8 - n))"
proof -
  assume "n < 8"
  moreover have "\<forall>i \<in> set [0..<8]. drop_bit i (255 :: byte) = mask (8 - i)" by code_simp
  ultimately show ?thesis by simp
qed

lemma CIDRMask_beNat:
  "length a = l \<Longrightarrow> n \<le> 8 * l \<Longrightarrow>
    beNat (map2 (AND) a (CIDRMask n l)) = beNat a div 2 ^ (8 * l - n) * 2 ^ (8 * l - n)
    \<and> Suc (beNat (map2 (\<lambda>x m. x AND m OR NOT m) a (CIDRMask n l))) = beNat a div 2 ^ (8 * l - n) * 2 ^ (8 * l - n) + 2 ^ (8 * l - n)"
proof (induction n l arbitrary: a rule: CIDRMask.induct)
  case (2 n l)
  obtain x xs where a: "a = x # xs" "length xs = l" using 2(3) by (cases a) auto
  have p: "(256 :: nat) ^ l = 2 ^ (8 * l)" by (simp add: power_mult)
  show ?case
  proof (cases "8 \<le> n")
    case True
    define k where "k = 8 * l - (n - 8)"
    have k: "8 * Suc l - n = k" "k \<le> 8 * l" using True 2(4) by (auto simp: k_def)
    have "2 ^ (8 * l) = (2 ^ (8 * l - k) * 2 ^ k :: nat)" using k(2) by (simp flip: power_add)
    then have d: "(unat x * 256 ^ l + B) div 2 ^ k * 2 ^ k = unat x * 256 ^ l + B div 2 ^ k * 2 ^ k" for B
    proof -
      define c where "c = unat x * 2 ^ (8 * l - k)"
      have c: "unat x * 256 ^ l = c * 2 ^ k" unfolding p \<open>2 ^ (8 * l) = _\<close> by (simp add: c_def)
      show ?thesis unfolding c by (simp add: add_mult_distrib)
    qed
    have m: "(255 :: byte) = - 1" by code_simp
    have x: "x AND 255 = x" "x AND 255 OR NOT 255 = x" unfolding m by simp_all
    show ?thesis using 2(1) [OF True a(2)] 2(4) True a x d [of "beNat xs"] k by (simp add: k_def [symmetric] flip: add_Suc_right)
  next
    case False
    note z = 2(2) [OF False a(2), simplified]
    have b: "beNat xs div 256 ^ l = 0" using beNat_less [of xs] a(2) by simp
    have k: "8 * Suc l - n = (8 - n) + 8 * l" using False by simp
    have e: "(unat x * 256 ^ l + beNat xs) div 2 ^ ((8 - n) + 8 * l) = unat x div 2 ^ (8 - n)"
      using b beNat_less [of xs] a(2) by (simp add: power_add div_mult2_eq mult.commute [of "2 ^ (8 - n)"] flip: p)
    define D L q where "D = (2 :: nat) ^ (8 - n)" and "L = (256 :: nat) ^ l" and "q = unat x div D"
    have DL: "2 ^ ((8 - n) + 8 * l) = D * L" by (simp add: D_def L_def p power_add)
    have m: "NOT (NOT (drop_bit n (255 :: byte))) = mask (8 - n)" "NOT (drop_bit n (255 :: byte)) = NOT (mask (8 - n))"
      using CIDRMask_byte [of n] False by simp_all
    have w: "unat (x AND NOT (drop_bit n 255)) = q * D" "Suc (unat (x AND NOT (drop_bit n 255) OR NOT (NOT (drop_bit n 255)))) = q * D + D"
      using unat_high_bits [of "8 - n" x] unfolding m D_def q_def by simp_all
    have t: "beNat (map2 (AND) xs (CIDRMask 0 l)) = 0" "Suc (beNat (map2 (\<lambda>x m. x AND m OR NOT m) xs (CIDRMask 0 l))) = L"
      using z b by (simp_all add: L_def p)
    have s: "(unat x * 256 ^ l + beNat xs) div (D * 256 ^ l) = q" using e unfolding DL by (simp add: q_def D_def L_def)
    have "Suc (H * L + E) = (q * D + D) * L" if "Suc H = q * D + D" "Suc E = L" for H E
      unfolding that(1) [symmetric] using that(2) by simp
    then show ?thesis unfolding k DL using w t s False a(1) a(2) by (simp add: L_def add_mult_distrib)
  qed
qed simp

text \<open>The notation of a prefix, and what the parser makes of it.\<close>

lemma ParseCIDR_prefix:
  assumes "ParseIP addr = Some a" "CHR ''/'' \<notin> set addr" "n \<le> 8 * addrBytes addr"
  shows "ParseCIDR (addr @ CHR ''/'' # Itoa n) = Some (IP_Mask a (CIDRMask n (addrBytes addr)), CIDRMask n (addrBytes addr))"
  using assms Itoa_digits [of n] IndexByte_first [of "CHR ''/''" addr "Itoa n"] by (simp add: ParseCIDR_def Let_def)

lemma Uint32_beNat: "length b = 4 \<Longrightarrow> unat (Uint32 b) = beNat b"
proof -
  assume l: "length b = 4"
  define W where "W = unat (Uint32 b)"
  have c: "unat (ucast v :: byte) = unat v mod 256" for v :: u32 by (simp add: unsigned_ucast_eq take_bit_eq_mod)
  have "beNat (PutUint32 (Uint32 b)) = W div 2 ^ 24 mod 256 * 16777216 + W div 2 ^ 16 mod 256 * 65536 + W div 2 ^ 8 mod 256 * 256 + W mod 256"
    unfolding PutUint32_def beNat.simps c unat_drop_bit_div W_def by simp
  also have "\<dots> = W"
  proof -
    have g: "c * 16777216 + m2 * 65536 + m1 * 256 + m0 = w" if "w = x * 256 + m0" "x = y * 256 + m1" "y = c * 256 + m2" for w x y c m0 m1 m2 :: nat
      using that by simp
    have "W div 16777216 < 256" using unat_u32_less [of "Uint32 b"] by (simp add: W_def)
    then have c: "W div 2 ^ 24 mod 256 = W div 16777216" by simp
    have p: "(2 :: nat) ^ 16 = 65536" "(2 :: nat) ^ 8 = 256" by simp_all
    show ?thesis unfolding c p
    proof (rule g)
      show "W = W div 256 * 256 + W mod 256" by (rule div_mult_mod_eq [symmetric])
      show "W div 256 = W div 65536 * 256 + W div 256 mod 256" using div_mult_mod_eq [of "W div 256" 256] by (simp add: div_mult2_eq [symmetric])
      show "W div 65536 = W div 16777216 * 256 + W div 65536 mod 256" using div_mult_mod_eq [of "W div 65536" 256] by (simp add: div_mult2_eq [symmetric])
    qed
  qed
  finally show "unat (Uint32 b) = beNat b" using Put_Uint32 [OF l] by (simp add: W_def)
qed

lemma Uint32_or_not:
  assumes "length s = 4" "length m = 4"
  shows "Uint32 (map2 (\<lambda>x y. x OR NOT y) s m) = Uint32 s OR NOT (Uint32 m)"
proof -
  obtain a b c d where s: "s = [a, b, c, d]" using assms(1) by (metis list4_conv)
  obtain e f g h where m: "m = [e, f, g, h]" using assms(2) by (metis list4_conv)
  show ?thesis
  proof (rule bit_word_eqI)
    fix i assume "i < LENGTH(32)"
    then consider "i < 8" | "8 \<le> i" "i < 16" | "16 \<le> i" "i < 24" | "24 \<le> i" "i < 32" by force
    then show "bit (Uint32 (map2 (\<lambda>x y. x OR NOT y) s m)) i \<longleftrightarrow> bit (Uint32 s OR NOT (Uint32 m)) i"
      unfolding s m Uint32_def by cases (simp_all add: bit_simps bit_byte_out less_diff_conv2)
  qed
qed

lemma CIDRMask_zero: "CIDRMask 0 l = replicate l 0"
proof (induction l)
  case (Suc l)
  moreover have "NOT (drop_bit 0 (255 :: byte)) = 0" by code_simp
  ultimately show ?case by simp
qed simp

lemma CIDRMask_full: "i < l \<Longrightarrow> CIDRMask n l ! i = 255 \<Longrightarrow> take (Suc i) (CIDRMask n l) = replicate (Suc i) 255"
proof (induction n l arbitrary: i rule: CIDRMask.induct)
  case (2 n l)
  have z: "NOT (drop_bit n (255 :: byte)) \<noteq> 255" if "n < 8"
  proof -
    have "\<forall>k \<in> set [0..<8]. NOT (drop_bit k (255 :: byte)) \<noteq> 255" by code_simp
    then show ?thesis using that by simp
  qed
  show ?case
  proof (cases "8 \<le> n")
    case True
    then show ?thesis using 2(1) [OF True, of "i - 1"] 2(3,4) by (cases i) auto
  next
    case False
    then show ?thesis using z 2(3,4) by (cases i) (auto simp: CIDRMask_zero)
  qed
qed simp

lemma mask_full:
  assumes "length a = 16" "take 12 (map2 (AND) a (CIDRMask n 16)) = v4InV6Prefix"
  shows "take 12 (CIDRMask n 16) = replicate 12 255"
proof -
  have v: "v4InV6Prefix ! 11 = 255" by code_simp
  have "a ! 11 AND CIDRMask n 16 ! 11 = 255" using arg_cong [OF assms(2), of "\<lambda>xs. xs ! 11"] v assms(1) by simp
  moreover have "(255 :: byte) = - 1" by code_simp
  ultimately have "CIDRMask n 16 ! 11 = 255" by (metis and_eq_minus_1_iff)
  then show ?thesis using CIDRMask_full [of 11 16 n] by simp
qed

lemma To4_masked: "length a = 16 \<Longrightarrow> To4 a = None \<Longrightarrow> To4 (map2 (AND) a (CIDRMask n 16)) = None"
proof (rule ccontr)
  assume l: "length a = 16" and n: "To4 a = None" and y: "To4 (map2 (AND) a (CIDRMask n 16)) \<noteq> None"
  define m where "m = CIDRMask n 16"
  have t: "take 12 (map2 (AND) a m) = v4InV6Prefix" using y l by (auto simp: To4_def m_def split: if_splits)
  have f: "take 12 m = replicate 12 255" using mask_full [OF l] t unfolding m_def by blast
  have w: "(255 :: byte) = - 1" by code_simp
  have "take 12 (map2 (AND) a m) = map2 (AND) (take 12 a) (take 12 m)" by (simp add: take_map take_zip)
  also have "\<dots> = take 12 a"
    unfolding f w using l by (intro nth_equalityI) auto
  finally show False using t n l by (simp add: To4_def)
qed

definition same_prefix :: "nat \<Rightarrow> bytes \<Rightarrow> bytes \<Rightarrow> bool" where
  "same_prefix n a ip =
    (case (To4 a, To4 ip) of
       (Some a4, Some ip4) \<Rightarrow> beNat ip4 div 2 ^ (32 - n) = beNat a4 div 2 ^ (32 - n)
     | (None, None) \<Rightarrow> beNat ip div 2 ^ (128 - n) = beNat a div 2 ^ (128 - n)
     | _ \<Rightarrow> False)"

lemma cidr4_range:
  assumes "length a4 = 4" "n \<le> 32"
  shows "let s = Uint32 (map2 (AND) a4 (CIDRMask n 4)); e = s OR NOT (Uint32 (CIDRMask n 4))
    in s \<le> x \<and> x \<le> e \<longleftrightarrow> unat x div 2 ^ (32 - n) = beNat a4 div 2 ^ (32 - n)"
proof -
  define s e where "s = Uint32 (map2 (AND) a4 (CIDRMask n 4))" and "e = s OR NOT (Uint32 (CIDRMask n 4))"
  have "map2 (\<lambda>x y. x OR NOT y) (map2 (AND) a4 (CIDRMask n 4)) (CIDRMask n 4) = map2 (\<lambda>x m. x AND m OR NOT m) a4 (CIDRMask n 4)"
    using assms(1) by (intro nth_equalityI) auto
  then have e: "e = Uint32 (map2 (\<lambda>x m. x AND m OR NOT m) a4 (CIDRMask n 4))"
    unfolding e_def s_def using assms(1) by (simp add: Uint32_or_not [symmetric])
  have "unat s = beNat a4 div 2 ^ (32 - n) * 2 ^ (32 - n)" "Suc (unat e) = beNat a4 div 2 ^ (32 - n) * 2 ^ (32 - n) + 2 ^ (32 - n)"
    using CIDRMask_beNat [of a4 4 n] assms unfolding e s_def by (simp_all add: Uint32_beNat)
  from block_div [OF this, of "unat x"] show ?thesis unfolding e_def s_def Let_def word_le_nat_alt by simp
qed

lemma cidr6_range:
  assumes "length a = 16" "n \<le> 128"
  shows "beNat (map2 (AND) a (CIDRMask n 16)) \<le> X \<and> X \<le> beNat (map2 (\<lambda>x m. x AND m OR NOT m) a (CIDRMask n 16))
    \<longleftrightarrow> X div 2 ^ (128 - n) = beNat a div 2 ^ (128 - n)"
proof -
  have "beNat (map2 (AND) a (CIDRMask n 16)) = beNat a div 2 ^ (128 - n) * 2 ^ (128 - n)"
    "Suc (beNat (map2 (\<lambda>x m. x AND m OR NOT m) a (CIDRMask n 16))) = beNat a div 2 ^ (128 - n) * 2 ^ (128 - n) + 2 ^ (128 - n)"
    using CIDRMask_beNat [of a 16 n] assms by simp_all
  from block_div [OF this] show ?thesis by simp
qed

text \<open>
  A prefix \<open>addr/n\<close> gives the range of exactly the addresses of its family that agree with it in the first \<open>n\<close> bits. The
  prefixes of mapped IPv4 addresses in IPv6 notation are the exception.
\<close>

theorem cidr_exact:
  assumes "ParseIP addr = Some a" "CHR ''/'' \<notin> set addr" "n \<le> 8 * addrBytes addr" "addrBytes addr = (if To4 a = None then 16 else 4)"
    and "length ip = 4 \<or> length ip = 16"
  shows "\<exists>r. ipLineRange (addr @ CHR ''/'' # Itoa n) = Some r \<and> (covers_ip (addRange r newRuleBuildState) ip \<longleftrightarrow> same_prefix n a ip)"
proof -
  have l: "length a = 16" using ParseIP_length assms(1) .
  note p = ParseCIDR_prefix [OF assms(1-3)]
  show ?thesis
  proof (cases "To4 a")
    case (Some a4)
    then have a4: "take 12 a = v4InV6Prefix" "a4 = drop 12 a" "length a4 = 4" using l by (auto simp: To4_def split: if_splits)
    define m where "m = CIDRMask n 4"
    have "IP_Mask a m = map2 (AND) a4 m" using a4 l by (simp add: IP_Mask_def m_def)
    then have r: "ipLineRange (addr @ CHR ''/'' # Itoa n)
        = Some (Inl \<lparr>Start = Uint32 (map2 (AND) a4 m), End = Uint32 (map2 (AND) a4 m) OR NOT (Uint32 m)\<rparr>)"
      using p assms(4) Some a4(3) by (simp add: ipLineRange_def m_def To4_def ipToUint32_def Let_def)
    have "length ip4 = 4" if "To4 ip = Some ip4" for ip4 using that by (auto simp: To4_def split: if_splits)
    then show ?thesis
      using r cidr4_range [OF a4(3), of n] assms(3,4) Some
      by (auto simp: covers_ip_def addRange_def same_prefix_def Let_def m_def Uint32_beNat split: option.splits)
  next
    case None
    define m where "m = CIDRMask n 16"
    have i: "IP_Mask a m = map2 (AND) a m" using l by (simp add: IP_Mask_def m_def)
    have "map (\<lambda>i. map2 (AND) a m ! i OR NOT (if i < length m then m ! i else 0)) [0..<16] = map2 (\<lambda>x m. x AND m OR NOT m) a m"
      using l by (intro nth_equalityI) (auto simp: m_def)
    moreover have "To4 (map2 (AND) a m) = None" "To16 (map2 (AND) a m) = Some (map2 (AND) a m)"
      using To4_masked [OF l None] l by (simp_all add: m_def To16_def)
    moreover have "ParseCIDR (addr @ CHR ''/'' # Itoa n) = Some (map2 (AND) a m, m)" using p assms(4) None i by (simp add: m_def)
    ultimately have r: "ipLineRange (addr @ CHR ''/'' # Itoa n) = Some (Inr \<lparr>Start6 = map2 (AND) a m, End6 = map2 (\<lambda>x m. x AND m OR NOT m) a m\<rparr>)"
      by (simp add: ipLineRange_def)
    show ?thesis
      using r cidr6_range [OF l, of n] assms(3,4) None
      by (auto simp: covers_ip_def addRange_def same_prefix_def m_def split: option.splits)
  qed
qed

theorem cidr_exact_witness:
  "\<exists>r. ipLineRange ''10.1.2.3/8'' = Some r \<and> (covers_ip (addRange r newRuleBuildState) [10, 9, 9, 9] \<longleftrightarrow> same_prefix 8 (v4InV6Prefix @ [10, 1, 2, 3]) [10, 9, 9, 9])"
proof -
  have "ParseIP ''10.1.2.3'' = Some (v4InV6Prefix @ [10, 1, 2, 3])" "''10.1.2.3'' @ CHR ''/'' # Itoa 8 = ''10.1.2.3/8''" by code_simp+
  then show ?thesis using cidr_exact [of "''10.1.2.3''" "v4InV6Prefix @ [10, 1, 2, 3]" 8 "[10, 9, 9, 9]"]
    by (simp add: To4_def v4InV6Prefix_def)
qed

text \<open>
  A prefix in IPv6 notation whose network is a mapped IPv4 address gives the single address of its network, whatever the
  prefix length, because the range is computed with the first four bytes of the mask.
\<close>

theorem mapped_cidr_single:
  assumes "ParseCIDR l = Some (ip, m)" "length m = 16" "To4 ip = Some ip4"
  shows "ipLineRange l = Some (Inl \<lparr>Start = ipToUint32 ip4, End = ipToUint32 ip4\<rparr>)"
proof -
  obtain addr n a where p: "ParseIP addr = Some a" "m = CIDRMask n (addrBytes addr)" "ip = IP_Mask a m"
    using assms(1) by (auto simp: ParseCIDR_def Let_def split: option.splits if_splits)
  have m: "m = CIDRMask n 16" using p(2) assms(2) by simp
  have l: "length a = 16" using ParseIP_length p(1) .
  then have i: "ip = map2 (AND) a m" using p(3) assms(2) by (simp add: IP_Mask_def)
  then have "take 12 (map2 (AND) a m) = v4InV6Prefix" using assms(2,3) l by (auto simp: To4_def split: if_splits)
  then have f: "take 12 m = replicate 12 255" using mask_full [OF l] m by simp
  have "m ! j = 255" if "j < 4" for j using arg_cong [OF f, of "\<lambda>xs. xs ! j"] that assms(2) by simp
  then have "Uint32 m = Uint32 [255, 255, 255, 255]" by (simp add: Uint32_def)
  moreover have "NOT (Uint32 [255, 255, 255, 255]) = 0" by code_simp
  ultimately show ?thesis using assms(1,3) by (simp add: ipLineRange_def Let_def)
qed

theorem mapped_cidr_single_witness:
  "ipLineRange ''::ffff:1.2.3.4/120'' = Some (Inl \<lparr>Start = 16909056, End = 16909056\<rparr>)"
proof -
  have "ParseCIDR ''::ffff:1.2.3.4/120'' = Some (v4InV6Prefix @ [1, 2, 3, 0], CIDRMask 120 16)" by code_simp
  moreover have "To4 (v4InV6Prefix @ [1, 2, 3, 0]) = Some [1, 2, 3, 0]" by code_simp
  moreover have "ipToUint32 [1, 2, 3, 0] = 16909056" by code_simp
  ultimately show ?thesis using mapped_cidr_single [of "''::ffff:1.2.3.4/120''" _ _ "[1, 2, 3, 0]"] by fastforce
qed

text \<open>
  Two ranges that start at address zero, the wider one first, are not merged, because the start minus one wraps around;
  the lookup then misses the addresses of the wider range beyond the narrower one.
\<close>

theorem zero_ranges_missed:
  assumes "srt [\<lparr>Start = 0, End = wide\<rparr>, \<lparr>Start = 0, End = narrow\<rparr>] = [\<lparr>Start = 0, End = wide\<rparr>, \<lparr>Start = 0, End = narrow\<rparr>]"
    and "wide < - 1" "length ip = 4" "narrow < Uint32 ip" "Uint32 ip \<le> wide"
  shows "\<not> matchIPv4Range (mergeRanges srt [\<lparr>Start = 0, End = wide\<rparr>, \<lparr>Start = 0, End = narrow\<rparr>]) ip"
proof -
  have "\<not> (0 - 1 \<le> wide)" using assms(2) by simp
  then have m: "mergeRanges srt [\<lparr>Start = 0, End = wide\<rparr>, \<lparr>Start = 0, End = narrow\<rparr>] = [\<lparr>Start = 0, End = wide\<rparr>, \<lparr>Start = 0, End = narrow\<rparr>]"
    using assms(1) by (simp add: mergeRanges_def)
  define f where "f i = (Uint32 ip \<le> End ([\<lparr>Start = 0, End = wide\<rparr>, \<lparr>Start = 0, End = narrow\<rparr>] ! i))" for i
  have "\<not> f 1" using assms(4) by (simp add: f_def)
  then have "Search 2 f = 2" by (simp add: Search_def searchLoop.simps [of f 0 2] searchLoop.simps [of f "Suc (Suc 0)" 2] Let_def)
  then show ?thesis using assms(3) unfolding m by (simp add: matchIPv4Range_def To4_def ipToUint32_def Let_def f_def [abs_def] numeral_2_eq_2)
qed

theorem zero_ranges_missed_witness:
  "\<not> matchIPv4Range (mergeRanges (sort_key Start) [\<lparr>Start = 0, End = 16777215\<rparr>, \<lparr>Start = 0, End = 0\<rparr>]) [0, 0, 0, 5]"
proof -
  have "(16777215 :: u32) < - 1" "0 < Uint32 [0, 0, 0, 5]" "Uint32 [0, 0, 0, 5] \<le> 16777215" by code_simp+
  then show ?thesis using zero_ranges_missed [of "sort_key Start" 16777215 0 "[0, 0, 0, 5]"] by simp
qed

section \<open>A sample update\<close>

definition sampleEnv :: geo_env where
  "sampleEnv =
    \<lparr>get = (\<lambda>u. if u = ''u1'' then Inr (200, Inr (bytes_of ''.a'' @ [10] @ bytes_of ''1.0.0.0/8'')) else Inr (404, Inr [])),
     yaml = (\<lambda>b. Inl (ErrMsg ''yaml'')), digest = (\<lambda>b. b), disk = (\<lambda>p. None),
     srt4 = sort_key (\<lambda>r. unat (Start r)), srt6 = sort_key (\<lambda>r. beNat (Start6 r))\<rparr>"

definition sampleManager :: Manager where
  "sampleManager = NewManager (Inr ''/c'') [''u1'', ''u2'']"

lemma sort_key_sorts: "sorts_by f (sort_key f)"
  by (simp add: sorts_by_def)

theorem geo_update_matches_witness:
  "fst (MatchRule (\<lambda>xs. xs) (fst (Update sampleEnv sampleManager Map.empty)) ''b.a'' None)
    \<longleftrightarrow> (\<exists>l \<in> set (loadedLines sampleEnv sampleManager (urls sampleManager) Map.empty). line_matches l ''b.a'' None)"
proof (rule geo_update_matches)
  show "sorts_by (\<lambda>r. unat (Start r)) (srt4 sampleEnv)" "sorts_by (\<lambda>r. beNat (Start6 r)) (srt6 sampleEnv)"
    by (simp_all add: sampleEnv_def sort_key_sorts)
  show "zero_ok (concat (map (\<lambda>l. ipv4 (lineRule l)) (loadedLines sampleEnv sampleManager (urls sampleManager) Map.empty)))"
    by code_simp
qed simp_all

theorem geo_cache_fallback_witness:
  "\<exists>st files. downloadAndParse (sampleEnv\<lparr>get := \<lambda>u. Inl EOF\<rparr>) sampleManager ''u1'' newRuleBuildState files = (True, st, files)"
proof -
  obtain ok st files where d: "downloadAndParse sampleEnv sampleManager ''u1'' newRuleBuildState Map.empty = (ok, st, files)" using prod_cases3 .
  have "fst (downloadAndParse sampleEnv sampleManager ''u1'' newRuleBuildState Map.empty)" by code_simp
  then have ok using d by simp
  have "TrimSpace (cacheDir sampleManager) \<noteq> ''''" by code_simp
  moreover have "disk sampleEnv p = None" for p by (simp add: sampleEnv_def)
  moreover have "downloadRuleSource (\<lambda>u. Inl EOF) ''u1'' = Inl EOF" by (simp add: downloadRuleSource_def)
  ultimately show ?thesis using geo_cache_fallback [of sampleEnv sampleManager "''u1''" newRuleBuildState Map.empty st files "\<lambda>u. Inl EOF" EOF] d \<open>ok\<close> by auto
qed

end
