(* ===== verification/DnsOptions.thy ===== *)
theory DnsOptions
  imports Geo Balanced Config "HOL-Library.AList"
begin

text \<open>
  Options of the DNS resolver (\<open>pkg/dnsutil/options.go\<close>) and its name servers (\<open>doh.go\<close>, \<open>dot.go\<close>): normalisation, validation, endpoints,
  and the lookup of one server. \<open>net/url\<close>, the DNS messages of \<open>golang.org/x/net\<close>, HTTP and TLS are parameters. A Go map is the list of
  its entries in the order of iteration; durations are nanoseconds, at 64 bits where the code multiplies.
\<close>

section \<open>Options\<close>

definition wrap64 :: "int \<Rightarrow> int" where "wrap64 x = sint (word_of_int x :: 64 word)"

definition defaultCacheTTL :: int where "defaultCacheTTL = 10 * 60 * 1000000000"
definition defaultLookupTimeout :: int where "defaultLookupTimeout = 5 * 1000000000"
definition defaultHTTPSPath :: string where "defaultHTTPSPath = ''/dns-query''"

record ServerOptions =
  srvType :: string
  srvAddress :: string
  srvPath :: string
  Bootstrap :: "string list"
  Headers :: "(string \<times> string) list"

record Options =
  DisableCache :: bool
  DisableExpire :: bool
  CacheTTLSeconds :: int
  TimeoutMs :: int
  DisableBogusFilter :: bool
  BogusNets :: "string list"
  Servers :: "ServerOptions list"

definition RecommendedClientOptions :: Options where
  "RecommendedClientOptions = \<lparr>DisableCache = False, DisableExpire = False, CacheTTLSeconds = 0, TimeoutMs = 3000, DisableBogusFilter = False, BogusNets = [],
    Servers = [
      \<lparr>srvType = ''https'', srvAddress = ''dns.alidns.com'', srvPath = ''/dns-query'', Bootstrap = [''223.5.5.5'', ''223.6.6.6''], Headers = []\<rparr>,
      \<lparr>srvType = ''https'', srvAddress = ''doh.pub'', srvPath = ''/dns-query'', Bootstrap = [''119.29.29.29'', ''119.28.28.28''], Headers = []\<rparr>,
      \<lparr>srvType = ''local'', srvAddress = '''', srvPath = '''', Bootstrap = [], Headers = []\<rparr>]\<rparr>"

definition normalizeServerType :: "string \<Rightarrow> string" where
  "normalizeServerType serverType =
    (let t = ToLower (TrimSpace serverType)
     in if t = '''' \<or> t = ''local'' \<or> t = ''system'' then ''local''
        else if t = ''https'' \<or> t = ''doh'' then ''https''
        else if t = ''tls'' \<or> t = ''dot'' then ''dot''
        else t)"

definition normalizeHTTPSPath :: "string \<Rightarrow> string" where
  "normalizeHTTPSPath path0 =
    (let path = TrimSpace path0
     in if path = '''' then defaultHTTPSPath else if \<not> HasPrefix path ''/'' then ''/'' @ path else path)"

definition normalizeBootstrapAddrs :: "string list \<Rightarrow> string list" where
  "normalizeBootstrapAddrs addrs = trimList addrs"

definition addHeader :: "(string \<times> string) list \<Rightarrow> string \<times> string \<Rightarrow> (string \<times> string) list" where
  "addHeader m h = (let k = TrimSpace (fst h); v = TrimSpace (snd h) in if k = '''' \<or> v = '''' then m else AList.update k v m)"

definition trimHeaders :: "(string \<times> string) list \<Rightarrow> (string \<times> string) list" where
  "trimHeaders hs = foldl addHeader [] hs"

definition normalizeServer :: "ServerOptions \<Rightarrow> ServerOptions" where
  "normalizeServer srv = \<lparr>srvType = normalizeServerType (srvType srv), srvAddress = TrimSpace (srvAddress srv), srvPath = normalizeHTTPSPath (srvPath srv),
    Bootstrap = normalizeBootstrapAddrs (Bootstrap srv), Headers = trimHeaders (Headers srv)\<rparr>"

definition keptServer :: "ServerOptions \<Rightarrow> bool" where
  "keptServer srv \<longleftrightarrow> srvType srv = ''https'' \<or> srvAddress srv \<noteq> '''' \<or> Bootstrap srv \<noteq> []"

definition Normalized :: "Options \<Rightarrow> Options" where
  "Normalized o1 = o1\<lparr>CacheTTLSeconds := max 0 (CacheTTLSeconds o1), TimeoutMs := max 0 (TimeoutMs o1), BogusNets := trimList (BogusNets o1),
    Servers := filter keptServer (map normalizeServer (Servers o1))\<rparr>"

text \<open>\<open>Normalized\<close> filters into the slice of its argument: this is what the caller's slice of servers holds afterwards.\<close>

definition normalizedBacking :: "ServerOptions list \<Rightarrow> ServerOptions list" where
  "normalizedBacking ss = (let out = filter keptServer (map normalizeServer ss) in out @ drop (length out) ss)"

definition cacheTTL :: "Options \<Rightarrow> int" where
  "cacheTTL o1 = (if 0 < CacheTTLSeconds o1 then wrap64 (CacheTTLSeconds o1 * 1000000000) else defaultCacheTTL)"

definition timeoutOf :: "Options \<Rightarrow> int" where
  "timeoutOf o1 = (if 0 < TimeoutMs o1 then wrap64 (TimeoutMs o1 * 1000000) else defaultLookupTimeout)"

section \<open>Endpoints and validation\<close>

definition splitHostPortDefault :: "string \<Rightarrow> string \<Rightarrow> string \<times> string" where
  "splitHostPortDefault address0 defaultPort =
    (let address = TrimSpace address0
     in case SplitHostPort address of
          Inr (host, port) \<Rightarrow> (host, port)
        | Inl e \<Rightarrow> if ParseIP (TrimBrackets address) \<noteq> None then (TrimBrackets address, defaultPort) else (address, defaultPort))"

definition EqualFold :: "string \<Rightarrow> string \<Rightarrow> bool" where
  "EqualFold s t \<longleftrightarrow> ToLower s = ToLower t"

text \<open>The result of \<open>url.Parse\<close> is its scheme, host and path.\<close>

definition parseHTTPSEndpoint :: "(string \<Rightarrow> (string \<times> string \<times> string) result) \<Rightarrow> string \<Rightarrow> string \<Rightarrow> (string \<times> string \<times> string) result" where
  "parseHTTPSEndpoint urlParse address0 path0 =
    (let address = TrimSpace address0; path = normalizeHTTPSPath path0
     in if address = '''' then Inl (ErrMsg ''empty https dns address'')
        else if Contains address ''://'' then
          (case urlParse address of
             Inl e \<Rightarrow> Inl (ErrMsg ''parse https dns address'')
           | Inr (scheme, uhost, upath) \<Rightarrow>
             if \<not> EqualFold (TrimSpace scheme) ''https'' then Inl (ErrMsg ''https dns server requires https scheme'')
             else if TrimSpace uhost = '''' then Inl (ErrMsg ''https dns server missing host'')
             else
               let (host, port) = splitHostPortDefault uhost ''443''; reqPath = normalizeHTTPSPath upath
               in Inr (host, port, if reqPath = ''/'' then path else reqPath))
        else
          let (host, port) = splitHostPortDefault address ''443''
          in if TrimSpace host = '''' then Inl (ErrMsg ''https dns server missing host'') else Inr (host, port, path))"

definition parseTLSEndpoint :: "string \<Rightarrow> (string \<times> string) result" where
  "parseTLSEndpoint address0 =
    (let address = TrimSpace address0
     in if address = '''' then Inl (ErrMsg ''empty tls dns address'')
        else
          let (host, port) = splitHostPortDefault address ''853''
          in if TrimSpace host = '''' then Inl (ErrMsg ''tls dns server missing host'') else Inr (host, port))"

definition validateBootstrapAddrs :: "string list \<Rightarrow> go_error option" where
  "validateBootstrapAddrs addrs = (if \<exists>a \<in> set addrs. ParseIP (TrimSpace a) = None then Some (ErrMsg ''invalid bootstrap ip'') else None)"

definition validateServerOptions :: "(string \<Rightarrow> (string \<times> string \<times> string) result) \<Rightarrow> ServerOptions \<Rightarrow> go_error option" where
  "validateServerOptions urlParse srv =
    (let t = normalizeServerType (srvType srv)
     in if t = ''local'' then None
        else if t = ''https'' then
          (if TrimSpace (srvAddress srv) = '''' then Some (ErrMsg ''https server requires address'')
           else case parseHTTPSEndpoint urlParse (srvAddress srv) (srvPath srv) of
             Inl e \<Rightarrow> Some e
           | Inr ep \<Rightarrow> validateBootstrapAddrs (Bootstrap srv))
        else if t = ''dot'' then
          (if TrimSpace (srvAddress srv) = '''' then Some (ErrMsg ''dot server requires address'')
           else case parseTLSEndpoint (srvAddress srv) of
             Inl e \<Rightarrow> Some e
           | Inr ep \<Rightarrow> validateBootstrapAddrs (Bootstrap srv))
        else Some (ErrMsg ''unsupported dns server type''))"

fun firstFailure :: "go_error option list \<Rightarrow> go_error option" where
  "firstFailure [] = None"
| "firstFailure (e # es) = (if e = None then firstFailure es else e)"

definition Validate :: "(string \<Rightarrow> (string \<times> string \<times> string) result) \<Rightarrow> Options \<Rightarrow> go_error option" where
  "Validate urlParse o0 =
    (let o1 = Normalized o0
     in if \<exists>cidr \<in> set (BogusNets o1). ParseCIDR cidr = None then Some (ErrMsg ''invalid dns bogus_nets entry'')
        else if firstFailure (map (validateServerOptions urlParse) (Servers o1)) \<noteq> None then Some (ErrMsg ''invalid dns server'')
        else None)"

section \<open>Name servers\<close>

definition trimPortForServer :: "string \<Rightarrow> string" where
  "trimPortForServer host =
    (case SplitHostPort host of
       Inr (h, p) \<Rightarrow> if TrimSpace h \<noteq> '''' then TrimBrackets h else TrimBrackets host
     | Inl e \<Rightarrow> TrimBrackets host)"

definition isLikelyLocalHostname :: "string \<Rightarrow> bool" where
  "isLikelyLocalHostname host0 \<longleftrightarrow>
    (let host = ToLower (TrimSpace (TrimBrackets host0))
     in if host = '''' then False
        else \<not> Contains host ''.'' \<or> list_ex (HasSuffix host) [''.local'', ''.localhost'', ''.localdomain'', ''.home.arpa'', ''.lan''])"

definition minDuration :: "int \<Rightarrow> int \<Rightarrow> int" where
  "minDuration a b = (if a \<le> 0 then b else if b \<le> 0 then a else if a < b then a else b)"

definition cloneHeaders :: "(string \<times> string) list \<Rightarrow> (string \<times> string) list" where
  "cloneHeaders hs = trimHeaders hs"

record httpsNameServer =
  hsHost :: string
  hsPort :: string
  hsPath :: string
  serverURL :: string
  hsBootstrap :: "string list"
  hsHeaders :: "(string \<times> string) list"
  hsNext :: u32
  hsTimeout :: int

definition newHTTPSNameServer :: "(string \<Rightarrow> (string \<times> string \<times> string) result) \<Rightarrow> ServerOptions \<Rightarrow> int \<Rightarrow> httpsNameServer result" where
  "newHTTPSNameServer urlParse srv tmo =
    (case parseHTTPSEndpoint urlParse (srvAddress srv) (srvPath srv) of
       Inl e \<Rightarrow> Inl e
     | Inr (host, port, path) \<Rightarrow>
       Inr \<lparr>hsHost = host, hsPort = port, hsPath = path, serverURL = ''https://'' @ JoinHostPort host port @ path,
         hsBootstrap = normalizeBootstrapAddrs (Bootstrap srv), hsHeaders = cloneHeaders (Headers srv), hsNext = 0, hsTimeout = tmo\<rparr>)"

record tlsNameServer =
  tsHost :: string
  tsPort :: string
  tsBootstrap :: "string list"
  tsNext :: u32
  tsTimeout :: int

definition newTLSNameServer :: "ServerOptions \<Rightarrow> int \<Rightarrow> tlsNameServer result" where
  "newTLSNameServer srv tmo =
    (case parseTLSEndpoint (srvAddress srv) of
       Inl e \<Rightarrow> Inl e
     | Inr (host, port) \<Rightarrow>
       Inr \<lparr>tsHost = host, tsPort = port, tsBootstrap = normalizeBootstrapAddrs (Bootstrap srv), tsNext = 0, tsTimeout = tmo\<rparr>)"

text \<open>The address a server is dialled at: its host, or the next of its bootstrap addresses.\<close>

definition https_dialAddress :: "httpsNameServer \<Rightarrow> string \<times> httpsNameServer" where
  "https_dialAddress s =
    (if hsBootstrap s = [] then (JoinHostPort (hsHost s) (hsPort s), s)
     else (JoinHostPort (hsBootstrap s ! (unat (hsNext s) mod length (hsBootstrap s))) (hsPort s), s\<lparr>hsNext := hsNext s + 1\<rparr>))"

definition tls_dialAddress :: "tlsNameServer \<Rightarrow> string \<times> tlsNameServer" where
  "tls_dialAddress s =
    (if tsBootstrap s = [] then (JoinHostPort (tsHost s) (tsPort s), s)
     else (JoinHostPort (tsBootstrap s ! (unat (tsNext s) mod length (tsBootstrap s))) (tsPort s), s\<lparr>tsNext := tsNext s + 1\<rparr>))"

datatype qtype = TypeA | TypeAAAA

text \<open>What the message parser of the library yields: an error at the start or in the questions, the response code, and the answers, each
  an address or something else, up to an error.\<close>

datatype answer = ARecord bytes | AAAARecord bytes | OtherRecord | BadRecord go_error

fun answerIPs :: "qtype \<Rightarrow> answer list \<Rightarrow> bytes list result" where
  "answerIPs q [] = Inr []"
| "answerIPs q (a # as) =
    (case a of
       BadRecord e \<Rightarrow> Inl e
     | ARecord ip \<Rightarrow> map_sum id (\<lambda>ips. if q = TypeA then ip # ips else ips) (answerIPs q as)
     | AAAARecord ip \<Rightarrow> map_sum id (\<lambda>ips. if q = TypeAAAA then ip # ips else ips) (answerIPs q as)
     | OtherRecord \<Rightarrow> answerIPs q as)"

definition parseDNSAnswerIPs :: "(bytes \<Rightarrow> (bool \<times> answer list) result) \<Rightarrow> bytes \<Rightarrow> qtype \<Rightarrow> bytes list result" where
  "parseDNSAnswerIPs parse resp q =
    (case parse resp of
       Inl e \<Rightarrow> Inl e
     | Inr (success, as) \<Rightarrow> if \<not> success then Inl (ErrMsg ''dns rcode'') else answerIPs q as)"

text \<open>The lookup common to both kinds of servers: literals, local names and unknown networks do not ask the server.\<close>

definition server_LookupIP :: "(string \<Rightarrow> string \<Rightarrow> bytes list result) \<Rightarrow> (string \<Rightarrow> qtype \<Rightarrow> bytes list result) \<Rightarrow> string \<Rightarrow> string \<Rightarrow> bytes list result" where
  "server_LookupIP fallback ask network host0 =
    (let host = TrimSpace host0
     in if host = '''' then Inl (ErrMsg ''empty host'')
        else case ParseIP (TrimBrackets host) of
          Some ip \<Rightarrow> Inr [ip]
        | None \<Rightarrow>
          if isLikelyLocalHostname host then fallback network host
          else if network = ''ip4'' then ask host TypeA
          else if network = ''ip6'' then ask host TypeAAAA
          else fallback network host)"

text \<open>The query name, and a query over HTTPS: \<open>build\<close> packs a message, \<open>post\<close> is the HTTP client with the status and the body of the response.\<close>

definition queryName :: "string \<Rightarrow> string" where
  "queryName host = TrimSuffix (TrimSpace host) ''.'' @ ''.''"

definition https_ask :: "(string \<Rightarrow> qtype \<Rightarrow> bytes result) \<Rightarrow> (bytes \<Rightarrow> (nat \<times> bytes result) result) \<Rightarrow> (bytes \<Rightarrow> (bool \<times> answer list) result)
    \<Rightarrow> string \<Rightarrow> qtype \<Rightarrow> bytes list result" where
  "https_ask build post parse host q =
    (case build (queryName host) q of
       Inl e \<Rightarrow> Inl e
     | Inr query \<Rightarrow>
       (case post query of
          Inl e \<Rightarrow> Inl e
        | Inr (status, body) \<Rightarrow>
          if status < 200 \<or> 300 \<le> status then Inl (ErrMsg ''doh http'')
          else case body of Inl e \<Rightarrow> Inl e | Inr b \<Rightarrow> parseDNSAnswerIPs parse b q))"

text \<open>A query over TLS, on the connection that the handshake left.\<close>

definition lookupQuery :: "(bytes \<Rightarrow> (bool \<times> answer list) result) \<Rightarrow> writer \<Rightarrow> reader \<Rightarrow> bytes \<Rightarrow> qtype \<Rightarrow> bytes list result \<times> writer" where
  "lookupQuery parse w r query q =
    (case conn_write w (PutUint16 (of_nat (length query))) of
       (n, Some e, w1) \<Rightarrow> (Inl e, w1)
     | (n, None, w1) \<Rightarrow>
       (case conn_write w1 query of
          (n2, Some e, w2) \<Rightarrow> (Inl e, w2)
        | (n2, None, w2) \<Rightarrow>
          (case ReadFull 2 r of
             (Inl e, r1) \<Rightarrow> (Inl e, w2)
           | (Inr pre, r1) \<Rightarrow>
             let respLen = unat (Uint16 pre)
             in if respLen = 0 then (Inl (ErrMsg ''empty dot response''), w2)
                else (case ReadFull respLen r1 of
                  (Inl e, r2) \<Rightarrow> (Inl e, w2)
                | (Inr resp, r2) \<Rightarrow> (parseDNSAnswerIPs parse resp q, w2)))))"

definition tls_ask :: "(string \<Rightarrow> qtype \<Rightarrow> bytes result) \<Rightarrow> (writer \<times> reader) result \<Rightarrow> (bytes \<Rightarrow> (bool \<times> answer list) result)
    \<Rightarrow> string \<Rightarrow> qtype \<Rightarrow> bytes list result" where
  "tls_ask build conn parse host q =
    (case build (queryName host) q of
       Inl e \<Rightarrow> Inl e
     | Inr query \<Rightarrow> (case conn of Inl e \<Rightarrow> Inl e | Inr (w, r) \<Rightarrow> fst (lookupQuery parse w r query q)))"

section \<open>Normalisation\<close>

lemma TrimSpace_slash: "TrimSpace s = s \<Longrightarrow> s \<noteq> [] \<Longrightarrow> TrimSpace (CHR ''/'' # s) = CHR ''/'' # s"
  using TrimSpace_hd_last [of s] by (intro TrimSpace_ends) (auto simp: is_space_def)

lemma normalizeHTTPSPath_idem [simp]: "normalizeHTTPSPath (normalizeHTTPSPath p) = normalizeHTTPSPath p"
proof (cases "TrimSpace p = [] \<or> HasPrefix (TrimSpace p) ''/''")
  case True
  have "TrimSpace defaultHTTPSPath = defaultHTTPSPath" "HasPrefix defaultHTTPSPath ''/''" "defaultHTTPSPath \<noteq> []" by code_simp+
  then show ?thesis using True by (auto simp: normalizeHTTPSPath_def Let_def)
next
  case False
  then show ?thesis using TrimSpace_slash [of "TrimSpace p"] by (simp add: normalizeHTTPSPath_def Let_def HasPrefix_def)
qed

lemma normalizeServerType_idem [simp]: "normalizeServerType (normalizeServerType t) = normalizeServerType t"
proof -
  let ?t = "ToLower (TrimSpace t)"
  have k: "TrimSpace ''local'' = ''local''" "TrimSpace ''https'' = ''https''" "TrimSpace ''dot'' = ''dot''"
    "ToLower ''local'' = ''local''" "ToLower ''https'' = ''https''" "ToLower ''dot'' = ''dot''" by code_simp+
  have "ToLower (TrimSpace ?t) = ?t" by (simp add: TrimSpace_ToLower)
  then show ?thesis unfolding normalizeServerType_def Let_def by (simp add: k)
qed

lemma update_fresh: "k \<notin> fst ` set m \<Longrightarrow> AList.update k v m = m @ [(k, v)]"
  by (induction m) auto

definition clean_headers :: "(string \<times> string) list \<Rightarrow> bool" where
  "clean_headers hs \<longleftrightarrow> distinct (map fst hs) \<and> (\<forall>(k, v) \<in> set hs. TrimSpace k = k \<and> TrimSpace v = v \<and> k \<noteq> '''' \<and> v \<noteq> '''')"

lemma set_update_sub: "set (AList.update k v m) \<subseteq> insert (k, v) (set m)"
  by (induction m) auto

lemma clean_update: "clean_headers m \<Longrightarrow> TrimSpace k = k \<Longrightarrow> TrimSpace v = v \<Longrightarrow> k \<noteq> '''' \<Longrightarrow> v \<noteq> '''' \<Longrightarrow> clean_headers (AList.update k v m)"
  unfolding clean_headers_def using set_update_sub [of k v m] by (auto simp: distinct_update)

lemma trimHeaders_clean: "clean_headers (trimHeaders hs)"
proof -
  have "clean_headers m \<Longrightarrow> clean_headers (foldl addHeader m hs)" for m
    by (induction hs arbitrary: m) (auto simp: addHeader_def Let_def clean_update)
  moreover have "clean_headers []" by (simp add: clean_headers_def)
  ultimately show ?thesis unfolding trimHeaders_def by blast
qed

lemma addHeaders_id: "clean_headers (m @ hs) \<Longrightarrow> foldl addHeader m hs = m @ hs"
proof (induction hs arbitrary: m)
  case (Cons h hs)
  obtain k v where h: "h = (k, v)" by fastforce
  have "k \<notin> fst ` set m" "TrimSpace k = k" "TrimSpace v = v" "k \<noteq> ''''" "v \<noteq> ''''" using Cons.prems by (auto simp: clean_headers_def h)
  then have "addHeader m h = m @ [h]" by (simp add: addHeader_def h update_fresh)
  then show ?case using Cons.IH [of "m @ [h]"] Cons.prems by simp
qed simp

lemma trimHeaders_id: "clean_headers hs \<Longrightarrow> trimHeaders hs = hs"
  using addHeaders_id [of "[]" hs] by (simp add: trimHeaders_def)

lemma normalizeServer_idem [simp]: "normalizeServer (normalizeServer s) = normalizeServer s"
  by (simp add: trimList_idem normalizeServer_def normalizeBootstrapAddrs_def trimHeaders_id trimHeaders_clean)

text \<open>Normalising twice is normalising once, so that the normalisations of \<open>NewResolver\<close> and \<open>Validate\<close> agree.\<close>

lemma Normalized_idempotent: "Normalized (Normalized o1) = Normalized o1"
proof -
  have "filter keptServer (map normalizeServer (filter keptServer (map normalizeServer ss))) = filter keptServer (map normalizeServer ss)" for ss
    by (induction ss) auto
  then show ?thesis by (simp add: Normalized_def trimList_idem)
qed


text \<open>The slice of the caller is overwritten: options that are normalised twice through the same slice ask a server twice.\<close>

lemma normalized_slice_shared:
  fixes a :: ServerOptions
  defines "l \<equiv> \<lparr>srvType = ''local'', srvAddress = '''', srvPath = '''', Bootstrap = [], Headers = []\<rparr>"
  assumes "normalizeServer a = a" "keptServer a"
  shows "filter keptServer (map normalizeServer [l, a]) = [a]" "filter keptServer (map normalizeServer (normalizedBacking [l, a])) = [a, a]"
proof -
  have "\<not> keptServer (normalizeServer l)" unfolding l_def by code_simp
  then show "filter keptServer (map normalizeServer [l, a]) = [a]" "filter keptServer (map normalizeServer (normalizedBacking [l, a])) = [a, a]"
    using assms(2,3) by (simp_all add: normalizedBacking_def Let_def)
qed

lemma wrap64_id: "- (2 ^ 63) \<le> x \<Longrightarrow> x < 2 ^ 63 \<Longrightarrow> wrap64 x = x"
  unfolding wrap64_def by (subst sint_sbintrunc') (simp add: signed_take_bit_int_eq_self_iff)

text \<open>Durations: a number of seconds whose nanoseconds fit into 64 bits gives a positive time to live, a greater one can give a negative one.\<close>

lemma cacheTTL_bounds:
  "CacheTTLSeconds o1 \<le> 9223372036 \<Longrightarrow> 0 < cacheTTL o1 \<and> (0 < CacheTTLSeconds o1 \<longrightarrow> cacheTTL o1 = CacheTTLSeconds o1 * 1000000000)"
  "CacheTTLSeconds o1 = 9223372037 \<Longrightarrow> cacheTTL o1 < 0"
proof -
  assume a: "CacheTTLSeconds o1 \<le> 9223372036"
  show "0 < cacheTTL o1 \<and> (0 < CacheTTLSeconds o1 \<longrightarrow> cacheTTL o1 = CacheTTLSeconds o1 * 1000000000)"
  proof (cases "0 < CacheTTLSeconds o1")
    case True
    then have "wrap64 (CacheTTLSeconds o1 * 1000000000) = CacheTTLSeconds o1 * 1000000000" using a by (intro wrap64_id) auto
    then show ?thesis using True by (simp add: cacheTTL_def)
  qed (simp add: cacheTTL_def defaultCacheTTL_def)
next
  assume "CacheTTLSeconds o1 = 9223372037"
  then show "cacheTTL o1 < 0" by (simp add: cacheTTL_def wrap64_def)
qed

end
