(* ===== verification/Dns.thy ===== *)
theory Dns
  imports DnsOptions
begin

text \<open>
  The DNS resolver (\<open>pkg/dnsutil/resolver.go\<close>): a cache over a list of name servers, with a filter for bogus addresses. An address is the
  list of its bytes, a nil address the empty list. The answers of the servers at one time are a parameter, \<open>None\<close> for a
  server that did not answer in time; the time of a call is an argument.
\<close>

section \<open>The resolver\<close>

datatype nameServer = LocalServer | HTTPSServer httpsNameServer | TLSServer tlsNameServer

record cacheEntry =
  ips :: "bytes list"
  expiresAt :: int

record Resolver =
  cache :: "string \<rightharpoonup> cacheEntry"
  ttl :: int
  timeout :: int
  disableCache :: bool
  disableExpire :: bool
  disableBogusFilter :: bool
  bogusNets :: "(bytes \<times> bytes) list"
  servers :: "nameServer list"

fun appendServer :: "(string \<Rightarrow> (string \<times> string \<times> string) result) \<Rightarrow> int \<Rightarrow> ServerOptions list \<Rightarrow> nameServer list result" where
  "appendServer urlParse tmo [] = Inr []"
| "appendServer urlParse tmo (srv # srvs) =
    (let t = normalizeServerType (srvType srv);
         ns = (if t = ''local'' then Inr LocalServer
               else if t = ''https'' then map_sum id HTTPSServer (newHTTPSNameServer urlParse srv tmo)
               else if t = ''dot'' then map_sum id TLSServer (newTLSNameServer srv tmo)
               else Inl (ErrMsg ''unsupported dns server type''))
     in case ns of Inl e \<Rightarrow> Inl e
        | Inr s \<Rightarrow> map_sum id (\<lambda>ss. s # ss) (appendServer urlParse tmo srvs))"

definition buildNameServers :: "(string \<Rightarrow> (string \<times> string \<times> string) result) \<Rightarrow> Options \<Rightarrow> nameServer list result" where
  "buildNameServers urlParse opts =
    (if Servers opts = [] then Inr [LocalServer] else appendServer urlParse (timeoutOf opts) (Servers opts))"

fun parseNets :: "string list \<Rightarrow> (bytes \<times> bytes) list result" where
  "parseNets [] = Inr []"
| "parseNets (cidr # cidrs) =
    (case ParseCIDR (TrimSpace cidr) of
       None \<Rightarrow> Inl (ErrMsg ''invalid CIDR address'')
     | Some n \<Rightarrow> map_sum id (\<lambda>ns. n # ns) (parseNets cidrs))"

definition parseBogusNets :: "Options \<Rightarrow> (bytes \<times> bytes) list result" where
  "parseBogusNets opts = (if DisableBogusFilter opts then Inr [] else parseNets (''198.18.0.0/15'' # BogusNets opts))"

definition NewResolver :: "(string \<Rightarrow> (string \<times> string \<times> string) result) \<Rightarrow> Options \<Rightarrow> Resolver result" where
  "NewResolver urlParse opts0 =
    (let opts = Normalized opts0
     in case Validate urlParse opts of
          Some e \<Rightarrow> Inl e
        | None \<Rightarrow>
          (case buildNameServers urlParse opts of
             Inl e \<Rightarrow> Inl e
           | Inr srvs \<Rightarrow>
             (case parseBogusNets opts of
                Inl e \<Rightarrow> Inl e
              | Inr nets \<Rightarrow>
                Inr \<lparr>cache = Map.empty, ttl = cacheTTL opts, timeout = timeoutOf opts, disableCache = DisableCache opts,
                  disableExpire = DisableExpire opts, disableBogusFilter = DisableBogusFilter opts, bogusNets = nets, servers = srvs\<rparr>)))"

definition newResolver :: "int \<Rightarrow> Resolver" where
  "newResolver ttl0 = \<lparr>cache = Map.empty, ttl = (if ttl0 \<le> 0 then defaultCacheTTL else ttl0), timeout = defaultLookupTimeout, disableCache = False,
    disableExpire = False, disableBogusFilter = False, bogusNets = [], servers = [LocalServer]\<rparr>"

definition normalizeHost :: "string \<Rightarrow> string \<times> bytes option" where
  "normalizeHost host0 =
    (let h0 = TrimSpace host0
     in if h0 = '''' then ('''', None)
        else
          let h1 = (case SplitHostPort h0 of Inr (h, p) \<Rightarrow> h | Inl e \<Rightarrow> h0);
              host = ToLower (TrimSuffix (TrimSuffix (TrimPrefix h1 ''['') '']'') ''.'')
          in (host, ParseIP host))"

text \<open>The loop of \<open>normalizeIPs\<close> with the texts it has seen.\<close>

fun uniqueIPs :: "string list \<Rightarrow> bytes list \<Rightarrow> bytes list" where
  "uniqueIPs seen [] = []"
| "uniqueIPs seen (ip # rest) =
    (case (case To4 ip of Some ip4 \<Rightarrow> Some ip4 | None \<Rightarrow> To16 ip) of
       None \<Rightarrow> uniqueIPs seen rest
     | Some x \<Rightarrow> if IP_String x \<in> set seen then uniqueIPs seen rest else x # uniqueIPs (IP_String x # seen) rest)"

definition normalizeIPs :: "bytes list \<Rightarrow> bytes list" where
  "normalizeIPs xs = uniqueIPs [] xs"

definition pickPreferredIP :: "bytes list \<Rightarrow> bytes option" where
  "pickPreferredIP xs = (case normalizeIPs xs of [] \<Rightarrow> None | ip # _ \<Rightarrow> Some ip)"

definition copyIPs :: "bytes list \<Rightarrow> bytes list" where
  "copyIPs xs = filter (\<lambda>ip. ip \<noteq> []) xs"

text \<open>\<open>IPNet.Contains\<close> of package net: the network and its mask in four bytes where they fit.\<close>

definition networkNumberAndMask :: "bytes \<times> bytes \<Rightarrow> (bytes \<times> bytes) option" where
  "networkNumberAndMask n =
    (case n of (nip, m) \<Rightarrow>
      let ip = (case To4 nip of Some ip4 \<Rightarrow> ip4 | None \<Rightarrow> nip)
      in if length ip \<noteq> 4 \<and> length ip \<noteq> 16 then None
         else if length m = 4 then (if length ip = 4 then Some (ip, m) else None)
         else if length m = 16 then Some (ip, if length ip = 4 then drop 12 m else m)
         else None)"

definition net_contains :: "bytes \<times> bytes \<Rightarrow> bytes \<Rightarrow> bool" where
  "net_contains n ip0 =
    (case networkNumberAndMask n of
       None \<Rightarrow> ip0 = []
     | Some (nn, m) \<Rightarrow>
       let ip = (case To4 ip0 of Some ip4 \<Rightarrow> ip4 | None \<Rightarrow> ip0)
       in length ip = length nn \<and> map2 (AND) nn m = map2 (AND) ip m)"

definition isBogusIP :: "bytes \<Rightarrow> (bytes \<times> bytes) list \<Rightarrow> bool" where
  "isBogusIP ip nets = (ip \<noteq> [] \<and> list_ex (\<lambda>n. net_contains n ip) nets)"

definition filterIPs :: "Resolver \<Rightarrow> bytes list \<Rightarrow> bytes list" where
  "filterIPs r xs =
    (if disableBogusFilter r \<or> bogusNets r = [] then xs
     else filter (\<lambda>ip. ip \<noteq> [] \<and> \<not> isBogusIP ip (bogusNets r)) xs)"

definition lookup :: "Resolver \<Rightarrow> string \<Rightarrow> int \<Rightarrow> bytes list \<times> bool" where
  "lookup r hostKey now =
    (if disableCache r then ([], False)
     else case cache r hostKey of None \<Rightarrow> ([], False) | Some entry \<Rightarrow> (ips entry, expiresAt entry < now))"

definition store :: "string \<Rightarrow> bytes list \<Rightarrow> int \<Rightarrow> Resolver \<Rightarrow> Resolver" where
  "store hostKey xs0 now r =
    (let xs = normalizeIPs xs0
     in if disableCache r \<or> xs = [] then r
        else r\<lparr>cache := (cache r)(hostKey \<mapsto> \<lparr>ips = copyIPs xs, expiresAt = now + ttl r\<rparr>)\<rparr>)"

text \<open>The answers of a server are collected over the networks asked, which is IPv4 only.\<close>

definition lookupOnServer :: "(nameServer \<Rightarrow> string \<Rightarrow> string \<Rightarrow> bytes list result option) \<Rightarrow> Resolver \<Rightarrow> nameServer \<Rightarrow> string \<Rightarrow> bytes list result" where
  "lookupOnServer ask r srv host =
    (let results = List.map_filter (\<lambda>network. ask srv network host) [''ip4''];
         allIPs = concat (List.map_filter (\<lambda>res. case res of Inr xs \<Rightarrow> Some xs | Inl e \<Rightarrow> None) results);
         errs = List.map_filter (\<lambda>res. case res of Inl e \<Rightarrow> Some e | Inr xs \<Rightarrow> None) results
     in if allIPs = [] then Inl (case errs of [] \<Rightarrow> ErrMsg ''no ip records found'' | e # _ \<Rightarrow> e)
        else Inr (filterIPs r (normalizeIPs allIPs)))"

fun freshLoop :: "(nameServer \<Rightarrow> bytes list result) \<Rightarrow> go_error option \<Rightarrow> nameServer list \<Rightarrow> bytes list result" where
  "freshLoop look firstErr [] = Inl (case firstErr of None \<Rightarrow> ErrMsg ''no ip records found'' | Some e \<Rightarrow> e)"
| "freshLoop look firstErr (srv # srvs) =
    (case look srv of
       Inr xs \<Rightarrow> if xs \<noteq> [] then Inr xs else freshLoop look firstErr srvs
     | Inl e \<Rightarrow> freshLoop look (if firstErr = None then Some e else firstErr) srvs)"

definition lookupFresh :: "(nameServer \<Rightarrow> string \<Rightarrow> string \<Rightarrow> bytes list result option) \<Rightarrow> Resolver \<Rightarrow> string \<Rightarrow> bytes list result" where
  "lookupFresh ask r host =
    freshLoop (\<lambda>srv. lookupOnServer ask r srv host) None (if servers r = [] then [LocalServer] else servers r)"

definition LookupIPs :: "(nameServer \<Rightarrow> string \<Rightarrow> string \<Rightarrow> bytes list result option) \<Rightarrow> int \<Rightarrow> string \<Rightarrow> Resolver \<Rightarrow> bytes list result \<times> Resolver" where
  "LookupIPs ask now host r =
    (case normalizeHost host of
       (hostKey, Some ip) \<Rightarrow> (Inr [ip], r)
     | (hostKey, None) \<Rightarrow>
       if hostKey = '''' then (Inl (ErrMsg ''empty host''), r)
       else
         let (cachedIPs, expired) = lookup r hostKey now
         in if cachedIPs \<noteq> [] \<and> \<not> expired then (Inr (copyIPs cachedIPs), r)
            else case lookupFresh ask r hostKey of
              Inl e \<Rightarrow>
                if cachedIPs \<noteq> [] \<and> \<not> disableExpire r then (Inr (copyIPs cachedIPs), r)
                else (Inl (ErrMsg ''dns lookup failed''), r)
            | Inr xs \<Rightarrow>
                let found = filterIPs r (normalizeIPs xs)
                in if found = [] then
                     (if cachedIPs \<noteq> [] \<and> \<not> disableExpire r then (Inr (copyIPs cachedIPs), r)
                      else (Inl (ErrMsg ''no usable ip found for host''), r))
                   else (Inr (copyIPs found), store hostKey found now r))"

definition Resolve :: "(nameServer \<Rightarrow> string \<Rightarrow> string \<Rightarrow> bytes list result option) \<Rightarrow> int \<Rightarrow> string \<Rightarrow> Resolver \<Rightarrow> string result \<times> Resolver" where
  "Resolve ask now addr r =
    (if addr = '''' then (Inl (ErrMsg ''empty address''), r)
     else case SplitHostPort addr of
       Inl e \<Rightarrow> (Inl (ErrMsg ''invalid address''), r)
     | Inr (host, port) \<Rightarrow>
       if ParseIP host \<noteq> None then (Inr addr, r)
       else case LookupIPs ask now host r of
         (Inl e, r1) \<Rightarrow> (Inl e, r1)
       | (Inr xs, r1) \<Rightarrow>
         (case pickPreferredIP xs of
            None \<Rightarrow> (Inl (ErrMsg ''no usable ip found for host''), r1)
          | Some ip \<Rightarrow> (Inr (JoinHostPort (IP_String ip) port), r1)))"

section \<open>Normal lists of addresses\<close>

definition canonIP :: "bytes \<Rightarrow> bytes option" where
  "canonIP ip = (case To4 ip of Some ip4 \<Rightarrow> Some ip4 | None \<Rightarrow> To16 ip)"

definition normalIPs :: "bytes list \<Rightarrow> bool" where
  "normalIPs xs \<longleftrightarrow> (\<forall>x \<in> set xs. canonIP x = Some x) \<and> distinct (map IP_String xs)"

lemma uniqueIPs_canon: "uniqueIPs seen (ip # rest) = (case canonIP ip of None \<Rightarrow> uniqueIPs seen rest
     | Some x \<Rightarrow> if IP_String x \<in> set seen then uniqueIPs seen rest else x # uniqueIPs (IP_String x # seen) rest)"
  by (simp add: canonIP_def)

lemma canonIP_idem: "canonIP ip = Some x \<Longrightarrow> canonIP x = Some x \<and> x \<noteq> []"
  by (auto simp: canonIP_def To4_def To16_def split: if_splits option.splits)

lemma uniqueIPs_normal: "normalIPs (uniqueIPs seen xs) \<and> (\<forall>x \<in> set (uniqueIPs seen xs). IP_String x \<notin> set seen)"
proof (induction xs arbitrary: seen)
  case (Cons ip rest)
  show ?case
  proof (cases "canonIP ip")
    case None
    show ?thesis using Cons [of seen] unfolding uniqueIPs_canon None option.case .
  next
    case (Some x)
    then show ?thesis using Cons [of seen] Cons [of "IP_String x # seen"] canonIP_idem [OF Some]
      by (simp only: uniqueIPs_canon option.case) (auto simp: normalIPs_def)
  qed
qed (simp add: normalIPs_def)

lemma uniqueIPs_id: "normalIPs xs \<Longrightarrow> \<forall>x \<in> set xs. IP_String x \<notin> set seen \<Longrightarrow> uniqueIPs seen xs = xs"
proof (induction xs arbitrary: seen)
  case (Cons x xs)
  have "canonIP x = Some x" using Cons.prems(1) by (simp add: normalIPs_def)
  moreover have "uniqueIPs (IP_String x # seen) xs = xs" using Cons.prems by (intro Cons.IH) (auto simp: normalIPs_def image_iff)
  ultimately show ?case using Cons.prems(2) by (simp only: uniqueIPs_canon option.case) simp
qed simp

lemma normalizeIPs_normal [simp]: "normalIPs (normalizeIPs xs)"
  using uniqueIPs_normal by (simp add: normalizeIPs_def)

lemma normalizeIPs_id [simp]: "normalIPs xs \<Longrightarrow> normalizeIPs xs = xs"
  by (simp add: normalizeIPs_def uniqueIPs_id)

lemma normalIPs_filter: "normalIPs xs \<Longrightarrow> normalIPs (filter P xs)"
  by (auto simp: normalIPs_def distinct_map_filter)

lemma normalIPs_nonempty: "normalIPs xs \<Longrightarrow> ip \<in> set xs \<Longrightarrow> ip \<noteq> []"
  using canonIP_idem by (auto simp: normalIPs_def)

lemma copyIPs_normal [simp]: "normalIPs xs \<Longrightarrow> copyIPs xs = xs"
  using normalIPs_nonempty unfolding copyIPs_def by (metis (mono_tags, lifting) filter_True)

lemma filterIPs_normal: "normalIPs xs \<Longrightarrow> normalIPs (filterIPs r xs)" "filterIPs r (filterIPs r xs) = filterIPs r xs"
  by (auto simp: filterIPs_def normalIPs_filter)

text \<open>The answers a resolver may give: distinct canonical addresses outside of its bogus networks, at least one.\<close>

definition usableIPs :: "Resolver \<Rightarrow> bytes list \<Rightarrow> bool" where
  "usableIPs r xs \<longleftrightarrow> xs \<noteq> [] \<and> normalIPs xs \<and> filterIPs r xs = xs"

definition resolver_ok :: "Resolver \<Rightarrow> bool" where
  "resolver_ok r \<longleftrightarrow> (\<forall>k e. cache r k = Some e \<longrightarrow> usableIPs r (ips e))"

lemma usable_found: "filterIPs r (normalizeIPs xs) \<noteq> [] \<Longrightarrow> usableIPs r (filterIPs r (normalizeIPs xs))"
  by (simp add: usableIPs_def filterIPs_normal)

lemma filterIPs_cache [simp]: "filterIPs (r\<lparr>cache := c\<rparr>) = filterIPs r"
  by (rule ext) (simp add: filterIPs_def)

lemma store_ok: "resolver_ok r \<Longrightarrow> usableIPs r xs \<Longrightarrow> resolver_ok (store k xs now r) \<and> cache (store k xs now r) = (if disableCache r then cache r else (cache r)(k \<mapsto> \<lparr>ips = xs, expiresAt = now + ttl r\<rparr>))"
  by (auto simp: store_def Let_def resolver_ok_def usableIPs_def)

section \<open>Lookups\<close>

lemma lookup_cached:
  "resolver_ok r \<Longrightarrow> lookup r k now = (xs, e) \<Longrightarrow> xs \<noteq> [] \<Longrightarrow> usableIPs r xs \<and> \<not> disableCache r \<and> (\<exists>entry. cache r k = Some entry \<and> ips entry = xs)"
  by (auto simp: lookup_def resolver_ok_def split: if_splits option.splits)


text \<open>A looked-up name is answered from the cache until its entry expires, for every spelling of the name with the same key and whatever the servers
  say, and after that still whenever the servers fail, unless stale answers are disabled.\<close>

theorem dns_cache_serves:
  assumes "resolver_ok r" "\<not> disableCache r" "normalizeHost host = (k, None)" "cache r k = None"
    "LookupIPs ask now host r = (Inr xs, r')" "normalizeHost host' = (k, None)"
    "now' \<le> now + ttl r \<or> (\<not> disableExpire r \<and> isl (lookupFresh ask' r' k))"
  shows "LookupIPs ask' now' host' r' = (Inr xs, r')"
proof -
  have k: "k \<noteq> []" and l: "lookup r k now = ([], False)" using assms(3-5) by (auto simp: LookupIPs_def lookup_def split: if_splits)
  obtain ys where y: "lookupFresh ask r k = Inr ys" "filterIPs r (normalizeIPs ys) \<noteq> []"
    "xs = filterIPs r (normalizeIPs ys)" "r' = store k xs now r"
    using assms(5) k filterIPs_normal(1) by (auto simp: LookupIPs_def assms(3) l Let_def split: sum.splits if_splits)
  have u: "usableIPs r xs" using usable_found y by simp
  then have n: "xs \<noteq> []" "copyIPs xs = xs" by (simp_all add: usableIPs_def)
  have r': "cache r' k = Some \<lparr>ips = xs, expiresAt = now + ttl r\<rparr>" "disableCache r' = disableCache r" "disableExpire r' = disableExpire r"
    using store_ok [OF assms(1) u, of k now] assms(2) y(4) by (auto simp: store_def Let_def)
  show ?thesis using assms(2,7) n r' k by (auto simp: LookupIPs_def assms(6) lookup_def Let_def isl_def split: sum.splits)
qed

text \<open>The servers are asked in order; the first that knows usable addresses answers, and a lookup fails only when none does.\<close>

lemma freshLoop_first: "find (\<lambda>s. \<exists>xs. look s = Inr xs \<and> xs \<noteq> []) srvs = Some s \<Longrightarrow> freshLoop look e srvs = look s"
  by (induction srvs arbitrary: e) (auto split: sum.splits if_splits)

lemma freshLoop_fails: "isl (freshLoop look e srvs) \<longleftrightarrow> (\<forall>s \<in> set srvs. \<forall>xs. look s = Inr xs \<longrightarrow> xs = [])"
  by (induction srvs arbitrary: e) (auto split: sum.splits)

lemma lookupFresh_fails_iff:
  "isl (lookupFresh ask r host) \<longleftrightarrow> (\<forall>s \<in> set (if servers r = [] then [LocalServer] else servers r). \<forall>xs. lookupOnServer ask r s host = Inr xs \<longrightarrow> xs = [])"
  unfolding lookupFresh_def by (rule freshLoop_fails)

text \<open>A resolved address keeps its port, and its host is the text of the first address found.\<close>

lemma Resolve_port:
  assumes "Resolve ask now addr r = (Inr a, r')" "SplitHostPort addr = Inr (host, port)" "ParseIP host = None"
  shows "\<exists>xs ip. LookupIPs ask now host r = (Inr xs, r') \<and> pickPreferredIP xs = Some ip \<and> a = JoinHostPort (IP_String ip) port"
  using assms by (auto simp: Resolve_def split: if_splits prod.splits sum.splits option.splits)

lemma new_resolver_ok: "resolver_ok (newResolver t)" "NewResolver urlParse opts = Inr r \<Longrightarrow> resolver_ok r"
  by (auto simp: resolver_ok_def newResolver_def NewResolver_def Let_def split: option.splits sum.splits)

definition demo_ask :: "nameServer \<Rightarrow> string \<Rightarrow> string \<Rightarrow> bytes list result option" where
  "demo_ask s network host = Some (Inr [[1, 2, 3, 4], [1, 2, 3, 4], []])"


theorem dns_cache_serves_witness:
  "let r' = snd (LookupIPs demo_ask 5 ''A.io'' (newResolver 60))
   in LookupIPs (\<lambda>s n h. None) 65 ''a.IO.'' r' = (Inr [[1, 2, 3, 4]], r') \<and> LookupIPs (\<lambda>s n h. None) 1000 ''a.io'' r' = (Inr [[1, 2, 3, 4]], r')"
proof -
  let ?r' = "snd (LookupIPs demo_ask 5 ''A.io'' (newResolver 60))"
  have h: "normalizeHost ''A.io'' = (''a.io'', None)" "normalizeHost ''a.IO.'' = (''a.io'', None)" "normalizeHost ''a.io'' = (''a.io'', None)" by code_simp+
  have l: "LookupIPs demo_ask 5 ''A.io'' (newResolver 60) = (Inr [[1, 2, 3, 4]], ?r')"
  proof -
    have "fst (LookupIPs demo_ask 5 ''A.io'' (newResolver 60)) = Inr [[1, 2, 3, 4]]" by code_simp
    then show ?thesis by (metis prod.collapse)
  qed
  have e: "\<not> disableExpire (newResolver 60)" "\<not> disableCache (newResolver 60)" "cache (newResolver 60) ''a.io'' = None" "ttl (newResolver 60) = 60"
    by (simp_all add: newResolver_def)
  have f: "isl (lookupFresh (\<lambda>s n h. None) ?r' ''a.io'')" by (simp add: lookupFresh_fails_iff lookupOnServer_def map_filter_def)
  show ?thesis
    using dns_cache_serves [OF new_resolver_ok(1) e(2) h(1) e(3) l h(2), of 65 "\<lambda>s n h. None"]
      dns_cache_serves [OF new_resolver_ok(1) e(2) h(1) e(3) l h(3), of 1000 "\<lambda>s n h. None"] e f by (simp add: Let_def)
qed

section \<open>Outbound connections\<close>

definition IsPrivate :: "bytes \<Rightarrow> bool" where
  "IsPrivate ip =
    (case To4 ip of
       Some ip4 \<Rightarrow> ip4 ! 0 = 10 \<or> (ip4 ! 0 = 172 \<and> (ip4 ! 1) AND 0xF0 = 16) \<or> (ip4 ! 0 = 192 \<and> ip4 ! 1 = 168)
     | None \<Rightarrow> length ip = 16 \<and> (ip ! 0) AND 0xFE = 0xFC)"

definition IsMulticast :: "bytes \<Rightarrow> bool" where
  "IsMulticast ip = (case To4 ip of Some ip4 \<Rightarrow> (ip4 ! 0) AND 0xF0 = 0xE0 | None \<Rightarrow> length ip = 16 \<and> ip ! 0 = 0xFF)"

definition IsLinkLocalMulticast :: "bytes \<Rightarrow> bool" where
  "IsLinkLocalMulticast ip =
    (case To4 ip of Some ip4 \<Rightarrow> ip4 ! 0 = 224 \<and> ip4 ! 1 = 0 \<and> ip4 ! 2 = 0 | None \<Rightarrow> length ip = 16 \<and> ip ! 0 = 0xFF \<and> (ip ! 1) AND 0x0F = 0x02)"

definition IsUnspecified :: "bytes \<Rightarrow> bool" where
  "IsUnspecified ip = (case To4 ip of Some ip4 \<Rightarrow> ip4 = [0, 0, 0, 0] | None \<Rightarrow> ip = replicate 16 0)"

definition shouldApplyOutboundControl :: "string \<Rightarrow> string \<Rightarrow> bool" where
  "shouldApplyOutboundControl network address =
    (if HasPrefix network ''unix'' then False
     else
       let h0 = (case SplitHostPort address of Inr (h, p) \<Rightarrow> if TrimSpace h \<noteq> '''' then h else address | Inl e \<Rightarrow> address);
           host = TrimSuffix (TrimPrefix h0 ''['') '']''
       in if host = '''' then True
          else if EqualFold host ''localhost'' then False
          else case ParseIP host of
            None \<Rightarrow> \<not> isLikelyLocalHostname host
          | Some ip \<Rightarrow> \<not> (IsLoopback ip \<or> IsPrivate ip \<or> IsLinkLocalUnicast ip \<or> IsLinkLocalMulticast ip \<or> IsMulticast ip \<or> IsUnspecified ip))"

definition RecommendedClientResolver :: "(string \<Rightarrow> (string \<times> string \<times> string) result) \<Rightarrow> Resolver" where
  "RecommendedClientResolver urlParse =
    (case NewResolver urlParse RecommendedClientOptions of Inl e \<Rightarrow> newResolver defaultCacheTTL | Inr r \<Rightarrow> r)"

text \<open>The address an HTTP client dials: the resolved one, or the name itself when it cannot be resolved.\<close>

definition outboundTarget :: "(nameServer \<Rightarrow> string \<Rightarrow> string \<Rightarrow> bytes list result option) \<Rightarrow> int \<Rightarrow> Resolver option \<Rightarrow> string \<Rightarrow> string \<times> Resolver option" where
  "outboundTarget ask now resolver addr =
    (case resolver of None \<Rightarrow> (addr, None)
     | Some r \<Rightarrow> (case Resolve ask now addr r of
         (Inr a, r1) \<Rightarrow> (if a \<noteq> '''' then a else addr, Some r1)
       | (Inl e, r1) \<Rightarrow> (addr, Some r1)))"

text \<open>The recommended options are valid, whatever the parser of URLs, and the resolver has the two HTTPS servers only.\<close>

lemma recommended_resolver:
  "map (\<lambda>s. case s of HTTPSServer h \<Rightarrow> serverURL h | _ \<Rightarrow> '''') (servers (RecommendedClientResolver urlParse)) =
    [''https://dns.alidns.com:443/dns-query'', ''https://doh.pub:443/dns-query'']"
proof -
  let ?sv = "map_sum id (\<lambda>r. map (\<lambda>s. case s of HTTPSServer h \<Rightarrow> serverURL h | _ \<Rightarrow> '''') (servers r)) (NewResolver urlParse RecommendedClientOptions)"
  have "?sv = Inr [''https://dns.alidns.com:443/dns-query'', ''https://doh.pub:443/dns-query'']" by code_simp
  then show ?thesis by (auto simp: RecommendedClientResolver_def split: sum.splits)
qed

end
