(* ===== verification/Route.thy ===== *)
theory Route
  imports Dns Address Table
begin

text \<open>
  The client: routing by rules and mode (\<open>internal/app/client_route.go\<close>), dialling a target (\<open>client_target.go\<close>), and the handlers of the
  SOCKS4, SOCKS5 and HTTP proxies (\<open>client_socks4.go\<close>, \<open>client_socks5.go\<close>, \<open>client_http.go\<close>). A handler returns the bytes it writes to its
  client and the connection it pipes; the dialers, the answers of DNS servers and the parser of HTTP requests are
  parameters, connections to targets are abstract.
\<close>

section \<open>Routing\<close>

definition routeActionProxy :: string where "routeActionProxy = ''PROXY''"
definition routeActionDirect :: string where "routeActionDirect = ''DIRECT''"
definition routeActionReject :: string where "routeActionReject = ''REJECT''"

lemmas route_actions = routeActionProxy_def routeActionDirect_def routeActionReject_def

record routeDecision =
  action :: string
  routeMatch :: string
  directAddr :: string

record routeManagers =
  direct_mgr :: "Manager option"
  proxy_mgr :: "Manager option"
  reject_mgr :: "Manager option"

type_synonym instances = "string \<rightharpoonup> Manager"

definition instanceFor :: "string result \<Rightarrow> string list \<Rightarrow> instances \<Rightarrow> Manager option \<times> instances" where
  "instanceFor dir us inst = (if us \<noteq> [] then (case GetInstance dir us inst of (m, inst1, fresh) \<Rightarrow> (Some m, inst1)) else (None, inst))"

definition buildRouteManagers :: "string result \<Rightarrow> Config option \<Rightarrow> instances \<Rightarrow> routeManagers option \<times> instances" where
  "buildRouteManagers dir cfg inst =
    (case cfg of None \<Rightarrow> (None, inst)
     | Some c \<Rightarrow>
       (case RuntimeRuleURLs (ProxyMode c) (RuleURLs c) of (directURLs, proxyURLs, rejectURLs) \<Rightarrow>
         let (d, i1) = instanceFor dir directURLs inst; (p, i2) = instanceFor dir proxyURLs i1; (r, i3) = instanceFor dir rejectURLs i2
         in (if d = None \<and> p = None \<and> r = None then None else Some \<lparr>direct_mgr = d, proxy_mgr = p, reject_mgr = r\<rparr>, i3)))"

definition shouldProxy :: "routeDecision \<Rightarrow> bool" where
  "shouldProxy d \<longleftrightarrow> action d = routeActionProxy"

definition managerForAction :: "routeManagers option \<Rightarrow> string \<Rightarrow> Manager option" where
  "managerForAction mgrs act =
    (case mgrs of None \<Rightarrow> None
     | Some m \<Rightarrow> if act = routeActionDirect then direct_mgr m else if act = routeActionProxy then proxy_mgr m
        else if act = routeActionReject then reject_mgr m else None)"

definition matchRuleManager :: "(string list \<Rightarrow> string list) \<Rightarrow> routeManagers option \<Rightarrow> string \<Rightarrow> string \<Rightarrow> bytes option \<Rightarrow> (string \<times> string) option" where
  "matchRuleManager iter mgrs act destAddr destIP =
    (case managerForAction mgrs act of None \<Rightarrow> None
     | Some mgr \<Rightarrow>
       (case (if act \<noteq> routeActionDirect then MatchRule iter mgr destAddr destIP else MatchCN iter mgr destAddr destIP) of
          (True, mt) \<Rightarrow> Some (act @ ''/'' @ Match_String mt, destAddr)
        | (False, mt) \<Rightarrow> None))"

definition decideRoute :: "(string list \<Rightarrow> string list) \<Rightarrow> Config option \<Rightarrow> routeManagers option \<Rightarrow> string \<Rightarrow> bytes option \<Rightarrow> routeDecision" where
  "decideRoute iter cfg mgrs destAddr destIP =
    (let decision = \<lparr>action = routeActionProxy, routeMatch = ''MODE(global)'', directAddr = destAddr\<rparr>
     in case cfg of None \<Rightarrow> decision\<lparr>routeMatch := ''CFG(nil)''\<rparr>
     | Some c \<Rightarrow>
       (case matchRuleManager iter mgrs routeActionReject destAddr destIP of
          Some (mt, _) \<Rightarrow> \<lparr>action = routeActionReject, routeMatch = mt, directAddr = destAddr\<rparr>
        | None \<Rightarrow>
          (case matchRuleManager iter mgrs routeActionProxy destAddr destIP of
             Some (mt, _) \<Rightarrow> \<lparr>action = routeActionProxy, routeMatch = mt, directAddr = destAddr\<rparr>
           | None \<Rightarrow>
             if ProxyMode c = ''direct'' then \<lparr>action = routeActionDirect, routeMatch = ''MODE(direct)'', directAddr = destAddr\<rparr>
             else if ProxyMode c = ''global'' then \<lparr>action = routeActionProxy, routeMatch = ''MODE(global)'', directAddr = destAddr\<rparr>
             else if ProxyMode c = ''pac'' then
               (if managerForAction mgrs routeActionDirect = None then decision\<lparr>routeMatch := ''PAC(no-rules)''\<rparr>
                else case matchRuleManager iter mgrs routeActionDirect destAddr destIP of
                  Some (mt, da) \<Rightarrow> \<lparr>action = routeActionDirect, routeMatch = mt, directAddr = da\<rparr>
                | None \<Rightarrow> decision\<lparr>routeMatch := ''PAC/NONE''\<rparr>)
             else decision\<lparr>routeMatch := ''MODE(unknown)''\<rparr>)))"

section \<open>Dialling\<close>

text \<open>What a handler calls: the proxy dialer with a sticky key, the direct dialer, the DNS servers, the time, and the order of the keywords.\<close>

record 'c dial_env =
  dialProxyTarget :: "string \<Rightarrow> string \<Rightarrow> 'c result"
  directDial :: "string \<Rightarrow> 'c result"
  dnsAsk :: "nameServer \<Rightarrow> string \<Rightarrow> string \<Rightarrow> bytes list result option"
  time_now :: int
  keywordOrder :: "string list \<Rightarrow> string list"

definition resolveDirectAddr :: "'c dial_env \<Rightarrow> Resolver \<Rightarrow> string \<Rightarrow> string result \<times> Resolver" where
  "resolveDirectAddr env r addr0 =
    (let addr = TrimSpace addr0
     in if addr = '''' then (Inr '''', r)
        else case SplitHostPort addr of
          Inl e \<Rightarrow> (Inl e, r)
        | Inr (host, port) \<Rightarrow>
          if ParseIP (TrimBrackets host) \<noteq> None then (Inr addr, r) else Resolve (dnsAsk env) (time_now env) addr r)"

definition resolvedOr :: "string result \<Rightarrow> string \<Rightarrow> string" where
  "resolvedOr res addr = (case res of Inr a \<Rightarrow> if TrimSpace a \<noteq> '''' then a else addr | Inl e \<Rightarrow> addr)"

definition dialTargetRoute :: "'c dial_env \<Rightarrow> Config option \<Rightarrow> routeManagers option \<Rightarrow> string \<Rightarrow> bytes option \<Rightarrow> Resolver
    \<Rightarrow> 'c option \<times> routeDecision \<times> Resolver" where
  "dialTargetRoute env cfg mgrs dest destIP r =
    (let decision = decideRoute (keywordOrder env) cfg mgrs dest destIP
     in if action decision = routeActionReject then (None, decision, r)
        else if shouldProxy decision then
          (case dialProxyTarget env dest (StickyKeyForAddress dest destIP) of
             Inl e \<Rightarrow> (None, decision, r) | Inr conn \<Rightarrow> (Some conn, decision, r))
        else
          let d0 = TrimSpace (directAddr decision);
              d1 = (if d0 = '''' then dest else d0);
              (res, r1) = resolveDirectAddr env r d1;
              d2 = resolvedOr res d1
          in case directDial env d2 of
               Inr conn \<Rightarrow> (Some conn, decision, r1)
             | Inl e \<Rightarrow>
               if TrimSpace dest \<noteq> '''' \<and> d2 \<noteq> dest then
                 (let (res2, r2) = resolveDirectAddr env r1 dest
                  in case directDial env (resolvedOr res2 dest) of
                       Inr conn \<Rightarrow> (Some conn, decision, r2)
                     | Inl e2 \<Rightarrow> (None, decision, r2))
               else (None, decision, r1))"

definition BuildTables :: "(bytes \<Rightarrow> bytes) \<Rightarrow> (u64 \<Rightarrow> nat \<Rightarrow> u32) \<Rightarrow> Config \<Rightarrow> Table list list result" where
  "BuildTables sha256 shuffleU cfg =
    (let p0 = CustomTables cfg;
         p1 = (if p0 = [] \<and> TrimSpace (CustomTable cfg) \<noteq> '''' then [CustomTable cfg] else p0);
         p2 = (if p1 = [] then [''''] else p1);
         patterns = (if Mode cfg = ''server'' \<and> p2 \<noteq> [] \<and> TrimSpace (p2 ! 0) \<noteq> '''' then
                       (case ParseASCIIMode (ASCII cfg) of
                          Inl e \<Rightarrow> Inl e
                        | Inr m \<Rightarrow> Inr (if Uplink m = ''entropy'' then '''' # p2 else p2))
                     else Inr p2)
     in case patterns of
          Inl e \<Rightarrow> Inl e
        | Inr ps \<Rightarrow> map_sum id (\<lambda>ts. Candidates (Some ts)) (NewTableSet sha256 shuffleU (Key cfg) (ASCII cfg) ps))"

section \<open>Proxy handlers\<close>

datatype 'c handled = Closed | Piped 'c reader | Associate reader

definition writeSocks5Reply :: "byte \<Rightarrow> bytes" where
  "writeSocks5Reply rep = [0x05, rep, 0x00, 0x01, 0, 0, 0, 0, 0, 0]"

definition handleClientSocks5 :: "'c dial_env \<Rightarrow> Config option \<Rightarrow> routeManagers option \<Rightarrow> reader \<Rightarrow> Resolver \<Rightarrow> bytes \<times> 'c handled \<times> Resolver" where
  "handleClientSocks5 env cfg mgrs conn rs =
    (case ReadFull 2 conn of
       (Inl e, c1) \<Rightarrow> ([], Closed, rs)
     | (Inr buf, c1) \<Rightarrow>
       (case ReadFull (unat (buf ! 1)) c1 of
          (Inl e, c2) \<Rightarrow> ([], Closed, rs)
        | (Inr methods, c2) \<Rightarrow>
          (case ReadFull 3 c2 of
             (Inl e, c3) \<Rightarrow> ([0x05, 0x00], Closed, rs)
           | (Inr header, c3) \<Rightarrow>
             if header ! 1 = 0x03 then ([0x05, 0x00], Associate c3, rs)
             else if header ! 1 \<noteq> 0x01 then ([0x05, 0x00] @ writeSocks5Reply 0x07, Closed, rs)
             else
               (case ReadAddress c3 of
                  (Inl e, c4) \<Rightarrow> ([0x05, 0x00], Closed, rs)
                | (Inr (destAddrStr, _, destIP), c4) \<Rightarrow>
                  (case dialTargetRoute env cfg mgrs destAddrStr destIP rs of
                     (None, decision, rs1) \<Rightarrow>
                       ([0x05, 0x00] @ writeSocks5Reply (if action decision = routeActionReject then 0x02 else 0x04), Closed, rs1)
                   | (Some target, decision, rs1) \<Rightarrow> ([0x05, 0x00] @ writeSocks5Reply 0x00, Piped target c4, rs1))))))"

fun readStringLoop :: "bytes \<Rightarrow> bytes \<Rightarrow> (bytes \<times> bytes) option" where
  "readStringLoop buf [] = None"
| "readStringLoop buf (b # bs) = (if b = 0 then Some (buf, bs) else readStringLoop (buf @ [b]) bs)"

definition readString :: "reader \<Rightarrow> string result \<times> reader" where
  "readString r =
    (case readStringLoop [] (rdata r) of
       None \<Rightarrow> (Inl (rterm r), r\<lparr>rdata := []\<rparr>) | Some (s, rest) \<Rightarrow> (Inr (string_of s), r\<lparr>rdata := rest\<rparr>))"

definition handleClientSocks4 :: "'c dial_env \<Rightarrow> Config option \<Rightarrow> routeManagers option \<Rightarrow> reader \<Rightarrow> Resolver \<Rightarrow> bytes \<times> 'c handled \<times> Resolver" where
  "handleClientSocks4 env cfg mgrs conn rs =
    (case ReadFull 8 conn of
       (Inl e, c1) \<Rightarrow> ([], Closed, rs)
     | (Inr buf, c1) \<Rightarrow>
       if buf ! 0 \<noteq> 0x04 \<or> buf ! 1 \<noteq> 0x01 then ([], Closed, rs)
       else
         let port = Uint16 (take 2 (drop 2 buf)); ipBytes = drop 4 buf
         in case readString c1 of
              (Inl e, c2) \<Rightarrow> ([], Closed, rs)
            | (Inr user, c2) \<Rightarrow>
              let dest = (if ipBytes ! 0 = 0 \<and> ipBytes ! 1 = 0 \<and> ipBytes ! 2 = 0 \<and> ipBytes ! 3 \<noteq> 0 then
                            (case readString c2 of
                               (Inl e, c3) \<Rightarrow> None
                             | (Inr domain, c3) \<Rightarrow> Some (domain @ '':'' @ Itoa (unat port), None, c3))
                          else Some (IP_String ipBytes @ '':'' @ Itoa (unat port), Some ipBytes, c2))
              in case dest of
                   None \<Rightarrow> ([], Closed, rs)
                 | Some (destAddrStr, destIP, c3) \<Rightarrow>
                   (case dialTargetRoute env cfg mgrs destAddrStr destIP rs of
                      (None, decision, rs1) \<Rightarrow> ([0x00, 0x5B, 0, 0, 0, 0, 0, 0], Closed, rs1)
                    | (Some target, decision, rs1) \<Rightarrow> ([0x00, 0x5A, 0, 0, 0, 0, 0, 0], Piped target c3, rs1)))"

definition defaultPortForMethod :: "string \<Rightarrow> string" where
  "defaultPortForMethod method = (if method = ''CONNECT'' then ''443'' else ''80'')"

definition ensureHostPort :: "string \<Rightarrow> string \<Rightarrow> string" where
  "ensureHostPort host0 method =
    (let host = TrimSpace host0
     in if host = '''' then host
        else case SplitHostPort host of
          Inr hp \<Rightarrow> host
        | Inl e \<Rightarrow>
          let port = defaultPortForMethod method; trimmed = TrimSuffix (TrimPrefix host ''['') '']''
          in case ParseIP trimmed of
               Some ip \<Rightarrow> JoinHostPort (IP_String ip) port
             | None \<Rightarrow> (case ParseIP host of Some ip \<Rightarrow> JoinHostPort (IP_String ip) port | None \<Rightarrow> JoinHostPort host port))"

definition hostOnly :: "string \<Rightarrow> string" where
  "hostOnly addr0 =
    (let addr = TrimSpace addr0
     in if addr = '''' then ''''
        else
          let a = (case SplitHostPort addr of Inr (h, p) \<Rightarrow> h | Inl e \<Rightarrow> addr)
          in TrimSuffix (TrimPrefix a ''['') '']'')"

text \<open>A parsed request: its host, its method, whether it has a body, and its content length. \<open>reqWrite\<close> says whether a connection takes the request; the second
  environment is the one of the second dial.\<close>

record http_request =
  reqHost :: string
  reqMethod :: string
  hasBody :: bool
  ContentLength :: int

definition httpReply :: "string \<Rightarrow> bytes" where
  "httpReply s = bytes_of (''HTTP/1.1 '' @ s @ [CHR 0x0D, CHR 0x0A, CHR 0x0D, CHR 0x0A])"

definition handleHTTP :: "'c dial_env \<Rightarrow> 'c dial_env \<Rightarrow> ('c \<Rightarrow> bool) \<Rightarrow> Config option \<Rightarrow> routeManagers option \<Rightarrow> (http_request \<times> reader) option
    \<Rightarrow> Resolver \<Rightarrow> bytes \<times> 'c handled \<times> Resolver" where
  "handleHTTP env env2 reqWrite cfg mgrs parsed rs =
    (case parsed of
       None \<Rightarrow> ([], Closed, rs)
     | Some (req, conn) \<Rightarrow>
       let host = ensureHostPort (reqHost req) (reqMethod req); destIP = ParseIP (hostOnly host)
       in case dialTargetRoute env cfg mgrs host destIP rs of
            (None, decision, rs1) \<Rightarrow>
              (httpReply (if action decision = routeActionReject then ''403 Forbidden'' else ''502 Bad Gateway''), Closed, rs1)
          | (Some target, decision, rs1) \<Rightarrow>
            if reqMethod req = ''CONNECT'' then (httpReply ''200 Connection Established'', Piped target conn, rs1)
            else if reqWrite target then ([], Piped target conn, rs1)
            else if \<not> hasBody req \<and> ContentLength req \<le> 0 then
              (case dialTargetRoute env2 cfg mgrs host destIP rs1 of
                 (Some target2, decision2, rs2) \<Rightarrow>
                   if reqWrite target2 then ([], Piped target2 conn, rs2) else (httpReply ''502 Bad Gateway'', Closed, rs2)
               | (None, decision2, rs2) \<Rightarrow> (httpReply ''502 Bad Gateway'', Closed, rs2))
            else (httpReply ''502 Bad Gateway'', Closed, rs1))"

section \<open>Properties\<close>

text \<open>Whether a rule of a manager applies; direct rules also cover local networks.\<close>

definition rule_applies :: "(string list \<Rightarrow> string list) \<Rightarrow> routeManagers option \<Rightarrow> string \<Rightarrow> string \<Rightarrow> bytes option \<Rightarrow> bool" where
  "rule_applies iter mgrs act dest ip \<longleftrightarrow>
    (case managerForAction mgrs act of None \<Rightarrow> False
     | Some m \<Rightarrow> fst (if act = routeActionDirect then MatchCN iter m dest ip else MatchRule iter m dest ip))"

lemma matchRuleManager_applies: "matchRuleManager iter mgrs act dest ip \<noteq> None \<longleftrightarrow> rule_applies iter mgrs act dest ip"
  by (auto simp: matchRuleManager_def rule_applies_def split: option.splits prod.splits bool.splits)

lemma decideRoute_action:
  "action (decideRoute iter (Some c) mgrs dest ip) =
    (if rule_applies iter mgrs routeActionReject dest ip then routeActionReject
     else if rule_applies iter mgrs routeActionProxy dest ip then routeActionProxy
     else if ProxyMode c = ''direct'' \<or> (ProxyMode c = ''pac'' \<and> rule_applies iter mgrs routeActionDirect dest ip) then routeActionDirect
     else routeActionProxy)"
proof -
  have "managerForAction mgrs routeActionDirect = None \<Longrightarrow> matchRuleManager iter mgrs routeActionDirect dest ip = None"
    by (simp add: matchRuleManager_def)
  then show ?thesis unfolding matchRuleManager_applies [symmetric] decideRoute_def Let_def
    by (simp split: option.split prod.split)
qed


text \<open>A rejected target is neither dialled nor resolved: the result mentions no dialer, and the resolver is unchanged.\<close>

lemma rejected_not_dialled:
  assumes "rule_applies (keywordOrder env) mgrs routeActionReject dest ip"
  shows "\<exists>d. action d = routeActionReject \<and> dialTargetRoute env (Some c) mgrs dest ip r = (None, d, r)"
  using decideRoute_action [of "keywordOrder env" c mgrs dest ip] assms by (auto simp: dialTargetRoute_def Let_def)

text \<open>A target that goes through the tunnel is not resolved by the client.\<close>

lemma proxied_not_resolved:
  assumes "action (decideRoute (keywordOrder env) cfg mgrs dest ip) = routeActionProxy"
  shows "snd (snd (dialTargetRoute env cfg mgrs dest ip r)) = r \<and>
    fst (dialTargetRoute env cfg mgrs dest ip r) = (case dialProxyTarget env dest (StickyKeyForAddress dest ip) of Inl e \<Rightarrow> None | Inr c \<Rightarrow> Some c)"
  using assms by (auto simp: dialTargetRoute_def Let_def shouldProxy_def route_actions split: sum.splits)

lemma ReadFull_take: "length b = n \<Longrightarrow> ReadFull n \<lparr>rdata = b @ c, rterm = e\<rparr> = (Inr b, \<lparr>rdata = c, rterm = e\<rparr>)"
  by (auto simp: ReadFull_def)

text \<open>A SOCKS5 client that greets with any authentication methods and asks to connect to an address is answered without authentication, the canonical form of its address is
  dialled with its IP address, and what follows the request is piped; when the dial fails the reply says whether a rule forbids the target or it is unreachable.\<close>

theorem socks5_connect:
  assumes "SplitHostPort addr = Inr (host, port)" "encodeAddress addr = Inr buf" "stripZone host \<noteq> []" "length methods < 256"
  shows "\<exists>p. Atoi port = Some (int p) \<and>
    handleClientSocks5 env cfg mgrs \<lparr>rdata = [5, of_nat (length methods)] @ methods @ [5, 1, 0] @ buf @ rest, rterm = e\<rparr> rs =
    (case dialTargetRoute env cfg mgrs (JoinHostPort (canonicalHost (stripZone host)) (Itoa p)) (hostIP (stripZone host)) rs of
       (Some c, d, rs1) \<Rightarrow> ([5, 0] @ writeSocks5Reply 0, Piped c \<lparr>rdata = rest, rterm = e\<rparr>, rs1)
     | (None, d, rs1) \<Rightarrow> ([5, 0] @ writeSocks5Reply (if action d = routeActionReject then 2 else 4), Closed, rs1))"
proof -
  let ?r = "\<lparr>rdata = [], rterm = e\<rparr>"
  obtain p where p: "Atoi port = Some (int p)" "ReadAddress (?r\<lparr>rdata := buf @ rest\<rparr>) =
      (Inr (JoinHostPort (canonicalHost (stripZone host)) (Itoa p), hd buf, hostIP (stripZone host)), ?r\<lparr>rdata := rest\<rparr>)"
    using ReadAddress_encode [OF assms(1-3)] by blast
  have 1: "ReadFull 2 \<lparr>rdata = [5, of_nat (length methods)] @ methods @ [5, 1, 0] @ buf @ rest, rterm = e\<rparr> =
      (Inr [5, of_nat (length methods)], \<lparr>rdata = methods @ [5, 1, 0] @ buf @ rest, rterm = e\<rparr>)"
    by (rule ReadFull_take) simp
  have n: "unat ([5, of_nat (length methods)] ! 1 :: byte) = length methods" using assms(4) by (simp add: unat_of_nat)
  have 2: "ReadFull 3 \<lparr>rdata = [5, 1, 0] @ buf @ rest, rterm = e\<rparr> = (Inr [5, 1, 0], \<lparr>rdata = buf @ rest, rterm = e\<rparr>)"
    by (rule ReadFull_take) simp
  have "handleClientSocks5 env cfg mgrs \<lparr>rdata = [5, of_nat (length methods)] @ methods @ [5, 1, 0] @ buf @ rest, rterm = e\<rparr> rs =
    (case dialTargetRoute env cfg mgrs (JoinHostPort (canonicalHost (stripZone host)) (Itoa p)) (hostIP (stripZone host)) rs of
       (Some c, d, rs1) \<Rightarrow> ([5, 0] @ writeSocks5Reply 0, Piped c \<lparr>rdata = rest, rterm = e\<rparr>, rs1)
     | (None, d, rs1) \<Rightarrow> ([5, 0] @ writeSocks5Reply (if action d = routeActionReject then 2 else 4), Closed, rs1))"
    unfolding handleClientSocks5_def 1 prod.case sum.case n ReadFull_take [OF refl] 2 using p(2)
    by (simp split: prod.split option.split)
  then show ?thesis using p(1) by blast
qed

theorem socks5_connect_witness:
  "\<exists>x. handleClientSocks5 \<lparr>dialProxyTarget = (\<lambda>a k. Inr a), directDial = (\<lambda>a. Inl EOF), dnsAsk = (\<lambda>s n h. None), time_now = 0, keywordOrder = id\<rparr> None None
      \<lparr>rdata = [5, 1, 0, 5, 1, 0, 3, 4, 97, 46, 105, 111, 0, 80, 9], rterm = EOF\<rparr> (newResolver 0) =
    ([5, 0] @ writeSocks5Reply 0, Piped ''a.io:80'' \<lparr>rdata = [9], rterm = EOF\<rparr>, x)"
proof -
  let ?env = "\<lparr>dialProxyTarget = (\<lambda>a k. Inr a), directDial = (\<lambda>a. Inl EOF), dnsAsk = (\<lambda>s n h. None), time_now = 0, keywordOrder = id\<rparr>"
  have h: "SplitHostPort ''a.io:80'' = Inr (''a.io'', ''80'')" "encodeAddress ''a.io:80'' = Inr [3, 4, 97, 46, 105, 111, 0, 80]" "stripZone ''a.io'' \<noteq> []" by code_simp+
  have c: "JoinHostPort (canonicalHost (stripZone ''a.io'')) (Itoa 80) = ''a.io:80''" "Atoi ''80'' = Some 80" by code_simp+
  obtain p where p: "Atoi ''80'' = Some (int p)" "handleClientSocks5 ?env None None \<lparr>rdata = [5, of_nat (length [0])] @ [0] @ [5, 1, 0] @ [3, 4, 97, 46, 105, 111, 0, 80] @ [9], rterm = EOF\<rparr> (newResolver 0) =
    (case dialTargetRoute ?env None None (JoinHostPort (canonicalHost (stripZone ''a.io'')) (Itoa p)) (hostIP (stripZone ''a.io'')) (newResolver 0) of
       (Some c, d, rs1) \<Rightarrow> ([5, 0] @ writeSocks5Reply 0, Piped c \<lparr>rdata = [9], rterm = EOF\<rparr>, rs1)
     | (None, d, rs1) \<Rightarrow> ([5, 0] @ writeSocks5Reply (if action d = routeActionReject then 2 else 4), Closed, rs1))"
    using socks5_connect [OF h, of "[0]" ?env None None "[9]" EOF "newResolver 0"] by auto
  have "p = 80" using p(1) c(2) by simp
  then show ?thesis using p(2) c(1) by (simp add: dialTargetRoute_def decideRoute_def shouldProxy_def Let_def route_actions)
qed

text \<open>A SOCKS4 request for an address dials it in dotted form; the user name is skipped.\<close>

lemma readString_zero: "0 \<notin> set s \<Longrightarrow> readString \<lparr>rdata = s @ 0 # rest, rterm = e\<rparr> = (Inr (string_of s), \<lparr>rdata = rest, rterm = e\<rparr>)"
proof -
  assume a: "0 \<notin> set s"
  have "readStringLoop b (s @ 0 # rest) = Some (b @ s, rest)" for b using a by (induction s arbitrary: b) auto
  then show ?thesis by (simp add: readString_def)
qed

lemma socks4_connect:
  assumes "0 \<notin> set user" "ip ! 0 \<noteq> 0" "length ip = 4" "port < 65536"
  shows "handleClientSocks4 env cfg mgrs \<lparr>rdata = [4, 1] @ PutUint16 (of_nat port) @ ip @ user @ [0] @ rest, rterm = e\<rparr> rs =
    (case dialTargetRoute env cfg mgrs (IP_String ip @ '':'' @ Itoa port) (Some ip) rs of
       (Some c, d, rs1) \<Rightarrow> ([0, 0x5A, 0, 0, 0, 0, 0, 0], Piped c \<lparr>rdata = rest, rterm = e\<rparr>, rs1)
     | (None, d, rs1) \<Rightarrow> ([0, 0x5B, 0, 0, 0, 0, 0, 0], Closed, rs1))"
proof -
  let ?h = "[4, 1] @ PutUint16 (of_nat port) @ ip"
  have l: "length ?h = 8" using assms(3) by simp
  have r: "ReadFull 8 \<lparr>rdata = [4, 1] @ PutUint16 (of_nat port) @ ip @ user @ [0] @ rest, rterm = e\<rparr> =
      (Inr ?h, \<lparr>rdata = user @ 0 # rest, rterm = e\<rparr>)"
    using ReadFull_take [OF l, of "user @ [0] @ rest" e] by simp
  have d: "take 2 (drop 2 ?h) = PutUint16 (of_nat port)" "drop 4 ?h = ip" "?h ! 0 = 4" "?h ! 1 = 1" by simp_all
  have p: "unat (Uint16 (PutUint16 (of_nat port))) = port" using assms(4) by (simp add: unat_of_nat)
  show ?thesis unfolding handleClientSocks4_def r prod.case sum.case d Let_def readString_zero [OF assms(1)] p using assms(2)
    by (simp split: prod.split option.split)
qed

end
