(* ===== verification/Uot.thy ===== *)
theory Uot
  imports Framing Address
begin

text \<open>
  UDP datagrams over the tunnel (\<open>internal/tunnel/uot.go\<close>): the datagram frames and the loop of the server
  that hands them to UDP sockets.
\<close>

definition maxUoTPayload :: nat where "maxUoTPayload = 64 * 1024"

definition WriteUoTDatagram :: "writer \<Rightarrow> string \<Rightarrow> bytes \<Rightarrow> go_error option \<times> writer" where
  "WriteUoTDatagram w addr payload =
    (case WriteAddress \<lparr>sent = [], script = []\<rparr> addr of
       (Some e, _) \<Rightarrow> (Some (ErrMsg ''encode address''), w)
     | (None, addrBuf) \<Rightarrow>
       if 65535 < length (sent addrBuf) then (Some (ErrMsg ''address too long''), w)
       else if 65535 < length payload then (Some (ErrMsg ''payload too large''), w)
       else
         (case WriteFull w (PutUint16 (of_nat (length (sent addrBuf))) @ PutUint16 (of_nat (length payload))) of
            (Some e, w1) \<Rightarrow> (Some e, w1)
          | (None, w1) \<Rightarrow>
            (case WriteFull w1 (sent addrBuf) of
               (Some e, w2) \<Rightarrow> (Some e, w2)
             | (None, w2) \<Rightarrow> WriteFull w2 payload)))"

definition ReadUoTDatagram :: "reader \<Rightarrow> (string \<times> bytes) result \<times> reader" where
  "ReadUoTDatagram r =
    (case ReadFull 4 r of
       (Inl e, r1) \<Rightarrow> (Inl e, r1)
     | (Inr header, r1) \<Rightarrow>
       let addrLen = unat (Uint16 (take 2 header)); payloadLen = unat (Uint16 (drop 2 header)) in
       if addrLen \<le> 0 \<or> maxUoTPayload < addrLen then (Inl (ErrMsg ''invalid address length''), r1)
       else if maxUoTPayload < payloadLen then (Inl (ErrMsg ''invalid payload length''), r1)
       else
         (case ReadFull addrLen r1 of
            (Inl e, r2) \<Rightarrow> (Inl e, r2)
          | (Inr addrBuf, r2) \<Rightarrow>
            (case ReadAddress (reader_of addrBuf) of
               (Inl e, _) \<Rightarrow> (Inl (ErrMsg ''decode address''), r2)
             | (Inr (addr, _, _), _) \<Rightarrow>
               (case ReadFull payloadLen r2 of
                  (Inl e, r3) \<Rightarrow> (Inl e, r3)
                | (Inr payload, r3) \<Rightarrow> (Inr (addr, payload), r3)))))"

section \<open>The server's socket table\<close>

text \<open>
  The loop of \<open>HandleUoTServerWithDialer\<close> with a dialer: one socket per destination. \<open>dial\<close> answers whether a
  socket to the address can be opened and \<open>send\<close> whether the socket accepts the datagram; the state is the
  table of open sockets and the log of the datagrams handed over, and the goroutines that read the
  sockets are left out.
\<close>

definition uotDeliver :: "(string \<Rightarrow> bool) \<Rightarrow> (string \<Rightarrow> bytes \<Rightarrow> bool) \<Rightarrow> string \<times> bytes
    \<Rightarrow> string list \<times> (string \<times> bytes) list \<Rightarrow> string list \<times> (string \<times> bytes) list" where
  "uotDeliver dial send d st =
    (case d of (addrStr, payload) \<Rightarrow> case st of (conns, outlog) \<Rightarrow>
     if addrStr \<notin> set conns \<and> \<not> dial addrStr then (conns, outlog)
     else
       let conns1 = (if addrStr \<in> set conns then conns else conns @ [addrStr]) in
       if send addrStr payload then (conns1, outlog @ [(addrStr, payload)])
       else (filter (\<lambda>c. c \<noteq> addrStr) conns1, outlog))"

lemma ReadUoT_shrinks: "ReadUoTDatagram r = (Inr d, r') \<Longrightarrow> length (rdata r') < length (rdata r)"
  by (auto simp: ReadUoTDatagram_def ReadFull_def Let_def split: if_splits sum.splits prod.splits)

function uotServe :: "(string \<Rightarrow> bool) \<Rightarrow> (string \<Rightarrow> bytes \<Rightarrow> bool) \<Rightarrow> reader
    \<Rightarrow> string list \<times> (string \<times> bytes) list \<Rightarrow> go_error \<times> string list \<times> (string \<times> bytes) list" where
  "uotServe dial send r st =
    (case ReadUoTDatagram r of
       (Inl e, r') \<Rightarrow> (e, st)
     | (Inr d, r') \<Rightarrow> uotServe dial send r' (uotDeliver dial send d st))"
  by pat_completeness auto
termination
  by (relation "measure (\<lambda>(dial, send, r, st). length (rdata r))") (auto dest!: sym [THEN ReadUoT_shrinks])

declare uotServe.simps [simp del]

section \<open>The datagram format\<close>

definition uot_wire :: "string \<times> bytes \<Rightarrow> bytes" where
  "uot_wire d = (case d of (addr, payload) \<Rightarrow>
     case encodeAddress addr of
       Inl e \<Rightarrow> []
     | Inr a \<Rightarrow> PutUint16 (of_nat (length a)) @ PutUint16 (of_nat (length payload)) @ a @ payload)"

text \<open>An address that is its own canonical form, and a payload that fits.\<close>

definition uot_valid :: "string \<times> bytes \<Rightarrow> bool" where
  "uot_valid d \<longleftrightarrow> length (snd d) \<le> 65535 \<and>
    (\<exists>a ty ip. encodeAddress (fst d) = Inr a \<and> length a \<le> 65535 \<and> a \<noteq> [] \<and> ReadAddress (reader_of a) = (Inr (fst d, ty, ip), reader_of []))"

lemma ReadUoT_wire:
  assumes "uot_valid d"
  shows "ReadUoTDatagram (r\<lparr>rdata := uot_wire d @ rest\<rparr>) = (Inr d, r\<lparr>rdata := rest\<rparr>)"
proof -
  obtain addr p where d: "d = (addr, p)" by (metis surj_pair)
  obtain a ty ip where a: "encodeAddress addr = Inr a" "length a \<le> 65535" "a \<noteq> []" "ReadAddress (reader_of a) = (Inr (addr, ty, ip), reader_of [])"
    and p: "length p \<le> 65535" using assms d by (auto simp: uot_valid_def)
  let ?h = "PutUint16 (of_nat (length a)) @ PutUint16 (of_nat (length p))"
  have "ReadFull 4 (r\<lparr>rdata := ?h @ a @ p @ rest\<rparr>) = (Inr ?h, r\<lparr>rdata := a @ p @ rest\<rparr>)" by (rule ReadFull_append) simp
  moreover have "ReadFull (length a) (r\<lparr>rdata := a @ p @ rest\<rparr>) = (Inr a, r\<lparr>rdata := p @ rest\<rparr>)" by (rule ReadFull_append) simp
  moreover have "ReadFull (length p) (r\<lparr>rdata := p @ rest\<rparr>) = (Inr p, r\<lparr>rdata := rest\<rparr>)" by (rule ReadFull_append) simp
  moreover have "unat (of_nat (length a) :: u16) = length a" "unat (of_nat (length p) :: u16) = length p" using a(2) p by simp_all
  ultimately show ?thesis
    using a p d by (simp add: ReadUoTDatagram_def uot_wire_def maxUoTPayload_def Let_def)
qed

interpretation uot: framing uot_wire uot_valid ReadUoTDatagram
  by unfold_locales (simp_all add: ReadUoT_wire, simp add: ReadUoTDatagram_def ReadFull_def)

lemma WriteUoT_wire:
  assumes "uot_valid (addr, p)" "script w = []"
  shows "WriteUoTDatagram w addr p = (None, w\<lparr>sent := sent w @ uot_wire (addr, p)\<rparr>)"
proof -
  obtain a where "encodeAddress addr = Inr a" "length a \<le> 65535" using assms(1) by (auto simp: uot_valid_def)
  then show ?thesis
    using assms by (simp add: WriteUoTDatagram_def WriteAddress_def conn_write_def WriteFull_open uot_wire_def uot_valid_def)
qed

lemma uotServe_stream:
  "list_all uot_valid ds \<Longrightarrow> uotServe dial send (reader_of (concat (map uot_wire ds))) st = (EOF, foldl (\<lambda>st d. uotDeliver dial send d st) st ds)"
proof (induction ds arbitrary: st)
  case Nil
  then show ?case by (simp add: uotServe.simps ReadUoTDatagram_def ReadFull_def reader_of_def)
next
  case (Cons d ds)
  have "ReadUoTDatagram (reader_of (uot_wire d @ concat (map uot_wire ds))) = (Inr d, reader_of (concat (map uot_wire ds)))"
    using ReadUoT_wire [of d "concat (map uot_wire ds)" "reader_of []"] Cons.prems by (simp add: reader_of_def)
  then show ?case using Cons by (simp add: uotServe.simps [of dial send "reader_of (uot_wire d @ concat (map uot_wire ds))"])
qed

lemma uotDeliver_distinct: "distinct (fst st) \<Longrightarrow> distinct (fst (uotDeliver dial send d st))"
  by (cases st; cases d) (auto simp: uotDeliver_def Let_def)

section \<open>Properties\<close>

lemma canonical_uot_valid:
  assumes "canonical_host host" "port < 65536" "length p \<le> 65535"
  shows "uot_valid (JoinHostPort host (Itoa port), p)"
proof -
  obtain buf ty ip where b: "encodeAddress (JoinHostPort host (Itoa port)) = Inr buf" "buf \<noteq> []"
      "ReadAddress (reader_of buf) = (Inr (JoinHostPort host (Itoa port), ty, ip), reader_of [])"
    using canonical_encode [OF assms(2,1)] by blast
  moreover have "length buf \<le> 65535" using encodeAddress_length [OF b(1)] by simp
  ultimately show ?thesis using assms(3) by (auto simp: uot_valid_def)
qed

definition uot_writes :: "(string \<times> bytes) list \<Rightarrow> writer \<Rightarrow> writer" where
  "uot_writes ds w = foldl (\<lambda>w (addr, p). snd (WriteUoTDatagram w addr p)) w ds"

lemma uot_writes_wire:
  "list_all uot_valid ds \<Longrightarrow> script w = [] \<Longrightarrow> uot_writes ds w = w\<lparr>sent := sent w @ concat (map uot_wire ds)\<rparr>"
proof (induction ds arbitrary: w)
  case (Cons d ds)
  then show ?case using WriteUoT_wire [of "fst d" "snd d" w] by (cases d) (simp add: uot_writes_def)
qed (simp add: uot_writes_def)

text \<open>
  UDP over the tunnel keeps datagrams. Datagrams to canonical addresses, with payloads of up to
  65535 bytes, empty ones included, arrive at the server's loop one by one, in order, with their boundaries,
  addresses and payloads unchanged; the loop then ends with the error of the stream.
\<close>

theorem uot_datagrams_delivered:
  assumes "\<forall>d \<in> set ds. \<exists>host port. canonical_host host \<and> port < 65536 \<and> fst d = JoinHostPort host (Itoa port) \<and> length (snd d) \<le> 65535"
    and "\<forall>a. dial a" "\<forall>a p. send a p"
  shows "\<exists>conns. uotServe dial send (reader_of (sent (uot_writes ds \<lparr>sent = [], script = []\<rparr>))) ([], []) = (EOF, conns, ds)
    \<and> distinct conns \<and> set conns = fst ` set ds"
proof -
  have v: "list_all uot_valid ds"
    using assms(1) canonical_uot_valid by (auto simp: list_all_iff)
  have fold: "\<exists>conns. foldl (\<lambda>st d. uotDeliver dial send d st) (cs, l) ds = (conns, l @ ds)
      \<and> (distinct cs \<longrightarrow> distinct conns) \<and> set conns = set cs \<union> fst ` set ds" for cs l
  proof (induction ds arbitrary: cs l)
    case (Cons d ds)
    obtain a p where d: "d = (a, p)" by (metis surj_pair)
    have "uotDeliver dial send d (cs, l) = (if a \<in> set cs then cs else cs @ [a], l @ [(a, p)])"
      using assms(2,3) d by (simp add: uotDeliver_def Let_def)
    then show ?case
      using Cons.IH [of "if a \<in> set cs then cs else cs @ [a]" "l @ [(a, p)]"] d by auto
  qed simp
  show ?thesis
    using uotServe_stream [OF v, of dial send "([], [])"] uot_writes_wire [OF v, of "\<lparr>sent = [], script = []\<rparr>"] fold [of "[]" "[]"] by auto
qed

theorem uot_datagrams_delivered_witness:
  "\<exists>conns. uotServe (\<lambda>_. True) (\<lambda>_ _. True) (reader_of (sent (uot_writes [(''a.io:53'', [1, 2]), (''a.io:53'', [])] \<lparr>sent = [], script = []\<rparr>))) ([], [])
    = (EOF, conns, [(''a.io:53'', [1, 2]), (''a.io:53'', [])]) \<and> distinct conns \<and> set conns = {''a.io:53''}"
proof -
  have "ParseIP ''a.io'' = None" "JoinHostPort ''a.io'' (Itoa 53) = ''a.io:53''" by code_simp+
  then have "canonical_host ''a.io'' \<and> (53 :: nat) < 65536 \<and> ''a.io:53'' = JoinHostPort ''a.io'' (Itoa 53)" by (simp add: canonical_host_def)
  then have "\<exists>host port. canonical_host host \<and> port < 65536 \<and> ''a.io:53'' = JoinHostPort host (Itoa port)" by blast
  then show ?thesis
    using uot_datagrams_delivered [of "[(''a.io:53'', [1, 2]), (''a.io:53'', [])]" "\<lambda>_. True" "\<lambda>_ _. True"] by auto
qed

end
