(* ===== verification/UdpAssociate.thy ===== *)
theory UdpAssociate
  imports Route Uot
begin

text \<open>
  UDP over SOCKS5 (\<open>internal/app/client_socks5.go\<close>): the choice of the addresses, the sets with expiring entries, the packet format, and the
  session that forwards datagrams between the client, direct peers and the tunnel, one packet per step. A nil address is the
  empty list; zones of link-local addresses and the text of log messages are left out. Sockets and network interfaces are parameters.
\<close>

section \<open>Addresses\<close>

record UDPAddr =
  uIP :: bytes
  uPort :: nat

datatype net_addr = NilAddr | TCPAddr bytes nat | UDPAddress bytes nat | OtherAddr string

definition normalizeIP :: "bytes \<Rightarrow> bytes" where
  "normalizeIP ip = (case To4 ip of Some ip4 \<Rightarrow> ip4 | None \<Rightarrow> (case To16 ip of Some ip16 \<Rightarrow> ip16 | None \<Rightarrow> []))"

definition ipFromNetAddr :: "net_addr \<Rightarrow> bytes" where
  "ipFromNetAddr addr =
    (case addr of
       NilAddr \<Rightarrow> []
     | TCPAddr ip p \<Rightarrow> normalizeIP ip
     | UDPAddress ip p \<Rightarrow> normalizeIP ip
     | OtherAddr s \<Rightarrow>
       (case SplitHostPort s of
          Inl e \<Rightarrow> []
        | Inr (host, p) \<Rightarrow> normalizeIP (case ParseIP host of Some ip \<Rightarrow> ip | None \<Rightarrow> [])))"

definition isIPv6Only :: "bytes \<Rightarrow> bytes \<Rightarrow> bool" where
  "isIPv6Only localIP0 remoteIP0 =
    (let localIP = normalizeIP localIP0; remoteIP = normalizeIP remoteIP0
     in if localIP \<noteq> [] then To4 localIP = None else if remoteIP \<noteq> [] then To4 remoteIP = None else False)"

definition IPv4zero :: bytes where "IPv4zero = v4InV6Prefix @ [0, 0, 0, 0]"
definition IPv6unspecified :: bytes where "IPv6unspecified = replicate 16 0"

definition buildUDPAssociateReply :: "bytes \<Rightarrow> nat \<Rightarrow> bytes \<Rightarrow> bytes \<Rightarrow> bytes" where
  "buildUDPAssociateReply host0 port localIP remoteIP =
    (let host = (if host0 = [] then (if isIPv6Only localIP remoteIP then IPv6unspecified else IPv4zero) else host0)
     in [0x05, 0x00, 0x00]
        @ (case To4 host of Some ip4 \<Rightarrow> 0x01 # ip4 | None \<Rightarrow> 0x04 # (case To16 host of Some ip16 \<Rightarrow> ip16 | None \<Rightarrow> []))
        @ PutUint16 (of_nat port))"

definition udpNetworkAndBindIP :: "bytes \<Rightarrow> bytes \<Rightarrow> string \<times> bytes" where
  "udpNetworkAndBindIP localIP0 remoteIP0 =
    (let localIP = normalizeIP localIP0; remoteIP = normalizeIP remoteIP0
     in if remoteIP \<noteq> [] then (if To4 remoteIP \<noteq> None then (''udp4'', IPv4zero) else (''udp6'', IPv6unspecified))
        else if isIPv6Only localIP remoteIP then (''udp6'', IPv6unspecified)
        else (''udp'', []))"

text \<open>\<open>listen\<close> binds a socket on a network and returns its local address.\<close>

definition listenUDPAssociate :: "(string \<Rightarrow> bytes \<Rightarrow> UDPAddr result) \<Rightarrow> bytes \<Rightarrow> bytes \<Rightarrow> bytes \<Rightarrow> UDPAddr result \<times> string" where
  "listenUDPAssociate listen localIP remoteIP bindIP0 =
    (let bindIP = normalizeIP bindIP0
     in if bindIP \<noteq> [] \<and> \<not> IsUnspecified bindIP then
          (let udpNet = (if To4 bindIP \<noteq> None then ''udp4'' else ''udp6'') in (listen udpNet bindIP, udpNet))
        else
          let mismatch = (\<lambda>la. let laIP = normalizeIP (uIP la); peerIP = normalizeIP remoteIP
                in peerIP \<noteq> [] \<and> laIP \<noteq> [] \<and> (To4 peerIP \<noteq> None) \<noteq> (To4 laIP \<noteq> None));
              fallback = (let (udpNet, ip) = udpNetworkAndBindIP localIP remoteIP in (listen udpNet ip, udpNet))
          in case listen ''udp'' [] of
               Inr la \<Rightarrow> if mismatch la then fallback else (Inr la, ''udp'')
             | Inl e \<Rightarrow> fallback)"

definition IsGlobalUnicast :: "bytes \<Rightarrow> bool" where
  "IsGlobalUnicast ip \<longleftrightarrow> (length ip = 4 \<or> length ip = 16) \<and> \<not> IP_Equal ip (v4InV6Prefix @ [255, 255, 255, 255]) \<and> \<not> IsUnspecified ip
    \<and> \<not> IsLoopback ip \<and> \<not> IsMulticast ip \<and> \<not> IsLinkLocalUnicast ip"

definition selectUDPAssociateReplyIP :: "bytes \<Rightarrow> bytes \<Rightarrow> bytes" where
  "selectUDPAssociateReplyIP localIP0 remoteIP0 =
    (let localIP = normalizeIP localIP0; remoteIP = normalizeIP remoteIP0
     in if localIP = [] \<or> IsUnspecified localIP then []
        else if IsLoopback localIP then []
        else if \<not> IsGlobalUnicast localIP then []
        else if IsPrivate localIP \<and> (remoteIP = [] \<or> \<not> IsPrivate remoteIP) then []
        else localIP)"

text \<open>An interface: its flags and its addresses, a nil entry for one that is not an IP network.\<close>

record net_iface =
  flagUp :: bool
  flagLoopback :: bool
  flagPointToPoint :: bool
  addrs :: "bytes list result"

definition usableIPv4 :: "bytes \<Rightarrow> bool" where
  "usableIPv4 ip \<longleftrightarrow> ip \<noteq> [] \<and> To4 ip \<noteq> None \<and> \<not> IsLoopback ip \<and> \<not> IsUnspecified ip \<and> IsGlobalUnicast ip"

fun firstIPv4Of :: "net_iface list \<Rightarrow> bytes" where
  "firstIPv4Of [] = []"
| "firstIPv4Of (i # is) =
    (if \<not> flagUp i \<or> flagLoopback i \<or> flagPointToPoint i then firstIPv4Of is
     else case addrs i of
       Inl e \<Rightarrow> firstIPv4Of is
     | Inr as \<Rightarrow> (case find usableIPv4 (map normalizeIP as) of Some ip \<Rightarrow> ip | None \<Rightarrow> firstIPv4Of is))"

definition firstGlobalUnicastIPv4 :: "net_iface list result \<Rightarrow> bytes" where
  "firstGlobalUnicastIPv4 ifaces = (case ifaces of Inl e \<Rightarrow> [] | Inr is \<Rightarrow> firstIPv4Of is)"

definition selectUDPAssociateAdvertiseIP :: "net_iface list result \<Rightarrow> bytes \<Rightarrow> bytes \<Rightarrow> bytes" where
  "selectUDPAssociateAdvertiseIP ifaces localIP0 remoteIP =
    (let ip = selectUDPAssociateReplyIP localIP0 remoteIP
     in if ip \<noteq> [] then ip
        else
          let localIP = normalizeIP localIP0
          in if localIP = [] \<or> \<not> IsLoopback localIP then [] else firstGlobalUnicastIPv4 ifaces)"

definition initialUDPAssociateClientIP :: "bytes \<Rightarrow> bytes" where
  "initialUDPAssociateClientIP ip0 = (let ip = normalizeIP ip0 in if ip = [] \<or> IsUnspecified ip \<or> IsLoopback ip then [] else ip)"

section \<open>Sets with expiring entries\<close>

record ttlSet =
  tm :: "(string \<times> int) list"
  maxEntries :: nat

definition newTTLSet :: "int \<Rightarrow> ttlSet" where
  "newTTLSet n = \<lparr>tm = [], maxEntries = (if n \<le> 0 then 1024 else nat n)\<rparr>"

definition pruneLocked :: "int \<Rightarrow> ttlSet \<Rightarrow> ttlSet" where
  "pruneLocked now s =
    (if length (tm s) < maxEntries s then s else s\<lparr>tm := filter (\<lambda>(k, exp). \<not> exp < now) (tm s)\<rparr>)"

definition ttl_Add :: "int \<Rightarrow> string \<Rightarrow> int \<Rightarrow> ttlSet \<Rightarrow> ttlSet" where
  "ttl_Add now key0 life s =
    (let key = TrimSpace key0
     in if key = '''' \<or> life \<le> 0 then s else (let s1 = pruneLocked now s in s1\<lparr>tm := AList.update key (now + life) (tm s1)\<rparr>))"

definition ttl_Has :: "int \<Rightarrow> string \<Rightarrow> ttlSet \<Rightarrow> bool \<times> ttlSet" where
  "ttl_Has now key0 s =
    (let key = TrimSpace key0
     in if key = '''' then (False, s)
        else case map_of (tm s) key of
          None \<Rightarrow> (False, s\<lparr>tm := AList.delete key (tm s)\<rparr>)
        | Some exp \<Rightarrow> if exp < now then (False, s\<lparr>tm := AList.delete key (tm s)\<rparr>) else (True, s))"

definition ttl_Allow :: "int \<Rightarrow> string \<Rightarrow> int \<Rightarrow> ttlSet \<Rightarrow> bool \<times> ttlSet" where
  "ttl_Allow now key0 life s =
    (let key = TrimSpace key0
     in if key = '''' \<or> life \<le> 0 then (False, s)
        else
          let s1 = pruneLocked now s
          in case map_of (tm s1) key of
               Some exp \<Rightarrow> if now < exp then (False, s1) else (True, s1\<lparr>tm := AList.update key (now + life) (tm s1)\<rparr>)
             | None \<Rightarrow> (True, s1\<lparr>tm := AList.update key (now + life) (tm s1)\<rparr>))"

section \<open>Packets\<close>

definition UDPAddr_String :: "UDPAddr \<Rightarrow> string" where
  "UDPAddr_String a = JoinHostPort (if uIP a = [] then '''' else IP_String (uIP a)) (Itoa (uPort a))"

definition peerKey :: "UDPAddr \<Rightarrow> string" where
  "peerKey addr = UDPAddr_String (addr\<lparr>uIP := normalizeIP (uIP addr)\<rparr>)"

definition udpAddrString :: "UDPAddr \<Rightarrow> string" where
  "udpAddrString addr =
    (let ip = normalizeIP (uIP addr) in if ip = [] then UDPAddr_String addr else JoinHostPort (IP_String ip) (Itoa (uPort addr)))"

definition decodeSocks5UDPRequest :: "bytes \<Rightarrow> (string \<times> bytes option \<times> bytes) result" where
  "decodeSocks5UDPRequest pkt =
    (if length pkt < 4 then Inl (ErrMsg ''packet too short'')
     else if pkt ! 2 \<noteq> 0 then Inl (ErrMsg ''frag not supported'')
     else case ReadAddress (reader_of (drop 3 pkt)) of
       (Inl e, r) \<Rightarrow> Inl e
     | (Inr (addrStr, _, _), r) \<Rightarrow> Inr (addrStr, ParseIP (hostOnly addrStr), rdata r))"

definition buildUDPResponsePacket :: "string \<Rightarrow> bytes \<Rightarrow> bytes option" where
  "buildUDPResponsePacket addr payload =
    (case WriteAddress \<lparr>sent = [0x00, 0x00, 0x00], script = []\<rparr> addr of
       (Some e, w) \<Rightarrow> None | (None, w) \<Rightarrow> Some (sent w @ payload))"

section \<open>The session\<close>

record uotClientSession =
  uotConn :: writer
  udpNet :: string
  closed_session :: bool
  clientAddr :: "UDPAddr option"
  allowedClientIP :: bytes
  peers :: ttlSet
  logOnce :: ttlSet
  udpResolver :: Resolver

definition peerTTL :: int where "peerTTL = 2 * 60 * 1000000000"
definition logTTL :: int where "logTTL = 30 * 1000000000"

definition newUoTClientSession :: "net_addr \<Rightarrow> writer \<Rightarrow> string \<Rightarrow> Resolver \<Rightarrow> uotClientSession" where
  "newUoTClientSession remote w net rs = \<lparr>uotConn = w, udpNet = net, closed_session = False, clientAddr = None,
    allowedClientIP = initialUDPAssociateClientIP (ipFromNetAddr remote), peers = newTTLSet 256, logOnce = newTTLSet 1024, udpResolver = rs\<rparr>"

definition setClientAddr :: "UDPAddr \<Rightarrow> uotClientSession \<Rightarrow> uotClientSession" where
  "setClientAddr addr s =
    (case clientAddr s of
       None \<Rightarrow> s\<lparr>clientAddr := Some addr\<rparr>
     | Some a \<Rightarrow> if uPort a \<noteq> uPort addr \<or> \<not> IP_Equal (normalizeIP (uIP a)) (normalizeIP (uIP addr)) then s\<lparr>clientAddr := Some addr\<rparr> else s)"

text \<open>The target of a direct datagram; the resolved host is an address.\<close>

definition resolveUDPAddr :: "'c dial_env \<Rightarrow> Resolver \<Rightarrow> string \<Rightarrow> UDPAddr result \<times> Resolver" where
  "resolveUDPAddr env rs addr0 =
    (let addr = TrimSpace addr0
     in if addr = '''' then (Inl (ErrMsg ''empty address''), rs)
        else case Resolve (dnsAsk env) (time_now env) addr rs of
          (Inl e, rs1) \<Rightarrow> (Inl e, rs1)
        | (Inr resolved, rs1) \<Rightarrow>
          (case SplitHostPort resolved of
             Inl e \<Rightarrow> (Inl e, rs1)
           | Inr (host, port) \<Rightarrow>
             (case (ParseIP host, Atoi port) of
                (Some ip, Some p) \<Rightarrow> if 0 \<le> p \<and> p \<le> 65535 then (Inr \<lparr>uIP = normalizeIP ip, uPort = nat p\<rparr>, rs1) else (Inl (ErrMsg ''invalid port''), rs1)
              | _ \<Rightarrow> (Inl (ErrMsg ''unknown port or host''), rs1))))"

text \<open>A datagram that leaves the socket. \<open>send\<close> says whether the socket takes it.\<close>

datatype udp_out = ToClient bytes UDPAddr | ToPeer bytes UDPAddr

definition sendClient :: "(bytes \<Rightarrow> UDPAddr \<Rightarrow> bool) \<Rightarrow> string \<Rightarrow> bytes \<Rightarrow> uotClientSession \<Rightarrow> udp_out list \<times> uotClientSession" where
  "sendClient send addr payload s =
    (case clientAddr s of
       None \<Rightarrow> ([], s)
     | Some a \<Rightarrow>
       (case buildUDPResponsePacket addr payload of
          None \<Rightarrow> ([], s)
        | Some resp \<Rightarrow> if send resp a then ([ToClient resp a], s) else ([], s\<lparr>closed_session := True\<rparr>)))"

definition sendTunnel :: "string \<Rightarrow> bytes \<Rightarrow> uotClientSession \<Rightarrow> uotClientSession" where
  "sendTunnel dest payload s =
    (case WriteUoTDatagram (uotConn s) dest payload of
       (Some e, w) \<Rightarrow> s\<lparr>uotConn := w, closed_session := True\<rparr> | (None, w) \<Rightarrow> s\<lparr>uotConn := w\<rparr>)"

text \<open>One datagram read from the socket.\<close>

definition fromSocket :: "'c dial_env \<Rightarrow> (bytes \<Rightarrow> UDPAddr \<Rightarrow> bool) \<Rightarrow> Config option \<Rightarrow> routeManagers option \<Rightarrow> UDPAddr \<Rightarrow> bytes \<Rightarrow> uotClientSession
    \<Rightarrow> udp_out list \<times> uotClientSession" where
  "fromSocket env send cfg mgrs addr pkt s =
    (let srcIP = normalizeIP (uIP addr); now = time_now env
     in if allowedClientIP s \<noteq> [] \<and> \<not> IP_Equal (allowedClientIP s) srcIP then
          (case ttl_Has now (peerKey addr) (peers s) of
             (False, ps) \<Rightarrow> ([], s\<lparr>peers := ps\<rparr>)
           | (True, ps) \<Rightarrow> sendClient send (udpAddrString addr) pkt (s\<lparr>peers := ps\<rparr>))
        else case decodeSocks5UDPRequest pkt of
          Inl e \<Rightarrow> ([], s)
        | Inr (dest, destIP, payload) \<Rightarrow>
          let s1 = setClientAddr addr (if allowedClientIP s = [] \<and> srcIP \<noteq> [] then s\<lparr>allowedClientIP := srcIP\<rparr> else s);
              decision = decideRoute (keywordOrder env) cfg mgrs dest destIP;
              log = (\<lambda>act t. t\<lparr>logOnce := snd (ttl_Allow now (act @ ''|'' @ dest) logTTL (logOnce t))\<rparr>);
              tunnel = (\<lambda>t. let t1 = sendTunnel dest payload t in ([], if closed_session t1 then t1 else log routeActionProxy t1))
          in if action decision = routeActionReject then ([], log routeActionReject s1)
             else if shouldProxy decision then tunnel s1
             else case resolveUDPAddr env (udpResolver s1) (directAddr decision) of
               (Inl e, rs) \<Rightarrow> tunnel (s1\<lparr>udpResolver := rs\<rparr>)
             | (Inr da, rs) \<Rightarrow>
               let s2 = s1\<lparr>udpResolver := rs\<rparr>
               in if uIP da \<noteq> [] \<and> To4 (uIP da) = None \<and> udpNet s2 = ''udp4'' then tunnel s2
                  else
                    let s3 = s2\<lparr>peers := ttl_Add now (peerKey da) peerTTL (peers s2)\<rparr>
                    in if send payload da then ([ToPeer payload da], log (action decision) s3) else ([], s3\<lparr>closed_session := True\<rparr>))"

text \<open>One datagram read from the tunnel, or the error that ends the session.\<close>

definition fromTunnel :: "(bytes \<Rightarrow> UDPAddr \<Rightarrow> bool) \<Rightarrow> (string \<times> bytes) result \<Rightarrow> uotClientSession \<Rightarrow> udp_out list \<times> uotClientSession" where
  "fromTunnel send dgram s =
    (case dgram of Inl e \<Rightarrow> ([], s\<lparr>closed_session := True\<rparr>) | Inr (addr, payload) \<Rightarrow> sendClient send addr payload s)"

inductive ustep :: "Config option \<Rightarrow> routeManagers option \<Rightarrow> uotClientSession \<Rightarrow> udp_out list \<Rightarrow> uotClientSession \<Rightarrow> bool" for cfg mgrs where
  Socket: "\<not> closed_session s \<Longrightarrow> fromSocket (env :: unit dial_env) send cfg mgrs addr pkt s = (out, s') \<Longrightarrow> ustep cfg mgrs s out s'"
| Tunnel: "\<not> closed_session s \<Longrightarrow> fromTunnel send dgram s = (out, s') \<Longrightarrow> ustep cfg mgrs s out s'"
| Control: "ustep cfg mgrs s [] (s\<lparr>closed_session := True\<rparr>)"

inductive ureach :: "Config option \<Rightarrow> routeManagers option \<Rightarrow> uotClientSession \<Rightarrow> udp_out list \<Rightarrow> uotClientSession \<Rightarrow> bool" for cfg mgrs s0 where
  Start: "ureach cfg mgrs s0 [] s0"
| Step: "ureach cfg mgrs s0 out s \<Longrightarrow> ustep cfg mgrs s out' s' \<Longrightarrow> ureach cfg mgrs s0 (out @ out') s'"

section \<open>Packets are read back\<close>

lemma response_packet:
  assumes "encodeAddress addr = Inr buf"
  shows "buildUDPResponsePacket addr payload = Some ([0, 0, 0] @ buf @ payload)"
  using assms by (simp add: buildUDPResponsePacket_def WriteAddress_def conn_write_def)

text \<open>A datagram that the session hands to its client decodes, by the same format, to the payload and the canonical form of the address it came from.\<close>

theorem udp_packet_roundtrip:
  assumes "buildUDPResponsePacket addr payload = Some pkt" "SplitHostPort addr = Inr (host, port)" "stripZone host \<noteq> []"
  shows "\<exists>p. Atoi port = Some (int p) \<and> p < 65536 \<and>
    (let a = JoinHostPort (canonicalHost (stripZone host)) (Itoa p) in decodeSocks5UDPRequest pkt = Inr (a, ParseIP (hostOnly a), payload))"
proof -
  obtain buf where b: "encodeAddress addr = Inr buf" "pkt = [0, 0, 0] @ buf @ payload"
    using assms(1) by (cases "encodeAddress addr") (auto simp: response_packet, simp add: buildUDPResponsePacket_def WriteAddress_def)
  obtain p where p: "Atoi port = Some (int p)" "p < 65536" "ReadAddress ((reader_of [])\<lparr>rdata := buf @ payload\<rparr>) =
      (Inr (JoinHostPort (canonicalHost (stripZone host)) (Itoa p), hd buf, hostIP (stripZone host)), (reader_of [])\<lparr>rdata := payload\<rparr>)"
    using ReadAddress_encode [OF assms(2) b(1) assms(3), where r = "reader_of []" and rest = payload] by auto
  have "buf \<noteq> []" using b(1) encodeHost_Cons by (auto simp: encodeAddress_def split: sum.splits option.splits if_splits)
  then have "\<not> length pkt < 4" "pkt ! 2 = 0" "drop 3 pkt = buf @ payload" using b(2) by (simp_all add: Suc_le_eq)
  then have "decodeSocks5UDPRequest pkt = Inr (JoinHostPort (canonicalHost (stripZone host)) (Itoa p), ParseIP (hostOnly (JoinHostPort (canonicalHost (stripZone host)) (Itoa p))), payload)"
    using p(3) by (simp add: decodeSocks5UDPRequest_def reader_of_def)
  then show ?thesis using p by (auto simp: Let_def)
qed

theorem udp_packet_roundtrip_witness:
  "decodeSocks5UDPRequest [0, 0, 0, 3, 4, 97, 46, 105, 111, 0, 80, 7, 8] = Inr (''a.io:80'', None, [7, 8])"
proof -
  have b: "buildUDPResponsePacket ''a.io:80'' [7, 8] = Some [0, 0, 0, 3, 4, 97, 46, 105, 111, 0, 80, 7, 8]" by code_simp
  have s: "SplitHostPort ''a.io:80'' = Inr (''a.io'', ''80'')" "stripZone ''a.io'' \<noteq> []" by code_simp+
  have c: "Atoi ''80'' = Some 80" "JoinHostPort (canonicalHost (stripZone ''a.io'')) (Itoa 80) = ''a.io:80''" "ParseIP (hostOnly ''a.io:80'') = None" by code_simp+
  obtain p where p: "Atoi ''80'' = Some (int p)" "let a = JoinHostPort (canonicalHost (stripZone ''a.io'')) (Itoa p) in
      decodeSocks5UDPRequest [0, 0, 0, 3, 4, 97, 46, 105, 111, 0, 80, 7, 8] = Inr (a, ParseIP (hostOnly a), [7, 8])"
    using udp_packet_roundtrip [OF b s] by blast
  have "p = 80" using p(1) c(1) by simp
  then show ?thesis using p(2) c by (simp add: Let_def)
qed

section \<open>Sets with expiring entries\<close>

lemma prune_keeps: "map_of (tm s) k = Some e \<Longrightarrow> now \<le> e \<Longrightarrow> map_of (tm (pruneLocked now s)) k = Some e"
proof -
  have "map_of xs k = Some e \<Longrightarrow> now \<le> e \<Longrightarrow> map_of (filter (\<lambda>(k, exp). \<not> exp < now) xs) k = Some e" for xs :: "(string \<times> int) list"
    by (induction xs) (auto split: if_splits)
  then show "map_of (tm s) k = Some e \<Longrightarrow> now \<le> e \<Longrightarrow> map_of (tm (pruneLocked now s)) k = Some e" by (simp add: pruneLocked_def)
qed

text \<open>A key is in the set from its addition until it expires, and a key allowed once is not allowed again before it expires; what happens to other keys does not matter.\<close>

lemma ttl_Add_Has:
  assumes "TrimSpace key \<noteq> ''''" "0 < life" "now' \<le> now + life"
  shows "fst (ttl_Has now' key (ttl_Add now key life s))"
  using assms by (simp add: ttl_Has_def ttl_Add_def Let_def update_conv')

lemma ttl_Add_other:
  assumes "fst (ttl_Has now' key s)" "now \<le> now'" "TrimSpace key \<noteq> TrimSpace k2"
  shows "fst (ttl_Has now' key (ttl_Add now k2 life s))"
proof -
  obtain e where e: "map_of (tm s) (TrimSpace key) = Some e" "\<not> e < now'" "TrimSpace key \<noteq> ''''"
    using assms(1) by (auto simp: ttl_Has_def Let_def split: if_splits option.splits)
  then have "map_of (tm (pruneLocked now s)) (TrimSpace key) = Some e" using assms(2) by (intro prune_keeps) auto
  then show ?thesis using e assms(3) by (auto simp: ttl_Has_def ttl_Add_def Let_def update_conv')
qed

lemma ttl_Allow_once:
  assumes "ttl_Allow now key life s = (True, s1)" "now \<le> now'" "now' < now + life"
  shows "fst (ttl_Allow now' key life s1) = False"
proof -
  have k: "TrimSpace key \<noteq> ''''" "0 < life" "map_of (tm s1) (TrimSpace key) = Some (now + life)"
    using assms(1) by (auto simp: ttl_Allow_def Let_def update_conv' split: if_splits option.splits)
  then have "map_of (tm (pruneLocked now' s1)) (TrimSpace key) = Some (now + life)" using assms(3) by (intro prune_keeps) auto
  then show ?thesis using k assms(3) by (simp add: ttl_Allow_def Let_def)
qed

text \<open>The number of entries is not bounded by \<open>maxEntries\<close>: entries that have not expired are never removed.\<close>

lemma ttl_unbounded:
  assumes "\<forall>(k, e) \<in> set (tm s). now \<le> e" "TrimSpace key \<noteq> []" "0 < life" "TrimSpace key \<notin> fst ` set (tm s)"
  shows "length (tm (ttl_Add now key life s)) = Suc (length (tm s))"
proof -
  have "tm (pruneLocked now s) = tm s" using assms(1) by (auto simp: pruneLocked_def filter_id_conv)
  then show ?thesis using assms(2-4) by (simp add: ttl_Add_def Let_def update_fresh)
qed

section \<open>The session serves one client\<close>

definition client_ok :: "uotClientSession \<Rightarrow> bool" where
  "client_ok s \<longleftrightarrow> (\<forall>a. clientAddr s = Some a \<longrightarrow>
    (if allowedClientIP s = [] then normalizeIP (uIP a) = [] else IP_Equal (allowedClientIP s) (normalizeIP (uIP a))))"

definition same_client :: "uotClientSession \<Rightarrow> uotClientSession \<Rightarrow> bool" where
  "same_client s s' \<longleftrightarrow> clientAddr s' = clientAddr s \<and> allowedClientIP s' = allowedClientIP s"

lemma sendTunnel_same [simp]: "same_client s (sendTunnel dest payload s)"
  by (auto simp: sendTunnel_def same_client_def split: prod.splits option.splits)

lemma sendClient_out:
  "sendClient send addr payload s = (out, s') \<Longrightarrow> same_client s s' \<and> (\<forall>o1 \<in> set out. \<exists>resp a. o1 = ToClient resp a \<and> clientAddr s = Some a)"
  by (auto simp: sendClient_def same_client_def split: option.splits if_splits)

lemma IP_Equal_refl [simp]: "IP_Equal a a"
  by (simp add: IP_Equal_def)

lemma normalizeIP_lengths: "normalizeIP ip = [] \<or> length (normalizeIP ip) = 4 \<or> length (normalizeIP ip) = 16"
  by (auto simp: normalizeIP_def To4_def To16_def)

lemma setClient_ok:
  assumes "client_ok s" "allowedClientIP s = [] \<or> IP_Equal (allowedClientIP s) (normalizeIP (uIP addr))"
  shows "client_ok (setClientAddr addr (if allowedClientIP s = [] \<and> normalizeIP (uIP addr) \<noteq> [] then s\<lparr>allowedClientIP := normalizeIP (uIP addr)\<rparr> else s))"
proof -
  have ne: "\<not> IP_Equal [] (normalizeIP (uIP addr))" if "normalizeIP (uIP addr) \<noteq> []"
    using that by (auto simp: IP_Equal_def To16_def)
  show ?thesis using assms ne unfolding client_ok_def setClientAddr_def by (auto split: option.splits)
qed

lemma setClient_allowed: "allowedClientIP (setClientAddr addr s) = allowedClientIP s"
  by (simp add: setClientAddr_def split: option.splits)

text \<open>What a datagram of the client leads to after the session knows it: nothing goes back to the client, and its address is settled.\<close>

lemma fromSocket_cases:
  assumes "fromSocket env send cfg mgrs addr pkt s = (out, s')"
  obtains (stranger) "allowedClientIP s \<noteq> []" "\<not> IP_Equal (allowedClientIP s) (normalizeIP (uIP addr))" "same_client s s'"
      "\<forall>o1 \<in> set out. \<exists>resp a. o1 = ToClient resp a \<and> clientAddr s = Some a"
  | (ignored) "out = []" "s' = s"
  | (served) "allowedClientIP s = [] \<or> IP_Equal (allowedClientIP s) (normalizeIP (uIP addr))"
      "same_client (setClientAddr addr (if allowedClientIP s = [] \<and> normalizeIP (uIP addr) \<noteq> [] then s\<lparr>allowedClientIP := normalizeIP (uIP addr)\<rparr> else s)) s'"
      "\<forall>o1 \<in> set out. \<exists>p a. o1 = ToPeer p a"
proof (cases "allowedClientIP s \<noteq> [] \<and> \<not> IP_Equal (allowedClientIP s) (normalizeIP (uIP addr))")
  case True
  obtain b ps where h: "ttl_Has (time_now env) (peerKey addr) (peers s) = (b, ps)" by fastforce
  show thesis
  proof (cases b)
    case False
    then have "out = []" "same_client s s'" using assms True h by (auto simp: fromSocket_def Let_def same_client_def)
    then show thesis using True stranger by simp
  next
    case t: True
    then have "sendClient send (udpAddrString addr) pkt (s\<lparr>peers := ps\<rparr>) = (out, s')" using assms True h by (simp add: fromSocket_def Let_def)
    from sendClient_out [OF this] show thesis using True stranger by (auto simp: same_client_def)
  qed
next
  case False
  show thesis
  proof (cases "decodeSocks5UDPRequest pkt")
    case (Inl e)
    then have "out = [] \<and> s' = s" using False assms unfolding fromSocket_def Let_def by auto
    then show thesis using ignored by blast
  next
    case (Inr d)
    obtain dest destIP payload where d: "d = (dest, destIP, payload)" by (metis prod_cases3)
    let ?s1 = "setClientAddr addr (if allowedClientIP s = [] \<and> normalizeIP (uIP addr) \<noteq> [] then s\<lparr>allowedClientIP := normalizeIP (uIP addr)\<rparr> else s)"
    have t: "clientAddr (sendTunnel dest payload t) = clientAddr t" "allowedClientIP (sendTunnel dest payload t) = allowedClientIP t" for t
      using sendTunnel_same [of t dest payload] by (simp_all add: same_client_def)
    have "same_client ?s1 s' \<and> (\<forall>o1 \<in> set out. \<exists>p a. o1 = ToPeer p a)"
      using assms False Inr d unfolding fromSocket_def Let_def
      by (auto simp: same_client_def t split: if_splits prod.splits sum.splits)
    then show thesis using served False by blast
  qed
qed

lemma ustep_client:
  assumes "ustep cfg mgrs s out s'" "client_ok s"
  shows "client_ok s' \<and> (allowedClientIP s \<noteq> [] \<longrightarrow> allowedClientIP s' = allowedClientIP s) \<and>
    (\<forall>resp a. ToClient resp a \<in> set out \<longrightarrow> clientAddr s = Some a)"
  using assms
proof (induction rule: ustep.induct)
  case (Socket s env send addr pkt out s')
  from Socket.hyps(2) show ?case
  proof (cases rule: fromSocket_cases)
    case stranger
    then show ?thesis using Socket.prems by (auto simp: client_ok_def same_client_def)
  next
    case ignored
    then show ?thesis using Socket.prems by simp
  next
    case served
    have "client_ok s'" using setClient_ok [OF Socket.prems served(1)] served(2) unfolding client_ok_def same_client_def by metis
    then show ?thesis using served(2,3) by (auto simp: same_client_def setClient_allowed)
  qed
next
  case (Tunnel s send dgram out s')
  then show ?case
    by (auto simp: fromTunnel_def client_ok_def same_client_def dest!: sendClient_out split: sum.splits)
next
  case (Control s)
  then show ?case by (simp add: client_ok_def)
qed



definition demo_udp :: uotClientSession where
  "demo_udp = newUoTClientSession (TCPAddr [10, 0, 0, 1] 5000) \<lparr>sent = [], script = []\<rparr> ''udp4'' (newResolver 0)"

lemma demo_ip: "initialUDPAssociateClientIP (ipFromNetAddr (TCPAddr [10, 0, 0, 1] 5000)) = [10, 0, 0, 1]" "normalizeIP [10, 0, 0, 1] = [10, 0, 0, 1]"
  by code_simp+



end
