(* ===== verification/Rewrite.thy ===== *)
theory Rewrite
  imports GoStrings Config
begin

text \<open>
  The text rewriting of the reverse proxy (\<open>internal/reverse/rewrite_paths.go\<close>,
  \<open>internal/reverse/html_rewrite.go\<close> and the payload part of \<open>internal/reverse/rewrite_body.go\<close>): a
  response of a service mounted under a path prefix has its root-absolute URLs prefixed. The byte
  slices hold text and are \<open>string\<close>s; the index loops of the code are recursions on the index, with the
  part written so far (\<open>out\<close>) and the index up to which the input is copied (\<open>last\<close>, here \<open>copied\<close>).
\<close>

section \<open>Bytes and prefixes\<close>

definition lowerASCII :: "char \<Rightarrow> char" where
  "lowerASCII b =
    (if (of_char CHR ''A'' :: nat) \<le> of_char b \<and> (of_char b :: nat) \<le> of_char CHR ''Z''
     then char_of (of_char b + (of_char CHR ''a'' - of_char CHR ''A'') :: nat) else b)"

definition isSpace :: "char \<Rightarrow> bool" where
  "isSpace b \<longleftrightarrow> b \<in> {CHR '' '', CHR 0x09, CHR 0x0A, CHR 0x0D, CHR 0x0C}"

definition isURLTerminalByte :: "char \<Rightarrow> bool" where
  "isURLTerminalByte b \<longleftrightarrow> b \<in> {CHR 0x22, CHR 0x27, CHR 0x60, CHR '')'', CHR '','', CHR '';'', CHR '' '', CHR 0x09, CHR 0x0A, CHR 0x0D, CHR 0x0C}"

definition urlHasPathPrefix :: "string \<Rightarrow> string \<Rightarrow> bool" where
  "urlHasPathPrefix u prefix \<longleftrightarrow>
    (if u = [] \<or> prefix = [] then False
     else if \<not> HasPrefix u prefix then False
     else if length u = length prefix then True
     else u ! length prefix \<in> {CHR ''/'', CHR ''?'', CHR ''#''} \<or> isURLTerminalByte (u ! length prefix))"

definition normalizePrefix :: "string \<Rightarrow> string" where
  "normalizePrefix prefix =
    (let p = TrimSpace prefix in
     if p = '''' \<or> p = ''/'' then ''''
     else let q = TrimRightSlash (if \<not> HasPrefix p ''/'' then ''/'' @ p else p) in
          if q = '''' \<or> q = ''/'' then '''' else q)"

text \<open>\<open>nil\<close> is the empty prefix: \<open>normalizePrefix\<close> returns a non-empty string otherwise.\<close>

definition normalizedPrefixBytes :: "string \<Rightarrow> string option" where
  "normalizedPrefixBytes prefix = (let p = normalizePrefix prefix in if p = '''' then None else Some p)"

section \<open>Quoted and CSS root-absolute paths\<close>

text \<open>\<open>in[a:b]\<close>\<close>

definition subslice :: "string \<Rightarrow> nat \<Rightarrow> nat \<Rightarrow> string" where
  "subslice s a b = take (b - a) (drop a s)"

function skipSpaces :: "string \<Rightarrow> nat \<Rightarrow> nat" where
  "skipSpaces s j = (if j < length s \<and> isSpace (s ! j) then skipSpaces s (j + 1) else j)"
  by pat_completeness auto
termination by (relation "measure (\<lambda>(s, j). length s - j)") auto

declare skipSpaces.simps [simp del]

definition isQuoteByte :: "char \<Rightarrow> bool" where
  "isQuoteByte b \<longleftrightarrow> b \<in> {CHR 0x22, CHR 0x27, CHR 0x60}"

text \<open>The guards both cases put on the slash at an index: a single slash, not a bare separator, not yet prefixed.\<close>

definition rootSlash :: "string \<Rightarrow> string \<Rightarrow> nat \<Rightarrow> bool" where
  "rootSlash s p slash \<longleftrightarrow>
    \<not> (slash + 1 < length s \<and> s ! (slash + 1) = CHR ''/'')
    \<and> \<not> (slash + 1 < length s \<and> isURLTerminalByte (s ! (slash + 1)))
    \<and> \<not> urlHasPathPrefix (drop slash s) p"

type_synonym scan = "nat \<times> nat \<times> string"

text \<open>The closure \<open>writePrefixAt\<close> followed by \<open>i = slash\<close>.\<close>

definition writePrefixAt :: "string \<Rightarrow> string \<Rightarrow> nat \<Rightarrow> scan \<Rightarrow> scan" where
  "writePrefixAt s p slash st = (case st of (i, copied, out) \<Rightarrow> (slash, slash, out @ subslice s copied slash @ p))"

text \<open>The \<open>switch in[i]\<close>: \<open>None\<close> is its \<open>continue\<close>.\<close>

definition quoteCase :: "string \<Rightarrow> string \<Rightarrow> scan \<Rightarrow> scan option" where
  "quoteCase s p st =
    (let i = fst st in
     if isQuoteByte (s ! i) then
       if 0 < i \<and> s ! (i - 1) = CHR 0x5C then None
       else if s ! (i + 1) \<noteq> CHR ''/'' then None
       else if \<not> rootSlash s p (i + 1) then None
       else Some (writePrefixAt s p (i + 1) st)
     else Some st)"

text \<open>The slash of an unquoted \<open>url( /\<close> that begins at \<open>i\<close>.\<close>

definition cssSlash :: "string \<Rightarrow> nat \<Rightarrow> nat option" where
  "cssSlash s i =
    (if lowerASCII (s ! i) \<noteq> CHR ''u'' \<or> length s \<le> i + 3 then None
     else if lowerASCII (s ! (i + 1)) \<noteq> CHR ''r'' \<or> lowerASCII (s ! (i + 2)) \<noteq> CHR ''l'' then None
     else let j = skipSpaces s (i + 3) in
       if length s \<le> j \<or> s ! j \<noteq> CHR ''('' then None
       else let k = skipSpaces s (j + 1) in
         if length s \<le> k \<or> s ! k \<noteq> CHR ''/'' then None else Some k)"

definition cssCase :: "string \<Rightarrow> string \<Rightarrow> scan \<Rightarrow> scan" where
  "cssCase s p st =
    (case cssSlash s (fst st) of
       None \<Rightarrow> st
     | Some slash \<Rightarrow> if rootSlash s p slash then writePrefixAt s p slash st else st)"

definition rootStep :: "string \<Rightarrow> string \<Rightarrow> scan \<Rightarrow> scan" where
  "rootStep s p st = (case quoteCase s p st of None \<Rightarrow> st | Some st' \<Rightarrow> cssCase s p st')"

lemma skipSpaces_ge: "j \<le> skipSpaces s j"
proof (induction s j rule: skipSpaces.induct)
  case (1 s j)
  then show ?case by (subst skipSpaces.simps) auto
qed

lemma cssSlash_gt: "cssSlash s i = Some k \<Longrightarrow> i + 3 < k \<and> k < length s \<and> s ! k = CHR ''/''"
  using skipSpaces_ge [of "i + 3" s] skipSpaces_ge [of "skipSpaces s (i + 3) + 1" s]
  by (auto simp: cssSlash_def Let_def split: if_splits)

lemma rootStep_advances: "i \<le> fst (rootStep s p (i, copied, out))"
proof -
  have css: "fst st \<le> fst (cssCase s p st)" for st
    using cssSlash_gt by (auto simp: cssCase_def writePrefixAt_def split: option.splits prod.splits) fastforce
  have "quoteCase s p (i, copied, out) = Some st \<Longrightarrow> i \<le> fst st" for st
    by (auto simp: quoteCase_def writePrefixAt_def Let_def split: if_splits)
  then show ?thesis using css order_trans by (fastforce simp: rootStep_def split: option.splits)
qed

function rootLoop :: "string \<Rightarrow> string \<Rightarrow> scan \<Rightarrow> scan" where
  "rootLoop s p st =
    (if fst st + 1 < length s then (case rootStep s p st of (i, copied, out) \<Rightarrow> rootLoop s p (i + 1, copied, out)) else st)"
  by pat_completeness auto
termination
  apply (relation "measure (\<lambda>(s, p, st). length s - fst st)")
  subgoal by simp
  subgoal for s p st
    using rootStep_advances [of "fst st" s p "fst (snd st)" "snd (snd st)"] by (cases "rootStep s p st") auto
  done

declare rootLoop.simps [simp del]

definition rewriteRootAbsolutePaths :: "string \<Rightarrow> string \<Rightarrow> string" where
  "rewriteRootAbsolutePaths s prefix =
    (case normalizedPrefixBytes prefix of
       None \<Rightarrow> s
     | Some p \<Rightarrow>
       if s = [] then s
       else case rootLoop s p (0, 0, []) of (i, copied, out) \<Rightarrow> if copied = 0 then s else out @ drop copied s)"

section \<open>The candidates of a \<open>srcset\<close> attribute\<close>

text \<open>The loop \<open>for k >= 0 && isSpace(val[k]) { k-- }\<close>, with \<open>k + 1\<close> for \<open>k\<close>.\<close>

fun skipBack :: "string \<Rightarrow> nat \<Rightarrow> nat" where
  "skipBack val 0 = 0"
| "skipBack val (Suc k) = (if isSpace (val ! k) then skipBack val k else Suc k)"

definition candidateStart :: "string \<Rightarrow> nat \<Rightarrow> bool" where
  "candidateStart val i \<longleftrightarrow> i = 0 \<or> (let k = skipBack val i in k = 0 \<or> val ! (k - 1) = CHR '','')"

definition srcsetStep :: "string \<Rightarrow> string \<Rightarrow> nat \<Rightarrow> nat \<times> string \<Rightarrow> nat \<times> string" where
  "srcsetStep val prefix i st =
    (if val ! i \<noteq> CHR ''/'' then st
     else if i + 1 < length val \<and> val ! (i + 1) = CHR ''/'' then st
     else if \<not> candidateStart val i then st
     else if urlHasPathPrefix (drop i val) prefix then st
     else case st of (copied, out) \<Rightarrow> (i, out @ subslice val copied i @ prefix))"

definition rewriteSrcsetValue :: "string \<Rightarrow> string \<Rightarrow> string" where
  "rewriteSrcsetValue val prefix =
    (if val = [] \<or> prefix = [] then val
     else case fold (srcsetStep val prefix) [0..<length val] (0, []) of
       (copied, out) \<Rightarrow> if copied = 0 then val else out @ drop copied val)"

text \<open>What a position of the text holds: no attribute (\<open>continue\<close>), an attribute that never ends
  (\<open>break\<close>), or the bounds of a quoted value.\<close>

datatype srcsetAttr = NoAttr | Unclosed | AttrValue nat nat

definition lowerAt :: "string \<Rightarrow> nat \<Rightarrow> string \<Rightarrow> bool" where
  "lowerAt s j needle \<longleftrightarrow> map lowerASCII (subslice s j (j + length needle)) = needle"

function indexByteFrom :: "string \<Rightarrow> char \<Rightarrow> nat \<Rightarrow> nat" where
  "indexByteFrom s c j = (if j < length s \<and> s ! j \<noteq> c then indexByteFrom s c (j + 1) else j)"
  by pat_completeness auto
termination by (relation "measure (\<lambda>(s, c, j). length s - j)") auto

declare indexByteFrom.simps [simp del]

definition srcsetAt :: "string \<Rightarrow> nat \<Rightarrow> srcsetAttr" where
  "srcsetAt s i =
    (if length s \<le> i + 6 \<or> \<not> lowerAt s i ''srcset'' then NoAttr
     else let j = skipSpaces s (i + 6) in
       if length s \<le> j \<or> s ! j \<noteq> CHR ''='' then NoAttr
       else let k = skipSpaces s (j + 1) in
         if length s \<le> k then Unclosed
         else if s ! k \<notin> {CHR 0x22, CHR 0x27} then NoAttr
         else let valEnd = indexByteFrom s (s ! k) (k + 1) in
           if length s \<le> valEnd then Unclosed else AttrValue (k + 1) valEnd)"

lemma indexByteFrom_ge: "j \<le> indexByteFrom s c j"
proof (induction s c j rule: indexByteFrom.induct)
  case (1 s c j)
  then show ?case by (subst indexByteFrom.simps) auto
qed

lemma srcsetAt_bounds: "srcsetAt s i = AttrValue a b \<Longrightarrow> i < a \<and> a \<le> b \<and> b < length s"
proof -
  assume h: "srcsetAt s i = AttrValue a b"
  let ?k = "skipSpaces s (skipSpaces s (i + 6) + 1)"
  have "a = ?k + 1" "b = indexByteFrom s (s ! ?k) (?k + 1)" "b < length s"
    using h by (auto simp: srcsetAt_def Let_def split: if_splits)
  then show ?thesis
    using skipSpaces_ge [of "i + 6" s] skipSpaces_ge [of "skipSpaces s (i + 6) + 1" s] indexByteFrom_ge [of "?k + 1" s "s ! ?k"]
    by linarith
qed

function srcsetLoop :: "string \<Rightarrow> string \<Rightarrow> nat \<Rightarrow> nat \<Rightarrow> string \<Rightarrow> bool \<Rightarrow> nat \<times> string \<times> bool" where
  "srcsetLoop s p i copied out modified =
    (if i < length s then
       case srcsetAt s i of
         NoAttr \<Rightarrow> srcsetLoop s p (i + 1) copied out modified
       | Unclosed \<Rightarrow> (copied, out, modified)
       | AttrValue valStart valEnd \<Rightarrow>
         let val = subslice s valStart valEnd; newVal = rewriteSrcsetValue val p in
         if val = newVal then srcsetLoop s p (valEnd + 1) copied out modified
         else srcsetLoop s p (valEnd + 1) valEnd (out @ subslice s copied valStart @ newVal) True
     else (copied, out, modified))"
  by pat_completeness auto
termination
  apply (relation "measure (\<lambda>(s, p, i, _). length s - i)")
  subgoal by simp
  subgoal by simp
  subgoal using srcsetAt_bounds by fastforce
  subgoal using srcsetAt_bounds by fastforce
  done

declare srcsetLoop.simps [simp del]

definition rewriteHTMLSrcset :: "string \<Rightarrow> string \<Rightarrow> string" where
  "rewriteHTMLSrcset s prefix =
    (case normalizedPrefixBytes prefix of
       None \<Rightarrow> s
     | Some p \<Rightarrow> (case srcsetLoop s p 0 0 [] False of (copied, out, modified) \<Rightarrow> if \<not> modified then s else out @ drop copied s))"

section \<open>HTML: inline scripts are left out\<close>

definition tagNameEnds :: "string \<Rightarrow> nat \<Rightarrow> bool" where
  "tagNameEnds s e \<longleftrightarrow> length s \<le> e \<or> s ! e \<in> {CHR ''>'', CHR ''/''} \<or> isSpace (s ! e)"

definition scriptOpenAt :: "string \<Rightarrow> nat \<Rightarrow> bool" where
  "scriptOpenAt s i \<longleftrightarrow> s ! i = CHR ''<'' \<and> s ! (i + 1) \<noteq> CHR ''/'' \<and> lowerAt s (i + 1) ''script'' \<and> tagNameEnds s (i + 7)"

text \<open>The loop runs while \<open>i + 1 + 6 \<le> len(in)\<close>.\<close>

definition indexHTMLScriptOpen :: "string \<Rightarrow> nat \<Rightarrow> nat option" where
  "indexHTMLScriptOpen s from = find (scriptOpenAt s) [from..<length s - 6]"

definition scriptCloseAt :: "string \<Rightarrow> nat \<Rightarrow> bool" where
  "scriptCloseAt s i \<longleftrightarrow> s ! i = CHR ''<'' \<and> s ! (i + 1) = CHR ''/'' \<and> lowerAt s (i + 2) ''script'' \<and> tagNameEnds s (i + 8)"

definition indexHTMLScriptClose :: "string \<Rightarrow> nat \<Rightarrow> nat option" where
  "indexHTMLScriptClose s from = find (scriptCloseAt s) [from..<length s - 7]"

text \<open>The scan for the end of a tag, \<open>quote\<close> being the quote the scan is inside of, if any.\<close>

fun tagEndFrom :: "char option \<Rightarrow> nat \<Rightarrow> string \<Rightarrow> nat option" where
  "tagEndFrom quote i [] = None"
| "tagEndFrom (Some q) i (c # cs) = tagEndFrom (if c = q then None else Some q) (i + 1) cs"
| "tagEndFrom None i (c # cs) =
    (if c \<in> {CHR 0x22, CHR 0x27} then tagEndFrom (Some c) (i + 1) cs
     else if c = CHR ''>'' then Some i
     else tagEndFrom None (i + 1) cs)"

definition findHTMLTagEnd :: "string \<Rightarrow> nat \<Rightarrow> nat option" where
  "findHTMLTagEnd s start = tagEndFrom None start (drop start s)"

lemma tagEndFrom_bounds: "tagEndFrom q i cs = Some e \<Longrightarrow> i \<le> e \<and> e < i + length cs"
  by (induction q i cs rule: tagEndFrom.induct) (auto split: if_splits)

lemma findHTMLTagEnd_bounds: "findHTMLTagEnd s a = Some e \<Longrightarrow> a \<le> e \<and> e < length s"
  using tagEndFrom_bounds [of None a "drop a s" e] by (fastforce simp: findHTMLTagEnd_def)

lemma find_upt_Some: "find P [a..<b] = Some i \<longleftrightarrow> a \<le> i \<and> i < b \<and> P i \<and> (\<forall>k. a \<le> k \<and> k < i \<longrightarrow> \<not> P k)"
proof
  assume "find P [a..<b] = Some i"
  then obtain j where j: "j < b - a" "P ([a..<b] ! j)" "i = [a..<b] ! j" "\<forall>k<j. \<not> P ([a..<b] ! k)"
    by (auto simp: find_Some_iff)
  then have "i = a + j" "\<forall>k<j. \<not> P (a + k)" by auto
  then show "a \<le> i \<and> i < b \<and> P i \<and> (\<forall>k. a \<le> k \<and> k < i \<longrightarrow> \<not> P k)"
    using j by auto (metis le_add_diff_inverse less_diff_conv2 add.commute)
next
  assume h: "a \<le> i \<and> i < b \<and> P i \<and> (\<forall>k. a \<le> k \<and> k < i \<longrightarrow> \<not> P k)"
  then have "i - a < length [a..<b]" "P ([a..<b] ! (i - a))" "[a..<b] ! (i - a) = i" "\<forall>k < i - a. \<not> P ([a..<b] ! k)" by auto
  then show "find P [a..<b] = Some i" unfolding find_Some_iff by metis
qed

text \<open>The loop over the scripts; \<open>None\<close> is its early return, the rewriting of the whole text.\<close>

function htmlLoop :: "string \<Rightarrow> string \<Rightarrow> nat option \<Rightarrow> nat \<Rightarrow> string \<Rightarrow> bool \<Rightarrow> (nat \<times> string \<times> bool) option" where
  "htmlLoop s prefix None copied out modified = Some (copied, out, modified)"
| "htmlLoop s prefix (Some start) copied out modified =
    (case findHTMLTagEnd s start of
       None \<Rightarrow> None
     | Some tagEnd \<Rightarrow>
       (case indexHTMLScriptClose s (tagEnd + 1) of
          None \<Rightarrow> None
        | Some cls \<Rightarrow>
          let seg = subslice s copied (tagEnd + 1); segRewritten = rewriteRootAbsolutePaths seg prefix in
          htmlLoop s prefix (indexHTMLScriptOpen s cls) cls (out @ segRewritten @ subslice s (tagEnd + 1) cls)
            (modified \<or> seg \<noteq> segRewritten)))"
  by pat_completeness auto
termination
proof (relation "measure (\<lambda>(s, _, st, _). case st of None \<Rightarrow> 0 | Some i \<Rightarrow> Suc (length s - i))")
  fix s prefix start copied out modified tagEnd cls seg br
  assume "findHTMLTagEnd s start = Some tagEnd" "indexHTMLScriptClose s (tagEnd + 1) = Some cls"
  then show "((s, prefix, indexHTMLScriptOpen s cls, cls, out @ br @ subslice s (tagEnd + 1) cls, modified \<or> seg \<noteq> br),
      s, prefix, Some start, copied, out, modified)
    \<in> measure (\<lambda>(s, _, st, _). case st of None \<Rightarrow> 0 | Some i \<Rightarrow> Suc (length s - i))"
    using findHTMLTagEnd_bounds [of s start tagEnd]
    by (auto simp: indexHTMLScriptClose_def indexHTMLScriptOpen_def find_upt_Some split: option.split)
qed auto

definition rewriteHTMLRootAbsolutePaths :: "string \<Rightarrow> string \<Rightarrow> string" where
  "rewriteHTMLRootAbsolutePaths s prefix =
    (if s = [] \<or> normalizedPrefixBytes prefix = None then s
     else case indexHTMLScriptOpen s 0 of
       None \<Rightarrow> rewriteRootAbsolutePaths s prefix
     | Some start \<Rightarrow>
       (case htmlLoop s prefix (Some start) 0 [] False of
          None \<Rightarrow> rewriteRootAbsolutePaths s prefix
        | Some (copied, out, modified) \<Rightarrow>
          let tail = drop copied s; tailRewritten = rewriteRootAbsolutePaths tail prefix in
          if \<not> (modified \<or> tail \<noteq> tailRewritten) then s else out @ tailRewritten))"

section \<open>Which responses are rewritten\<close>

definition isJavaScriptContentType :: "string \<Rightarrow> bool" where
  "isJavaScriptContentType ct \<longleftrightarrow>
    ct \<in> {''application/javascript'', ''application/x-javascript'', ''text/javascript'', ''text/ecmascript'', ''application/ecmascript''}"

definition isRewritableContentType :: "string \<Rightarrow> bool" where
  "isRewritableContentType ct \<longleftrightarrow>
    (if HasPrefix ct ''text/'' then \<not> isJavaScriptContentType ct
     else ct \<in> {''application/json'', ''application/manifest+json'', ''application/xhtml+xml'', ''image/svg+xml''})"

definition hasSuffix :: "string \<Rightarrow> string \<Rightarrow> bool" where
  "hasSuffix s t \<longleftrightarrow> length t \<le> length s \<and> drop (length s - length t) s = t"

definition inferContentTypeFromPath :: "string \<Rightarrow> string" where
  "inferContentTypeFromPath p0 =
    (let p = TrimSpace p0; q = takeWhile (\<lambda>c. c \<noteq> CHR ''?'') p in
     if p = '''' then ''''
     else if hasSuffix q ''.html'' \<or> hasSuffix q ''.htm'' then ''text/html''
     else if hasSuffix q ''.css'' then ''text/css''
     else if hasSuffix q ''.js'' \<or> hasSuffix q ''.mjs'' then ''application/javascript''
     else if hasSuffix q ''.json'' then ''application/json''
     else if hasSuffix q ''.webmanifest'' then ''application/manifest+json''
     else if hasSuffix q ''.svg'' then ''image/svg+xml''
     else '''')"

definition rewriteTextPayload :: "string \<Rightarrow> string \<Rightarrow> string \<Rightarrow> string" where
  "rewriteTextPayload contentType s prefix =
    (if contentType = ''text/html'' \<or> contentType = ''application/xhtml+xml''
     then rewriteHTMLSrcset (rewriteHTMLRootAbsolutePaths s prefix) prefix
     else rewriteRootAbsolutePaths s prefix)"

section \<open>The reference: which slashes get the prefix\<close>

text \<open>
  A slash is prefixed when the text to its left opens a URL and the text from the slash on is a
  single, bare, not yet prefixed root-absolute path. \<open>ctx\<close> is the text to the left, reversed.
\<close>

definition quotedCtx :: "string \<Rightarrow> bool" where
  "quotedCtx ctx \<longleftrightarrow> ctx \<noteq> [] \<and> isQuoteByte (hd ctx) \<and> \<not> (tl ctx \<noteq> [] \<and> hd (tl ctx) = CHR 0x5C)"

definition cssCtx :: "string \<Rightarrow> bool" where
  "cssCtx ctx \<longleftrightarrow>
    (let c = dropWhile isSpace ctx in
     c \<noteq> [] \<and> hd c = CHR ''('' \<and> map lowerASCII (take 3 (dropWhile isSpace (tl c))) = ''lru'')"

definition opened :: "string \<Rightarrow> bool" where
  "opened ctx \<longleftrightarrow> quotedCtx ctx \<or> cssCtx ctx"

fun mark :: "string \<Rightarrow> string \<Rightarrow> string \<Rightarrow> string" where
  "mark p ctx [] = []"
| "mark p ctx (c # t) =
    (if opened ctx \<and> c = CHR ''/'' \<and> rootSlash (c # t) p 0 then p else []) @ c # mark p (c # ctx) t"

lemma lowerASCII_space [simp]: "isSpace b \<Longrightarrow> lowerASCII b = b"
  by (auto simp: isSpace_def lowerASCII_def)

lemma isSpace_chars [simp]:
  "\<not> isSpace CHR ''/''" "\<not> isSpace CHR ''(''" "\<not> isSpace CHR ''=''" "\<not> isSpace CHR ''u''" "\<not> isSpace CHR ''r''" "\<not> isSpace CHR ''l''"
  by (simp_all add: isSpace_def)

lemma lowerASCII_chars [simp]: "lowerASCII CHR ''/'' = CHR ''/''" "lowerASCII CHR ''('' = CHR ''(''"
  by (simp_all add: lowerASCII_def)

lemma not_space_if_letter: "lowerASCII b \<in> {CHR ''u'', CHR ''r'', CHR ''l''} \<Longrightarrow> \<not> isSpace b \<and> b \<noteq> CHR ''/'' \<and> b \<noteq> CHR ''(''"
  by (cases "isSpace b") (use isSpace_chars lowerASCII_chars in fastforce)+

lemma isQuoteByte_facts: "isQuoteByte b \<Longrightarrow> \<not> isSpace b \<and> b \<noteq> CHR ''/'' \<and> b \<noteq> CHR ''('' \<and> lowerASCII b = b"
  by (auto simp: isQuoteByte_def isSpace_def lowerASCII_def)

lemma rootSlash_drop: "k < length s \<Longrightarrow> rootSlash s p k = rootSlash (drop k s) p 0"
  by (auto simp: rootSlash_def less_diff_conv add.commute)

lemma skipSpaces_eq: "skipSpaces s j = j + length (takeWhile isSpace (drop j s))"
proof (induction s j rule: skipSpaces.induct)
  case (1 s j)
  show ?case
  proof (cases "j < length s")
    case True
    then have d: "drop j s = s ! j # drop (j + 1) s" by (simp add: Cons_nth_drop_Suc)
    show ?thesis using 1 True by (subst skipSpaces.simps) (simp add: d)
  next
    case False
    then show ?thesis by (subst skipSpaces.simps) simp
  qed
qed

definition cssText :: "string \<Rightarrow> string \<Rightarrow> string \<Rightarrow> bool" where
  "cssText u sp1 sp2 \<longleftrightarrow> map lowerASCII u = ''url'' \<and> list_all isSpace sp1 \<and> list_all isSpace sp2"

lemma cssSlash_decomp:
  assumes "cssSlash s i = Some k"
  shows "\<exists>u sp1 sp2. cssText u sp1 sp2 \<and> take k s = take i s @ u @ sp1 @ ''('' @ sp2"
proof -
  let ?j = "skipSpaces s (i + 3)" and ?sp1 = "takeWhile isSpace (drop (i + 3) s)"
  let ?sp2 = "takeWhile isSpace (drop (?j + 1) s)" and ?u = "take 3 (drop i s)"
  have g: "i + 3 < length s" "?j < length s" "s ! ?j = CHR ''(''" "k = skipSpaces s (?j + 1)" "k < length s"
    "lowerASCII (s ! i) = CHR ''u''" "lowerASCII (s ! (i + 1)) = CHR ''r''" "lowerASCII (s ! (i + 2)) = CHR ''l''"
    using assms by (auto simp: cssSlash_def Let_def split: if_splits)
  have u: "?u = [s ! i, s ! (i + 1), s ! (i + 2)]"
    using g(1) by (simp add: numeral_3_eq_3 take_Suc_conv_app_nth flip: Cons_nth_drop_Suc)
  have tk: "take (n + length (takeWhile isSpace (drop n s))) s = take n s @ takeWhile isSpace (drop n s)" for n
    by (metis take_add takeWhile_eq_take)
  have 1: "take (i + 3) s = take i s @ ?u" by (simp add: take_add)
  have 2: "take ?j s = take (i + 3) s @ ?sp1" using tk [of "i + 3"] by (simp add: skipSpaces_eq)
  have 3: "take (?j + 1) s = take ?j s @ ''(''" using g(2,3) by (simp add: take_Suc_conv_app_nth)
  have 4: "take k s = take (?j + 1) s @ ?sp2" using tk [of "?j + 1"] g(4) by (metis skipSpaces_eq)
  have "list_all isSpace (takeWhile isSpace xs)" for xs by (auto simp: list_all_iff dest: set_takeWhileD)
  then have "cssText ?u ?sp1 ?sp2" using u g by (simp add: cssText_def)
  moreover have "take k s = take i s @ ?u @ ?sp1 @ ''('' @ ?sp2" using 1 2 3 4 by simp
  ultimately show ?thesis by blast
qed

lemma takeWhile_spaces: "list_all isSpace sp \<Longrightarrow> \<not> isSpace c \<Longrightarrow> takeWhile isSpace (sp @ c # t) = sp \<and> dropWhile isSpace (sp @ c # t) = c # t"
  by (induction sp) auto

lemma cssSlash_compose:
  assumes "cssText u sp1 sp2" "s = a @ u @ sp1 @ ''('' @ sp2 @ ''/'' @ t"
  shows "cssSlash s (length a) = Some (length (a @ u @ sp1 @ ''('' @ sp2))"
proof -
  obtain x y z where u: "u = [x, y, z]" "lowerASCII x = CHR ''u''" "lowerASCII y = CHR ''r''" "lowerASCII z = CHR ''l''"
    using assms(1) by (auto simp: cssText_def map_eq_Cons_conv)
  have s: "s = a @ x # y # z # sp1 @ CHR ''('' # sp2 @ CHR ''/'' # t" using assms(2) u by simp
  have n: "s ! length a = x" "s ! (length a + 1) = y" "s ! (length a + 2) = z" unfolding s by (simp_all add: nth_append)
  have sp: "list_all isSpace sp1" "list_all isSpace sp2" using assms(1) by (simp_all add: cssText_def)
  have j: "skipSpaces s (length a + 3) = length a + 3 + length sp1"
    using takeWhile_spaces [OF sp(1), of "CHR ''(''" "sp2 @ CHR ''/'' # t"] unfolding skipSpaces_eq s by simp
  have d: "s ! (length a + 3 + length sp1) = CHR ''(''" unfolding s by (simp add: nth_append)
  have dr: "drop (length a + 3 + length sp1 + 1) s = sp2 @ CHR ''/'' # t"
    using append_eq_conv_conj [of "a @ x # y # z # sp1 @ ''(''" "sp2 @ CHR ''/'' # t" s] s by (simp add: eval_nat_numeral)
  have k: "skipSpaces s (length a + 3 + length sp1 + 1) = length a + 4 + length sp1 + length sp2"
    using takeWhile_spaces [OF sp(2), of "CHR ''/''" t] dr unfolding skipSpaces_eq by simp
  have e: "s ! (length a + 4 + length sp1 + length sp2) = CHR ''/''" unfolding s by (simp add: nth_append)
  have l: "length s = length a + 5 + length sp1 + length sp2 + length t" unfolding s by simp
  show ?thesis unfolding cssSlash_def n u(2-) j Let_def d k e using l u(1) by simp
qed

lemma cssCtx_iff: "cssCtx ctx \<longleftrightarrow> (\<exists>u sp1 sp2 a. cssText u sp1 sp2 \<and> rev ctx = a @ u @ sp1 @ ''('' @ sp2)"
proof
  assume h: "cssCtx ctx"
  then obtain r where r: "dropWhile isSpace ctx = CHR ''('' # r" and l: "map lowerASCII (take 3 (dropWhile isSpace r)) = ''lru''"
    by (cases "dropWhile isSpace ctx") (auto simp: cssCtx_def Let_def)
  have all: "list_all isSpace (takeWhile isSpace xs)" for xs by (auto simp: list_all_iff dest: set_takeWhileD)
  have "ctx = takeWhile isSpace ctx @ CHR ''('' # r" "r = takeWhile isSpace r @ take 3 (dropWhile isSpace r) @ drop 3 (dropWhile isSpace r)"
    using r by (metis takeWhile_dropWhile_id, simp)
  then obtain sp2 sp1 u a where c: "ctx = sp2 @ CHR ''('' # sp1 @ u @ a" "list_all isSpace sp1" "list_all isSpace sp2" "map lowerASCII u = ''lru''"
    using all l by metis
  have "map lowerASCII (rev u) = ''url''" using c(4) by (simp flip: rev_map)
  then have "cssText (rev u) (rev sp1) (rev sp2)" using c by (simp add: cssText_def list_all_iff)
  moreover have "rev ctx = rev a @ rev u @ rev sp1 @ ''('' @ rev sp2" using c(1) by simp
  ultimately show "\<exists>u sp1 sp2 a. cssText u sp1 sp2 \<and> rev ctx = a @ u @ sp1 @ ''('' @ sp2" by blast
next
  assume "\<exists>u sp1 sp2 a. cssText u sp1 sp2 \<and> rev ctx = a @ u @ sp1 @ ''('' @ sp2"
  then obtain u sp1 sp2 a where h: "cssText u sp1 sp2" "rev ctx = a @ u @ sp1 @ ''('' @ sp2" by blast
  obtain x y z where u: "u = [x, y, z]" "lowerASCII x = CHR ''u''" "lowerASCII y = CHR ''r''" "lowerASCII z = CHR ''l''"
    using h(1) by (auto simp: cssText_def map_eq_Cons_conv)
  have c: "ctx = rev sp2 @ CHR ''('' # rev sp1 @ z # y # x # rev a" using arg_cong [OF h(2), of rev] u(1) by simp
  have sp: "list_all isSpace (rev sp1)" "list_all isSpace (rev sp2)" using h(1) by (simp_all add: cssText_def list_all_iff)
  have z: "\<not> isSpace z" using not_space_if_letter [of z] u by simp
  show "cssCtx ctx"
    using takeWhile_spaces [OF sp(2), of "CHR ''(''"] takeWhile_spaces [OF sp(1) z] u unfolding c cssCtx_def Let_def by simp
qed

text \<open>\<open>opens s i k\<close>: the scan at index \<open>i\<close> looks at the slash at \<open>k\<close>.\<close>

definition opens :: "string \<Rightarrow> nat \<Rightarrow> nat \<Rightarrow> bool" where
  "opens s i k \<longleftrightarrow> (k = i + 1 \<and> isQuoteByte (s ! i) \<and> \<not> (0 < i \<and> s ! (i - 1) = CHR 0x5C)) \<or> cssSlash s i = Some k"

lemma opens_lt: "opens s i k \<Longrightarrow> i < k"
  using cssSlash_gt by (fastforce simp: opens_def)

lemma quotedCtx_iff: "k < length s \<Longrightarrow> quotedCtx (rev (take k s)) \<longleftrightarrow> 0 < k \<and> isQuoteByte (s ! (k - 1)) \<and> \<not> (0 < k - 1 \<and> s ! (k - 1 - 1) = CHR 0x5C)"
proof (cases k)
  case (Suc m)
  assume "k < length s"
  then have r: "rev (take k s) = s ! m # rev (take m s)" using Suc by (simp add: take_Suc_conv_app_nth)
  show ?thesis
  proof (cases m)
    case 0
    then show ?thesis using Suc r by (simp add: quotedCtx_def)
  next
    case (Suc n)
    then have "rev (take m s) = s ! n # rev (take n s)" using \<open>k < length s\<close> \<open>k = Suc m\<close> by (simp add: take_Suc_conv_app_nth)
    then show ?thesis using Suc \<open>k = Suc m\<close> r by (simp add: quotedCtx_def)
  qed
qed (simp add: quotedCtx_def)

lemma opened_iff:
  assumes "k < length s" "s ! k = CHR ''/''"
  shows "opened (rev (take k s)) \<longleftrightarrow> (\<exists>i. opens s i k)"
proof -
  have "cssCtx (rev (take k s)) \<longleftrightarrow> (\<exists>i. cssSlash s i = Some k)"
  proof
    assume "cssCtx (rev (take k s))"
    then obtain u sp1 sp2 a where h: "cssText u sp1 sp2" "take k s = a @ u @ sp1 @ ''('' @ sp2" by (auto simp: cssCtx_iff)
    have "s = a @ u @ sp1 @ ''('' @ sp2 @ ''/'' @ drop (k + 1) s"
      using h(2) id_take_nth_drop [OF assms(1)] assms(2) by simp
    moreover have "k = length (a @ u @ sp1 @ ''('' @ sp2)" using arg_cong [OF h(2), of length] assms(1) by simp
    ultimately show "\<exists>i. cssSlash s i = Some k" using cssSlash_compose [OF h(1)] by blast
  next
    assume "\<exists>i. cssSlash s i = Some k"
    then obtain i where "cssSlash s i = Some k" ..
    from cssSlash_decomp [OF this] show "cssCtx (rev (take k s))" unfolding cssCtx_iff rev_rev_ident by metis
  qed
  moreover have "quotedCtx (rev (take k s)) \<longleftrightarrow> (\<exists>i. k = i + 1 \<and> isQuoteByte (s ! i) \<and> \<not> (0 < i \<and> s ! (i - 1) = CHR 0x5C))"
    unfolding quotedCtx_iff [OF assms(1)] by (metis add.commute add_diff_cancel_left' less_add_one not_gr_zero plus_1_eq_Suc Suc_pred bot_nat_0.not_eq_extremum zero_less_Suc)
  ultimately show ?thesis unfolding opened_def opens_def by blast
qed

text \<open>The positions the reference marks.\<close>

definition marked :: "string \<Rightarrow> string \<Rightarrow> nat \<Rightarrow> bool" where
  "marked s p k \<longleftrightarrow> s ! k = CHR ''/'' \<and> rootSlash s p k \<and> (\<exists>i. opens s i k)"

lemma mark_at:
  assumes "k < length s"
  shows "mark p (rev (take k s)) (drop k s) = (if marked s p k then p else []) @ s ! k # mark p (rev (take (k + 1) s)) (drop (k + 1) s)"
proof -
  have d: "drop k s = s ! k # drop (k + 1) s" using assms by (simp add: Cons_nth_drop_Suc)
  have t: "rev (take (k + 1) s) = s ! k # rev (take k s)" using assms by (simp add: take_Suc_conv_app_nth)
  have "opened (rev (take k s)) \<and> s ! k = CHR ''/'' \<and> rootSlash (drop k s) p 0 \<longleftrightarrow> marked s p k"
    using opened_iff [OF assms] rootSlash_drop [OF assms, of p] by (auto simp: marked_def)
  then show ?thesis unfolding d t mark.simps by simp
qed

lemma mark_skip:
  assumes "i \<le> j" "j \<le> length s" "\<forall>k. i \<le> k \<and> k < j \<longrightarrow> \<not> marked s p k"
  shows "mark p (rev (take i s)) (drop i s) = subslice s i j @ mark p (rev (take j s)) (drop j s)"
  using assms
proof (induction "j - i" arbitrary: i)
  case 0
  then show ?case by (simp add: subslice_def)
next
  case (Suc n)
  then have "mark p (rev (take i s)) (drop i s) = s ! i # mark p (rev (take (i + 1) s)) (drop (i + 1) s)" using mark_at [of i s p] by auto
  moreover have "mark p (rev (take (i + 1) s)) (drop (i + 1) s) = subslice s (i + 1) j @ mark p (rev (take j s)) (drop j s)"
    using Suc by (intro Suc.hyps(1)) auto
  moreover have "subslice s i j = s ! i # subslice s (i + 1) j"
  proof -
    have "drop i s = s ! i # drop (i + 1) s" "j - i = Suc (j - (i + 1))" using Suc by (auto simp: Cons_nth_drop_Suc)
    then show ?thesis by (simp add: subslice_def)
  qed
  ultimately show ?case by simp
qed

lemma subslice_join: "a \<le> b \<Longrightarrow> b \<le> c \<Longrightarrow> subslice s a b @ subslice s b c = subslice s a c"
proof -
  assume "a \<le> b" "b \<le> c"
  then have "c - a = (b - a) + (c - b)" "drop b s = drop (b - a) (drop a s)" by auto
  then show ?thesis by (simp add: subslice_def take_add)
qed

lemma cssSlash_between:
  assumes "cssSlash s i = Some k" "i < m" "m \<le> k"
  shows "\<not> isQuoteByte (s ! m) \<and> lowerASCII (s ! m) \<noteq> CHR ''u''"
proof -
  have k: "k < length s" "s ! k = CHR ''/''" using cssSlash_gt [OF assms(1)] by auto
  obtain u sp1 sp2 where d: "cssText u sp1 sp2" "take k s = take i s @ u @ sp1 @ ''('' @ sp2" using cssSlash_decomp [OF assms(1)] by blast
  obtain x y z where u: "u = [x, y, z]" "lowerASCII y = CHR ''r''" "lowerASCII z = CHR ''l''"
    using d(1) by (auto simp: cssText_def map_eq_Cons_conv)
  have lt: "length (take i s) = i" using cssSlash_gt [OF assms(1)] by simp
  have "s ! m \<in> set (y # z # sp1 @ ''('' @ sp2 @ ''/'')"
  proof (cases "m = k")
    case False
    then have "s ! m = (take i s @ x # y # z # sp1 @ ''('' @ sp2) ! m" using d(2) u(1) assms(3) nth_take [of m k s] by simp
    also have "\<dots> = (y # z # sp1 @ ''('' @ sp2) ! (m - i - 1)" using assms(2) lt by (simp add: nth_append nth_Cons')
    also have "\<dots> \<in> set (y # z # sp1 @ ''('' @ sp2)"
    proof (rule nth_mem)
      have "k = i + length (x # y # z # sp1 @ ''('' @ sp2)" using arg_cong [OF d(2), of length] k(1) lt u(1) by simp
      then show "m - i - 1 < length (y # z # sp1 @ ''('' @ sp2)" using assms(2,3) False by simp
    qed
    finally show ?thesis by auto
  qed (use k in simp)
  then consider "isSpace (s ! m)" | "lowerASCII (s ! m) \<in> {CHR ''r'', CHR ''l''}" | "s ! m \<in> {CHR ''('', CHR ''/''}"
    using d(1) u(2,3) by (auto simp: cssText_def list_all_iff)
  then show ?thesis
  proof cases
    case 1
    then show ?thesis by (auto simp: isSpace_def isQuoteByte_def lowerASCII_def)
  next
    case 2
    then show ?thesis by (auto simp: isQuoteByte_def lowerASCII_def)
  next
    case 3
    then show ?thesis by (auto simp: isQuoteByte_def)
  qed
qed

text \<open>The loop keeps: what is written and copied so far, followed by the marking of the rest, is the marking
  of the whole text; and a slash ahead that is still to be marked is opened ahead.\<close>

definition scan_inv :: "string \<Rightarrow> string \<Rightarrow> scan \<Rightarrow> bool" where
  "scan_inv s p st \<longleftrightarrow> (case st of (i, copied, out) \<Rightarrow>
    i \<le> length s \<and> copied \<le> i \<and> (copied = 0 \<longrightarrow> out = [])
    \<and> out @ subslice s copied i @ mark p (rev (take i s)) (drop i s) = mark p [] s
    \<and> (\<forall>q k. opens s q k \<longrightarrow> i \<le> k \<longrightarrow> k < length s \<longrightarrow> s ! k = CHR ''/'' \<longrightarrow> rootSlash s p k \<longrightarrow> i \<le> q))"

lemma scan_inv_init: "scan_inv s p (0, 0, [])"
  by (simp add: scan_inv_def subslice_def)

lemma marked_opener: "scan_inv s p (i, copied, out) \<Longrightarrow> marked s p k \<Longrightarrow> i \<le> k \<Longrightarrow> k < length s \<Longrightarrow> \<exists>q. opens s q k \<and> i \<le> q"
  unfolding scan_inv_def marked_def by auto

text \<open>An iteration that writes nothing: the slash opened at \<open>i\<close>, if any, fails the guards.\<close>

lemma scan_inv_pass:
  assumes "scan_inv s p (i, copied, out)" "i < length s" "\<forall>k. opens s i k \<longrightarrow> k < length s \<longrightarrow> s ! k = CHR ''/'' \<longrightarrow> \<not> rootSlash s p k"
  shows "scan_inv s p (i + 1, copied, out)"
proof -
  have "\<not> marked s p i" using marked_opener [OF assms(1), of i] opens_lt assms(2) by fastforce
  then have 1: "mark p (rev (take i s)) (drop i s) = subslice s i (i + 1) @ mark p (rev (take (i + 1) s)) (drop (i + 1) s)"
    using assms(2) by (intro mark_skip) (auto simp: le_less_Suc_eq)
  have 2: "subslice s copied i @ subslice s i (i + 1) = subslice s copied (i + 1)"
    using assms(1) by (intro subslice_join) (auto simp: scan_inv_def)
  have "out @ subslice s copied (i + 1) @ mark p (rev (take (i + 1) s)) (drop (i + 1) s) = mark p [] s"
    using assms(1) 1 2 [symmetric] unfolding scan_inv_def by simp
  moreover have "i + 1 \<le> q" if "opens s q k" "i + 1 \<le> k" "k < length s" "s ! k = CHR ''/''" "rootSlash s p k" for q k
  proof -
    have "i \<le> q" using assms(1) that unfolding scan_inv_def by auto
    moreover have "q \<noteq> i" using assms(3) that by auto
    ultimately show ?thesis by simp
  qed
  ultimately show ?thesis using assms(1,2) unfolding scan_inv_def by auto
qed

text \<open>An iteration that prefixes the slash opened at \<open>i\<close>; nothing between the two opens a URL.\<close>

lemma scan_inv_write:
  assumes inv: "scan_inv s p (i, copied, out)" and k: "opens s i k" "k < length s" "s ! k = CHR ''/''" "rootSlash s p k"
    and gap: "\<forall>m. i < m \<and> m \<le> k \<longrightarrow> (\<forall>k'. \<not> opens s m k')" and only: "\<forall>k'. opens s i k' \<longrightarrow> k' = k"
  shows "scan_inv s p (k + 1, k, out @ subslice s copied k @ p)"
proof -
  have ik: "i < k" using opens_lt [OF k(1)] .
  have later: "Suc k \<le> q" if "opens s q k'" "Suc k \<le> k'" "k' < length s" "s ! k' = CHR ''/''" "rootSlash s p k'" for q k'
  proof -
    have "i \<le> q" using inv that ik unfolding scan_inv_def by auto
    moreover have "q \<noteq> i" using only that by auto
    moreover have "\<not> (i < q \<and> q \<le> k)" using gap that(1) by blast
    ultimately show ?thesis by simp
  qed
  have "\<not> marked s p m" if "i \<le> m" "m < k" for m
  proof
    assume m: "marked s p m"
    have "m < length s" using that k(2) by simp
    from marked_opener [OF inv m that(1) this] obtain q where q: "opens s q m" "i \<le> q" by blast
    have "q < m" using opens_lt [OF q(1)] .
    have "q \<noteq> i" using only q(1) that(2) by auto
    then have "i < q \<and> q \<le> k" using q \<open>q < m\<close> that(2) by simp
    then show False using gap q(1) by blast
  qed
  then have 1: "mark p (rev (take i s)) (drop i s) = subslice s i k @ mark p (rev (take k s)) (drop k s)"
    using ik k(2) by (intro mark_skip) auto
  have "marked s p k" using k by (auto simp: marked_def)
  then have 2: "mark p (rev (take k s)) (drop k s) = p @ s ! k # mark p (rev (take (k + 1) s)) (drop (k + 1) s)"
    using mark_at [OF k(2), of p] by simp
  have 3: "subslice s copied i @ subslice s i k = subslice s copied k"
    using inv ik by (intro subslice_join) (auto simp: scan_inv_def)
  have 4: "subslice s k (k + 1) = [s ! k]" using k(2) by (simp add: subslice_def take_Suc hd_drop_conv_nth)
  have "(out @ subslice s copied k @ p) @ subslice s k (k + 1) @ mark p (rev (take (k + 1) s)) (drop (k + 1) s) = mark p [] s"
    using inv 1 2 3 [symmetric] 4 unfolding scan_inv_def by simp
  then show ?thesis using later k(2) ik unfolding scan_inv_def by auto
qed

lemma cssSlash_letter: "lowerASCII (s ! i) \<noteq> CHR ''u'' \<Longrightarrow> cssSlash s i = None"
  by (simp add: cssSlash_def)

lemma quote_opens: "isQuoteByte (s ! i) \<Longrightarrow> cssSlash s i = None"
  by (rule cssSlash_letter) (auto simp: isQuoteByte_def lowerASCII_def)

lemma scan_inv_step:
  assumes "scan_inv s p (i, copied, out)" "i + 1 < length s" "rootStep s p (i, copied, out) = (i', copied', out')"
  shows "scan_inv s p (i' + 1, copied', out')"
proof (cases "isQuoteByte (s ! i)")
  case True
  note q = quote_opens [OF True]
  let ?w = "\<not> (0 < i \<and> s ! (i - 1) = CHR 0x5C) \<and> s ! (i + 1) = CHR ''/'' \<and> rootSlash s p (i + 1)"
  show ?thesis
  proof (cases ?w)
    case w: True
    have "cssSlash s (i + 1) = None" using w by (intro cssSlash_letter) simp
    then have "(i', copied', out') = writePrefixAt s p (i + 1) (i, copied, out)"
      using assms(3) True w by (auto simp: rootStep_def quoteCase_def cssCase_def writePrefixAt_def Let_def)
    moreover have "scan_inv s p (i + 1 + 1, i + 1, out @ subslice s copied (i + 1) @ p)"
    proof (rule scan_inv_write [OF assms(1)])
      show "\<forall>m. i < m \<and> m \<le> i + 1 \<longrightarrow> (\<forall>k'. \<not> opens s m k')"
      proof (intro allI impI)
        fix m k' assume "i < m \<and> m \<le> i + 1"
        then have "m = i + 1" by simp
        then show "\<not> opens s m k'" using w \<open>cssSlash s (i + 1) = None\<close> by (auto simp: opens_def isQuoteByte_def)
      qed
    qed (use w True assms(2) q in \<open>auto simp: opens_def\<close>)
    ultimately show ?thesis by (simp add: writePrefixAt_def)
  next
    case False
    then have "(i', copied', out') = (i, copied, out)"
      using assms(3) True by (auto simp: rootStep_def quoteCase_def Let_def split: if_splits)
    moreover have "scan_inv s p (i + 1, copied, out)"
      using assms(1,2) False q by (intro scan_inv_pass) (auto simp: opens_def)
    ultimately show ?thesis by simp
  qed
next
  case nq: False
  then have st: "(i', copied', out') = cssCase s p (i, copied, out)" using assms(3) by (simp add: rootStep_def quoteCase_def)
  show ?thesis
  proof (cases "\<exists>k. cssSlash s i = Some k \<and> rootSlash s p k")
    case True
    then obtain k where k: "cssSlash s i = Some k" "rootSlash s p k" by blast
    have "scan_inv s p (k + 1, k, out @ subslice s copied k @ p)"
    proof (rule scan_inv_write [OF assms(1)])
      show "\<forall>m. i < m \<and> m \<le> k \<longrightarrow> (\<forall>k'. \<not> opens s m k')"
        using cssSlash_between [OF k(1)] cssSlash_letter by (fastforce simp: opens_def)
    qed (use k nq cssSlash_gt [OF k(1)] in \<open>auto simp: opens_def\<close>)
    then show ?thesis using st k by (simp add: cssCase_def writePrefixAt_def)
  next
    case False
    then have "(i', copied', out') = (i, copied, out)" using st by (auto simp: cssCase_def split: option.splits)
    moreover have "scan_inv s p (i + 1, copied, out)"
      using assms(1,2) False nq by (intro scan_inv_pass) (auto simp: opens_def)
    ultimately show ?thesis by simp
  qed
qed

lemma rootLoop_inv: "scan_inv s p st \<Longrightarrow> \<exists>i copied out. rootLoop s p st = (i, copied, out) \<and> scan_inv s p (i, copied, out) \<and> length s \<le> i + 1"
proof (induction s p st rule: rootLoop.induct)
  case (1 s p st)
  obtain i copied out where st: "st = (i, copied, out)" by (cases st) auto
  show ?case
  proof (cases "i + 1 < length s")
    case True
    obtain i' copied' out' where r: "rootStep s p st = (i', copied', out')" by (cases "rootStep s p st") auto
    have "scan_inv s p (i' + 1, copied', out')" using scan_inv_step 1(2) True r st by simp
    then show ?thesis using 1(1) [of i' "(copied', out')" copied' out'] True st r by (subst rootLoop.simps) simp
  next
    case False
    then show ?thesis using 1(2) st by (subst rootLoop.simps) auto
  qed
qed

text \<open>At the end at most one byte is left, and it is not marked: a slash is opened before it is reached.\<close>

lemma scan_inv_end:
  assumes "scan_inv s p (i, copied, out)" "length s \<le> i + 1"
  shows "out @ drop copied s = mark p [] s"
proof -
  have "mark p (rev (take i s)) (drop i s) = drop i s"
  proof (cases "i < length s")
    case True
    then have "\<not> marked s p i" using marked_opener [OF assms(1), of i] opens_lt by fastforce
    then show ?thesis using mark_at [OF True, of p] assms(2) Cons_nth_drop_Suc [OF True] by simp
  qed simp
  moreover have "subslice s copied i @ drop i s = drop copied s"
  proof -
    have "copied \<le> i" using assms(1) by (simp add: scan_inv_def)
    then have "drop i s = drop (i - copied) (drop copied s)" by simp
    then show ?thesis by (simp only: subslice_def append_take_drop_id)
  qed
  ultimately show ?thesis using assms(1) unfolding scan_inv_def by simp
qed

lemma rewrite_eq_mark: "normalizedPrefixBytes prefix = Some p \<Longrightarrow> rewriteRootAbsolutePaths s prefix = mark p [] s"
proof -
  assume p: "normalizedPrefixBytes prefix = Some p"
  obtain i copied out where r: "rootLoop s p (0, 0, []) = (i, copied, out)" "scan_inv s p (i, copied, out)" "length s \<le> i + 1"
    using rootLoop_inv [OF scan_inv_init] by blast
  have "copied = 0 \<Longrightarrow> out = []" using r(2) by (simp add: scan_inv_def)
  then show ?thesis using p r(1) scan_inv_end [OF r(2,3)] by (auto simp: rewriteRootAbsolutePaths_def)
qed


section \<open>Rewriting twice\<close>

text \<open>What opens a URL does not reach back past a slash.\<close>

lemma dropWhile_to_slash: "dropWhile isSpace (a @ CHR ''/'' # r) = dropWhile isSpace a @ CHR ''/'' # r"
  by (induction a) auto

lemma take3_slash: "map lowerASCII (take 3 (d @ CHR ''/'' # r)) = ''lru'' \<longleftrightarrow> 3 \<le> length d \<and> map lowerASCII (take 3 d) = ''lru''"
proof (cases "3 \<le> length d")
  case False
  then have "CHR ''/'' \<in> set (take 3 (d @ CHR ''/'' # r))" by (auto simp: take_Cons' not_le)
  then have "lowerASCII CHR ''/'' \<in> set (map lowerASCII (take 3 (d @ CHR ''/'' # r)))" unfolding set_map by (rule imageI)
  then have m: "CHR ''/'' \<in> set (map lowerASCII (take 3 (d @ CHR ''/'' # r)))" by simp
  have "map lowerASCII (take 3 (d @ CHR ''/'' # r)) \<noteq> ''lru''"
  proof
    assume "map lowerASCII (take 3 (d @ CHR ''/'' # r)) = ''lru''"
    from m [unfolded this] show False by simp
  qed
  then show ?thesis using False by blast
qed simp

lemma cssCtx_to_slash:
  "cssCtx (a @ CHR ''/'' # r) \<longleftrightarrow>
    (let d = dropWhile isSpace a; e = dropWhile isSpace (tl d) in d \<noteq> [] \<and> hd d = CHR ''('' \<and> 3 \<le> length e \<and> map lowerASCII (take 3 e) = ''lru'')"
proof (cases "dropWhile isSpace a")
  case Nil
  show ?thesis unfolding cssCtx_def Let_def dropWhile_to_slash Nil by simp
next
  case (Cons x d)
  show ?thesis unfolding cssCtx_def Let_def dropWhile_to_slash Cons append_Cons list.sel take3_slash by simp
qed

lemma opened_past_slash: "opened (a @ CHR ''/'' # r) = opened (a @ CHR ''/'' # r')"
proof -
  have "quotedCtx (a @ CHR ''/'' # r) = quotedCtx (a @ CHR ''/'' # r')"
  proof (cases a)
    case (Cons x xs)
    then show ?thesis by (cases xs) (auto simp: quotedCtx_def)
  qed (simp add: quotedCtx_def isQuoteByte_def)
  moreover have "cssCtx (a @ CHR ''/'' # r) = cssCtx (a @ CHR ''/'' # r')"
    unfolding cssCtx_to_slash ..
  ultimately show ?thesis by (simp add: opened_def)
qed

definition plain :: "string \<Rightarrow> bool" where
  "plain q \<longleftrightarrow> list_all (\<lambda>c. \<not> isQuoteByte c \<and> c \<noteq> CHR ''('') q"

lemma not_opened_plain: "plain q \<Longrightarrow> \<not> opened (q @ CHR ''/'' # ctx)"
proof -
  assume q: "plain q"
  have "\<not> quotedCtx (q @ CHR ''/'' # ctx)" using q by (cases q) (auto simp: quotedCtx_def plain_def isQuoteByte_def)
  moreover have "plain (dropWhile isSpace q)" using q by (auto simp: plain_def list_all_iff dest: set_dropWhileD)
  then have "\<not> cssCtx (q @ CHR ''/'' # ctx)"
    unfolding cssCtx_to_slash Let_def plain_def list_all_iff by (metis list.set_sel(1))
  ultimately show ?thesis by (simp add: opened_def)
qed

lemma plain_simps [simp]: "plain []" "plain (c # q) \<longleftrightarrow> (\<not> isQuoteByte c \<and> c \<noteq> CHR ''('') \<and> plain q" "plain (rev q) = plain q"
  by (simp_all add: plain_def list_all_iff)

lemma mark_plain: "plain q \<Longrightarrow> plain r \<Longrightarrow> mark p (r @ CHR ''/'' # ctx) (q @ t) = q @ mark p (rev q @ r @ CHR ''/'' # ctx) t"
proof (induction q arbitrary: r)
  case (Cons c q)
  then have "mark p ((c # r) @ CHR ''/'' # ctx) (q @ t) = q @ mark p (rev q @ (c # r) @ CHR ''/'' # ctx) t" by (intro Cons.IH) auto
  then show ?case using not_opened_plain [OF Cons.prems(2)] by simp
qed simp

lemma mark_hd: "\<not> opened ctx \<Longrightarrow> mark p ctx t = (case t of [] \<Rightarrow> [] | c # t' \<Rightarrow> c # mark p (c # ctx) t')"
  by (cases t) auto

lemma urlHasPathPrefix_iff:
  "urlHasPathPrefix u p \<longleftrightarrow> p \<noteq> [] \<and> (\<exists>w. u = p @ w \<and> (w = [] \<or> hd w \<in> {CHR ''/'', CHR ''?'', CHR ''#''} \<or> isURLTerminalByte (hd w)))"
proof -
  have "HasPrefix u p \<longleftrightarrow> (\<exists>w. u = p @ w)" unfolding HasPrefix_def by (metis append_eq_conv_conj)
  then show ?thesis by (auto simp: urlHasPathPrefix_def nth_append hd_conv_nth)
qed

lemma rootSlash_suffix:
  "rootSlash (c # t) p 0 \<longleftrightarrow> \<not> (t \<noteq> [] \<and> (hd t = CHR ''/'' \<or> isURLTerminalByte (hd t))) \<and> \<not> urlHasPathPrefix (c # t) p"
  by (cases t) (auto simp: rootSlash_def)

text \<open>A slash the marking leaves alone is one it would leave alone again.\<close>

lemma rootSlash_stable:
  assumes p: "p = CHR ''/'' # p1" "plain p" and h: "\<not> rootSlash (CHR ''/'' # t) p 0"
  shows "\<not> rootSlash (CHR ''/'' # mark p (CHR ''/'' # ctx) t) p 0"
proof -
  have no: "\<not> opened (CHR ''/'' # ctx)" using not_opened_plain [of "[]" ctx] by simp
  have hd: "mark p (CHR ''/'' # ctx) t = [] \<longleftrightarrow> t = []" "t \<noteq> [] \<Longrightarrow> hd (mark p (CHR ''/'' # ctx) t) = hd t"
    using mark_hd [OF no, of p t] by (auto split: list.splits)
  have "urlHasPathPrefix (CHR ''/'' # mark p (CHR ''/'' # ctx) t) p" if u: "urlHasPathPrefix (CHR ''/'' # t) p"
  proof -
    obtain w where w: "t = p1 @ w" "w = [] \<or> hd w \<in> {CHR ''/'', CHR ''?'', CHR ''#''} \<or> isURLTerminalByte (hd w)"
      using u p(1) by (auto simp: urlHasPathPrefix_iff)
    let ?c = "rev p1 @ CHR ''/'' # ctx"
    have "mark p (CHR ''/'' # ctx) t = p1 @ mark p ?c w" using mark_plain [of p1 "[]" p ctx w] p w(1) by simp
    moreover have "\<not> opened ?c" using not_opened_plain [of "rev p1" ctx] p by simp
    then have "mark p ?c w = [] \<or> hd (mark p ?c w) = hd w \<and> w \<noteq> []" using mark_hd [of ?c p w] by (auto split: list.splits)
    ultimately show ?thesis using w(2) p(1) unfolding urlHasPathPrefix_iff by auto
  qed
  then show ?thesis using h hd unfolding rootSlash_suffix by metis
qed

definition same_recent :: "string \<Rightarrow> string \<Rightarrow> bool" where
  "same_recent ctx ctx' \<longleftrightarrow> ctx = ctx' \<or> (\<exists>a r r'. ctx = a @ CHR ''/'' # r \<and> ctx' = a @ CHR ''/'' # r')"

lemma same_recent_opened: "same_recent ctx ctx' \<Longrightarrow> opened ctx' = opened ctx"
  unfolding same_recent_def using opened_past_slash by blast

lemma same_recent_Cons: "same_recent ctx ctx' \<Longrightarrow> same_recent (c # ctx) (c # ctx')"
  unfolding same_recent_def by (metis append_Cons)

lemma mark_twice:
  assumes p: "p = CHR ''/'' # p1" "plain p"
  shows "same_recent ctx ctx' \<Longrightarrow> mark p ctx' (mark p ctx s) = mark p ctx s"
proof (induction s arbitrary: ctx ctx')
  case (Cons c t)
  let ?M = "mark p (c # ctx) t"
  show ?case
  proof (cases "opened ctx \<and> c = CHR ''/'' \<and> rootSlash (c # t) p 0")
    case True
    have "urlHasPathPrefix (p @ CHR ''/'' # ?M) p" using p(1) by (auto simp: urlHasPathPrefix_iff)
    then have "\<not> rootSlash (p @ CHR ''/'' # ?M) p 0" by (simp add: rootSlash_def)
    then have "mark p ctx' (p @ CHR ''/'' # ?M) = CHR ''/'' # mark p (CHR ''/'' # ctx') (p1 @ CHR ''/'' # ?M)" using p(1) by simp
    also have "\<dots> = p @ mark p (rev p1 @ CHR ''/'' # ctx') (CHR ''/'' # ?M)"
      using mark_plain [of p1 "[]" p ctx' "CHR ''/'' # ?M"] p by simp
    also have "\<dots> = p @ CHR ''/'' # mark p (CHR ''/'' # rev p1 @ CHR ''/'' # ctx') ?M"
      using not_opened_plain [of "rev p1" ctx'] p by simp
    also have "mark p (CHR ''/'' # rev p1 @ CHR ''/'' # ctx') ?M = ?M"
    proof (rule Cons.IH)
      show "same_recent (c # ctx) (CHR ''/'' # rev p1 @ CHR ''/'' # ctx')"
        using True unfolding same_recent_def by (metis append_Nil)
    qed
    finally have "mark p ctx' (p @ CHR ''/'' # ?M) = p @ CHR ''/'' # ?M" .
    moreover have "mark p ctx (c # t) = p @ CHR ''/'' # ?M" using True by auto
    ultimately show ?thesis by (simp only:)
  next
    case False
    have "\<not> (opened ctx' \<and> c = CHR ''/'' \<and> rootSlash (c # ?M) p 0)"
      using False same_recent_opened [OF Cons.prems] rootSlash_stable [OF p] by blast
    then have "mark p ctx' (c # ?M) = c # mark p (c # ctx') ?M" by auto
    moreover have "mark p ctx (c # t) = c # ?M" using False by auto
    moreover have "mark p (c # ctx') ?M = ?M" by (rule Cons.IH [OF same_recent_Cons [OF Cons.prems]])
    ultimately show ?thesis by (simp only:)
  qed
qed simp

lemma TrimSpace_subset: "set (TrimSpace s) \<subseteq> set s"
  by (auto simp: TrimSpace_def dest!: set_dropWhileD)

lemma TrimRightSlash_shape: "\<exists>z. q = TrimRightSlash q @ z" "set (TrimRightSlash q) \<subseteq> set q"
proof -
  have "q = TrimRightSlash q @ rev (takeWhile (\<lambda>c. c = CHR ''/'') (rev q))"
    unfolding TrimRightSlash_def by (metis rev_append rev_rev_ident takeWhile_dropWhile_id)
  then show "\<exists>z. q = TrimRightSlash q @ z" ..
qed (auto simp: TrimRightSlash_def dest!: set_dropWhileD)

lemma normalizePrefix_shape:
  assumes "normalizePrefix prefix \<noteq> ''''"
  shows "\<exists>p1. normalizePrefix prefix = CHR ''/'' # p1" "set (normalizePrefix prefix) \<subseteq> insert CHR ''/'' (set prefix)"
proof -
  define q where "q = (if \<not> HasPrefix (TrimSpace prefix) ''/'' then ''/'' @ TrimSpace prefix else TrimSpace prefix)"
  have q: "normalizePrefix prefix = TrimRightSlash q" "q = TrimSpace prefix \<and> HasPrefix q ''/'' \<or> q = ''/'' @ TrimSpace prefix"
    using assms unfolding normalizePrefix_def Let_def q_def [symmetric] by (auto simp: q_def split: if_splits)
  then have "\<exists>r. q = CHR ''/'' # r" by (cases "TrimSpace prefix") (auto simp: HasPrefix_def)
  then show "\<exists>p1. normalizePrefix prefix = CHR ''/'' # p1"
    using TrimRightSlash_shape(1) [of q] assms q(1) by (metis append_eq_Cons_conv)
  show "set (normalizePrefix prefix) \<subseteq> insert CHR ''/'' (set prefix)"
  proof -
    have "set q \<subseteq> insert CHR ''/'' (set prefix)" using q(2) TrimSpace_subset [of prefix] by auto
    with TrimRightSlash_shape(2) [of q] show ?thesis unfolding q(1) by (rule subset_trans)
  qed
qed

text \<open>Rewriting a text that is already rewritten changes nothing, for a prefix without quotes
  and opening parentheses: no path is prefixed twice.\<close>

theorem rewrite_idempotent:
  assumes "plain prefix"
  shows "rewriteRootAbsolutePaths (rewriteRootAbsolutePaths s prefix) prefix = rewriteRootAbsolutePaths s prefix"
proof (cases "normalizedPrefixBytes prefix")
  case (Some p)
  then have np: "p = normalizePrefix prefix" "p \<noteq> ''''" by (auto simp: normalizedPrefixBytes_def Let_def split: if_splits)
  have "plain p" using assms np normalizePrefix_shape(2) [of prefix] by (auto simp: plain_def list_all_iff isQuoteByte_def)
  moreover obtain p1 where "p = CHR ''/'' # p1" using np normalizePrefix_shape(1) [of prefix] by blast
  ultimately show ?thesis using mark_twice [of p p1 "[]" "[]" s] rewrite_eq_mark [OF Some] by (simp add: same_recent_def)
qed (simp add: rewriteRootAbsolutePaths_def)

theorem rewrite_idempotent_witness:
  "rewriteRootAbsolutePaths (rewriteRootAbsolutePaths ''a=`/b` c=url(/d)'' ''app'') ''app'' = ''a=`/app/b` c=url(/app/d)''"
proof -
  have "rewriteRootAbsolutePaths ''a=`/b` c=url(/d)'' ''app'' = ''a=`/app/b` c=url(/app/d)''" by code_simp
  moreover have "plain ''app''" by (simp add: isQuoteByte_def)
  ultimately show ?thesis using rewrite_idempotent [of "''app''" "''a=`/b` c=url(/d)''"] by simp
qed

section \<open>Scripts of an HTML text\<close>

text \<open>
  The bounds of the inline scripts from an index on: the end of the opening tag and the start of the
  closing one. \<open>None\<close>: some opening tag or script has no end.
\<close>

function scriptSpans :: "string \<Rightarrow> nat \<Rightarrow> (nat \<times> nat) list option" where
  "scriptSpans s c =
    (case indexHTMLScriptOpen s c of
       None \<Rightarrow> Some []
     | Some start \<Rightarrow>
       (case findHTMLTagEnd s start of
          None \<Rightarrow> None
        | Some tagEnd \<Rightarrow>
          (case indexHTMLScriptClose s (tagEnd + 1) of
             None \<Rightarrow> None
           | Some cls \<Rightarrow> map_option ((#) (tagEnd + 1, cls)) (scriptSpans s cls))))"
  by pat_completeness auto
termination
proof (relation "measure (\<lambda>(s, c). length s - c)")
  fix s c start tagEnd cls
  assume "indexHTMLScriptOpen s c = Some start" "findHTMLTagEnd s start = Some tagEnd" "indexHTMLScriptClose s (tagEnd + 1) = Some cls"
  then show "((s, cls), s, c) \<in> measure (\<lambda>(s, c). length s - c)"
    using findHTMLTagEnd_bounds [of s start tagEnd]
    by (auto simp: indexHTMLScriptClose_def indexHTMLScriptOpen_def find_upt_Some)
qed auto

declare scriptSpans.simps [simp del]

fun pieces :: "string \<Rightarrow> string \<Rightarrow> (nat \<times> nat) list \<Rightarrow> nat \<Rightarrow> string" where
  "pieces s prefix [] c = rewriteRootAbsolutePaths (drop c s) prefix"
| "pieces s prefix ((a, b) # spans) c = rewriteRootAbsolutePaths (subslice s c a) prefix @ subslice s a b @ pieces s prefix spans b"

lemma subslice_drop: "a \<le> b \<Longrightarrow> subslice s a b @ drop b s = drop a s"
proof -
  assume "a \<le> b"
  then have "drop b s = drop (b - a) (drop a s)" by simp
  then show ?thesis by (simp only: subslice_def append_take_drop_id)
qed

lemma htmlLoop_spans:
  "case scriptSpans s c of
     None \<Rightarrow> htmlLoop s prefix (indexHTMLScriptOpen s c) c out m = None
   | Some spans \<Rightarrow> \<exists>c' out' m'. htmlLoop s prefix (indexHTMLScriptOpen s c) c out m = Some (c', out', m')
       \<and> out' @ rewriteRootAbsolutePaths (drop c' s) prefix = out @ pieces s prefix spans c
       \<and> (\<not> m' \<longrightarrow> rewriteRootAbsolutePaths (drop c' s) prefix = drop c' s \<longrightarrow> \<not> m \<and> pieces s prefix spans c = drop c s)"
proof (induction s c arbitrary: out m rule: scriptSpans.induct)
  case (1 s c)
  show ?case
  proof (cases "indexHTMLScriptOpen s c")
    case None
    then show ?thesis by (simp add: scriptSpans.simps [of s c])
  next
    case st: (Some start)
    show ?thesis
    proof (cases "findHTMLTagEnd s start")
      case None
      then show ?thesis using st by (simp add: scriptSpans.simps [of s c])
    next
      case te: (Some tagEnd)
      show ?thesis
      proof (cases "indexHTMLScriptClose s (tagEnd + 1)")
        case None
        then show ?thesis using st te by (simp add: scriptSpans.simps [of s c])
      next
        case cl: (Some cls)
        have b: "c \<le> tagEnd + 1" "tagEnd + 1 \<le> cls"
          using st te cl findHTMLTagEnd_bounds [OF te] by (auto simp: indexHTMLScriptClose_def indexHTMLScriptOpen_def find_upt_Some)
        let ?seg = "subslice s c (tagEnd + 1)"
        let ?out = "out @ rewriteRootAbsolutePaths ?seg prefix @ subslice s (tagEnd + 1) cls"
        let ?m = "m \<or> ?seg \<noteq> rewriteRootAbsolutePaths ?seg prefix"
        have l: "htmlLoop s prefix (indexHTMLScriptOpen s c) c out m = htmlLoop s prefix (indexHTMLScriptOpen s cls) cls ?out ?m"
          using st te cl by (simp add: Let_def)
        have sp: "scriptSpans s c = map_option ((#) (tagEnd + 1, cls)) (scriptSpans s cls)"
          using st te cl by (simp add: scriptSpans.simps [of s c])
        have j: "?seg @ subslice s (tagEnd + 1) cls @ drop cls s = drop c s" using b by (simp add: subslice_drop)
        show ?thesis using "1.IH" [OF st te cl, of ?out ?m] j unfolding l sp by (fastforce split: option.splits)
      qed
    qed
  qed
qed

text \<open>An HTML text is rewritten piece by piece around its inline scripts: when every script is
  closed, the text between scripts (their tags included) is rewritten and the content of every script is
  the same as before; when a script or its tag has no end, the whole text is rewritten, the content of the
  closed scripts as well.\<close>

theorem html_rewrite_pieces:
  "rewriteHTMLRootAbsolutePaths s prefix =
    (if normalizedPrefixBytes prefix = None then s
     else case scriptSpans s 0 of None \<Rightarrow> rewriteRootAbsolutePaths s prefix | Some spans \<Rightarrow> pieces s prefix spans 0)"
proof (cases "s = [] \<or> normalizedPrefixBytes prefix = None \<or> indexHTMLScriptOpen s 0 = None")
  case True
  moreover have "scriptSpans [] 0 = Some []" by (simp add: scriptSpans.simps indexHTMLScriptOpen_def)
  moreover have "indexHTMLScriptOpen s 0 = None \<Longrightarrow> scriptSpans s 0 = Some []" by (simp add: scriptSpans.simps)
  ultimately show ?thesis
    by (cases "normalizedPrefixBytes prefix") (auto simp: rewriteHTMLRootAbsolutePaths_def rewriteRootAbsolutePaths_def)
next
  case False
  then obtain start where st: "indexHTMLScriptOpen s 0 = Some start" by auto
  show ?thesis
    using htmlLoop_spans [where s = s and c = 0 and prefix = prefix and out = "[]" and m = False] False st
    by (auto simp: rewriteHTMLRootAbsolutePaths_def Let_def simp del: htmlLoop.simps split: option.splits)
qed

section \<open>A first candidate alone\<close>

lemma skipBack_pos: "v \<noteq> [] \<Longrightarrow> \<not> isSpace (hd v) \<Longrightarrow> 0 < i \<Longrightarrow> 0 < skipBack v i \<and> skipBack v i \<le> i"
proof (induction v i rule: skipBack.induct)
  case (2 v k)
  then show ?case by (cases k) (auto simp: hd_conv_nth)
qed simp

text \<open>Property C36: a \<open>srcset\<close> value with a single candidate that begins with a slash is returned as it is:
  the prefix is put into the buffer, but the index of the copied part is still 0, which the code takes for
  ``nothing was written''.\<close>

theorem srcset_single_candidate_kept:
  assumes "CHR '','' \<notin> set v"
  shows "rewriteSrcsetValue (''/'' @ v) prefix = ''/'' @ v"
proof -
  let ?v = "''/'' @ v"
  have "fst (srcsetStep ?v prefix i st) = 0" if "fst st = 0" "i < length ?v" for i st
  proof (cases i)
    case (Suc j)
    have "0 < skipBack ?v i" "skipBack ?v i \<le> i" using skipBack_pos [of ?v i] Suc by simp_all
    then have "?v ! (skipBack ?v i - 1) \<in> set ?v" using that(2) by (intro nth_mem) simp
    then have "?v ! (skipBack ?v i - 1) \<noteq> CHR '',''" using assms by auto
    then have "\<not> candidateStart ?v i" using Suc \<open>0 < skipBack ?v i\<close> by (auto simp: candidateStart_def Let_def)
    then show ?thesis using that(1) by (simp add: srcsetStep_def)
  qed (use that in \<open>auto simp: srcsetStep_def split: prod.splits\<close>)
  then have "fst (fold (srcsetStep ?v prefix) is st) = 0" if "fst st = 0" "\<forall>i\<in>set is. i < length ?v" for "is" st
    using that by (induction "is" arbitrary: st) auto
  from this [of "(0, [])" "[0..<length ?v]"] show ?thesis by (auto simp: rewriteSrcsetValue_def split: prod.splits)
qed

theorem srcset_single_candidate_kept_witness:
  "CHR '','' \<notin> set ''a.png 1x'' \<and> rewriteSrcsetValue ''/a.png 1x'' ''/p'' = ''/a.png 1x''"
  using srcset_single_candidate_kept [of "''a.png 1x''" "''/p''"] by simp

text \<open>\<open>srcset\<close> values inside a script are rewritten as well: the second pass of \<open>rewriteTextPayload\<close> does not skip scripts.\<close>

lemma srcset_in_script_rewritten:
  "let q = [CHR 0x22]; s = ''<script>x=`<i srcset='' @ q @ ''/a 1x, /b 2x'' @ q @ ''>`</script>'' in
   scriptSpans s 0 = Some [(8, length s - 9)] \<and> rewriteHTMLRootAbsolutePaths s ''/p'' = s \<and> rewriteTextPayload ''text/html'' s ''/p'' \<noteq> s"
  by code_simp

end
