(* ===== verification/Reverse.thy ===== *)
theory Reverse
  imports Rewrite ServerConn "HOL-Library.AList"
begin

text \<open>
  The reverse proxy's registry and routing (\<open>internal/reverse/manager.go\<close>, \<open>server_session.go\<close>,
  \<open>client_session.go\<close>, \<open>entry.go\<close>, \<open>target.go\<close> and the checks of \<open>ws_tunnel.go\<close>). A mux client is a
  number, its pointer identity. The map of routes is an association list with distinct keys: the order of
  the list stands for the order a Go \<open>range\<close> happens to take. Methods run under the manager's lock, so
  they are state transformers; a nil manager is not modelled.
\<close>

section \<open>State\<close>

record routeEntry =
  prefix :: string
  target :: string
  stripPrefix :: bool
  hostHeader :: string
  mux :: nat

record tcpEntry =
  tcpClientID :: string
  tcpTarget :: string
  tcpMux :: nat

record revSession =
  clientID :: string
  sessMux :: nat
  prefixes :: "string list"
  sessTcp :: bool

record RevManager =
  routes :: "(string \<times> routeEntry) list"
  sessions :: "nat \<Rightarrow> revSession option"
  tcp :: "tcpEntry option"

definition NewRevManager :: RevManager where
  "NewRevManager = \<lparr>routes = [], sessions = (\<lambda>_. None), tcp = None\<rparr>"

section \<open>Registration\<close>

text \<open>The first loop: conflicts with what is registered.\<close>

fun checkRoutes :: "RevManager \<Rightarrow> bool \<Rightarrow> ReverseRoute list \<Rightarrow> go_error option" where
  "checkRoutes m seenTCP [] = None"
| "checkRoutes m seenTCP (r # rs) =
    (let p = TrimSpace (routePath r); t = TrimSpace (Target r) in
     if p = '''' then
       if t = '''' then checkRoutes m seenTCP rs
       else if seenTCP then Some (ErrMsg ''reverse tcp route already set in this session'')
       else if tcp m \<noteq> None then Some (ErrMsg ''reverse tcp route already registered'')
       else checkRoutes m True rs
     else if map_of (routes m) p \<noteq> None then Some (ErrMsg ''reverse path already registered'')
     else checkRoutes m seenTCP rs)"

text \<open>The second loop: one route entered into the manager and the session.\<close>

definition addRoute :: "string \<Rightarrow> nat \<Rightarrow> ReverseRoute \<Rightarrow> RevManager \<times> revSession \<Rightarrow> RevManager \<times> revSession" where
  "addRoute cid mx r st =
    (case st of (m, sess) \<Rightarrow>
     let p = TrimSpace (routePath r); t = TrimSpace (Target r) in
     if p = '''' then
       if t = '''' then (m, sess)
       else (m\<lparr>tcp := Some \<lparr>tcpClientID = cid, tcpTarget = t, tcpMux = mx\<rparr>\<rparr>, sess\<lparr>sessTcp := True\<rparr>)
     else if t = '''' then (m, sess)
     else
       let strip = (case StripPrefix r of None \<Rightarrow> True | Some b \<Rightarrow> b);
           entry = \<lparr>prefix = p, target = t, stripPrefix = strip, hostHeader = TrimSpace (HostHeader r), mux = mx\<rparr>
       in (m\<lparr>routes := AList.update p entry (routes m)\<rparr>, sess\<lparr>prefixes := prefixes sess @ [p]\<rparr>))"

definition RegisterSession :: "string \<Rightarrow> nat option \<Rightarrow> ReverseRoute list \<Rightarrow> RevManager \<Rightarrow> go_error option \<times> RevManager" where
  "RegisterSession cid mx0 rs m =
    (case mx0 of
       None \<Rightarrow> (Some (ErrMsg ''nil mux client''), m)
     | Some mx \<Rightarrow>
       if rs = [] then (Some (ErrMsg ''no reverse routes''), m)
       else if sessions m mx \<noteq> None then (Some (ErrMsg ''reverse session already registered''), m)
       else case checkRoutes m False rs of
         Some e \<Rightarrow> (Some e, m)
       | None \<Rightarrow>
         (case fold (addRoute cid mx) rs (m, \<lparr>clientID = cid, sessMux = mx, prefixes = [], sessTcp = False\<rparr>) of
            (m', sess) \<Rightarrow> (None, m'\<lparr>sessions := (sessions m')(mx := Some sess)\<rparr>)))"

definition UnregisterSession :: "nat option \<Rightarrow> RevManager \<Rightarrow> RevManager" where
  "UnregisterSession mx0 m =
    (case mx0 of
       None \<Rightarrow> m
     | Some mx \<Rightarrow>
       (case sessions m mx of
          None \<Rightarrow> m
        | Some sess \<Rightarrow>
          m\<lparr>sessions := (sessions m)(mx := None),
            tcp := (case tcp m of Some t \<Rightarrow> if sessTcp sess \<and> tcpMux t = mx then None else Some t | None \<Rightarrow> None),
            routes := fold (\<lambda>p. AList.delete p) (prefixes sess) (routes m)\<rparr>))"

section \<open>Server side of a session\<close>

definition maxHelloBytes :: nat where "maxHelloBytes = 64 * 1024"

text \<open>\<open>helloMessage\<close>: the client's id and its routes.\<close>

type_synonym helloMessage = "string \<times> ReverseRoute list"

text \<open>The loop that sanitizes the routes of a hello; \<open>seen\<close> are the paths so far.\<close>

fun sanitizeRoutes :: "string list \<Rightarrow> bool \<Rightarrow> ReverseRoute list \<Rightarrow> ReverseRoute list result" where
  "sanitizeRoutes seen seenTCP [] = Inr []"
| "sanitizeRoutes seen seenTCP (r0 # rs) =
    (let r = normalizeRoute r0 in
     if routePath r = '''' \<and> Target r = '''' then sanitizeRoutes seen seenTCP rs
     else if Target r = '''' then Inl (ErrMsg ''reverse route missing target'')
     else if routePath r = '''' then
       if seenTCP then Inl (ErrMsg ''reverse route duplicate tcp mapping'')
       else (case SplitHostPort (Target r) of
          Inl e \<Rightarrow> Inl (ErrMsg ''reverse tcp route invalid target'')
        | Inr _ \<Rightarrow> map_sum id ((#) r) (sanitizeRoutes seen True rs))
     else if routePath r \<in> set seen then Inl (ErrMsg ''reverse route duplicate path'')
     else (case SplitHostPort (Target r) of
        Inl e \<Rightarrow> Inl (ErrMsg ''reverse route invalid target'')
      | Inr _ \<Rightarrow> map_sum id ((#) r) (sanitizeRoutes (routePath r # seen) seenTCP rs)))"

definition helloClientID :: "string \<Rightarrow> string \<Rightarrow> string" where
  "helloClientID cid userHash =
    (if TrimSpace cid \<noteq> '''' then TrimSpace cid
     else if TrimSpace userHash \<noteq> '''' then TrimSpace userHash
     else ''unknown'')"

text \<open>
  \<open>HandleServerSession\<close> up to the wait for the mux: \<open>unmarshal\<close> is \<open>json.Unmarshal\<close>, \<open>packed\<close> what
  \<open>ConnUplinkPacked\<close> reports, \<open>newMux\<close> the mux client made on the connection.
\<close>

definition HandleServerSession :: "(bytes \<Rightarrow> helloMessage result) \<Rightarrow> bool option \<Rightarrow> string \<Rightarrow> bytes \<Rightarrow> nat result \<Rightarrow> RevManager \<Rightarrow> go_error option \<times> RevManager" where
  "HandleServerSession unmarshal packed userHash helloPayload newMux m =
    (if packed = Some False then (Some (ErrMsg ''reverse sessions require packed uplink''), m)
     else if helloPayload = [] \<or> maxHelloBytes < length helloPayload then (Some (ErrMsg ''invalid reverse hello size''), m)
     else case unmarshal helloPayload of
       Inl e \<Rightarrow> (Some (ErrMsg ''invalid reverse hello''), m)
     | Inr (cid, rs) \<Rightarrow>
       if rs = [] then (Some (ErrMsg ''reverse hello has no routes''), m)
       else case sanitizeRoutes [] False rs of
         Inl e \<Rightarrow> (Some e, m)
       | Inr normalized \<Rightarrow>
         (case newMux of
            Inl e \<Rightarrow> (Some (ErrMsg ''start reverse mux session failed''), m)
          | Inr mx \<Rightarrow> RegisterSession (helloClientID cid userHash) (Some mx) normalized m))"

section \<open>Client side of a session\<close>

text \<open>The payload of the \<open>KIPTypeStartRev\<close> message; \<open>marshal\<close> is \<open>json.Marshal\<close>.\<close>

definition clientHello :: "(helloMessage \<Rightarrow> bytes result) \<Rightarrow> string \<Rightarrow> ReverseRoute list \<Rightarrow> bytes result" where
  "clientHello marshal cid rs =
    (if rs = [] then Inl (ErrMsg ''no reverse routes'')
     else case marshal (TrimSpace cid, rs) of
       Inl e \<Rightarrow> Inl e
     | Inr raw \<Rightarrow> if raw = [] \<or> maxHelloBytes < length raw then Inl (ErrMsg ''reverse hello too large'') else Inr raw)"

definition allowedTargets :: "ReverseRoute list \<Rightarrow> string set" where
  "allowedTargets rs = {t \<in> set (map (\<lambda>r. TrimSpace (Target r)) rs). t \<noteq> ''''}"

definition reverseDial :: "(string \<Rightarrow> 'c result) \<Rightarrow> ReverseRoute list \<Rightarrow> string \<Rightarrow> 'c result" where
  "reverseDial dialTimeout rs targetAddr =
    (if targetAddr \<notin> allowedTargets rs then Inl (ErrMsg ''target not allowed'') else dialTimeout targetAddr)"

section \<open>Routing of a request\<close>

definition pathPrefixMatch :: "string \<Rightarrow> string \<Rightarrow> bool" where
  "pathPrefixMatch path pfx \<longleftrightarrow>
    (if pfx = '''' then False
     else if pfx = ''/'' then True
     else if \<not> HasPrefix path pfx then False
     else if length path = length pfx then True
     else path ! length pfx = CHR ''/'')"

fun matchLoop :: "string \<Rightarrow> routeEntry option \<Rightarrow> nat \<Rightarrow> (string \<times> routeEntry) list \<Rightarrow> routeEntry option" where
  "matchLoop path best bestSize [] = best"
| "matchLoop path best bestSize ((pfx, entry) # rs) =
    (if \<not> pathPrefixMatch path pfx then matchLoop path best bestSize rs
     else if bestSize < length pfx then matchLoop path (Some entry) (length pfx) rs
     else matchLoop path best bestSize rs)"

definition matchLocked :: "RevManager \<Rightarrow> string \<Rightarrow> routeEntry option" where
  "matchLocked m reqPath = matchLoop reqPath None 0 (routes m)"

text \<open>Request headers: the values of a canonical name.\<close>

type_synonym header = "string \<Rightarrow> string list"

definition header_Get :: "header \<Rightarrow> string \<Rightarrow> string" where
  "header_Get h k = (case h k of [] \<Rightarrow> '''' | v # _ \<Rightarrow> v)"

record httpRequest =
  reqMethod :: string
  reqPath :: string
  reqHost :: string
  reqHeader :: header
  reqCookies :: "(string \<times> string) list"

text \<open>\<open>url.Parse\<close> of a Referer: the escaped and the plain path, \<open>None\<close> its error.\<close>

definition matchByRefererLocked :: "(string \<Rightarrow> (string \<times> string) option) \<Rightarrow> RevManager \<Rightarrow> httpRequest \<Rightarrow> routeEntry option" where
  "matchByRefererLocked urlParse m r =
    (let ref = TrimSpace (header_Get (reqHeader r) ''Referer'') in
     if ref = '''' then None
     else case urlParse ref of
       None \<Rightarrow> None
     | Some (escaped, plainPath) \<Rightarrow>
       let p1 = (if escaped = '''' then plainPath else escaped); p2 = (if p1 = '''' then ''/'' else p1)
       in matchLocked m p2)"

definition reversePrefixCookieName :: string where "reversePrefixCookieName = ''sudoku_rev_prefix''"

text \<open>\<open>url.PathEscape\<close> and \<open>url.PathUnescape\<close>.\<close>

definition hexDigit :: "nat \<Rightarrow> char" where
  "hexDigit n = (if n < 10 then char_of (48 + n) else char_of (55 + n))"

definition unhex :: "char \<Rightarrow> nat option" where
  "unhex c =
    (let n = of_char c :: nat in
     if 48 \<le> n \<and> n \<le> 57 then Some (n - 48)
     else if 97 \<le> n \<and> n \<le> 102 then Some (n - 87)
     else if 65 \<le> n \<and> n \<le> 70 then Some (n - 55)
     else None)"

definition segmentUnescaped :: "char \<Rightarrow> bool" where
  "segmentUnescaped c \<longleftrightarrow>
    (let n = of_char c :: nat in
     (97 \<le> n \<and> n \<le> 122) \<or> (65 \<le> n \<and> n \<le> 90) \<or> (48 \<le> n \<and> n \<le> 57)
     \<or> c \<in> {CHR ''-'', CHR ''_'', CHR ''.'', CHR ''~'', CHR ''$'', CHR ''&'', CHR ''+'', CHR '':'', CHR ''='', CHR ''@''})"

definition PathEscape :: "string \<Rightarrow> string" where
  "PathEscape s = concat (map (\<lambda>c. if segmentUnescaped c then [c] else [CHR ''%'', hexDigit (of_char c div 16), hexDigit (of_char c mod 16)]) s)"

fun PathUnescape :: "string \<Rightarrow> string option" where
  "PathUnescape [] = Some []"
| "PathUnescape (c # cs) =
    (if c \<noteq> CHR ''%'' then map_option ((#) c) (PathUnescape cs)
     else case cs of
       a # b # rest \<Rightarrow>
         (case (unhex a, unhex b) of
            (Some x, Some y) \<Rightarrow> map_option ((#) (char_of (16 * x + y))) (PathUnescape rest)
          | _ \<Rightarrow> None)
     | _ \<Rightarrow> None)"

definition matchByCookieLocked :: "RevManager \<Rightarrow> httpRequest \<Rightarrow> routeEntry option" where
  "matchByCookieLocked m r =
    (case map_of (reqCookies r) reversePrefixCookieName of
       None \<Rightarrow> None
     | Some v \<Rightarrow>
       (case PathUnescape (TrimSpace v) of
          None \<Rightarrow> None
        | Some p0 \<Rightarrow> let p = normalizePrefix p0 in if p = '''' then None else matchLocked m p))"

section \<open>WebSocket checks\<close>

definition sudokuTCPSubprotocol :: string where "sudokuTCPSubprotocol = ''sudoku-tcp-v1''"

fun splitByte :: "char \<Rightarrow> string \<Rightarrow> string list" where
  "splitByte c [] = [[]]"
| "splitByte c (d # s) = (if d = c then [] # splitByte c s else (case splitByte c s of [] \<Rightarrow> [[d]] | w # ws \<Rightarrow> (d # w) # ws))"

definition websocketClientOffersSubprotocol :: "httpRequest \<Rightarrow> string \<Rightarrow> bool" where
  "websocketClientOffersSubprotocol r want \<longleftrightarrow>
    list_ex (\<lambda>v. list_ex (\<lambda>part. TrimSpace part = want) (splitByte CHR '','' v)) (reqHeader r ''Sec-Websocket-Protocol'')"

definition headerHasToken :: "header \<Rightarrow> string \<Rightarrow> string \<Rightarrow> bool" where
  "headerHasToken h key token0 \<longleftrightarrow>
    (let token = ToLower (TrimSpace token0) in
     token \<noteq> '''' \<and> list_ex (\<lambda>v. list_ex (\<lambda>part. ToLower (TrimSpace part) = token) (splitByte CHR '','' v)) (h key))"

definition isWebSocketUpgrade :: "httpRequest \<Rightarrow> bool" where
  "isWebSocketUpgrade r \<longleftrightarrow>
    EqualFold (TrimSpace (header_Get (reqHeader r) ''Upgrade'')) ''websocket'' \<and> headerHasToken (reqHeader r) ''Connection'' ''upgrade''"

section \<open>Serving\<close>

text \<open>What \<open>ServeHTTP\<close> does with a request: 404, the TCP tunnel of a WebSocket, a permanent redirect to a
  path, or the route's proxy with the request's path.\<close>

datatype httpAction = HTTPNotFound | WSTunnel nat string | RedirectTo string | ProxyTo routeEntry string

definition ServeHTTP :: "(string \<Rightarrow> (string \<times> string) option) \<Rightarrow> RevManager \<Rightarrow> httpRequest \<Rightarrow> httpAction" where
  "ServeHTTP urlParse m r =
    (let found = (case matchLocked m (reqPath r) of
            Some e \<Rightarrow> Some e
          | None \<Rightarrow> (case matchByRefererLocked urlParse m r of Some e \<Rightarrow> Some e | None \<Rightarrow> matchByCookieLocked m r))
     in case found of
       None \<Rightarrow> HTTPNotFound
     | Some entry \<Rightarrow>
       let sub = (prefix entry \<noteq> '''' \<and> prefix entry \<noteq> ''/'');
           path = (if sub \<and> \<not> pathPrefixMatch (reqPath r) (prefix entry) then prefix entry @ reqPath r else reqPath r)
       in if path = prefix entry \<and> isWebSocketUpgrade r then
            if websocketClientOffersSubprotocol r sudokuTCPSubprotocol then WSTunnel (mux entry) (target entry)
            else ProxyTo entry path
          else if sub \<and> path = prefix entry \<and> reqMethod r \<in> {''GET'', ''HEAD''} then RedirectTo (path @ ''/'')
          else ProxyTo entry path)"

text \<open>The end of a raw TCP connection: closed, or piped to a stream of the session's mux.\<close>

datatype 'c tcpAction = TCPClosed | TCPPiped 'c

definition ServeTCP :: "(nat \<Rightarrow> string \<Rightarrow> 'c result) \<Rightarrow> RevManager \<Rightarrow> 'c tcpAction" where
  "ServeTCP muxDial m =
    (case tcp m of
       None \<Rightarrow> TCPClosed
     | Some ent \<Rightarrow>
       if TrimSpace (tcpTarget ent) = '''' then TCPClosed
       else case muxDial (tcpMux ent) (tcpTarget ent) of Inl e \<Rightarrow> TCPClosed | Inr up \<Rightarrow> TCPPiped up)"

text \<open>
  The goroutine of \<open>ServeEntry\<close> for a connection: \<open>io.ReadFull\<close> gave \<open>peek\<close> and an error, which may be a
  timeout; the HTTP listener may be closed. The bytes handed on are the ones to replay.
\<close>

datatype entryAction = EntryTCP bytes | EntryHTTP bytes | EntryClosed

datatype readError = ReadTimeout | ReadFailed

definition serveEntryConn :: "bytes \<Rightarrow> readError option \<Rightarrow> bool \<Rightarrow> entryAction" where
  "serveEntryConn peek err listenerClosed =
    (case err of
       Some ReadTimeout \<Rightarrow> EntryTCP peek
     | Some ReadFailed \<Rightarrow> EntryClosed
     | None \<Rightarrow>
       if LooksLikeHTTPRequestStart peek then if listenerClosed then EntryClosed else EntryHTTP peek
       else EntryTCP peek)"

section \<open>Towards the service\<close>

definition stripPathPrefix :: "string \<Rightarrow> string \<Rightarrow> string" where
  "stripPathPrefix rp pfx =
    (if pfx = '''' \<or> pfx = ''/'' then (if rp = '''' then ''/'' else rp)
     else if rp = pfx then ''/''
     else if HasPrefix rp (pfx @ ''/'') then (let out = TrimPrefix rp pfx in if out = '''' then ''/'' else out)
     else if rp = '''' then ''/'' else rp)"

definition defaultUpstreamHostHeader :: "string \<Rightarrow> string" where
  "defaultUpstreamHostHeader target0 =
    (let t = TrimSpace target0 in
     case SplitHostPort t of
       Inl e \<Rightarrow> ''''
     | Inr (host, port) \<Rightarrow>
       if host = '''' then ''''
       else if ParseIP (takeWhile (\<lambda>c. c \<noteq> CHR ''%'') host) \<noteq> None then ''''
       else t)"

text \<open>
  The director of a route's proxy. The single-host director before it joins the target's empty path with
  the request's, which only adds a missing leading slash, and clears nothing else modelled here.
\<close>

definition joinRoot :: "string \<Rightarrow> string" where
  "joinRoot path = (if HasPrefix path ''/'' then path else ''/'' @ path)"

definition director :: "routeEntry \<Rightarrow> httpRequest \<Rightarrow> httpRequest" where
  "director e r =
    (let pfx = prefix e; sub = (pfx \<noteq> '''' \<and> pfx \<noteq> ''/''); dflt = defaultUpstreamHostHeader (target e);
         p = joinRoot (reqPath r)
     in r\<lparr>reqPath := (if stripPrefix e then stripPathPrefix p pfx else p),
          reqHost := (if hostHeader e \<noteq> '''' then hostHeader e else if dflt \<noteq> '''' then dflt else reqHost r),
          reqHeader := (let h1 = (if sub then (reqHeader r)(''X-Forwarded-Prefix'' := [pfx]) else reqHeader r)
                        in if stripPrefix e \<and> sub then h1(''Accept-Encoding'' := []) else h1)\<rparr>)"

section \<open>The registry stays consistent\<close>

definition owned :: "nat \<Rightarrow> string \<times> routeEntry \<Rightarrow> bool" where
  "owned mx pe \<longleftrightarrow> prefix (snd pe) = fst pe \<and> fst pe \<noteq> '''' \<and> target (snd pe) \<noteq> '''' \<and> mux (snd pe) = mx"

text \<open>The invariant: keys are distinct; a route is listed by the live session of its mux, and a live
  session's prefixes are routes of its mux; the TCP route belongs to the session that claims it.\<close>

definition mgr_inv :: "RevManager \<Rightarrow> bool" where
  "mgr_inv m \<longleftrightarrow>
    distinct (map fst (routes m))
    \<and> (\<forall>pe \<in> set (routes m). owned (mux (snd pe)) pe
        \<and> (\<exists>s. sessions m (mux (snd pe)) = Some s \<and> fst pe \<in> set (prefixes s)))
    \<and> (\<forall>mx s. sessions m mx = Some s \<longrightarrow>
        sessMux s = mx \<and> (\<forall>p \<in> set (prefixes s). \<exists>e. (p, e) \<in> set (routes m) \<and> mux e = mx)
        \<and> (sessTcp s \<longleftrightarrow> (\<exists>t. tcp m = Some t \<and> tcpMux t = mx)))
    \<and> (\<forall>t. tcp m = Some t \<longrightarrow> tcpTarget t \<noteq> '''' \<and> sessions m (tcpMux t) \<noteq> None)"

text \<open>During the second loop: the new routes follow the old ones and are the session's.\<close>

definition registering :: "RevManager \<Rightarrow> nat \<Rightarrow> RevManager \<times> revSession \<Rightarrow> bool" where
  "registering m0 mx st \<longleftrightarrow> (case st of (m, sess) \<Rightarrow>
    sessMux sess = mx \<and> sessions m = sessions m0
    \<and> (\<exists>new. routes m = routes m0 @ new \<and> fst ` set new = set (prefixes sess) \<and> distinct (map fst new)
        \<and> list_all (owned mx) new \<and> fst ` set new \<inter> fst ` set (routes m0) = {})
    \<and> (if sessTcp sess then tcp m0 = None \<and> (\<exists>t. tcp m = Some t \<and> tcpMux t = mx \<and> tcpTarget t \<noteq> '''') else tcp m = tcp m0))"

definition routeFits :: "RevManager \<Rightarrow> ReverseRoute \<Rightarrow> bool" where
  "routeFits m r \<longleftrightarrow> (if TrimSpace (routePath r) = '''' then TrimSpace (Target r) = '''' \<or> tcp m = None
     else TrimSpace (routePath r) \<notin> fst ` set (routes m))"

lemma checkRoutes_routeFits: "checkRoutes m seen rs = None \<Longrightarrow> list_all (routeFits m) rs"
  by (induction m seen rs rule: checkRoutes.induct)
    (auto simp: routeFits_def Let_def map_of_eq_None_iff split: if_splits)

lemma AList_update_append: "k \<notin> fst ` set a \<Longrightarrow> AList.update k v (a @ b) = a @ AList.update k v b"
  by (induction a) auto

lemma AList_update_facts:
  "fst ` set (AList.update k v b) = insert k (fst ` set b)"
  "distinct (map fst b) \<Longrightarrow> distinct (map fst (AList.update k v b))"
  "list_all P b \<Longrightarrow> P (k, v) \<Longrightarrow> list_all P (AList.update k v b)"
proof -
  show "fst ` set (AList.update k v b) = insert k (fst ` set b)" by (induction b) auto
  show "distinct (map fst b) \<Longrightarrow> distinct (map fst (AList.update k v b))" by (rule distinct_update)
  show "list_all P b \<Longrightarrow> P (k, v) \<Longrightarrow> list_all P (AList.update k v b)" by (induction b) auto
qed

lemma registering_addRoute:
  assumes "registering m0 mx st" "routeFits m0 r"
  shows "registering m0 mx (addRoute cid mx r st)"
proof -
  obtain m sess where st: "st = (m, sess)" by (cases st)
  let ?p = "TrimSpace (routePath r)" and ?t = "TrimSpace (Target r)"
  consider "?t = ''''" | "?p = ''''" "?t \<noteq> ''''" | "?p \<noteq> ''''" "?t \<noteq> ''''" by blast
  then show ?thesis
  proof cases
    case 1
    then show ?thesis using assms st by (simp add: addRoute_def Let_def)
  next
    case 2
    then show ?thesis using assms st by (auto simp: addRoute_def Let_def registering_def routeFits_def split: if_splits)
  next
    case 3
    let ?e = "\<lparr>prefix = ?p, target = ?t, stripPrefix = (case StripPrefix r of None \<Rightarrow> True | Some b \<Rightarrow> b), hostHeader = TrimSpace (HostHeader r), mux = mx\<rparr>"
    obtain new where n: "routes m = routes m0 @ new" "fst ` set new = set (prefixes sess)" "distinct (map fst new)"
        "list_all (owned mx) new" "fst ` set new \<inter> fst ` set (routes m0) = {}"
      using assms(1) st by (auto simp: registering_def)
    have fresh: "?p \<notin> fst ` set (routes m0)" using assms(2) 3 by (simp add: routeFits_def)
    have o: "owned mx (?p, ?e)" using 3 by (simp add: owned_def)
    let ?n = "AList.update ?p ?e new"
    have "AList.update ?p ?e (routes m) = routes m0 @ ?n" using n(1) fresh by (simp add: AList_update_append)
    moreover have "fst ` set ?n = set (prefixes sess @ [?p])" using n(2) by (simp add: AList_update_facts(1))
    moreover have "distinct (map fst ?n)" using n(3) by (rule AList_update_facts(2))
    moreover have "list_all (owned mx) ?n" using n(4) o by (rule AList_update_facts(3))
    moreover have "fst ` set ?n \<inter> fst ` set (routes m0) = {}" using n(5) fresh by (simp add: AList_update_facts(1))
    ultimately show ?thesis using assms(1) st 3 by (auto simp: addRoute_def Let_def registering_def)
  qed
qed

lemma registering_fold: "registering m0 mx st \<Longrightarrow> list_all (routeFits m0) rs \<Longrightarrow> registering m0 mx (fold (addRoute cid mx) rs st)"
proof (induction rs arbitrary: st)
  case (Cons r rs)
  then have "registering m0 mx (addRoute cid mx r st)" by (simp add: registering_addRoute)
  then show ?case using Cons by simp
qed simp

text \<open>A successful registration: the manager afterwards.\<close>

lemma RegisterSession_ok:
  assumes "RegisterSession cid (Some mx) rs m = (None, m')"
  shows "\<exists>sess new. sessions m mx = None \<and> sessions m' = (sessions m)(mx := Some sess) \<and> sessMux sess = mx
    \<and> routes m' = routes m @ new \<and> fst ` set new = set (prefixes sess) \<and> distinct (map fst new)
    \<and> list_all (owned mx) new \<and> fst ` set new \<inter> fst ` set (routes m) = {}
    \<and> (if sessTcp sess then tcp m = None \<and> (\<exists>t. tcp m' = Some t \<and> tcpMux t = mx \<and> tcpTarget t \<noteq> '''') else tcp m' = tcp m)"
proof -
  let ?s0 = "\<lparr>clientID = cid, sessMux = mx, prefixes = [], sessTcp = False\<rparr>"
  have free: "sessions m mx = None" and ck: "checkRoutes m False rs = None"
    using assms by (auto simp: RegisterSession_def split: if_splits option.splits)
  obtain m1 sess where f: "fold (addRoute cid mx) rs (m, ?s0) = (m1, sess)" by (cases "fold (addRoute cid mx) rs (m, ?s0)")
  have m': "m' = m1\<lparr>sessions := (sessions m1)(mx := Some sess)\<rparr>"
    using assms f free ck by (auto simp: RegisterSession_def split: if_splits)
  have "registering m mx (m, ?s0)" by (simp add: registering_def)
  then have "registering m mx (m1, sess)" using registering_fold [OF _ checkRoutes_routeFits [OF ck]] f by metis
  then show ?thesis using free m' by (fastforce simp: registering_def)
qed

lemma mgr_inv_register:
  assumes "mgr_inv m" "RegisterSession cid mx0 rs m = (None, m')"
  shows "mgr_inv m'"
proof -
  obtain mx where mx: "mx0 = Some mx" using assms(2) by (cases mx0) (auto simp: RegisterSession_def)
  obtain sess new where h: "sessions m mx = None" "sessions m' = (sessions m)(mx := Some sess)" "sessMux sess = mx"
      "routes m' = routes m @ new" "fst ` set new = set (prefixes sess)" "distinct (map fst new)"
      "list_all (owned mx) new" "fst ` set new \<inter> fst ` set (routes m) = {}"
      "if sessTcp sess then tcp m = None \<and> (\<exists>t. tcp m' = Some t \<and> tcpMux t = mx \<and> tcpTarget t \<noteq> '''') else tcp m' = tcp m"
    using RegisterSession_ok assms(2) mx by metis
  have d: "distinct (map fst (routes m'))" using assms(1) h by (auto simp: mgr_inv_def)
  have r: "owned (mux (snd pe)) pe \<and> (\<exists>s. sessions m' (mux (snd pe)) = Some s \<and> fst pe \<in> set (prefixes s))" if "pe \<in> set (routes m')" for pe
  proof (cases "pe \<in> set new")
    case True
    then have "owned mx pe" "fst pe \<in> set (prefixes sess)" using h(5,7) by (auto simp: list_all_iff)
    then show ?thesis using h(2) by (auto simp: owned_def)
  next
    case False
    then have "owned (mux (snd pe)) pe" "\<exists>s. sessions m (mux (snd pe)) = Some s \<and> fst pe \<in> set (prefixes s)"
      using that h(4) assms(1) by (auto simp: mgr_inv_def)
    then show ?thesis using h(1,2) by auto
  qed
  have own: "sessMux s = x \<and> (\<forall>p \<in> set (prefixes s). \<exists>e. (p, e) \<in> set (routes m') \<and> mux e = x)
      \<and> (sessTcp s \<longleftrightarrow> (\<exists>t. tcp m' = Some t \<and> tcpMux t = x))" if "sessions m' x = Some s" for x s
  proof (cases "x = mx")
    case True
    then have s: "s = sess" using that h(2) by simp
    have "\<exists>e. (p, e) \<in> set new \<and> mux e = mx" if "p \<in> set (prefixes sess)" for p
    proof -
      have "p \<in> fst ` set new" using that h(5) by simp
      then obtain e where "(p, e) \<in> set new" by auto
      then show ?thesis using h(7) unfolding list_all_iff owned_def by (metis snd_conv)
    qed
    moreover have "tcp m = Some t \<Longrightarrow> tcpMux t \<noteq> mx" for t using assms(1) h(1) by (auto simp: mgr_inv_def)
    then have "sessTcp sess \<longleftrightarrow> (\<exists>t. tcp m' = Some t \<and> tcpMux t = mx)" using h(9) by (auto split: if_splits)
    ultimately show ?thesis using s True h(3,4) by (metis Un_iff set_append)
  next
    case False
    then have "sessions m x = Some s" using that h(2) by simp
    then have o: "sessMux s = x \<and> (\<forall>p \<in> set (prefixes s). \<exists>e. (p, e) \<in> set (routes m) \<and> mux e = x)
        \<and> (sessTcp s \<longleftrightarrow> (\<exists>t. tcp m = Some t \<and> tcpMux t = x))" using assms(1) by (auto simp: mgr_inv_def)
    moreover have "(\<exists>t. tcp m' = Some t \<and> tcpMux t = x) \<longleftrightarrow> (\<exists>t. tcp m = Some t \<and> tcpMux t = x)"
      using h(9) False by (auto split: if_splits)
    ultimately show ?thesis using h(4) by (metis Un_iff set_append)
  qed
  have t: "tcpTarget t \<noteq> '''' \<and> sessions m' (tcpMux t) \<noteq> None" if "tcp m' = Some t" for t
    using that h(2,9) assms(1) by (auto simp: mgr_inv_def split: if_splits)
  show ?thesis unfolding mgr_inv_def using d r own t by blast
qed

lemma delete_fold: "fold (\<lambda>p. AList.delete p) ps al = filter (\<lambda>pe. fst pe \<notin> set ps) al"
proof (induction ps arbitrary: al)
  case (Cons p ps)
  have "filter (\<lambda>pe. fst pe \<notin> set ps) (AList.delete p al) = filter (\<lambda>pe. fst pe \<notin> set (p # ps)) al"
    by (simp add: AList.delete_eq filter_filter) (metis (mono_tags, lifting) case_prod_unfold)
  then show ?case using Cons by simp
qed simp

lemma UnregisterSession_live:
  assumes "mgr_inv m" "sessions m mx = Some s"
  shows "UnregisterSession (Some mx) m =
    m\<lparr>sessions := (sessions m)(mx := None), tcp := (if sessTcp s then None else tcp m), routes := filter (\<lambda>pe. mux (snd pe) \<noteq> mx) (routes m)\<rparr>"
proof -
  have "fst pe \<in> set (prefixes s) \<longleftrightarrow> mux (snd pe) = mx" if "pe \<in> set (routes m)" for pe
  proof
    assume "mux (snd pe) = mx"
    then show "fst pe \<in> set (prefixes s)" using assms that by (fastforce simp: mgr_inv_def)
  next
    assume "fst pe \<in> set (prefixes s)"
    then obtain e where e: "(fst pe, e) \<in> set (routes m)" "mux e = mx" using assms unfolding mgr_inv_def by blast
    have d: "distinct (map fst (routes m))" using assms(1) by (simp add: mgr_inv_def)
    have "pe = (fst pe, e)" using e(1) that eq_key_imp_eq_value [OF d] by (metis prod.collapse)
    then show "mux (snd pe) = mx" using e(2) by (metis snd_conv)
  qed
  then have "filter (\<lambda>pe. fst pe \<notin> set (prefixes s)) (routes m) = filter (\<lambda>pe. mux (snd pe) \<noteq> mx) (routes m)"
    by (intro filter_cong) auto
  moreover have "(case tcp m of Some t \<Rightarrow> if sessTcp s \<and> tcpMux t = mx then None else Some t | None \<Rightarrow> None) = (if sessTcp s then None else tcp m)"
  proof -
    have "sessTcp s \<longleftrightarrow> (\<exists>t. tcp m = Some t \<and> tcpMux t = mx)" using assms by (auto simp: mgr_inv_def)
    then show ?thesis by (auto split: option.splits)
  qed
  ultimately show ?thesis using assms(2) by (simp add: UnregisterSession_def delete_fold)
qed

lemma mgr_inv_unregister:
  assumes "mgr_inv m"
  shows "mgr_inv (UnregisterSession mx0 m)"
proof (cases "\<exists>mx s. mx0 = Some mx \<and> sessions m mx = Some s")
  case False
  then have "UnregisterSession mx0 m = m" by (auto simp: UnregisterSession_def split: option.splits)
  then show ?thesis using assms by simp
next
  case True
  then obtain mx s where h: "mx0 = Some mx" "sessions m mx = Some s" by blast
  have tcp: "tcp m = Some t \<Longrightarrow> tcpMux t = mx \<longleftrightarrow> sessTcp s" for t using assms h(2) by (auto simp: mgr_inv_def)
  have 1: "distinct (map fst (filter (\<lambda>pe. mux (snd pe) \<noteq> mx) (routes m)))" using assms by (simp add: mgr_inv_def distinct_map_filter)
  have 2: "sessMux u = x \<and> (\<forall>p \<in> set (prefixes u). \<exists>e. (p, e) \<in> set (routes m) \<and> mux e = x \<and> mux e \<noteq> mx)
      \<and> (sessTcp u \<longleftrightarrow> (\<exists>t. tcp m = Some t \<and> tcpMux t = x))" if "sessions m x = Some u" "x \<noteq> mx" for x u
    using assms that by (fastforce simp: mgr_inv_def)
  have 3: "sessTcp u \<longleftrightarrow> (\<exists>t. (if sessTcp s then None else tcp m) = Some t \<and> tcpMux t = x)" if "sessions m x = Some u" "x \<noteq> mx" for x u
    using 2 [OF that] tcp that(2) by auto
  show ?thesis
    unfolding h(1) UnregisterSession_live [OF assms h(2)] mgr_inv_def
    using 1 2 3 tcp assms by (auto simp: mgr_inv_def split: if_splits) (fastforce+)?
qed

text \<open>The manager's life: registrations, failed or not, and the end of sessions, in any order.\<close>

inductive mgr_reach :: "RevManager \<Rightarrow> bool" where
  new: "mgr_reach NewRevManager"
| register: "mgr_reach m \<Longrightarrow> mgr_reach (snd (RegisterSession cid mx rs m))"
| unregister: "mgr_reach m \<Longrightarrow> mgr_reach (UnregisterSession mx m)"

lemma RegisterSession_error: "RegisterSession cid mx rs m = (Some e, m') \<Longrightarrow> m' = m"
  by (auto simp: RegisterSession_def split: option.splits if_splits prod.splits)

lemma reach_inv: "mgr_reach m \<Longrightarrow> mgr_inv m"
proof (induction rule: mgr_reach.induct)
  case new
  show ?case by (simp add: mgr_inv_def NewRevManager_def)
next
  case (register m cid mx rs)
  obtain err m' where r: "RegisterSession cid mx rs m = (err, m')" by (cases "RegisterSession cid mx rs m")
  then show ?case using register mgr_inv_register RegisterSession_error by (cases err) (fastforce, fastforce)
next
  case (unregister m mx)
  then show ?case by (simp add: mgr_inv_unregister)
qed

text \<open>In every reachable state of the manager a route belongs to exactly one live session, which
  lists it, and the TCP route to the session that claims it; a failed registration changes nothing.\<close>

theorem reverse_registry_invariant:
  assumes "mgr_reach m"
  shows "mgr_inv m \<and> (\<forall>cid mx rs. fst (RegisterSession cid mx rs m) \<noteq> None \<longrightarrow> snd (RegisterSession cid mx rs m) = m)"
  using reach_inv [OF assms] RegisterSession_error by (metis not_Some_eq prod.collapse)

definition demoRoute :: "string \<Rightarrow> ReverseRoute" where
  "demoRoute p = \<lparr>routePath = p, Target = ''a:80'', StripPrefix = None, HostHeader = ''''\<rparr>"

definition demoManager :: RevManager where
  "demoManager = snd (RegisterSession ''c'' (Some 1) [demoRoute ''/app'', demoRoute ''''] NewRevManager)"

lemma demoManager_eq:
  "demoManager = \<lparr>routes = [(''/app'', \<lparr>prefix = ''/app'', target = ''a:80'', stripPrefix = True, hostHeader = '''', mux = 1\<rparr>)],
    sessions = (\<lambda>_. None)(1 := Some \<lparr>clientID = ''c'', sessMux = 1, prefixes = [''/app''], sessTcp = True\<rparr>),
    tcp = Some \<lparr>tcpClientID = ''c'', tcpTarget = ''a:80'', tcpMux = 1\<rparr>\<rparr>"
  by (simp add: demoManager_def demoRoute_def RegisterSession_def NewRevManager_def addRoute_def TrimSpace_def is_space_def Let_def)

lemma demoManager_reach: "mgr_reach demoManager"
  unfolding demoManager_def by (intro mgr_reach.intros)

theorem reverse_registry_invariant_witness:
  "mgr_reach demoManager \<and> mgr_inv demoManager \<and> snd (RegisterSession ''d'' (Some 2) [demoRoute ''/x'', demoRoute '' /app''] demoManager) = demoManager"
proof -
  have "fst (RegisterSession ''d'' (Some 2) [demoRoute ''/x'', demoRoute '' /app''] demoManager) \<noteq> None"
    by (simp add: demoManager_eq demoRoute_def RegisterSession_def TrimSpace_def is_space_def Let_def)
  then show ?thesis using reverse_registry_invariant [OF demoManager_reach] demoManager_reach by blast
qed

text \<open>Property C37: the end of a session undoes its registration: registering a session and ending it gives
  the manager back as it was, so every path and the TCP route can be taken again.\<close>

theorem register_unregister:
  assumes "mgr_reach m" "RegisterSession cid (Some mx) rs m = (None, m')"
  shows "UnregisterSession (Some mx) m' = m"
proof -
  have inv: "mgr_inv m" "mgr_inv m'" using reach_inv [OF assms(1)] mgr_inv_register assms(2) by auto
  obtain sess new where h: "sessions m mx = None" "sessions m' = (sessions m)(mx := Some sess)" "routes m' = routes m @ new"
      "list_all (owned mx) new"
      "if sessTcp sess then tcp m = None \<and> (\<exists>t. tcp m' = Some t \<and> tcpMux t = mx \<and> tcpTarget t \<noteq> '''') else tcp m' = tcp m"
    using RegisterSession_ok [OF assms(2)] by metis
  have "mux (snd pe) \<noteq> mx" if "pe \<in> set (routes m)" for pe using that inv(1) h(1) by (force simp: mgr_inv_def)
  then have "filter (\<lambda>pe. mux (snd pe) \<noteq> mx) (routes m') = routes m"
    using h(3,4) by (auto simp: list_all_iff owned_def filter_id_conv filter_empty_conv)
  moreover have "sessions m' mx = Some sess" using h(2) by simp
  moreover have "(sessions m')(mx := None) = sessions m" using h(1,2) by auto
  moreover have "(if sessTcp sess then None else tcp m') = tcp m" using h(5) by (auto split: if_splits)
  ultimately show ?thesis using UnregisterSession_live [OF inv(2), of mx sess] by simp
qed

theorem register_unregister_witness:
  "\<exists>m'. RegisterSession ''d'' (Some 2) [demoRoute ''/x''] demoManager = (None, m') \<and> UnregisterSession (Some 2) m' = demoManager"
proof -
  have "fst (RegisterSession ''d'' (Some 2) [demoRoute ''/x''] demoManager) = None"
    by (simp add: demoManager_eq demoRoute_def RegisterSession_def TrimSpace_def is_space_def Let_def split: prod.split)
  then show ?thesis using register_unregister [OF demoManager_reach] by (metis prod.collapse)
qed

section \<open>The longest prefix wins, whatever the order of the map\<close>

definition rooted :: "RevManager \<Rightarrow> bool" where
  "rooted m \<longleftrightarrow> distinct (map fst (routes m)) \<and> (\<forall>pe \<in> set (routes m). HasPrefix (fst pe) ''/'' \<and> prefix (snd pe) = fst pe)"

definition longestMatch :: "string \<Rightarrow> (string \<times> routeEntry) list \<Rightarrow> string \<Rightarrow> routeEntry \<Rightarrow> bool" where
  "longestMatch path rs p e \<longleftrightarrow> (p, e) \<in> set rs \<and> pathPrefixMatch path p \<and> (\<forall>pe \<in> set rs. pathPrefixMatch path (fst pe) \<longrightarrow> length (fst pe) \<le> length p)"

lemma matchLoop_result:
  "(matchLoop path best n rs = best \<and> (\<forall>pe \<in> set rs. pathPrefixMatch path (fst pe) \<longrightarrow> length (fst pe) \<le> n))
   \<or> (\<exists>p e. matchLoop path best n rs = Some e \<and> n < length p \<and> longestMatch path rs p e)"
proof (induction path best n rs rule: matchLoop.induct)
  case (2 path best n pfx entry rs)
  show ?case
  proof (cases "pathPrefixMatch path pfx \<and> n < length pfx")
    case True
    then have l: "matchLoop path best n ((pfx, entry) # rs) = matchLoop path (Some entry) (length pfx) rs" by simp
    from 2(2) True consider "matchLoop path (Some entry) (length pfx) rs = Some entry" "\<forall>pe \<in> set rs. pathPrefixMatch path (fst pe) \<longrightarrow> length (fst pe) \<le> length pfx"
      | p e where "matchLoop path (Some entry) (length pfx) rs = Some e" "length pfx < length p" "longestMatch path rs p e" by blast
    then show ?thesis
    proof cases
      case 1
      then have "longestMatch path ((pfx, entry) # rs) pfx entry" using True by (simp add: longestMatch_def)
      then show ?thesis using l 1(1) True by auto
    next
      case 2
      then have "longestMatch path ((pfx, entry) # rs) p e" by (auto simp: longestMatch_def)
      then show ?thesis using l 2 True by (intro disjI2 exI [of _ p] exI [of _ e]) simp
    qed
  next
    case False
    then have l: "matchLoop path best n ((pfx, entry) # rs) = matchLoop path best n rs" by auto
    from False 2(1,3) consider "matchLoop path best n rs = best" "\<forall>pe \<in> set rs. pathPrefixMatch path (fst pe) \<longrightarrow> length (fst pe) \<le> n"
      | p e where "matchLoop path best n rs = Some e" "n < length p" "longestMatch path rs p e" by blast
    then show ?thesis
    proof cases
      case 1
      then show ?thesis using l False by auto
    next
      case 2
      then have "longestMatch path ((pfx, entry) # rs) p e" using False by (auto simp: longestMatch_def)
      then show ?thesis using l 2 by (intro disjI2 exI [of _ p] exI [of _ e]) simp
    qed
  qed
qed simp

lemma pathPrefixMatch_iff:
  "pathPrefixMatch path p \<longleftrightarrow> p = ''/'' \<or> p \<noteq> '''' \<and> (\<exists>rest. path = p @ rest \<and> (rest = '''' \<or> hd rest = CHR ''/''))"
proof -
  have "HasPrefix path p \<longleftrightarrow> (\<exists>rest. path = p @ rest)" unfolding HasPrefix_def by (metis append_eq_conv_conj)
  then show ?thesis by (auto simp: pathPrefixMatch_def nth_append hd_conv_nth)
qed

lemma same_length_match:
  assumes "pathPrefixMatch path p" "pathPrefixMatch path q" "length p = length q" "HasPrefix p ''/''" "HasPrefix q ''/''"
  shows "p = q"
proof -
  have one: "x = ''/''" if "HasPrefix x ''/''" "length x = 1" for x using that by (cases x) (auto simp: HasPrefix_def)
  show ?thesis
  proof (cases "p = ''/'' \<or> q = ''/''")
    case True
    then show ?thesis using one assms(3-5) by fastforce
  next
    case False
    then obtain r r' where "path = p @ r" "path = q @ r'" using assms(1,2) unfolding pathPrefixMatch_iff by blast
    then show ?thesis using assms(3) by (metis append_eq_append_conv)
  qed
qed

lemma matchLocked_iff:
  assumes "rooted m"
  shows "matchLocked m path = Some e \<longleftrightarrow> (\<exists>p. longestMatch path (routes m) p e)"
proof
  assume "matchLocked m path = Some e"
  then show "\<exists>p. longestMatch path (routes m) p e" using matchLoop_result [of path None 0 "routes m"] by (auto simp: matchLocked_def)
next
  assume "\<exists>p. longestMatch path (routes m) p e"
  then obtain p where p: "longestMatch path (routes m) p e" by blast
  then have "0 < length p" by (auto simp: longestMatch_def pathPrefixMatch_def split: if_splits)
  then obtain q f where q: "matchLoop path None 0 (routes m) = Some f" "longestMatch path (routes m) q f"
    using matchLoop_result [of path None 0 "routes m"] p by (fastforce simp: longestMatch_def)
  have "length p = length q" using p q(2) unfolding longestMatch_def by (metis antisym fst_conv)
  moreover have "HasPrefix p ''/''" "HasPrefix q ''/''" using p q(2) assms unfolding longestMatch_def rooted_def by (metis fst_conv)+
  ultimately have "p = q" using p q(2) same_length_match unfolding longestMatch_def by blast
  then have "e = f" using p q(2) assms eq_key_imp_eq_value unfolding longestMatch_def rooted_def by metis
  then show "matchLocked m path = Some e" using q(1) by (simp add: matchLocked_def)
qed


definition demoRoutes :: "(string \<times> routeEntry) list" where
  "demoRoutes = map (\<lambda>p. (p, \<lparr>prefix = p, target = ''a:80'', stripPrefix = True, hostHeader = '''', mux = 1\<rparr>)) [''/a'', ''/'', ''/a/b'']"


section \<open>The prefix cookie brings a request back\<close>

lemma of_char_less: "(of_char c :: nat) < 256"
  by (metis nat_of_char_less_256)

lemma unhex_hexDigit: "n < 16 \<Longrightarrow> unhex (hexDigit n) = Some n"
  by (auto simp: unhex_def hexDigit_def Let_def of_char_of)

lemma PathUnescape_PathEscape: "PathUnescape (PathEscape s) = Some s"
proof (induction s)
  case (Cons c s)
  show ?case
  proof (cases "segmentUnescaped c")
    case True
    then have "c \<noteq> CHR ''%''" by (auto simp: segmentUnescaped_def)
    then show ?thesis using Cons True by (simp add: PathEscape_def)
  next
    case False
    have "(of_char c :: nat) div 16 < 16" using of_char_less [of c] by (intro less_mult_imp_div_less) simp
    then show ?thesis using Cons False by (simp add: PathEscape_def unhex_hexDigit)
  qed
qed (simp add: PathEscape_def)

lemma PathEscape_no_space: "list_all (\<lambda>c. \<not> is_space c) (PathEscape s)"
proof -
  have hex: "\<not> is_space (hexDigit n)" if "n < 16" for n
  proof -
    have "of_char (hexDigit n) = (if n < 10 then 48 + n else 55 + n)" using that by (simp add: hexDigit_def of_char_of)
    then have "33 \<le> (of_char (hexDigit n) :: nat)" by (simp split: if_splits)
    then show ?thesis by (auto simp: is_space_def)
  qed
  have "\<not> is_space c" if "segmentUnescaped c" for c using that by (auto simp: segmentUnescaped_def is_space_def)
  moreover have "(of_char c :: nat) div 16 < 16" for c using of_char_less [of c] by (intro less_mult_imp_div_less) simp
  ultimately show ?thesis using hex by (auto simp: PathEscape_def list_all_iff is_space_def [of "CHR ''%''"])
qed

text \<open>A request that carries the prefix cookie as the proxy sets it is routed, by the cookie, to the
  route that set it: the escaped prefix is unescaped to the same prefix, and the longest match of a
  registered prefix is itself.\<close>

theorem reverse_cookie_returns:
  assumes "rooted m" "(p, e) \<in> set (routes m)" "normalizePrefix p = p"
    and "map_of (reqCookies r) reversePrefixCookieName = Some (PathEscape p)"
  shows "matchByCookieLocked m r = Some e"
proof -
  have p: "HasPrefix p ''/''" "p \<noteq> ''''" using assms(1,2) by (auto simp: rooted_def HasPrefix_def)
  have "longestMatch p (routes m) p e"
    using assms(2) p by (auto simp: longestMatch_def pathPrefixMatch_iff HasPrefix_def Suc_le_eq)
  then have "matchLocked m p = Some e" using matchLocked_iff [OF assms(1)] by blast
  then show ?thesis
    using assms(3,4) p by (simp add: matchByCookieLocked_def TrimSpace_id [OF PathEscape_no_space] PathUnescape_PathEscape Let_def)
qed

definition demoRequest :: "string \<Rightarrow> httpRequest" where
  "demoRequest p = \<lparr>reqMethod = ''GET'', reqPath = p, reqHost = ''h'', reqHeader = (\<lambda>_. []), reqCookies = [(reversePrefixCookieName, ''%2Fapp'')]\<rparr>"

lemma demoManager_rooted: "rooted demoManager"
  by (simp add: demoManager_eq rooted_def HasPrefix_def)

theorem reverse_cookie_returns_witness:
  "map_option target (matchByCookieLocked demoManager (demoRequest ''/api'')) = Some ''a:80''"
proof -
  let ?e = "\<lparr>prefix = ''/app'', target = ''a:80'', stripPrefix = True, hostHeader = '''', mux = 1\<rparr>"
  have "matchByCookieLocked demoManager (demoRequest ''/api'') = Some ?e"
  proof (rule reverse_cookie_returns [OF demoManager_rooted, where p = "''/app''"])
    show "(''/app'', ?e) \<in> set (routes demoManager)" by (simp add: demoManager_eq)
    show "normalizePrefix ''/app'' = ''/app''" by code_simp
    have "PathEscape ''/app'' = ''%2Fapp''" by code_simp
    then show "map_of (reqCookies (demoRequest ''/api'')) reversePrefixCookieName = Some (PathEscape ''/app'')" by (simp add: demoRequest_def)
  qed
  then show ?thesis by simp
qed

section \<open>What the service sees\<close>

lemma stripPathPrefix_append:
  assumes "p \<noteq> ''''" "p \<noteq> ''/''" "rest = '''' \<or> hd rest = CHR ''/''"
  shows "stripPathPrefix (p @ rest) p = (if rest = '''' then ''/'' else rest)"
proof (cases rest)
  case Nil
  then show ?thesis using assms by (simp add: stripPathPrefix_def)
next
  case (Cons c cs)
  then have "p @ rest = (p @ ''/'') @ cs" using assms(3) by simp
  then have "HasPrefix (p @ rest) (p @ ''/'')" by (simp only: HasPrefix_append)
  then show ?thesis using assms Cons by (simp add: stripPathPrefix_def)
qed

lemma found_route:
  assumes "rooted m" "ServeHTTP urlParse m r = ProxyTo e path"
  shows "HasPrefix (prefix e) ''/'' \<and> (prefix e \<noteq> ''/'' \<longrightarrow>
     (path = reqPath r \<and> pathPrefixMatch path (prefix e)) \<or> path = prefix e @ reqPath r)"
proof -
  define found where "found = (case matchLocked m (reqPath r) of
            Some e \<Rightarrow> Some e
          | None \<Rightarrow> (case matchByRefererLocked urlParse m r of Some e \<Rightarrow> Some e | None \<Rightarrow> matchByCookieLocked m r))"
  have "\<exists>q. matchLocked m q = Some e" and path: "prefix e \<noteq> '''' \<longrightarrow> prefix e \<noteq> ''/'' \<longrightarrow> (path = reqPath r \<and> pathPrefixMatch path (prefix e)) \<or> path = prefix e @ reqPath r"
  proof -
    have f: "found = Some e" and p: "prefix e \<noteq> '''' \<longrightarrow> prefix e \<noteq> ''/'' \<longrightarrow> (path = reqPath r \<and> pathPrefixMatch path (prefix e)) \<or> path = prefix e @ reqPath r"
      using assms(2) unfolding ServeHTTP_def found_def [symmetric] by (auto simp: Let_def split: option.splits if_splits)
    show "\<exists>q. matchLocked m q = Some e"
      using f unfolding found_def matchByRefererLocked_def matchByCookieLocked_def Let_def by (auto split: option.splits if_splits)
    show "prefix e \<noteq> '''' \<longrightarrow> prefix e \<noteq> ''/'' \<longrightarrow> (path = reqPath r \<and> pathPrefixMatch path (prefix e)) \<or> path = prefix e @ reqPath r" by (rule p)
  qed
  then obtain q p where "longestMatch q (routes m) p e" using matchLocked_iff [OF assms(1)] by blast
  then have "HasPrefix (prefix e) ''/''" using assms(1) unfolding longestMatch_def rooted_def by (metis fst_conv snd_conv)
  moreover from this have "prefix e \<noteq> ''''" by (auto simp: HasPrefix_def)
  ultimately show ?thesis using path by blast
qed

text \<open>For a route that strips its prefix, the service sees the request without the prefix: a request
  under the prefix loses exactly the prefix (the prefix alone becomes \<open>/\<close>), and a request that reached the
  route by its Referer or cookie keeps the path the browser sent.\<close>

theorem reverse_upstream_path:
  assumes "rooted m" "HasPrefix (reqPath r) ''/''" "ServeHTTP urlParse m r = ProxyTo e path" "stripPrefix e" "prefix e \<noteq> ''/''"
  shows "\<exists>rest. path = prefix e @ rest \<and> (reqPath r = path \<or> reqPath r = rest)
    \<and> reqPath (director e (r\<lparr>reqPath := path\<rparr>)) = (if rest = '''' then ''/'' else rest)"
proof -
  have p: "HasPrefix (prefix e) ''/''" "prefix e \<noteq> ''''"
    using found_route [OF assms(1,3)] by (auto simp: HasPrefix_def)
  obtain rest where rest: "path = prefix e @ rest" "rest = '''' \<or> hd rest = CHR ''/''" "reqPath r = path \<or> reqPath r = rest"
  proof -
    have slash: "reqPath r = '''' \<or> hd (reqPath r) = CHR ''/''" using assms(2) by (cases "reqPath r") (auto simp: HasPrefix_def)
    consider "path = reqPath r" "pathPrefixMatch path (prefix e)" | "path = prefix e @ reqPath r"
      using found_route [OF assms(1,3)] assms(5) by blast
    then show thesis
    proof cases
      case 1
      then show thesis using that assms(5) unfolding pathPrefixMatch_iff by metis
    next
      case 2
      then show thesis using that slash by blast
    qed
  qed
  obtain t where "prefix e = CHR ''/'' # t" using p by (cases "prefix e") (auto simp: HasPrefix_def)
  then have "joinRoot path = path" using rest(1) by (simp add: joinRoot_def HasPrefix_def)
  then have "reqPath (director e (r\<lparr>reqPath := path\<rparr>)) = stripPathPrefix path (prefix e)"
    using assms(4) by (simp add: director_def Let_def)
  then show ?thesis using stripPathPrefix_append [OF p(2) assms(5) rest(2)] rest by auto
qed

theorem reverse_upstream_path_witness:
  "\<exists>e path. ServeHTTP (\<lambda>_. None) demoManager (demoRequest ''/api'') = ProxyTo e path \<and> path = ''/app/api''
     \<and> reqPath (director e ((demoRequest ''/api'')\<lparr>reqPath := path\<rparr>)) = ''/api''"
proof -
  let ?e = "\<lparr>prefix = ''/app'', target = ''a:80'', stripPrefix = True, hostHeader = '''', mux = 1\<rparr>" and ?r = "demoRequest ''/api''"
  have c: "PathUnescape (TrimSpace ''%2Fapp'') = Some ''/app''" "normalizePrefix ''/app'' = ''/app''" by code_simp+
  have s: "ServeHTTP (\<lambda>_. None) demoManager ?r = ProxyTo ?e ''/app/api''"
    by (simp add: ServeHTTP_def demoManager_eq demoRequest_def matchLocked_def pathPrefixMatch_def HasPrefix_def Let_def
        matchByRefererLocked_def header_Get_def TrimSpace_def [of "[]"] matchByCookieLocked_def c)
  have "HasPrefix (reqPath ?r) ''/''" by (simp add: demoRequest_def HasPrefix_def)
  from reverse_upstream_path [OF demoManager_rooted this s] obtain rest where
    "''/app/api'' = ''/app'' @ rest" "reqPath (director ?e (?r\<lparr>reqPath := ''/app/api''\<rparr>)) = (if rest = '''' then ''/'' else rest)"
    by auto
  then have "reqPath (director ?e (?r\<lparr>reqPath := ''/app/api''\<rparr>)) = ''/api''" by auto
  then show ?thesis using s by blast
qed

section \<open>A client serves the targets its server dials\<close>

lemma sanitizeRoutes_from: "sanitizeRoutes seen t rs = Inr out \<Longrightarrow> r \<in> set out \<Longrightarrow> \<exists>r0 \<in> set rs. r = normalizeRoute r0 \<and> Target r \<noteq> ''''"
proof (induction seen t rs arbitrary: out rule: sanitizeRoutes.induct)
  case (2 seen t r0 rs)
  show ?case
  proof (cases "r = normalizeRoute r0 \<and> Target r \<noteq> ''''")
    case False
    let ?r = "normalizeRoute r0"
    consider "sanitizeRoutes seen t rs = Inr out" "routePath ?r = '''' \<and> Target ?r = ''''"
      | seen' t' out' where "sanitizeRoutes seen' t' rs = Inr out'" "out = ?r # out'" "Target ?r \<noteq> ''''"
          "(seen' = seen \<and> t' = True \<and> routePath ?r = '''' \<and> \<not> t) \<or> (seen' = routePath ?r # seen \<and> t' = t \<and> routePath ?r \<noteq> '''' \<and> routePath ?r \<notin> set seen)"
          "\<exists>hp. SplitHostPort (Target ?r) = Inr hp"
    proof -
      have "map_sum id ((#) ?r) x = Inr out \<Longrightarrow> \<exists>out'. x = Inr out' \<and> out = ?r # out'" for x :: "ReverseRoute list result"
        by (cases x) auto
      then show thesis using that "2.prems"(1) by (auto simp: Let_def split: if_splits sum.splits)
    qed
    then show ?thesis
    proof cases
      case 1
      then show ?thesis using "2.IH"(1) "2.prems"(2) by fastforce
    next
      case (2 seen' t' out')
      then have "r \<in> set out'" using "2.prems"(2) False by auto
      then have "\<exists>r0 \<in> set rs. r = normalizeRoute r0 \<and> Target r \<noteq> ''''"
        using 2 "2.IH"(2) [OF refl _ _ _ _ _ _, of _ out'] "2.IH"(3) [OF refl _ _ _ _ _, of _ out'] by (elim disjE) auto
      then show ?thesis by auto
    qed
  qed auto
qed simp

text \<open>Every target in the manager after the second loop was there before or is the trimmed target of a route.\<close>

definition targets :: "RevManager \<Rightarrow> string set" where
  "targets m = target ` snd ` set (routes m) \<union> tcpTarget ` set_option (tcp m)"

lemma set_AList_update: "set (AList.update k v al) \<subseteq> insert (k, v) (set al)"
  by (induction al) auto

lemma addRoute_targets: "targets (fst (addRoute cid mx r st)) \<subseteq> targets (fst st) \<union> ({TrimSpace (Target r)} - {''''})"
proof -
  obtain m sess where st: "st = (m, sess)" by (cases st)
  have u: "target ` snd ` set (AList.update p e al) \<subseteq> insert (target e) (target ` snd ` set al)" for p e al
    using image_mono [OF image_mono [OF set_AList_update [of p e al]], of target snd] by simp
  let ?p = "TrimSpace (routePath r)" and ?t = "TrimSpace (Target r)"
  consider "?t = ''''" | "?p = ''''" "?t \<noteq> ''''" | "?p \<noteq> ''''" "?t \<noteq> ''''" by blast
  then show ?thesis
  proof cases
    case 1
    then show ?thesis using st by (simp add: addRoute_def Let_def)
  next
    case 2
    then show ?thesis using st by (auto simp: addRoute_def Let_def targets_def)
  next
    case 3
    let ?e = "\<lparr>prefix = ?p, target = ?t, stripPrefix = (case StripPrefix r of None \<Rightarrow> True | Some b \<Rightarrow> b), hostHeader = TrimSpace (HostHeader r), mux = mx\<rparr>"
    have "targets (fst (addRoute cid mx r st)) = target ` snd ` set (AList.update ?p ?e (routes m)) \<union> tcpTarget ` set_option (tcp m)"
      using 3 st by (simp add: addRoute_def Let_def targets_def)
    also have "\<dots> \<subseteq> insert ?t (target ` snd ` set (routes m)) \<union> tcpTarget ` set_option (tcp m)"
      using u [of ?p ?e "routes m"] unfolding routeEntry.simps by (rule Un_mono [OF _ subset_refl])
    finally show ?thesis using 3 st by (auto simp: targets_def)
  qed
qed

lemma addRoutes_targets: "targets (fst (fold (addRoute cid mx) rs st)) \<subseteq> targets (fst st) \<union> allowedTargets rs"
proof (induction rs arbitrary: st)
  case (Cons r rs)
  have "allowedTargets (r # rs) = ({TrimSpace (Target r)} - {''''}) \<union> allowedTargets rs" by (auto simp: allowedTargets_def)
  then show ?case using Cons [of "addRoute cid mx r st"] addRoute_targets [of cid mx r st] by auto
qed simp

lemma RegisterSession_targets: "RegisterSession cid mx rs m = (e, m') \<Longrightarrow> targets m' \<subseteq> targets m \<union> allowedTargets rs"
proof -
  assume r: "RegisterSession cid mx rs m = (e, m')"
  have eq: "targets (M\<lparr>sessions := f\<rparr>) = targets M" for M :: RevManager and f by (simp add: targets_def)
  show ?thesis
  proof (cases e)
    case None
    obtain x where x: "mx = Some x" using r None by (cases mx) (auto simp: RegisterSession_def)
    let ?st = "(m, \<lparr>clientID = cid, sessMux = x, prefixes = [], sessTcp = False\<rparr>)"
    obtain m1 sess where f: "fold (addRoute cid x) rs ?st = (m1, sess)" by (cases "fold (addRoute cid x) rs ?st")
    have "m' = m1\<lparr>sessions := (sessions m1)(x := Some sess)\<rparr>"
      using r x None f by (auto simp: RegisterSession_def split: if_splits option.splits)
    then show ?thesis using addRoutes_targets [of cid x rs ?st] f eq by simp
  qed (use r RegisterSession_error in blast)
qed

text \<open>Property C39: the server dials only what the client allows. When the server decodes the routes the client
  encoded, every target the registration adds to the manager is one the client's dialer lets through.\<close>

theorem reverse_targets_allowed:
  assumes "clientHello marshal cid rs = Inr payload" "unmarshal payload = Inr (TrimSpace cid, rs)"
    and "HandleServerSession unmarshal packed userHash payload newMux m = (None, m')" "t \<in> targets m'" "t \<notin> targets m"
  shows "reverseDial dialTimeout rs t = dialTimeout t"
proof -
  obtain normalized mx where n: "sanitizeRoutes [] False rs = Inr normalized"
      "RegisterSession (helloClientID (TrimSpace cid) userHash) (Some mx) normalized m = (None, m')"
    using assms(2,3) by (auto simp: HandleServerSession_def split: if_splits sum.splits)
  have "t \<in> allowedTargets normalized" using RegisterSession_targets [OF n(2)] assms(4,5) by blast
  then obtain r where r: "r \<in> set normalized" "t = TrimSpace (Target r)" "t \<noteq> ''''" by (auto simp: allowedTargets_def)
  obtain r0 where r0: "r0 \<in> set rs" "r = normalizeRoute r0" using sanitizeRoutes_from [OF n(1) r(1)] by blast
  have "t = TrimSpace (Target r0)" using r(2) r0(2) normalizeRoute_trimmed(1) [of r0] by (simp add: normalizeRoute_def Let_def)
  then have "t \<in> allowedTargets rs" using r(3) r0(1) by (auto simp: allowedTargets_def)
  then show ?thesis by (simp add: reverseDial_def)
qed

theorem reverse_targets_allowed_witness:
  "\<exists>m'. HandleServerSession (\<lambda>_. Inr (''c'', [demoRoute '' app/ ''])) None '''' [1] (Inr 1) NewRevManager = (None, m')
     \<and> ''a:80'' \<in> targets m' \<and> reverseDial (\<lambda>a. Inr a) [demoRoute '' app/ ''] ''a:80'' = (Inr ''a:80'' :: string result)"
proof -
  let ?rs = "[demoRoute '' app/ '']" and ?un = "\<lambda>_. Inr (''c'', [demoRoute '' app/ ''])"
  let ?m = "snd (HandleServerSession ?un None '''' [1] (Inr 1) NewRevManager)"
  have s: "sanitizeRoutes [] False ?rs = Inr [demoRoute ''/app'']" by code_simp
  have r: "HandleServerSession ?un None '''' [1] (Inr 1) NewRevManager = RegisterSession (helloClientID ''c'' '''') (Some 1) [demoRoute ''/app''] NewRevManager"
    by (simp add: HandleServerSession_def s maxHelloBytes_def del: sanitizeRoutes.simps)
  have h: "HandleServerSession ?un None '''' [1] (Inr 1) NewRevManager = (None, ?m)" "''a:80'' \<in> targets ?m"
    unfolding r by (simp_all add: RegisterSession_def NewRevManager_def addRoute_def demoRoute_def TrimSpace_def is_space_def Let_def targets_def)
  have c: "clientHello (\<lambda>_. Inr [1]) ''c'' ?rs = Inr [1]" by (simp add: clientHello_def maxHelloBytes_def)
  have u: "?un [1] = Inr (TrimSpace ''c'', ?rs)" by (simp add: TrimSpace_def is_space_def)
  have "''a:80'' \<notin> targets NewRevManager" by (simp add: targets_def NewRevManager_def)
  from reverse_targets_allowed [OF c u h this, of "\<lambda>a. Inr a"] show ?thesis using h by blast
qed

text \<open>The check for duplicate paths compares cleaned paths, the registration trims them once more: two routes
  whose cleaned paths differ by a space are both accepted, and the second replaces the first.\<close>

lemma trimmed_duplicate_accepted:
  "let rs = [demoRoute ''/a'', (demoRoute ''/a /'')\<lparr>Target := ''b:80''\<rparr>];
       m = snd (RegisterSession ''c'' (Some 1) (case sanitizeRoutes [] False rs of Inr out \<Rightarrow> out | Inl _ \<Rightarrow> []) NewRevManager)
   in map (\<lambda>(p, e). (p, target e)) (routes m) = [(''/a'', ''b:80'')] \<and> map_option prefixes (sessions m 1) = Some [''/a'', ''/a'']"
proof -
  have s: "sanitizeRoutes [] False [demoRoute ''/a'', (demoRoute ''/a /'')\<lparr>Target := ''b:80''\<rparr>]
      = Inr [demoRoute ''/a'', (demoRoute ''/a '')\<lparr>Target := ''b:80''\<rparr>]" by code_simp
  show ?thesis unfolding Let_def s sum.case
    by (simp add: RegisterSession_def NewRevManager_def addRoute_def demoRoute_def TrimSpace_def is_space_def Let_def)
qed

text \<open>A connection's bytes read while sniffing are replayed to whoever gets it; a server-first TCP protocol
  reaches the TCP route after the read timeout.\<close>

lemma entry_dispatch:
  "serveEntryConn peek None False = (if LooksLikeHTTPRequestStart peek then EntryHTTP peek else EntryTCP peek)"
  "serveEntryConn peek (Some ReadTimeout) closed = EntryTCP peek"
  by (simp_all add: serveEntryConn_def)

end
