(* ===== verification/ReverseHttp.thy ===== *)
theory ReverseHttp
  imports Reverse
begin

text \<open>
  What a route's proxy does to a response (\<open>ModifyResponse\<close> of \<open>newRouteProxy\<close> and its helpers in
  \<open>internal/reverse/manager.go\<close>, and \<open>rewriteTextBody\<close> of \<open>internal/reverse/rewrite_body.go\<close>): redirects,
  cookie paths, the prefix cookie and the text of the body. A body is the bytes it delivers and the error it
  ends with, if any. \<open>net/url\<close>'s parser and printer and the gzip reader are parameters.
\<close>

section \<open>Responses\<close>

record url =
  uScheme :: string
  uHost :: string
  uPath :: string
  uRest :: string

record urllib =
  parseURL :: "string \<Rightarrow> url option"
  urlString :: "url \<Rightarrow> string"

text \<open>\<open>respRequest\<close> is the request's host and URL path.\<close>

record httpResponse =
  respHeader :: header
  respBody :: "string \<times> go_error option"
  respLength :: int
  respRequest :: "(string \<times> string) option"

definition setHeader :: "string \<Rightarrow> string list \<Rightarrow> httpResponse \<Rightarrow> httpResponse" where
  "setHeader k vs resp = resp\<lparr>respHeader := (respHeader resp)(k := vs)\<rparr>"

section \<open>Redirects\<close>

text \<open>\<open>url.URL.Hostname\<close> and \<open>Port\<close> of a host string.\<close>

definition splitURLHost :: "string \<Rightarrow> string \<times> string" where
  "splitURLHost hostPort =
    (let (h, p) = (case LastIndexByte hostPort CHR '':'' of
           Some i \<Rightarrow> if list_all is_digit (drop (i + 1) hostPort) then (take i hostPort, drop (i + 1) hostPort) else (hostPort, '''')
         | None \<Rightarrow> (hostPort, ''''))
     in (if HasPrefix h ''['' \<and> hasSuffix h '']'' then drop 1 (take (length h - 1) h) else h, p))"

definition sameHTTPHost :: "string \<Rightarrow> string \<Rightarrow> string \<Rightarrow> bool" where
  "sameHTTPHost reqHost0 locHost0 scheme \<longleftrightarrow>
    (let rh = TrimSpace reqHost0; lh = TrimSpace locHost0 in
     if rh = '''' \<or> lh = '''' then False
     else if \<not> EqualFold (fst (splitURLHost rh)) (fst (splitURLHost lh)) then False
     else if snd (splitURLHost rh) = '''' then True
     else
       let lp = snd (splitURLHost lh); sc = ToLower (TrimSpace scheme) in
       if lp \<noteq> '''' then snd (splitURLHost rh) = lp
       else if sc = ''https'' then snd (splitURLHost rh) = ''443''
       else if sc = ''http'' then snd (splitURLHost rh) = ''80''
       else False)"

definition rewriteLocation :: "urllib \<Rightarrow> httpResponse \<Rightarrow> string \<Rightarrow> httpResponse" where
  "rewriteLocation lib resp pfx =
    (let loc = TrimSpace (header_Get (respHeader resp) ''Location'') in
     if pfx = '''' \<or> pfx = ''/'' \<or> loc = '''' then resp
     else if HasPrefix loc ''/'' \<and> \<not> HasPrefix loc ''//'' then
       (case parseURL lib loc of
          None \<Rightarrow> resp
        | Some u \<Rightarrow>
          if uPath u = '''' \<or> \<not> HasPrefix (uPath u) ''/'' then resp
          else if pathPrefixMatch (uPath u) pfx then resp
          else setHeader ''Location'' [urlString lib (u\<lparr>uPath := pfx @ uPath u\<rparr>)] resp)
     else if HasPrefix loc ''http://'' \<or> HasPrefix loc ''https://'' then
       (case parseURL lib loc of
          None \<Rightarrow> resp
        | Some u \<Rightarrow>
          if uHost u = '''' \<or> uPath u = '''' \<or> \<not> HasPrefix (uPath u) ''/'' then resp
          else if HasPrefix (uPath u) (pfx @ ''/'') \<or> uPath u = pfx then resp
          else (case respRequest resp of
             None \<Rightarrow> resp
           | Some (host, _) \<Rightarrow>
             if \<not> sameHTTPHost host (uHost u) (uScheme u) then resp
             else setHeader ''Location'' [urlString lib (u\<lparr>uPath := pfx @ uPath u\<rparr>)] resp))
     else resp)"

section \<open>Cookies\<close>

definition rewriteCookiePart :: "string \<Rightarrow> string \<Rightarrow> string" where
  "rewriteCookiePart pfx part0 =
    (let part = TrimSpace part0 in
     if part = '''' \<or> length part < 5 then part0
     else if EqualFold (take 5 part) ''Path='' then
       (let pathVal = TrimSpace (drop 5 part) in
        if HasPrefix pathVal ''/'' \<and> \<not> HasPrefix pathVal ''//'' then
          if HasPrefix pathVal (pfx @ ''/'') \<or> pathVal = pfx then part0 else ''Path='' @ pfx @ pathVal
        else part0)
     else part0)"

fun joinByte :: "char \<Rightarrow> string list \<Rightarrow> string" where
  "joinByte c [] = []"
| "joinByte c [w] = w"
| "joinByte c (w # ws) = w @ c # joinByte c ws"

definition rewriteSetCookie :: "string \<Rightarrow> string \<Rightarrow> string" where
  "rewriteSetCookie pfx v = joinByte CHR '';'' (map (rewriteCookiePart pfx) (splitByte CHR '';'' v))"

definition rewriteSetCookiePath :: "httpResponse \<Rightarrow> string \<Rightarrow> httpResponse" where
  "rewriteSetCookiePath resp pfx =
    (if pfx = '''' \<or> pfx = ''/'' then resp
     else let values = respHeader resp ''Set-Cookie'' in
       if values = [] then resp else setHeader ''Set-Cookie'' (map (rewriteSetCookie pfx) values) resp)"

text \<open>The printed form of the prefix cookie (\<open>http.Cookie.String\<close> of the literal in the code).\<close>

definition prefixCookie :: "string \<Rightarrow> string" where
  "prefixCookie p = reversePrefixCookieName @ ''='' @ PathEscape p @ ''; Path=/; HttpOnly; SameSite=Lax''"

definition rewriteReversePrefixCookie :: "httpResponse \<Rightarrow> string \<Rightarrow> httpResponse" where
  "rewriteReversePrefixCookie resp pfx =
    (let p = normalizePrefix pfx in
     if p = '''' then resp else setHeader ''Set-Cookie'' (respHeader resp ''Set-Cookie'' @ [prefixCookie p]) resp)"

section \<open>The body\<close>

definition maxBody :: nat where "maxBody = 8388608"

text \<open>\<open>io.ReadAll(io.LimitReader(r, maxBody+1))\<close>: an error past the limit is not seen.\<close>

definition readAll :: "string \<times> go_error option \<Rightarrow> string result" where
  "readAll r =
    (case r of (b, e) \<Rightarrow>
     if maxBody < length b then Inr (take (maxBody + 1) b)
     else case e of Some err \<Rightarrow> Inl err | None \<Rightarrow> Inr b)"

definition setBody :: "string \<Rightarrow> httpResponse \<Rightarrow> httpResponse" where
  "setBody b resp =
    resp\<lparr>respBody := (b, None), respLength := int (length b),
      respHeader := (respHeader resp)(''Content-Length'' := [Itoa (length b)], ''Transfer-Encoding'' := [])\<rparr>"

definition contentEncoding :: "httpResponse \<Rightarrow> string" where
  "contentEncoding resp = ToLower (TrimSpace (header_Get (respHeader resp) ''Content-Encoding''))"

definition responsePathType :: "httpResponse \<Rightarrow> string" where
  "responsePathType resp = inferContentTypeFromPath (case respRequest resp of None \<Rightarrow> '''' | Some (_, p) \<Rightarrow> p)"

definition responseType :: "httpResponse \<Rightarrow> string" where
  "responseType resp =
    (let ct0 = ToLower (header_Get (respHeader resp) ''Content-Type'');
         ct1 = (if CHR '';'' \<in> set ct0 then TrimSpace (takeWhile (\<lambda>c. c \<noteq> CHR '';'') ct0) else ct0)
     in if ct1 = '''' then responsePathType resp else ct1)"

text \<open>The early returns before the body is read.\<close>

definition bodySkipped :: "httpResponse \<Rightarrow> string \<Rightarrow> bool" where
  "bodySkipped resp pfx \<longleftrightarrow>
    pfx = '''' \<or> pfx = ''/''
    \<or> contentEncoding resp \<notin> {'''', ''identity'', ''gzip''}
    \<or> int maxBody < respLength resp
    \<or> responseType resp = '''' \<or> responseType resp = ''text/event-stream'' \<or> isJavaScriptContentType (responseType resp)
    \<or> responsePathType resp = ''application/javascript''
    \<or> \<not> isRewritableContentType (responseType resp)"

text \<open>
  \<open>gunzip\<close> is \<open>gzip.NewReader\<close> and the bytes its reader delivers. \<open>restoreStream\<close> puts the bytes read
  back before the rest of the body, which leaves the body as it was.
\<close>

definition rewriteTextBody :: "(string \<Rightarrow> (string \<times> go_error option) result) \<Rightarrow> httpResponse \<Rightarrow> string \<Rightarrow> httpResponse result" where
  "rewriteTextBody gunzip resp pfx =
    (if bodySkipped resp pfx then Inr resp
     else if contentEncoding resp = ''gzip'' then
       (case readAll (respBody resp) of
          Inl err \<Rightarrow> Inl err
        | Inr compressed \<Rightarrow>
          if maxBody < length compressed then Inr resp
          else case gunzip compressed of
            Inl err \<Rightarrow> Inr (setBody compressed resp)
          | Inr gr \<Rightarrow>
            (case readAll gr of
               Inl err \<Rightarrow> Inl err
             | Inr raw \<Rightarrow>
               if maxBody < length raw then Inr (setBody compressed resp)
               else let rewritten = rewriteTextPayload (responseType resp) raw pfx in
                 if raw = rewritten then Inr (setBody compressed resp)
                 else Inr (setHeader ''Etag'' [] (setHeader ''Content-Encoding'' [] (setBody rewritten resp)))))
     else (case readAll (respBody resp) of
       Inl err \<Rightarrow> Inl err
     | Inr raw \<Rightarrow>
       if maxBody < length raw then Inr resp
       else let rewritten = rewriteTextPayload (responseType resp) raw pfx in
         Inr (setBody rewritten (if raw \<noteq> rewritten then setHeader ''Etag'' [] resp else resp))))"

definition modifyResponse :: "urllib \<Rightarrow> (string \<Rightarrow> (string \<times> go_error option) result) \<Rightarrow> routeEntry \<Rightarrow> httpResponse \<Rightarrow> httpResponse result" where
  "modifyResponse lib gunzip e resp =
    (let pfx = prefix e in
     if stripPrefix e \<and> pfx \<noteq> '''' \<and> pfx \<noteq> ''/'' then
       rewriteTextBody gunzip (rewriteReversePrefixCookie (rewriteSetCookiePath (rewriteLocation lib resp pfx) pfx) pfx) pfx
     else Inr resp)"

section \<open>The text a browser decodes\<close>

definition decodedBody :: "(string \<Rightarrow> (string \<times> go_error option) result) \<Rightarrow> httpResponse \<Rightarrow> string option" where
  "decodedBody gunzip resp =
    (if snd (respBody resp) \<noteq> None then None
     else if contentEncoding resp = ''gzip'' then (case gunzip (fst (respBody resp)) of Inr (raw, None) \<Rightarrow> Some raw | _ \<Rightarrow> None)
     else Some (fst (respBody resp)))"

lemma contentEncoding_simps [simp]:
  "contentEncoding (setBody b resp) = contentEncoding resp"
  "contentEncoding (setHeader ''Etag'' vs resp) = contentEncoding resp"
  "contentEncoding (setHeader ''Content-Encoding'' [] resp) = ''''"
  by (simp_all add: contentEncoding_def setBody_def setHeader_def header_Get_def TrimSpace_def ToLower_def)

lemma setHeader_simps [simp]:
  "respBody (setHeader k vs resp) = respBody resp" "respLength (setHeader k vs resp) = respLength resp"
  "respBody (setBody b resp) = (b, None)" "respLength (setBody b resp) = int (length b)"
  "respHeader (setHeader k vs resp) = (respHeader resp)(k := vs)"
  "respHeader (setBody b resp) ''Content-Length'' = [Itoa (length b)]"
  by (simp_all add: setHeader_def setBody_def)

text \<open>Property C40: a response whose body is not skipped and routeFits the limit before and after decompression is passed
  on with the rewritten text: whether the body was compressed or not, what a browser decodes is the
  rewriting of what the service sent, and the length is announced correctly.\<close>

theorem reverse_body_rewritten:
  assumes "\<not> bodySkipped resp pfx" "decodedBody gunzip resp = Some raw" "length (fst (respBody resp)) \<le> maxBody" "length raw \<le> maxBody"
  shows "\<exists>resp'. rewriteTextBody gunzip resp pfx = Inr resp'
    \<and> decodedBody gunzip resp' = Some (rewriteTextPayload (responseType resp) raw pfx)
    \<and> respLength resp' = int (length (fst (respBody resp')))
    \<and> respHeader resp' ''Content-Length'' = [Itoa (length (fst (respBody resp')))]"
proof -
  obtain b where b: "respBody resp = (b, None)" using assms(2) by (cases "respBody resp") (auto simp: decodedBody_def split: if_splits)
  then have rd: "readAll (respBody resp) = Inr b" using assms(3) by (simp add: readAll_def)
  show ?thesis
  proof (cases "contentEncoding resp = ''gzip''")
    case True
    then have g: "gunzip b = Inr (raw, None)" using assms(2) b by (auto simp: decodedBody_def split: sum.splits prod.splits option.splits)
    have "readAll (raw, None) = Inr raw" using assms(4) by (simp add: readAll_def)
    then show ?thesis using assms True b rd g by (auto simp: rewriteTextBody_def decodedBody_def Let_def)
  next
    case False
    then have "raw = b" using assms(2) b by (simp add: decodedBody_def)
    then show ?thesis using assms False b rd by (auto simp: rewriteTextBody_def decodedBody_def Let_def)
  qed
qed

definition demoResponse :: "string \<Rightarrow> httpResponse" where
  "demoResponse b = \<lparr>respHeader = (\<lambda>_. [])(''Content-Type'' := [''text/html; charset=utf-8''], ''Location'' := [''/login'']),
     respBody = (b, None), respLength = -1, respRequest = Some (''h'', ''/index'')\<rparr>"

lemma demoResponse_facts:
  "responseType (demoResponse b) = ''text/html''" "responsePathType (demoResponse b) = ''''" "contentEncoding (demoResponse b) = ''''"
proof -
  have t: "ToLower ''text/html; charset=utf-8'' = ''text/html; charset=utf-8''" "TrimSpace ''text/html'' = ''text/html''"
    "inferContentTypeFromPath ''/index'' = ''''" "ToLower (TrimSpace '''') = ''''" by code_simp+
  show "responseType (demoResponse b) = ''text/html''" "responsePathType (demoResponse b) = ''''" "contentEncoding (demoResponse b) = ''''"
    by (simp_all add: responseType_def responsePathType_def contentEncoding_def demoResponse_def header_Get_def Let_def t)
qed

lemma demoResponse_not_skipped: "\<not> bodySkipped (demoResponse b) ''/p''"
  unfolding bodySkipped_def demoResponse_facts
  by (simp add: demoResponse_def isJavaScriptContentType_def isRewritableContentType_def HasPrefix_def maxBody_def)

theorem reverse_body_rewritten_witness:
  "\<exists>resp'. rewriteTextBody (\<lambda>_. Inl EOF) (demoResponse ''<a href=`/x`>'') ''/p'' = Inr resp'
     \<and> decodedBody (\<lambda>_. Inl EOF) resp' = Some ''<a href=`/p/x`>''"
proof -
  let ?r = "demoResponse ''<a href=`/x`>''"
  have d: "decodedBody (\<lambda>_. Inl EOF) ?r = Some ''<a href=`/x`>''"
    unfolding decodedBody_def demoResponse_facts by (simp add: demoResponse_def)
  have l: "length (fst (respBody ?r)) \<le> maxBody" "length ''<a href=`/x`>'' \<le> maxBody" by (simp_all add: demoResponse_def maxBody_def)
  have "rewriteTextPayload ''text/html'' ''<a href=`/x`>'' ''/p'' = ''<a href=`/p/x`>''" by code_simp
  then show ?thesis using reverse_body_rewritten [OF demoResponse_not_skipped d l] unfolding demoResponse_facts by auto
qed

text \<open>The answer to a HEAD request has no body, and its length is announced as 0, whatever the service announced.\<close>

lemma empty_body_length_lost:
  assumes "\<not> bodySkipped resp pfx" "contentEncoding resp \<noteq> ''gzip''" "respBody resp = ([], None)"
  shows "\<exists>resp'. rewriteTextBody gunzip resp pfx = Inr resp' \<and> respHeader resp' ''Content-Length'' = [''0'']"
proof -
  have "srcsetLoop [] p 0 0 [] False = (0, [], False)" for p by (simp add: srcsetLoop.simps)
  then have "rewriteTextPayload ct [] pfx = []" for ct
    by (auto simp: rewriteTextPayload_def rewriteHTMLRootAbsolutePaths_def rewriteHTMLSrcset_def rewriteRootAbsolutePaths_def split: option.splits)
  moreover have "Itoa 0 = ''0''" by code_simp
  ultimately show ?thesis using assms by (simp add: rewriteTextBody_def readAll_def Let_def)
qed

section \<open>Redirects come back\<close>

text \<open>A redirect of the service to an absolute path is sent to the browser with the prefix in front,
  unless it has the prefix already, and following it brings the service the path it redirected to.\<close>

theorem reverse_redirect_returns:
  assumes "pfx \<noteq> ''''" "pfx \<noteq> ''/''"
    and "HasPrefix loc ''/''" "\<not> HasPrefix loc ''//''" "loc = TrimSpace (header_Get (respHeader resp) ''Location'')"
    and "parseURL lib loc = Some u" "HasPrefix (uPath u) ''/''" "\<not> pathPrefixMatch (uPath u) pfx"
  shows "respHeader (rewriteLocation lib resp pfx) ''Location'' = [urlString lib (u\<lparr>uPath := pfx @ uPath u\<rparr>)]
    \<and> pathPrefixMatch (pfx @ uPath u) pfx \<and> stripPathPrefix (pfx @ uPath u) pfx = uPath u"
proof -
  have n: "loc \<noteq> ''''" "uPath u \<noteq> ''''" "hd (uPath u) = CHR ''/''"
    using assms(3,7) by (cases loc; cases "uPath u"; simp add: HasPrefix_def)+
  have "pathPrefixMatch (pfx @ uPath u) pfx" using assms(1) n(3) by (auto simp: pathPrefixMatch_iff)
  moreover have "stripPathPrefix (pfx @ uPath u) pfx = uPath u" using stripPathPrefix_append [OF assms(1,2)] n by simp
  moreover have "respHeader (rewriteLocation lib resp pfx) ''Location'' = [urlString lib (u\<lparr>uPath := pfx @ uPath u\<rparr>)]"
    using assms n by (simp add: rewriteLocation_def Let_def)
  ultimately show ?thesis by blast
qed

definition pathOnlyURLs :: urllib where
  "pathOnlyURLs = \<lparr>parseURL = (\<lambda>s. Some \<lparr>uScheme = '''', uHost = '''', uPath = s, uRest = ''''\<rparr>), urlString = uPath\<rparr>"

theorem reverse_redirect_returns_witness:
  "respHeader (rewriteLocation pathOnlyURLs (demoResponse '''') ''/p'') ''Location'' = [''/p/login''] \<and> stripPathPrefix ''/p/login'' ''/p'' = ''/login''"
proof -
  let ?u = "\<lparr>uScheme = '''', uHost = '''', uPath = ''/login'', uRest = ''''\<rparr>"
  have l: "''/login'' = TrimSpace (header_Get (respHeader (demoResponse '''')) ''Location'')"
    by (simp add: demoResponse_def header_Get_def TrimSpace_def is_space_def)
  have "respHeader (rewriteLocation pathOnlyURLs (demoResponse '''') ''/p'') ''Location'' = [urlString pathOnlyURLs (?u\<lparr>uPath := ''/p'' @ uPath ?u\<rparr>)]
    \<and> pathPrefixMatch (''/p'' @ uPath ?u) ''/p'' \<and> stripPathPrefix (''/p'' @ uPath ?u) ''/p'' = uPath ?u"
    by (rule reverse_redirect_returns [OF _ _ _ _ l]) (simp_all add: HasPrefix_def pathPrefixMatch_def pathOnlyURLs_def)
  then show ?thesis by (simp add: pathOnlyURLs_def)
qed

section \<open>Cookies keep their other attributes\<close>

lemma splitByte_nonempty: "splitByte c s \<noteq> []"
  by (induction s) (auto split: list.splits)

lemma joinByte_Cons: "ws \<noteq> [] \<Longrightarrow> joinByte c (w # ws) = w @ c # joinByte c ws"
  by (cases ws) auto

lemma join_split [simp]: "joinByte c (splitByte c s) = s"
proof (induction s)
  case (Cons d s)
  show ?case
  proof (cases "splitByte c s")
    case Nil
    then show ?thesis using splitByte_nonempty by blast
  next
    case w: (Cons w ws)
    then show ?thesis using Cons by (cases ws) (auto simp: joinByte_Cons splitByte_nonempty)
  qed
qed simp

text \<open>A cookie without a rewritable path attribute is passed on byte for byte.\<close>

lemma rewriteSetCookie_other:
  "\<forall>part \<in> set (splitByte CHR '';'' v). \<not> EqualFold (take 5 (TrimSpace part)) ''Path='' \<Longrightarrow> rewriteSetCookie pfx v = v"
proof -
  assume "\<forall>part \<in> set (splitByte CHR '';'' v). \<not> EqualFold (take 5 (TrimSpace part)) ''Path=''"
  then have "map (rewriteCookiePart pfx) (splitByte CHR '';'' v) = splitByte CHR '';'' v"
    by (intro map_idI) (auto simp: rewriteCookiePart_def Let_def)
  then show ?thesis by (simp add: rewriteSetCookie_def)
qed

end
