(* ===== verification/Spec2Isabelle.thy ===== *)
theory Spec2Isabelle
  imports Stack ServerConn QueuedConn MuxDelivery Balanced MuxDialer UdpAssociate ReverseHttp
begin

text \<open>
  A verification development for PuzzleKit, a tunnel that hides encrypted traffic in 4x4 Sudoku puzzles.

  \<^bold>\<open>The program and its theories.\<close> A client opens a connection to a server; the bytes pass, from the inside out,
  through control messages or a multiplexer, an AEAD record layer, an obfuscation layer, and the network.

  \<^item> \<open>Prelude\<close>, \<open>ConnUtil\<close>, \<open>GoStrings\<close>, \<open>GoNet\<close>, \<open>Bufio\<close>: bytes and machine words, big-endian integers, errors, readers
  and writers (\<open>pkg/connutil\<close>), and what the code uses of Go's \<open>strings\<close>, \<open>strconv\<close>, \<open>net\<close> and \<open>bufio\<close>. A function that can
  fail returns \<open>'a result\<close>, the error on the left. A \<open>writer\<close> holds what was sent and a script of how its next writes
  go; a \<open>feed\<close> is what a connection will deliver, chunk by chunk, and a \<open>reader\<close> is the same without the chunks.
  \<^item> \<open>Grid\<close>, \<open>GridCount\<close>, \<open>Layout\<close>, \<open>Modes\<close>, \<open>Hints\<close>, \<open>Table\<close>: the grids, the byte layouts, the direction modes, and the
  tables that give every byte its puzzles (\<open>pkg/obfs/sudoku/grid.go\<close>, \<open>layout.go\<close>, \<open>ascii_mode.go\<close>, \<open>table.go\<close>,
  \<open>table_set.go\<close>). Pointers between tables are indices into the list the constructor returns.
  \<^item> \<open>Rand\<close>, \<open>Pending\<close>, \<open>Codec\<close>, \<open>SudokuConn\<close>, \<open>PackedBits\<close>, \<open>PackedCodec\<close>, \<open>PackedConn\<close>, \<open>Directional\<close>: the random source, the
  classic and the packed connection with their fast paths and recorders, the downlink writers and the directional
  connection (\<open>rand.go\<close>, \<open>pending.go\<close>, \<open>conn.go\<close>, \<open>packed.go\<close>, \<open>downlink.go\<close>, \<open>directional.go\<close>).
  \<^item> \<open>RecordConn\<close>, \<open>RecordIO\<close>: the record layer (\<open>pkg/crypto/record_conn.go\<close>) and full reads and writes over it.
  \<^item> \<open>Framing\<close>, \<open>Address\<close>, \<open>Kip\<close>, \<open>Uot\<close>: message formats (\<open>internal/protocol/address.go\<close>, \<open>internal/tunnel/kip.go\<close>,
  \<open>kip_cmd.go\<close>, \<open>uot.go\<close>).
  \<^item> \<open>Replay\<close>, \<open>TableSelect\<close>, \<open>ObfsConn\<close>, \<open>Handshake\<close>, \<open>Stack\<close>: replay protection, the choice of the table from the first bytes,
  the obfuscation layer of each end, the key agreement, and the layers put together (\<open>replay.go\<close>, \<open>table_probe.go\<close>,
  \<open>obfs_conn.go\<close>, \<open>session_keys.go\<close>, \<open>handshake_kip.go\<close>, the handshake part of \<open>server.go\<close>).
  \<^item> \<open>MuxStream\<close>, \<open>MuxSession\<close>, \<open>MuxInv\<close>, \<open>MuxDelivery\<close>: the multiplexer (\<open>mux_session.go\<close>, \<open>mux_client.go\<close>, \<open>mux_server.go\<close>)
  as operations on one stream, operations on a session, a step relation over all goroutines at the granularity of
  the locks, its invariant, and delivery between two sessions.
  \<^item> \<open>HttpAuth\<close>, \<open>HttpMasker\<close>, \<open>ServerConn\<close>, \<open>QueuedConn\<close>: the disguise as HTTP (\<open>pkg/obfs/httpmask\<close>): path roots and request tokens
  (\<open>pathroot.go\<close>, \<open>auth.go\<close>), the random request header and its consumption (\<open>masker.go\<close>), its detection by the server with the
  connections handed to the fallback (\<open>internal/tunnel/server.go\<close>), and the queued connection under the HTTP transports
  (\<open>tunnel_conn_queue.go\<close>) as a step relation over its goroutines.
  \<^item> \<open>Config\<close>: completion and validation of a configuration, rule sources and short links (\<open>internal/config\<close>).
  \<^item> \<open>GeoRanges\<close>, \<open>Geo\<close>: the rule sets of the client (\<open>pkg/geodata/manager.go\<close>): parsing of rules, merging and searching of address
  ranges, download with a cache, and matching.
  \<^item> \<open>Balanced\<close>, \<open>MuxDialer\<close>: the dialers of the client: the load balancer (\<open>balanced_dialer.go\<close>), the choice of the table and the
  commands after the handshake (\<open>dialer.go\<close>), and the mux dialer (\<open>mux_dialer.go\<close>), whose callers share one session, as a step relation.
  \<^item> \<open>DnsOptions\<close>, \<open>Dns\<close>: the DNS resolver (\<open>pkg/dnsutil\<close>): its options and name servers (\<open>options.go\<close>, \<open>doh.go\<close>, \<open>dot.go\<close>), the cache with
  stale answers and the filter of bogus addresses (\<open>resolver.go\<close>), and the choice of outbound addresses (\<open>http.go\<close>, \<open>outbound_dialer.go\<close>).
  \<^item> \<open>Route\<close>, \<open>UdpAssociate\<close>: the client (\<open>internal/app\<close>): routing by rules and mode, dialling a target, the SOCKS4, SOCKS5 and HTTP handlers, and the
  session of a SOCKS5 UDP association as steps of its goroutines.
  \<^item> \<open>Rewrite\<close>, \<open>Reverse\<close>, \<open>ReverseHttp\<close>: the reverse proxy (\<open>internal/reverse\<close>): the rewriting of root-absolute paths in texts as index loops with a
  declarative reference (\<open>rewrite_paths.go\<close>, \<open>html_rewrite.go\<close>), the registry of sessions and routes with its life as a reachability relation, the
  routing of requests (\<open>manager.go\<close>, \<open>server_session.go\<close>, \<open>client_session.go\<close>), and the changes to responses (\<open>rewrite_body.go\<close>).
  \<^bold>\<open>Interfaces.\<close> What one part relies on in another is a locale: \<open>chunk_codec\<close> (a decoder that can be fed in any
  chunking), \<open>puzzle_table\<close>, \<open>hint_layout\<close> and \<open>packed_layout\<close> (what the codecs need of tables and layouts), \<open>grid_order\<close>,
  \<open>framing\<close> (a message format), \<open>chunk_queue\<close> (a receive queue). Each is interpreted on the definitions of the code.

  \<^bold>\<open>What is shown.\<close> Round trips of every codec, layer and message format and of their composition, for every chunking
  of the network; equality of the fast paths with reference decoders; that the recorders lose no byte; agreement of
  the two ends of a handshake, distinct nonces and no accepted replays; the invariant of the multiplexer and in-order
  delivery; that the tables are complete and consistent; bounds of the random choices; and, as theorems of kind
  error, the places where the code does not do what it means to.

  \<^bold>\<open>Parameters.\<close> SHA-256, HMAC, HKDF, X25519, the AEAD ciphers, and the values of \<open>math/rand\<close> are functions the definitions
  take; \<open>aead_ok\<close> and \<open>kex_ok\<close> state what the code relies on. The iteration order of Go maps and time are arguments.

  \<^bold>\<open>Fuel.\<close> The loops of the code are recursive functions with termination proofs. The read loop of the codecs is a
  \<open>partial_function\<close>, and it is proved to return. Fuel appears only in the functions that collect all reads of a
  connection; the theorems give the number of reads that suffices.

  \<^bold>\<open>Not modelled.\<close> Locks and goroutines outside the multiplexer, the mux dialer, the queued connection and the UDP association; deadlines and half-close
  forwarding. The HTTP and WebSocket transports, listeners, the WebSocket tunnel of the reverse proxy, key generation and the command line are I/O around libraries of Go.
\<close>

end
